(* ===== verification/Prelude.thy ===== *)
theory Prelude
  imports Main "HOL-Library.Word" "HOL-Library.List_Lexorder"
begin

text \<open>
  Shared vocabulary of the development: bytes and machine integers, Rust's \<open>Result\<close> as a sum
  (\<open>Inl\<close> the error), a \<open>BTreeMap\<close> as a strictly sorted association list, the big-endian
  byte form of an integer, and the generic facts on lists the components use.
\<close>

section \<open>Types\<close>

type_synonym byte = "8 word"
type_synonym bytes = "byte list"
type_synonym hlc = "64 word"

named_theorems wire_simps "byte layout of the fixed-width wire forms"
named_theorems log_simps "what an operation of the op-log does to each of its views"

section \<open>Results\<close>

text \<open>The \<open>?\<close> operator: run the continuation on \<open>Ok\<close>, return the error as it is.\<close>

fun and_then :: "'e + 'a \<Rightarrow> ('a \<Rightarrow> 'e + 'b) \<Rightarrow> 'e + 'b" where
  "and_then (Inl e) f = Inl e"
| "and_then (Inr a) f = f a"

fun map_err :: "('e \<Rightarrow> 'f) \<Rightarrow> 'e + 'a \<Rightarrow> 'f + 'a" where
  "map_err f (Inl e) = Inl (f e)"
| "map_err f (Inr a) = Inr a"

fun ok_or :: "'e \<Rightarrow> 'a option \<Rightarrow> 'e + 'a" where
  "ok_or e None = Inl e"
| "ok_or e (Some a) = Inr a"

fun ok :: "'e + 'a \<Rightarrow> 'a option" where
  "ok (Inl e) = None"
| "ok (Inr a) = Some a"

lemma and_then_Inr: "and_then r f = Inr b \<longleftrightarrow> (\<exists>a. r = Inr a \<and> f a = Inr b)"
  by (cases r) auto

lemma and_then_Inl: "and_then r f = Inl e \<longleftrightarrow> r = Inl e \<or> (\<exists>a. r = Inr a \<and> f a = Inl e)"
  by (cases r) auto

lemma map_err_Inr [simp]: "map_err f r = Inr b \<longleftrightarrow> r = Inr b"
  by (cases r) auto

lemma ok_or_Inr [simp]: "ok_or e x = Inr a \<longleftrightarrow> x = Some a"
  by (cases x) auto

lemma ok_Some [simp]: "ok r = Some a \<longleftrightarrow> r = Inr a"
  by (cases r) auto

text \<open>A fallible map: the first error wins, as collecting into a \<open>Result\<close> does.\<close>

fun try_map :: "('a \<Rightarrow> 'e + 'b) \<Rightarrow> 'a list \<Rightarrow> 'e + 'b list" where
  "try_map f [] = Inr []"
| "try_map f (x # xs) = and_then (f x) (\<lambda>y. and_then (try_map f xs) (\<lambda>ys. Inr (y # ys)))"

lemma try_map_Inr: "try_map f xs = Inr ys \<longleftrightarrow> list_all2 (\<lambda>x y. f x = Inr y) xs ys"
  by (induction xs arbitrary: ys) (auto simp: and_then_Inr list_all2_Cons1)

lemma try_map_total: "(\<And>x. x \<in> set xs \<Longrightarrow> f x = Inr (g x)) \<Longrightarrow> try_map f xs = Inr (map g xs)"
  by (induction xs) auto

section \<open>Sorted association lists\<close>

text \<open>
  A \<open>BTreeMap\<close> keeps its entries in strictly ascending key order and iterates in that order.
  It is modelled by the list of its entries; lookup is the library's \<open>map_of\<close>.
\<close>

type_synonym ('k, 'v) btree = "('k \<times> 'v) list"

abbreviation bt_keys :: "('k, 'v) btree \<Rightarrow> 'k list" where
  "bt_keys t \<equiv> map fst t"

abbreviation bt_values :: "('k, 'v) btree \<Rightarrow> 'v list" where
  "bt_values t \<equiv> map snd t"

definition bt_ok :: "('k::linorder, 'v) btree \<Rightarrow> bool" where
  "bt_ok t \<longleftrightarrow> sorted_wrt (<) (bt_keys t)"

fun bt_insert :: "'k::linorder \<Rightarrow> 'v \<Rightarrow> ('k, 'v) btree \<Rightarrow> ('k, 'v) btree" where
  "bt_insert k v [] = [(k, v)]"
| "bt_insert k v ((a, b) # t) =
     (if k < a then (k, v) # (a, b) # t
      else if k = a then (k, v) # t
      else (a, b) # bt_insert k v t)"

lemma bt_ok_Nil [simp]: "bt_ok []"
  by (simp add: bt_ok_def)

lemma bt_ok_Cons: "bt_ok ((a, b) # t) \<longleftrightarrow> (\<forall>k \<in> fst ` set t. a < k) \<and> bt_ok t"
  by (auto simp: bt_ok_def)

lemma keys_bt_insert: "fst ` set (bt_insert k v t) = insert k (fst ` set t)"
  by (induction k v t rule: bt_insert.induct) auto

lemma bt_ok_insert: "bt_ok t \<Longrightarrow> bt_ok (bt_insert k v t)"
  by (induction k v t rule: bt_insert.induct) (auto simp: bt_ok_Cons keys_bt_insert)

lemma set_bt_insert_new:
  "k \<notin> fst ` set t \<Longrightarrow> set (bt_insert k v t) = insert (k, v) (set t)"
  by (induction k v t rule: bt_insert.induct) auto

lemma set_bt_insert_sub: "set (bt_insert k v t) \<subseteq> insert (k, v) (set t)"
  by (induction k v t rule: bt_insert.induct) auto

lemma length_bt_insert_new:
  "k \<notin> fst ` set t \<Longrightarrow> length (bt_insert k v t) = Suc (length t)"
  by (induction k v t rule: bt_insert.induct) auto

lemma map_of_bt_insert: "bt_ok t \<Longrightarrow> map_of (bt_insert k v t) = (map_of t)(k \<mapsto> v)"
  by (induction k v t rule: bt_insert.induct) (auto simp: bt_ok_Cons fun_eq_iff)

lemma bt_ok_distinct: "bt_ok t \<Longrightarrow> distinct (bt_keys t)"
  unfolding bt_ok_def using strict_sorted_iff by blast

lemma bt_ok_map_of: "bt_ok t \<Longrightarrow> map_of t k = Some v \<longleftrightarrow> (k, v) \<in> set t"
  by (simp add: bt_ok_distinct)

lemma bt_ok_filter: "bt_ok t \<Longrightarrow> bt_ok (filter P t)"
proof (induction t)
  case (Cons x t)
  then show ?case by (cases x) (auto simp: bt_ok_Cons)
qed simp

text \<open>A sorted association list is determined by its set of entries.\<close>

lemma bt_ok_entries: "bt_ok t \<Longrightarrow> map (\<lambda>k. (k, the (map_of t k))) (bt_keys t) = t"
  unfolding map_map by (rule map_idI) (auto simp: bt_ok_distinct)

lemma bt_ok_unique: "bt_ok s \<Longrightarrow> bt_ok t \<Longrightarrow> set s = set t \<Longrightarrow> s = t"
proof -
  assume s: "bt_ok s" and t: "bt_ok t" and eq: "set s = set t"
  have "bt_keys s = bt_keys t"
    using s t eq strict_sorted_equal [of "bt_keys s" "bt_keys t"] by (simp add: bt_ok_def)
  moreover have "map_of s k = map_of t k" for k
    using bt_ok_map_of [OF s, of k] bt_ok_map_of [OF t, of k] eq
    by (cases "map_of s k"; cases "map_of t k") auto
  ultimately show ?thesis
    using bt_ok_entries [OF s] bt_ok_entries [OF t] by simp
qed

section \<open>Big-endian integers\<close>

text \<open>\<open>be_digits n x\<close> is the \<open>n\<close>-byte big-endian form of \<open>x\<close>; \<open>be_value\<close> reads one back.\<close>

primrec be_digits :: "nat \<Rightarrow> nat \<Rightarrow> bytes" where
  "be_digits 0 x = []"
| "be_digits (Suc n) x = word_of_nat (x div 256 ^ n mod 256) # be_digits n x"

fun be_value :: "bytes \<Rightarrow> nat" where
  "be_value [] = 0"
| "be_value (b # bs) = unat b * 256 ^ length bs + be_value bs"

definition u64_to_be_bytes :: "64 word \<Rightarrow> bytes" where
  "u64_to_be_bytes w = be_digits 8 (unat w)"

definition u64_from_be_bytes :: "bytes \<Rightarrow> 64 word" where
  "u64_from_be_bytes bs = word_of_nat (be_value bs)"

lemma length_be_digits [simp]: "length (be_digits n x) = n"
  by (induction n) auto

lemma unat_byte_bound: "unat (b::byte) < 256"
  using unsigned_less [of b] by simp

lemma unat_u64_bound: "unat (w::64 word) < 256 ^ 8"
  using unsigned_less [of w] by simp

lemma be_value_bound: "be_value bs < 256 ^ length bs"
proof (induction bs)
  case (Cons b bs)
  have "unat b * 256 ^ length bs + be_value bs < (unat b + 1) * 256 ^ length bs"
    using Cons by simp
  also have "\<dots> \<le> 256 * 256 ^ length bs"
    using unat_byte_bound [of b] by (intro mult_right_mono) auto
  finally show ?case by simp
qed simp

lemma unat_byte_of_nat: "unat (word_of_nat (x mod 256) :: byte) = x mod 256"
  by (simp add: unat_of_nat)

lemma be_value_digits: "be_value (be_digits n x) = x mod 256 ^ n"
proof (induction n)
  case (Suc n)
  have "x mod 256 ^ Suc n = x div 256 ^ n mod 256 * 256 ^ n + x mod 256 ^ n"
    by (metis add.commute mod_mult2_eq mult.commute power_Suc2)
  with Suc show ?case by (simp add: unat_byte_of_nat)
qed simp

lemma be_value_less_iff:
  "length xs = length ys \<Longrightarrow> xs < ys \<longleftrightarrow> be_value xs < be_value ys"
proof (induction xs ys rule: list_induct2)
  case (Cons x xs y ys)
  let ?m = "256 ^ length xs :: nat"
  have bx: "be_value xs < ?m" and by': "be_value ys < ?m"
    using be_value_bound [of xs] be_value_bound [of ys] Cons.hyps by auto
  have lt: "unat a * ?m + u < unat b * ?m + v" if "a < b" "u < ?m" for a b :: byte and u v :: nat
  proof -
    have "unat a * ?m + u < (unat a + 1) * ?m" using that by simp
    also have "\<dots> \<le> unat b * ?m"
      using that(1) by (intro mult_right_mono) (auto simp: word_less_nat_alt)
    finally show ?thesis by simp
  qed
  show ?case
  proof (cases x y rule: linorder_cases)
    case less
    then show ?thesis using lt [OF less bx] Cons.hyps by simp
  next
    case equal
    then show ?thesis using Cons.IH Cons.hyps by simp
  next
    case greater
    then have "unat y * ?m + be_value ys < unat x * ?m + be_value xs"
      using lt by' by blast
    then show ?thesis using greater Cons.hyps by auto
  qed
qed simp

lemma be_value_inj: "length xs = length ys \<Longrightarrow> be_value xs = be_value ys \<Longrightarrow> xs = ys"
  using be_value_less_iff [of xs ys] be_value_less_iff [of ys xs] by (metis nat_neq_iff not_less_iff_gr_or_eq)

lemma be_digits_value: "be_digits (length bs) (be_value bs) = bs"
  by (rule be_value_inj) (simp_all add: be_value_digits be_value_bound)

lemma length_u64_to_be_bytes [simp]: "length (u64_to_be_bytes w) = 8"
  by (simp add: u64_to_be_bytes_def)

lemma u64_be_roundtrip [simp]: "u64_from_be_bytes (u64_to_be_bytes w) = w"
proof -
  show ?thesis using unat_u64_bound [of w]
    by (simp add: u64_from_be_bytes_def u64_to_be_bytes_def be_value_digits)
qed

lemma u64_be_roundtrip_bytes: "length bs = 8 \<Longrightarrow> u64_to_be_bytes (u64_from_be_bytes bs) = bs"
proof -
  assume len: "length bs = 8"
  then have "be_value bs < 2 ^ 64" using be_value_bound [of bs] by simp
  then have "unat (word_of_nat (be_value bs) :: 64 word) = be_value bs"
    by (simp add: unat_of_nat)
  with len show ?thesis
    by (metis be_digits_value u64_from_be_bytes_def u64_to_be_bytes_def)
qed

lemma u64_be_less_iff: "u64_to_be_bytes v < u64_to_be_bytes w \<longleftrightarrow> v < w"
  using unat_u64_bound [of v] unat_u64_bound [of w]
  by (simp add: be_value_less_iff u64_to_be_bytes_def be_value_digits word_less_nat_alt)

lemma u64_be_eq_iff: "u64_to_be_bytes v = u64_to_be_bytes w \<longleftrightarrow> v = w"
  by (metis u64_be_roundtrip)

text \<open>Lexicographic order of concatenations whose first parts have one length.\<close>

lemma lex_append_less_iff:
  fixes xs ys us vs :: "'a::linorder list"
  shows "length xs = length ys \<Longrightarrow> xs @ us < ys @ vs \<longleftrightarrow> xs < ys \<or> xs = ys \<and> us < vs"
  by (induction xs ys rule: list_induct2) auto

end
