(* ===== verification/Identity.thy ===== *)
theory Identity
  imports Prelude
begin

text \<open>
  Device identity (\<open>src/identity.rs\<close>): the crate's hex codec, \<open>DeviceId\<close>, and a P-256 signing
  identity. The curve, the hash and the key encodings are the crates \<open>p256\<close> and \<open>sha2\<close>; they are the
  fields of a \<open>crypto\<close> record every definition that uses them takes as an argument, and the
  documented behaviour a theorem relies on is one of the predicates \<open>sha_laws\<close>, \<open>sec1_laws\<close>,
  \<open>ecdsa_laws\<close>.
\<close>

unbundle bit_operations_syntax

section \<open>Hex\<close>

definition HEX :: string where
  "HEX = ''0123456789abcdef''"

definition encode_hex :: "bytes \<Rightarrow> string" where
  "encode_hex bs = concat (map (\<lambda>b. [HEX ! unat (drop_bit 4 b), HEX ! unat (b AND 15)]) bs)"

definition hex_val :: "byte \<Rightarrow> byte option" where
  "hex_val c =
     (if 48 \<le> c \<and> c \<le> 57 then Some (c - 48)
      else if 97 \<le> c \<and> c \<le> 102 then Some (c - 97 + 10)
      else if 65 \<le> c \<and> c \<le> 70 then Some (c - 65 + 10)
      else None)"

fun hex_pairs :: "string \<Rightarrow> bytes option" where
  "hex_pairs (a # b # rest) =
     (case hex_val (of_char a) of
        None \<Rightarrow> None
      | Some hi \<Rightarrow>
          (case hex_val (of_char b) of
             None \<Rightarrow> None
           | Some lo \<Rightarrow> map_option (Cons (push_bit 4 hi OR lo)) (hex_pairs rest)))"
| "hex_pairs _ = Some []"

definition decode_hex :: "string \<Rightarrow> bytes option" where
  "decode_hex s = (if length s mod 2 \<noteq> 0 then None else hex_pairs s)"

section \<open>Device ids\<close>

datatype device_id = DeviceId (as_bytes: bytes)

datatype identity_error =
    InvalidHex
  | InvalidLength nat nat
  | InvalidScalar
  | InvalidPublicKey
  | BadSignature

instantiation device_id :: linorder
begin

definition less_eq_device_id :: "device_id \<Rightarrow> device_id \<Rightarrow> bool" where
  "less_eq_device_id a b \<longleftrightarrow> as_bytes a \<le> as_bytes b"

definition less_device_id :: "device_id \<Rightarrow> device_id \<Rightarrow> bool" where
  "less_device_id a b \<longleftrightarrow> as_bytes a < as_bytes b"

instance
  by standard (auto simp: less_eq_device_id_def less_device_id_def device_id.expand)

end

definition device_wf :: "device_id \<Rightarrow> bool" where
  "device_wf d \<longleftrightarrow> length (as_bytes d) = 32"

definition to_hex :: "device_id \<Rightarrow> string" where
  "to_hex d = encode_hex (as_bytes d)"

definition from_hex :: "string \<Rightarrow> identity_error + device_id" where
  "from_hex s =
     (case decode_hex s of
        None \<Rightarrow> Inl InvalidHex
      | Some bs \<Rightarrow> if length bs \<noteq> 32 then Inl (InvalidLength 32 (length bs)) else Inr (DeviceId bs))"

section \<open>The signing identity\<close>

record ('sk, 'vk, 'sg) crypto =
  sha256 :: "bytes \<Rightarrow> bytes"
  sk_from_slice :: "bytes \<Rightarrow> 'sk option"
  sk_to_bytes :: "'sk \<Rightarrow> bytes"
  sk_verifying :: "'sk \<Rightarrow> 'vk"
  vk_from_sec1 :: "bytes \<Rightarrow> 'vk option"
  vk_to_sec1 :: "'vk \<Rightarrow> bytes"
  ec_sign :: "'sk \<Rightarrow> bytes \<Rightarrow> 'sg"
  ec_verify :: "'vk \<Rightarrow> bytes \<Rightarrow> 'sg \<Rightarrow> bool"
  sig_from_slice :: "bytes \<Rightarrow> 'sg option"
  sig_to_bytes :: "'sg \<Rightarrow> bytes"
  sig_normalize_s :: "'sg \<Rightarrow> 'sg option"

record ('sk, 'vk) device_identity =
  signing :: 'sk
  verifying :: 'vk
  device_id :: device_id

definition sec1_compressed :: "('sk, 'vk, 'sg) crypto \<Rightarrow> 'vk \<Rightarrow> bytes" where
  "sec1_compressed c vk = vk_to_sec1 c vk"

definition device_id_of :: "('sk, 'vk, 'sg) crypto \<Rightarrow> 'vk \<Rightarrow> device_id" where
  "device_id_of c vk = DeviceId (sha256 c (sec1_compressed c vk))"

definition from_signing :: "('sk, 'vk, 'sg) crypto \<Rightarrow> 'sk \<Rightarrow> ('sk, 'vk) device_identity" where
  "from_signing c sk =
     \<lparr>signing = sk, verifying = sk_verifying c sk, device_id = device_id_of c (sk_verifying c sk)\<rparr>"

definition import_raw ::
  "('sk, 'vk, 'sg) crypto \<Rightarrow> bytes \<Rightarrow> identity_error + ('sk, 'vk) device_identity" where
  "import_raw c scalar =
     and_then (ok_or InvalidScalar (sk_from_slice c scalar)) (\<lambda>sk. Inr (from_signing c sk))"

definition export_raw :: "('sk, 'vk, 'sg) crypto \<Rightarrow> ('sk, 'vk) device_identity \<Rightarrow> bytes" where
  "export_raw c identity = sk_to_bytes c (signing identity)"

definition public_key_sec1 :: "('sk, 'vk, 'sg) crypto \<Rightarrow> ('sk, 'vk) device_identity \<Rightarrow> bytes" where
  "public_key_sec1 c identity = sec1_compressed c (verifying identity)"

definition identity_sign :: "('sk, 'vk, 'sg) crypto \<Rightarrow> ('sk, 'vk) device_identity \<Rightarrow> bytes \<Rightarrow> 'sg" where
  "identity_sign c identity msg = ec_sign c (signing identity) msg"

definition identity_verify ::
  "('sk, 'vk, 'sg) crypto \<Rightarrow> 'vk \<Rightarrow> bytes \<Rightarrow> 'sg \<Rightarrow> identity_error + unit" where
  "identity_verify c vk msg sg = (if ec_verify c vk msg sg then Inr () else Inl BadSignature)"

definition device_id_from_sec1 :: "('sk, 'vk, 'sg) crypto \<Rightarrow> bytes \<Rightarrow> identity_error + device_id" where
  "device_id_from_sec1 c sec1 =
     and_then (ok_or InvalidPublicKey (vk_from_sec1 c sec1)) (\<lambda>vk. Inr (device_id_of c vk))"

text \<open>
  Normalising a signature to low-S before sending it, as every signer of the crate does:
  \<open>sig.normalize_s().unwrap_or(sig)\<close>.
\<close>

definition low_s :: "('sk, 'vk, 'sg) crypto \<Rightarrow> 'sg \<Rightarrow> 'sg" where
  "low_s c sg = (case sig_normalize_s c sg of Some n \<Rightarrow> n | None \<Rightarrow> sg)"

section \<open>Documented behaviour of the cryptography\<close>

definition sha_laws :: "('sk, 'vk, 'sg) crypto \<Rightarrow> bool" where
  "sha_laws c \<longleftrightarrow> (\<forall>x. length (sha256 c x) = 32)"

definition sec1_laws :: "('sk, 'vk, 'sg) crypto \<Rightarrow> bool" where
  "sec1_laws c \<longleftrightarrow>
     (\<forall>vk. length (vk_to_sec1 c vk) = 33 \<and> vk_from_sec1 c (vk_to_sec1 c vk) = Some vk)"

definition ecdsa_laws :: "('sk, 'vk, 'sg) crypto \<Rightarrow> bool" where
  "ecdsa_laws c \<longleftrightarrow>
     (\<forall>sk m. ec_verify c (sk_verifying c sk) m (ec_sign c sk m)) \<and>
     (\<forall>sg n. sig_normalize_s c sg = Some n \<longrightarrow> sig_normalize_s c n = None) \<and>
     (\<forall>vk m sg n. ec_verify c vk m sg \<longrightarrow> sig_normalize_s c sg = Some n \<longrightarrow> ec_verify c vk m n) \<and>
     (\<forall>sg. length (sig_to_bytes c sg) = 64 \<and> sig_from_slice c (sig_to_bytes c sg) = Some sg)"

text \<open>
  A concrete suite on which the witnesses evaluate: keys are one byte, a signature is the key and a
  checksum of the message.
\<close>

definition pad :: "nat \<Rightarrow> bytes \<Rightarrow> bytes" where
  "pad n bs = take n (bs @ replicate n 0)"

definition sum_bytes :: "bytes \<Rightarrow> byte" where
  "sum_bytes bs = foldr (+) bs 0"

definition demo_crypto :: "(byte, byte, byte \<times> byte) crypto" where
  "demo_crypto =
     \<lparr>sha256 = pad 32,
      sk_from_slice = (\<lambda>bs. case bs of [b] \<Rightarrow> Some b | _ \<Rightarrow> None),
      sk_to_bytes = (\<lambda>b. [b]),
      sk_verifying = (\<lambda>b. b),
      vk_from_sec1 = (\<lambda>bs. case bs of [] \<Rightarrow> None | b # r \<Rightarrow> if r = replicate 32 0 then Some b else None),
      vk_to_sec1 = (\<lambda>b. b # replicate 32 0),
      ec_sign = (\<lambda>k m. (k, sum_bytes m)),
      ec_verify = (\<lambda>k m sg. sg = (k, sum_bytes m)),
      sig_from_slice = (\<lambda>bs. case bs of a # b # r \<Rightarrow> if r = replicate 62 0 then Some (a, b) else None | _ \<Rightarrow> None),
      sig_to_bytes = (\<lambda>(a, b). a # b # replicate 62 0),
      sig_normalize_s = (\<lambda>_. None)\<rparr>"

section \<open>Hex round trips\<close>

lemma hex_val_HEX_nat: "n < 16 \<Longrightarrow> hex_val (of_char (HEX ! n)) = Some (of_nat n)"
proof -
  have "\<forall>n\<in>set [0..<16]. hex_val (of_char (HEX ! n)) = Some (of_nat n)"
    by code_simp
  then show "n < 16 \<Longrightarrow> hex_val (of_char (HEX ! n)) = Some (of_nat n)" by simp
qed

lemma hex_val_HEX: "unat (w::byte) < 16 \<Longrightarrow> hex_val (of_char (HEX ! unat w)) = Some w"
  using hex_val_HEX_nat [of "unat w"] by simp

lemma unat_high_nibble: "unat (drop_bit 4 (b::byte)) < 16"
  using unat_byte_bound [of b] by (simp add: unat_drop_bit_eq drop_bit_eq_div unat_div)

lemma unat_low_nibble: "unat ((b::byte) AND 15) < 16"
proof -
  have "b AND 15 \<le> 15" by (rule word_and_le1)
  then show ?thesis by (simp add: word_le_nat_alt)
qed

lemma join_nibbles: "push_bit 4 (drop_bit 4 (b::byte)) OR (b AND 15) = b"
proof -
  have m: "b AND 15 = take_bit 4 b" by (simp add: take_bit_eq_mask mask_eq_exp_minus_1)
  show ?thesis
    unfolding m
    by (rule bit_eqI) (auto simp: bit_or_iff bit_push_bit_iff bit_drop_bit_eq bit_take_bit_iff)
qed

lemma length_encode_hex [simp]: "length (encode_hex bs) = 2 * length bs"
  by (induction bs) (auto simp: encode_hex_def)

lemma hex_pairs_encode: "hex_pairs (encode_hex bs) = Some bs"
  by (induction bs)
    (auto simp: encode_hex_def hex_val_HEX unat_high_nibble unat_low_nibble join_nibbles)

lemma decode_encode_hex [simp]: "decode_hex (encode_hex bs) = Some bs"
  by (simp add: decode_hex_def hex_pairs_encode)

lemma length_hex_pairs: "hex_pairs s = Some bs \<Longrightarrow> even (length s) \<Longrightarrow> length s = 2 * length bs"
  by (induction s arbitrary: bs rule: hex_pairs.induct) (auto split: option.splits)

lemma encode_hex_inj: "encode_hex a = encode_hex b \<longleftrightarrow> a = b"
  by (metis decode_encode_hex option.inject)

lemma from_hex_to_hex: "device_wf d \<Longrightarrow> from_hex (to_hex d) = Inr d"
  by (simp add: from_hex_def to_hex_def device_wf_def)

lemma from_hex_wf: "from_hex s = Inr d \<Longrightarrow> device_wf d"
  by (auto simp: from_hex_def device_wf_def split: option.splits if_splits)

lemma from_hex_Inr: "from_hex s = Inr d \<longleftrightarrow> decode_hex s = Some (as_bytes d) \<and> device_wf d"
  by (cases d) (auto simp: from_hex_def device_wf_def split: option.splits if_splits)

text \<open>Upper-case digits are accepted and printed back in lower case.\<close>

definition lower_hex :: "char \<Rightarrow> char" where
  "lower_hex ch = (if 65 \<le> (of_char ch :: nat) \<and> (of_char ch :: nat) \<le> 70
                   then char_of (of_char ch + 32 :: nat) else ch)"

section \<open>Keys and signatures\<close>

lemma device_id_from_signing [simp]:
  "device_id (from_signing c sk) = device_id_of c (verifying (from_signing c sk))"
  by (simp add: from_signing_def)

lemma device_id_of_wf: "sha_laws c \<Longrightarrow> device_wf (device_id_of c vk)"
  by (simp add: sha_laws_def device_wf_def device_id_of_def)

lemma device_id_from_sec1_Inr:
  "device_id_from_sec1 c sec1 = Inr d \<longleftrightarrow> (\<exists>vk. vk_from_sec1 c sec1 = Some vk \<and> d = device_id_of c vk)"
  by (auto simp: device_id_from_sec1_def and_then_Inr)

lemma device_id_of_public_key:
  "sec1_laws c \<Longrightarrow> device_id_from_sec1 c (public_key_sec1 c (from_signing c sk)) =
     Inr (device_id (from_signing c sk))"
  by (simp add: device_id_from_sec1_def public_key_sec1_def sec1_compressed_def sec1_laws_def
      from_signing_def)

lemma low_s_canonical: "ecdsa_laws c \<Longrightarrow> sig_normalize_s c (low_s c sg) = None"
  unfolding ecdsa_laws_def low_s_def by (auto split: option.splits)

lemma low_s_verifies: "ecdsa_laws c \<Longrightarrow> ec_verify c vk m sg \<Longrightarrow> ec_verify c vk m (low_s c sg)"
  unfolding ecdsa_laws_def low_s_def by (auto split: option.splits)

lemma sign_verifies:
  "ecdsa_laws c \<Longrightarrow>
   ec_verify c (verifying (from_signing c sk)) m (low_s c (identity_sign c (from_signing c sk) m))"
  by (rule low_s_verifies) (auto simp: ecdsa_laws_def identity_sign_def from_signing_def)

lemma sig_bytes_roundtrip:
  "ecdsa_laws c \<Longrightarrow> sig_from_slice c (sig_to_bytes c sg) = Some sg \<and> length (sig_to_bytes c sg) = 64"
  by (simp add: ecdsa_laws_def)

lemma demo_sha_laws: "sha_laws demo_crypto"
  by (auto simp: sha_laws_def demo_crypto_def pad_def)

lemma demo_sec1_laws: "sec1_laws demo_crypto"
  by (simp add: sec1_laws_def demo_crypto_def)

lemma demo_ecdsa_laws: "ecdsa_laws demo_crypto"
  by (auto simp: ecdsa_laws_def demo_crypto_def)

end
