(* ===== verification/Envelope.thy ===== *)
theory Envelope
  imports Identity
begin

text \<open>
  The signed replication envelope (\<open>src/op.rs\<close>): store ids, op ids, the global order key with its
  72-byte wire form, and sealing, verifying, encoding and decoding of a \<open>SignedOp\<close>. The canonical
  encoding is the crate \<open>postcard\<close>, a parameter (\<open>codec\<close>) whose documented behaviour is \<open>codec_laws\<close>.
\<close>

section \<open>Ids and order keys\<close>

definition ENVELOPE_VERSION :: byte where
  "ENVELOPE_VERSION = 1"

definition SIGNING_CONTEXT :: bytes where
  "SIGNING_CONTEXT = map of_char ''proxy-node-server/op/v1'' @ [0]"

definition MAX_STORE_ID_LEN :: nat where
  "MAX_STORE_ID_LEN = 64"

type_synonym store_id = string

datatype op_error =
    OpIdentity identity_error
  | Encoding
  | IdMismatch
  | DeviceMismatch
  | MalleableSignature
  | UnsupportedVersion byte
  | InvalidStoreId
  | BadLength

definition is_ascii :: "string \<Rightarrow> bool" where
  "is_ascii s \<longleftrightarrow> list_all (\<lambda>ch. (of_char ch :: nat) < 128) s"

definition StoreId_new :: "string \<Rightarrow> op_error + store_id" where
  "StoreId_new r =
     (if r = [] \<or> length r > MAX_STORE_ID_LEN \<or> \<not> is_ascii r then Inl InvalidStoreId else Inr r)"

datatype op_id = OpId (op_id_bytes: bytes)

instantiation op_id :: linorder
begin

definition less_eq_op_id :: "op_id \<Rightarrow> op_id \<Rightarrow> bool" where
  "less_eq_op_id a b \<longleftrightarrow> op_id_bytes a \<le> op_id_bytes b"

definition less_op_id :: "op_id \<Rightarrow> op_id \<Rightarrow> bool" where
  "less_op_id a b \<longleftrightarrow> op_id_bytes a < op_id_bytes b"

instance
  by standard (auto simp: less_eq_op_id_def less_op_id_def op_id.expand)

end

datatype order_key = OrderKey (key_hlc: hlc) (key_device: device_id) (key_op_id: op_id)

text \<open>The derived \<open>Ord\<close> of a Rust struct: lexicographic in field order.\<close>

instantiation order_key :: linorder
begin

definition less_order_key :: "order_key \<Rightarrow> order_key \<Rightarrow> bool" where
  "less_order_key a b \<longleftrightarrow>
     key_hlc a < key_hlc b \<or>
     key_hlc a = key_hlc b \<and>
       (key_device a < key_device b \<or> key_device a = key_device b \<and> key_op_id a < key_op_id b)"

definition less_eq_order_key :: "order_key \<Rightarrow> order_key \<Rightarrow> bool" where
  "less_eq_order_key a b \<longleftrightarrow> a < b \<or> a = b"

instance
proof
  fix a b :: order_key
  show "a \<le> b \<or> b \<le> a"
    using linorder_less_linear [of "key_op_id a" "key_op_id b"]
      linorder_less_linear [of "key_device a" "key_device b"]
      linorder_less_linear [of "key_hlc a" "key_hlc b"]
    by (auto simp: less_eq_order_key_def less_order_key_def order_key.expand)
qed (auto simp: less_eq_order_key_def less_order_key_def)

end

definition MIN_KEY :: order_key where
  "MIN_KEY = OrderKey 0 (DeviceId (replicate 32 0)) (OpId (replicate 32 0))"

definition key_wf :: "order_key \<Rightarrow> bool" where
  "key_wf k \<longleftrightarrow> device_wf (key_device k) \<and> length (op_id_bytes (key_op_id k)) = 32"

definition to_wire :: "order_key \<Rightarrow> bytes" where
  "to_wire k = u64_to_be_bytes (key_hlc k) @ as_bytes (key_device k) @ op_id_bytes (key_op_id k)"

definition from_wire :: "bytes \<Rightarrow> order_key" where
  "from_wire bs =
     OrderKey (u64_from_be_bytes (take 8 bs)) (DeviceId (take 32 (drop 8 bs))) (OpId (drop 40 bs))"

section \<open>Bodies and envelopes\<close>

record op_body =
  body_v :: byte
  body_hlc :: hlc
  body_device :: device_id
  body_store :: store_id
  body_payload :: bytes

record signed_op =
  op_body :: op_body
  op_sig :: bytes
  op_id :: op_id

text \<open>The serde mirrors that postcard encodes.\<close>

record body_repr =
  br_v :: byte
  br_hlc :: hlc
  br_device :: bytes
  br_store :: string
  br_payload :: bytes

record envelope_repr =
  er_body :: body_repr
  er_sig :: bytes
  er_id :: bytes

record codec =
  pc_body :: "body_repr \<Rightarrow> bytes option"
  pc_envelope :: "envelope_repr \<Rightarrow> bytes option"
  pc_envelope_from :: "bytes \<Rightarrow> envelope_repr option"

definition to_body_repr :: "op_body \<Rightarrow> body_repr" where
  "to_body_repr b =
     \<lparr>br_v = body_v b, br_hlc = body_hlc b, br_device = as_bytes (body_device b),
      br_store = body_store b, br_payload = body_payload b\<rparr>"

definition canonical_body :: "codec \<Rightarrow> op_body \<Rightarrow> op_error + bytes" where
  "canonical_body pc b = ok_or Encoding (pc_body pc (to_body_repr b))"

definition signing_input :: "bytes \<Rightarrow> bytes" where
  "signing_input canon = SIGNING_CONTEXT @ canon"

definition content_id :: "('sk, 'vk, 'sg) crypto \<Rightarrow> bytes \<Rightarrow> op_id" where
  "content_id c canon = OpId (sha256 c canon)"

definition seal ::
  "('sk, 'vk, 'sg) crypto \<Rightarrow> codec \<Rightarrow> op_body \<Rightarrow> ('sk, 'vk) device_identity \<Rightarrow> op_error + signed_op" where
  "seal c pc b0 identity =
     (let b = b0\<lparr>body_device := device_id identity\<rparr> in
      and_then (canonical_body pc b) (\<lambda>canon.
        let sg = low_s c (identity_sign c identity (signing_input canon)) in
        Inr \<lparr>op_body = b, op_sig = sig_to_bytes c sg, op_id = content_id c canon\<rparr>))"

definition verify ::
  "('sk, 'vk, 'sg) crypto \<Rightarrow> codec \<Rightarrow> signed_op \<Rightarrow> 'vk \<Rightarrow> op_error + unit" where
  "verify c pc sop pubkey =
     and_then (canonical_body pc (op_body sop)) (\<lambda>canon.
       if content_id c canon \<noteq> op_id sop then Inl IdMismatch
       else if device_id_of c pubkey \<noteq> body_device (op_body sop) then Inl DeviceMismatch
       else and_then (ok_or BadLength (sig_from_slice c (op_sig sop))) (\<lambda>sg.
         if sig_normalize_s c sg \<noteq> None then Inl MalleableSignature
         else map_err OpIdentity (identity_verify c pubkey (signing_input canon) sg)))"

definition verify_with_sec1 ::
  "('sk, 'vk, 'sg) crypto \<Rightarrow> codec \<Rightarrow> signed_op \<Rightarrow> bytes \<Rightarrow> op_error + unit" where
  "verify_with_sec1 c pc sop public_key =
     (if length public_key \<noteq> 33 then Inl (OpIdentity (InvalidLength 33 (length public_key)))
      else and_then (ok_or (OpIdentity InvalidPublicKey) (vk_from_sec1 c public_key))
             (\<lambda>pubkey. verify c pc sop pubkey))"

definition order_key :: "signed_op \<Rightarrow> order_key" where
  "order_key sop = OrderKey (body_hlc (op_body sop)) (body_device (op_body sop)) (op_id sop)"

definition to_bytes :: "codec \<Rightarrow> signed_op \<Rightarrow> op_error + bytes" where
  "to_bytes pc sop =
     ok_or Encoding (pc_envelope pc
       \<lparr>er_body = to_body_repr (op_body sop), er_sig = op_sig sop, er_id = op_id_bytes (op_id sop)\<rparr>)"

definition from_bytes :: "codec \<Rightarrow> bytes \<Rightarrow> op_error + signed_op" where
  "from_bytes pc buf =
     and_then (ok_or Encoding (pc_envelope_from pc buf)) (\<lambda>repr.
       if br_v (er_body repr) \<noteq> ENVELOPE_VERSION then Inl (UnsupportedVersion (br_v (er_body repr)))
       else if length (er_sig repr) \<noteq> 64 \<or> length (er_id repr) \<noteq> 32 then Inl BadLength
       else and_then (StoreId_new (br_store (er_body repr))) (\<lambda>sid.
         Inr \<lparr>op_body = \<lparr>body_v = br_v (er_body repr), body_hlc = br_hlc (er_body repr),
                         body_device = DeviceId (br_device (er_body repr)), body_store = sid,
                         body_payload = br_payload (er_body repr)\<rparr>,
              op_sig = er_sig repr, op_id = OpId (er_id repr)\<rparr>))"

section \<open>Documented behaviour of the codec\<close>

text \<open>Encoding is total and injective, decoding inverts it, and a decoded device id has the length of its array type.\<close>

definition codec_laws :: "codec \<Rightarrow> bool" where
  "codec_laws pc \<longleftrightarrow>
     (\<forall>r. pc_body pc r \<noteq> None) \<and>
     (\<forall>r s. pc_body pc r = pc_body pc s \<longrightarrow> r = s) \<and>
     (\<forall>r. \<exists>bs. pc_envelope pc r = Some bs \<and> (length (br_device (er_body r)) = 32 \<longrightarrow> pc_envelope_from pc bs = Some r)) \<and>
     (\<forall>bs r. pc_envelope_from pc bs = Some r \<longrightarrow> length (br_device (er_body r)) = 32)"

text \<open>The lengths Rust's array types carry, and the checks \<open>StoreId::new\<close> and \<open>from_bytes\<close> make.\<close>

definition op_wf :: "signed_op \<Rightarrow> bool" where
  "op_wf sop \<longleftrightarrow>
     body_v (op_body sop) = ENVELOPE_VERSION \<and> length (op_sig sop) = 64 \<and>
     length (op_id_bytes (op_id sop)) = 32 \<and> device_wf (body_device (op_body sop)) \<and>
     StoreId_new (body_store (op_body sop)) = Inr (body_store (op_body sop))"

section \<open>The wire form of an order key\<close>

lemma length_to_wire: "key_wf k \<Longrightarrow> length (to_wire k) = 72"
  by (simp add: to_wire_def key_wf_def device_wf_def length_u64_to_be_bytes)

lemma from_to_wire [simp]: "key_wf k \<Longrightarrow> from_wire (to_wire k) = k"
  by (cases k) (simp add: to_wire_def from_wire_def key_wf_def device_wf_def length_u64_to_be_bytes)

lemma from_wire_wf: "length bs = 72 \<Longrightarrow> key_wf (from_wire bs)"
  by (simp add: from_wire_def key_wf_def device_wf_def)

lemma to_from_wire:
  assumes "length bs = 72"
  shows "to_wire (from_wire bs) = bs"
proof -
  have "u64_to_be_bytes (u64_from_be_bytes (take 8 bs)) = take 8 bs"
    using assms by (intro u64_be_roundtrip_bytes) simp
  moreover have "drop 40 bs = drop 32 (drop 8 bs)" by simp
  ultimately show ?thesis
    by (simp only: to_wire_def from_wire_def order_key.sel device_id.sel op_id.sel append_take_drop_id)
qed

lemma as_bytes_inject: "as_bytes a = as_bytes b \<longleftrightarrow> a = b"
  by (auto intro: device_id.expand)

lemma to_wire_less_iff:
  assumes "key_wf a" "key_wf b"
  shows "to_wire a < to_wire b \<longleftrightarrow> a < b"
  using assms
  by (simp add: to_wire_def key_wf_def device_wf_def less_order_key_def less_device_id_def
      less_op_id_def lex_append_less_iff length_u64_to_be_bytes u64_be_less_iff u64_be_eq_iff
      as_bytes_inject)

lemma MIN_KEY_wf [simp]: "key_wf MIN_KEY"
  by (simp add: MIN_KEY_def key_wf_def device_wf_def)

lemma zeros_least: "replicate (length bs) (0::byte) \<le> bs"
proof (induction bs)
  case (Cons b bs)
  then show ?case by (cases "b = 0") (auto simp: word_neq_0_conv)
qed simp

lemma MIN_KEY_least:
  assumes "key_wf k"
  shows "MIN_KEY \<le> k"
proof -
  obtain h d i where k: "k = OrderKey h (DeviceId d) (OpId i)"
    by (metis device_id.exhaust op_id.exhaust order_key.exhaust)
  have "replicate 32 0 \<le> d" "replicate 32 0 \<le> i" "0 < h \<or> h = 0"
    using assms zeros_least [of d] zeros_least [of i]
    by (auto simp: k key_wf_def device_wf_def word_neq_0_conv)
  then show ?thesis
    by (auto simp: k MIN_KEY_def less_eq_order_key_def less_order_key_def less_device_id_def
        less_op_id_def less_le)
qed

text \<open>
  The 72-byte wire form of an order key is exact and order-preserving: decoding an encoded key
  gives the key back, encoding a decoded 72-byte string gives the bytes back, and comparing two
  encoded keys byte by byte is comparing the keys as \<open>(hlc, device, op_id)\<close>.
\<close>

theorem order_key_wire:
  assumes "key_wf a" "key_wf b" "length bs = 72"
  shows "from_wire (to_wire a) = a \<and> to_wire (from_wire bs) = bs \<and> key_wf (from_wire bs) \<and>
     length (to_wire a) = 72 \<and> (to_wire a < to_wire b \<longleftrightarrow> a < b)"
  using assms by (simp add: to_from_wire from_wire_wf length_to_wire to_wire_less_iff)

theorem order_key_wire_witness:
  "let b = OrderKey 1 (DeviceId (replicate 32 7)) (OpId (replicate 32 9)); bs = replicate 72 3 in
   from_wire (to_wire MIN_KEY) = MIN_KEY \<and> to_wire (from_wire bs) = bs \<and>
   key_wf (from_wire bs) \<and> length (to_wire MIN_KEY) = 72 \<and>
   (to_wire MIN_KEY < to_wire b \<longleftrightarrow> MIN_KEY < b)"
  unfolding Let_def by (rule order_key_wire [OF MIN_KEY_wf]) (simp_all add: key_wf_def device_wf_def)

section \<open>Sealing and verifying\<close>

lemma StoreId_new_Inr:
  "StoreId_new r = Inr x \<longleftrightarrow> x = r \<and> r \<noteq> [] \<and> length r \<le> MAX_STORE_ID_LEN \<and> is_ascii r"
  by (auto simp: StoreId_new_def)

lemma to_body_repr_inj:
  "to_body_repr a = to_body_repr b \<longleftrightarrow> a = b"
  by (auto simp: to_body_repr_def as_bytes_inject intro: op_body.equality)

lemma canonical_body_total: "codec_laws pc \<Longrightarrow> \<exists>canon. canonical_body pc b = Inr canon"
  by (auto simp: canonical_body_def codec_laws_def)

lemma canonical_body_inj:
  "codec_laws pc \<Longrightarrow> canonical_body pc a = Inr x \<Longrightarrow> canonical_body pc b = Inr x \<Longrightarrow> a = b"
  unfolding canonical_body_def codec_laws_def
  by (metis ok_or_Inr to_body_repr_inj)

lemma verify_Inr:
  "verify c pc sop vk = Inr () \<longleftrightarrow>
     (\<exists>canon sg. canonical_body pc (op_body sop) = Inr canon \<and> op_id sop = content_id c canon \<and>
        body_device (op_body sop) = device_id_of c vk \<and> sig_from_slice c (op_sig sop) = Some sg \<and>
        sig_normalize_s c sg = None \<and> ec_verify c vk (signing_input canon) sg)"
  by (auto simp: verify_def and_then_Inr identity_verify_def split: if_splits)

lemma verify_device: "verify c pc sop vk = Inr () \<Longrightarrow> device_id_of c vk = body_device (op_body sop)"
  by (auto simp: verify_Inr)

lemma seal_Inr:
  "seal c pc b i = Inr sop \<longleftrightarrow>
     (\<exists>canon. canonical_body pc (b\<lparr>body_device := device_id i\<rparr>) = Inr canon \<and>
        sop = \<lparr>op_body = b\<lparr>body_device := device_id i\<rparr>,
               op_sig = sig_to_bytes c (low_s c (identity_sign c i (signing_input canon))),
               op_id = content_id c canon\<rparr>)"
  by (auto simp: seal_def and_then_Inr Let_def)

lemma seal_total: "codec_laws pc \<Longrightarrow> \<exists>sop. seal c pc b i = Inr sop"
  using canonical_body_total [of pc "b\<lparr>body_device := device_id i\<rparr>"] by (auto simp: seal_Inr)

lemma seal_verifies:
  assumes "ecdsa_laws c" "seal c pc b (from_signing c sk) = Inr sop"
  shows "verify c pc sop (sk_verifying c sk) = Inr ()"
  using assms sign_verifies [OF assms(1), of sk] low_s_canonical [OF assms(1)]
    sig_bytes_roundtrip [OF assms(1)]
  by (auto simp: seal_Inr verify_Inr from_signing_def)

lemma seal_op_wf:
  assumes "sha_laws c" "ecdsa_laws c" "body_v b = ENVELOPE_VERSION"
    and "StoreId_new (body_store b) = Inr (body_store b)" "seal c pc b (from_signing c sk) = Inr sop"
  shows "op_wf sop"
proof -
  have sha_len: "length (sha256 c x) = 32" for x using assms(1) by (simp add: sha_laws_def)
  show ?thesis
    using assms(3-5) sha_len sig_bytes_roundtrip [OF assms(2)]
    by (auto simp: seal_Inr op_wf_def content_id_def device_wf_def device_id_of_def from_signing_def)
qed

lemma verify_with_sec1_Inr:
  "verify_with_sec1 c pc sop k = Inr () \<longleftrightarrow>
     length k = 33 \<and> (\<exists>vk. vk_from_sec1 c k = Some vk \<and> verify c pc sop vk = Inr ())"
  by (auto simp: verify_with_sec1_def and_then_Inr)

text \<open>
  The content address determines the body, as long as the hash does not collide on the two
  canonical encodings.
\<close>

lemma verified_same_id:
  assumes "codec_laws pc" "verify c pc x kx = Inr ()" "verify c pc y ky = Inr ()" "op_id x = op_id y"
    and "\<And>p q. canonical_body pc (op_body x) = Inr p \<Longrightarrow> canonical_body pc (op_body y) = Inr q \<Longrightarrow>
           sha256 c p = sha256 c q \<Longrightarrow> p = q"
  shows "op_body x = op_body y"
proof -
  obtain p where p: "canonical_body pc (op_body x) = Inr p" "op_id x = content_id c p"
    using assms(2) by (auto simp: verify_Inr)
  obtain q where q: "canonical_body pc (op_body y) = Inr q" "op_id y = content_id c q"
    using assms(3) by (auto simp: verify_Inr)
  have "p = q" using assms(4,5) p q by (simp add: content_id_def)
  then show ?thesis using canonical_body_inj [OF assms(1)] p q by blast
qed

section \<open>Envelope bytes\<close>

lemma from_to_bytes:
  assumes "codec_laws pc" "op_wf sop"
  shows "\<exists>bs. to_bytes pc sop = Inr bs \<and> from_bytes pc bs = Inr sop"
proof -
  let ?r = "\<lparr>er_body = to_body_repr (op_body sop), er_sig = op_sig sop, er_id = op_id_bytes (op_id sop)\<rparr>"
  have "length (br_device (er_body ?r)) = 32" using assms(2) by (simp add: op_wf_def device_wf_def to_body_repr_def)
  then obtain bs where "pc_envelope pc ?r = Some bs" "pc_envelope_from pc bs = Some ?r"
    using assms(1) unfolding codec_laws_def by blast
  then show ?thesis
    using assms(2)
    by (auto simp: to_bytes_def from_bytes_def op_wf_def to_body_repr_def and_then_Inr)
qed

lemma from_bytes_fields:
  assumes "from_bytes pc bs = Inr sop"
  shows "body_v (op_body sop) = ENVELOPE_VERSION" "length (op_sig sop) = 64"
    "length (op_id_bytes (op_id sop)) = 32"
    "StoreId_new (body_store (op_body sop)) = Inr (body_store (op_body sop))"
  using assms by (auto simp: from_bytes_def and_then_Inr StoreId_new_Inr split: if_splits)

lemma from_bytes_wf:
  assumes "codec_laws pc" "from_bytes pc bs = Inr sop"
  shows "op_wf sop"
proof -
  have "length (br_device (er_body r)) = 32" if "pc_envelope_from pc bs = Some r" for r
    using assms(1) that unfolding codec_laws_def by blast
  then show ?thesis
    using assms(2) from_bytes_fields [OF assms(2)]
    by (auto simp: from_bytes_def and_then_Inr op_wf_def device_wf_def split: if_splits)
qed

section \<open>A concrete codec for the witnesses\<close>

fun enc_list :: "bytes \<Rightarrow> bytes" where
  "enc_list [] = [0]"
| "enc_list (x # xs) = 1 # x # enc_list xs"

fun dec_list :: "bytes \<Rightarrow> bytes \<times> bytes" where
  "dec_list (t # x # r) = (if t = 0 then ([], x # r) else let (xs, rest) = dec_list r in (x # xs, rest))"
| "dec_list (t # []) = ([], [])"
| "dec_list [] = ([], [])"

definition demo_enc_body :: "body_repr \<Rightarrow> bytes" where
  "demo_enc_body r = br_v r # enc_list (u64_to_be_bytes (br_hlc r)) @ enc_list (br_device r) @
     enc_list (map of_char (br_store r)) @ enc_list (br_payload r)"

definition demo_dec_body :: "bytes \<Rightarrow> body_repr \<times> bytes" where
  "demo_dec_body bs =
     (let (h, r1) = dec_list (tl bs); (d, r2) = dec_list r1; (st, r3) = dec_list r2; (p, r4) = dec_list r3
      in (\<lparr>br_v = hd bs, br_hlc = u64_from_be_bytes h, br_device = d,
           br_store = map (\<lambda>b. char_of (unat b)) st, br_payload = p\<rparr>, r4))"

definition demo_codec :: codec where
  "demo_codec =
     \<lparr>pc_body = (\<lambda>r. Some (demo_enc_body r)),
      pc_envelope = (\<lambda>e. Some (demo_enc_body (er_body e) @ enc_list (er_sig e) @ enc_list (er_id e))),
      pc_envelope_from = (\<lambda>bs. if bs = [] then None else
        let (b, r) = demo_dec_body bs; (sg, r2) = dec_list r; (i, r3) = dec_list r2
        in if length (br_device b) = 32 then Some \<lparr>er_body = b, er_sig = sg, er_id = i\<rparr> else None)\<rparr>"

lemma dec_enc_list [simp]: "dec_list (enc_list xs @ r) = (xs, r)"
proof (induction xs)
  case Nil
  then show ?case by (cases r) auto
qed (simp add: Let_def)

lemma dec_enc_list_end [simp]: "dec_list (enc_list xs) = (xs, [])"
  using dec_enc_list [of xs "[]"] by (simp del: dec_enc_list)

lemma char_byte_roundtrip [simp]: "char_of (unat (of_char ch :: byte)) = ch"
proof -
  have "(of_char ch :: byte) = of_nat (of_char ch)" by (rule of_nat_of_char [symmetric])
  then have "unat (of_char ch :: byte) = of_char ch"
    by (simp only: unsigned_of_nat) (simp add: take_bit_eq_mod)
  then show ?thesis by simp
qed

lemma demo_dec_enc_body: "demo_dec_body (demo_enc_body r @ rest) = (r, rest)"
  by (cases r) (simp add: demo_dec_body_def demo_enc_body_def o_def)

lemma demo_codec_laws: "codec_laws demo_codec"
proof -
  have "demo_enc_body r = demo_enc_body s \<Longrightarrow> r = s" for r s
    using demo_dec_enc_body [of r "[]"] demo_dec_enc_body [of s "[]"] by simp
  moreover have "demo_enc_body r \<noteq> []" for r by (simp add: demo_enc_body_def)
  ultimately show ?thesis
    unfolding codec_laws_def demo_codec_def codec.simps
    by (auto simp: demo_dec_enc_body Let_def split: prod.splits if_splits)
qed

definition demo_body :: "hlc \<Rightarrow> bytes \<Rightarrow> op_body" where
  "demo_body h p =
     \<lparr>body_v = 1, body_hlc = h, body_device = DeviceId [], body_store = ''kv'', body_payload = p\<rparr>"

lemma demo_body_v: "body_v (demo_body h p) = ENVELOPE_VERSION"
  by (simp add: demo_body_def ENVELOPE_VERSION_def)

lemma demo_body_store: "StoreId_new (body_store (demo_body h p)) = Inr (body_store (demo_body h p))"
  by (simp add: demo_body_def StoreId_new_def is_ascii_def MAX_STORE_ID_LEN_def)

definition demo_op :: "byte \<Rightarrow> hlc \<Rightarrow> bytes \<Rightarrow> signed_op" where
  "demo_op key h p =
     (case seal demo_crypto demo_codec (demo_body h p) (from_signing demo_crypto key) of
        Inr sop \<Rightarrow> sop)"

lemma demo_verifying: "sk_verifying demo_crypto key = key"
  by (simp add: demo_crypto_def)

lemma demo_op_seal:
  "seal demo_crypto demo_codec (demo_body h p) (from_signing demo_crypto key) = Inr (demo_op key h p)"
  using seal_total [OF demo_codec_laws, of demo_crypto "demo_body h p" "from_signing demo_crypto key"]
  by (auto simp: demo_op_def)

lemma demo_op_wf: "op_wf (demo_op key h p)"
  by (rule seal_op_wf [OF demo_sha_laws demo_ecdsa_laws demo_body_v demo_body_store demo_op_seal])

lemma demo_op_body:
  "op_body (demo_op key h p) = (demo_body h p)\<lparr>body_device := device_id_of demo_crypto key\<rparr>"
  using demo_op_seal [of h p key] by (auto simp: seal_Inr from_signing_def demo_verifying)

lemma length_enc_list [simp]: "length (enc_list xs) = 2 * length xs + 1"
  by (induction xs) auto

lemma demo_op_bytes:
  "\<exists>bs. to_bytes demo_codec (demo_op key h p) = Inr bs \<and> length bs = 2 * length p + 283"
proof -
  have "length (op_sig (demo_op key h p)) = 64" "length (op_id_bytes (op_id (demo_op key h p))) = 32"
      "length (as_bytes (body_device (op_body (demo_op key h p)))) = 32"
    using demo_op_wf [of key h p] by (auto simp: op_wf_def device_wf_def)
  moreover have "body_store (op_body (demo_op key h p)) = ''kv''" "body_payload (op_body (demo_op key h p)) = p"
    by (simp_all add: demo_op_body demo_body_def)
  ultimately show ?thesis
    by (simp add: to_bytes_def demo_codec_def demo_enc_body_def to_body_repr_def)
qed

lemma demo_op_verifies: "verify demo_crypto demo_codec (demo_op key h p) key = Inr ()"
  using seal_verifies [OF demo_ecdsa_laws demo_op_seal] by (simp add: demo_verifying)

definition plain_op :: "hlc \<Rightarrow> bytes \<Rightarrow> bytes \<Rightarrow> store_id \<Rightarrow> bytes \<Rightarrow> signed_op" where
  "plain_op h d i st p =
     \<lparr>op_body = \<lparr>body_v = 1, body_hlc = h, body_device = DeviceId d, body_store = st, body_payload = p\<rparr>,
      op_sig = replicate 64 0, op_id = OpId i\<rparr>"

section \<open>Properties\<close>

text \<open>
  C4: An op sealed by an identity survives the wire and is accepted by any holder of the signer's
  public key: sealing succeeds, stamps the signer's own device id whatever the caller wrote, the
  envelope encodes, decodes back to the same op, and verifies against the signer's 33-byte SEC1 key.
\<close>

theorem sealed_op_travels:
  assumes "sha_laws c" "sec1_laws c" "ecdsa_laws c" "codec_laws pc"
    and "body_v b = ENVELOPE_VERSION" "StoreId_new (body_store b) = Inr (body_store b)"
  shows "\<exists>sop bs. seal c pc b (from_signing c sk) = Inr sop \<and>
     op_body sop = b\<lparr>body_device := device_id_of c (sk_verifying c sk)\<rparr> \<and>
     to_bytes pc sop = Inr bs \<and> from_bytes pc bs = Inr sop \<and>
     verify_with_sec1 c pc sop (public_key_sec1 c (from_signing c sk)) = Inr ()"
proof -
  obtain sop where sop: "seal c pc b (from_signing c sk) = Inr sop"
    using seal_total [OF assms(4)] by blast
  have body: "op_body sop = b\<lparr>body_device := device_id_of c (sk_verifying c sk)\<rparr>"
    using sop by (auto simp: seal_Inr from_signing_def)
  have "op_wf sop" by (rule seal_op_wf [OF assms(1,3,5,6) sop])
  moreover have "verify_with_sec1 c pc sop (public_key_sec1 c (from_signing c sk)) = Inr ()"
    using seal_verifies [OF assms(3) sop] assms(2)
    by (simp add: verify_with_sec1_Inr public_key_sec1_def sec1_compressed_def sec1_laws_def
        from_signing_def)
  ultimately show ?thesis using sop body from_to_bytes [OF assms(4), of sop] by auto
qed

theorem sealed_op_travels_witness:
  "\<exists>sop bs. seal demo_crypto demo_codec (demo_body 42 [1, 2]) (from_signing demo_crypto 5) = Inr sop \<and>
     op_body sop = (demo_body 42 [1, 2])\<lparr>body_device := device_id_of demo_crypto (sk_verifying demo_crypto 5)\<rparr> \<and>
     to_bytes demo_codec sop = Inr bs \<and> from_bytes demo_codec bs = Inr sop \<and>
     verify_with_sec1 demo_crypto demo_codec sop (public_key_sec1 demo_crypto (from_signing demo_crypto 5)) = Inr ()"
  by (rule sealed_op_travels [OF demo_sha_laws demo_sec1_laws demo_ecdsa_laws demo_codec_laws
        demo_body_v demo_body_store])



end
