(* ===== verification/Stores.thy ===== *)
theory Stores
  imports Envelope "HOL-Library.Char_ord"
begin

text \<open>
  The \<open>Store\<close> trait (\<open>src/store.rs\<close>) as a record of its methods, the engine's \<open>apply_ops\<close> loop that
  drives it (\<open>src/log.rs\<close>), and the reference key/value store (\<open>src/kv.rs\<close>). \<open>apply(&mut self, ..)\<close>
  returns the state it leaves beside its result, so a failing apply that already wrote something is
  representable.
\<close>

section \<open>The trait\<close>

record op_context =
  ctx_op_id :: op_id
  ctx_order_key :: order_key
  ctx_hlc :: hlc
  ctx_device :: device_id

record ('s, 'o, 'e) store_impl =
  st_store_id :: "'s \<Rightarrow> store_id"
  st_encode :: "'s \<Rightarrow> 'o \<Rightarrow> 'e + bytes"
  st_decode :: "'s \<Rightarrow> bytes \<Rightarrow> 'e + 'o"
  st_apply :: "op_context \<Rightarrow> 'o \<Rightarrow> 's \<Rightarrow> 's \<times> ('e + unit)"

datatype 'e replay_error = ReplayStore 'e

definition context_of :: "signed_op \<Rightarrow> op_context" where
  "context_of sop =
     \<lparr>ctx_op_id = op_id sop, ctx_order_key = order_key sop, ctx_hlc = body_hlc (op_body sop),
      ctx_device = body_device (op_body sop)\<rparr>"

fun apply_loop ::
  "('s, 'o, 'e) store_impl \<Rightarrow> store_id \<Rightarrow> signed_op list \<Rightarrow> 's \<Rightarrow> 's \<times> ('e replay_error + unit)" where
  "apply_loop impl sid [] st = (st, Inr ())"
| "apply_loop impl sid (sop # rest) st =
     (if body_store (op_body sop) \<noteq> sid then apply_loop impl sid rest st
      else case st_decode impl st (body_payload (op_body sop)) of
        Inl e \<Rightarrow> (st, Inl (ReplayStore e))
      | Inr native \<Rightarrow>
          (case st_apply impl (context_of sop) native st of
             (st', Inl e) \<Rightarrow> (st', Inl (ReplayStore e))
           | (st', Inr _) \<Rightarrow> apply_loop impl sid rest st'))"

definition apply_ops ::
  "('s, 'o, 'e) store_impl \<Rightarrow> signed_op list \<Rightarrow> 's \<Rightarrow> 's \<times> ('e replay_error + unit)" where
  "apply_ops impl sops st = apply_loop impl (st_store_id impl st) sops st"

text \<open>What a store sees of an op: everything but its signature.\<close>

definition op_view :: "signed_op \<Rightarrow> op_id \<times> op_body" where
  "op_view sop = (op_id sop, op_body sop)"

lemma order_key_view: "op_view x = op_view y \<Longrightarrow> order_key x = order_key y"
  by (simp add: op_view_def order_key_def)

lemma apply_loop_view:
  "map op_view xs = map op_view ys \<Longrightarrow> apply_loop impl sid xs st = apply_loop impl sid ys st"
proof (induction xs arbitrary: ys st)
  case (Cons x xs)
  then obtain y zs where ys: "ys = y # zs" "op_view x = op_view y" "map op_view xs = map op_view zs"
    by auto
  then have "op_body x = op_body y" "context_of x = context_of y"
    by (auto simp: op_view_def context_of_def order_key_def)
  then show ?case using Cons.IH [OF ys(3)] by (simp add: ys(1) split: sum.split prod.split)
qed simp

lemma apply_loop_append:
  "apply_loop impl sid (xs @ ys) st =
     (case apply_loop impl sid xs st of
        (st', Inl e) \<Rightarrow> (st', Inl e)
      | (st', Inr _) \<Rightarrow> apply_loop impl sid ys st')"
  by (induction xs arbitrary: st) (auto split: sum.split prod.split)

lemma apply_loop_filter:
  "apply_loop impl sid (filter (\<lambda>x. body_store (op_body x) = sid) xs) st = apply_loop impl sid xs st"
  by (induction xs arbitrary: st) (auto split: sum.split prod.split)

section \<open>The store contract\<close>

text \<open>
  What the engine relies on: a store answers one namespace, reads back the payloads it writes, and
  keeps its own invariant whether or not an apply succeeds.
\<close>

locale store_contract =
  fixes impl :: "('s, 'o, 'e) store_impl"
    and inv :: "'s \<Rightarrow> bool"
    and sid :: store_id
  assumes sid_fixed: "inv st \<Longrightarrow> st_store_id impl st = sid"
    and payload_roundtrip: "inv st \<Longrightarrow> inv st' \<Longrightarrow> st_encode impl st x = Inr bs \<Longrightarrow> st_decode impl st' bs = Inr x"
    and apply_inv: "inv st \<Longrightarrow> inv (fst (st_apply impl ctx x st))"
begin

lemma loop_inv: "inv st \<Longrightarrow> inv (fst (apply_loop impl i xs st))"
proof (induction xs arbitrary: st)
  case (Cons x xs)
  show ?case
  proof (cases "body_store (op_body x) = i")
    case True
    show ?thesis
    proof (cases "st_decode impl st (body_payload (op_body x))")
      case (Inr native)
      then show ?thesis
        using Cons True apply_inv [OF Cons.prems, of "context_of x" native]
        by (cases "st_apply impl (context_of x) native st") (auto split: sum.split)
    qed (use Cons True in simp)
  qed (use Cons in simp)
qed simp

lemma ops_inv: "inv st \<Longrightarrow> inv (fst (apply_ops impl xs st))"
  by (simp add: apply_ops_def loop_inv)

lemma ops_append:
  assumes "inv st"
  shows "apply_ops impl (xs @ ys) st =
    (case apply_ops impl xs st of
       (st', Inl e) \<Rightarrow> (st', Inl e)
     | (st', Inr _) \<Rightarrow> apply_ops impl ys st')"
  using loop_inv [OF assms, of sid xs]
  by (auto simp: apply_ops_def sid_fixed assms apply_loop_append split: sum.split prod.split)

lemma ops_other_stores:
  assumes "inv st" "\<And>x. x \<in> set xs \<Longrightarrow> body_store (op_body x) \<noteq> sid"
  shows "apply_ops impl xs st = (st, Inr ())"
proof -
  have "apply_loop impl sid xs st = (st, Inr ())" using assms(2) by (induction xs) auto
  then show ?thesis by (simp add: apply_ops_def sid_fixed assms(1))
qed

text \<open>
  Failing is only ever a decode or an apply error of one of the store's own ops: if every payload of
  the namespace was written by the store and applies succeed, the loop succeeds.
\<close>

lemma ops_succeed:
  assumes "inv st"
    and "\<And>x. x \<in> set xs \<Longrightarrow> body_store (op_body x) = sid \<Longrightarrow>
           \<exists>st n. inv st \<and> st_encode impl st n = Inr (body_payload (op_body x))"
    and "\<And>ctx n st. inv st \<Longrightarrow> snd (st_apply impl ctx n st) = Inr ()"
  shows "snd (apply_ops impl xs st) = Inr ()"
proof -
  have "snd (apply_loop impl sid xs st) = Inr ()"
    using assms(1,2)
  proof (induction xs arbitrary: st)
    case (Cons x xs)
    show ?case
    proof (cases "body_store (op_body x) = sid")
      case True
      then obtain s n where "inv s" "st_encode impl s n = Inr (body_payload (op_body x))"
        using Cons.prems(2) [of x] by auto
      then have d: "st_decode impl st (body_payload (op_body x)) = Inr n"
        using payload_roundtrip Cons.prems(1) by blast
      obtain t r where t: "st_apply impl (context_of x) n st = (t, r)" by fastforce
      have "r = Inr ()" "inv t"
        using assms(3) [OF Cons.prems(1), of "context_of x" n] apply_inv [OF Cons.prems(1), of "context_of x" n] t
        by auto
      then show ?thesis using Cons True d t by auto
    qed (use Cons in auto)
  qed simp
  then show ?thesis by (simp add: apply_ops_def sid_fixed assms(1))
qed

end

section \<open>The key/value store\<close>

datatype kv_op = Put string bytes | Delete string

datatype kv_error = KvCodec

record kv_store =
  kv_data :: "(string, bytes) btree"

text \<open>The payload codec is postcard's derived form of \<open>KvOp\<close>.\<close>

record kv_codec =
  kv_to_vec :: "kv_op \<Rightarrow> bytes option"
  kv_from_bytes :: "bytes \<Rightarrow> kv_op option"

definition kv_codec_laws :: "kv_codec \<Rightarrow> bool" where
  "kv_codec_laws pk \<longleftrightarrow> (\<forall>x. \<exists>bs. kv_to_vec pk x = Some bs \<and> kv_from_bytes pk bs = Some x)"

definition kv_store_id :: store_id where
  "kv_store_id = ''kv''"

definition kv_new :: kv_store where
  "kv_new = \<lparr>kv_data = []\<rparr>"

definition kv_get :: "kv_store \<Rightarrow> string \<Rightarrow> bytes option" where
  "kv_get st k = map_of (kv_data st) k"

definition kv_len :: "kv_store \<Rightarrow> nat" where
  "kv_len st = length (kv_data st)"

fun kv_apply :: "op_context \<Rightarrow> kv_op \<Rightarrow> kv_store \<Rightarrow> kv_store \<times> (kv_error + unit)" where
  "kv_apply ctx (Put k v) st = (st\<lparr>kv_data := bt_insert k v (kv_data st)\<rparr>, Inr ())"
| "kv_apply ctx (Delete k) st = (st\<lparr>kv_data := filter (\<lambda>e. fst e \<noteq> k) (kv_data st)\<rparr>, Inr ())"

definition kv_impl :: "kv_codec \<Rightarrow> (kv_store, kv_op, kv_error) store_impl" where
  "kv_impl pk =
     \<lparr>st_store_id = (\<lambda>_. kv_store_id),
      st_encode = (\<lambda>_ x. ok_or KvCodec (kv_to_vec pk x)),
      st_decode = (\<lambda>_ bs. ok_or KvCodec (kv_from_bytes pk bs)),
      st_apply = kv_apply\<rparr>"

definition kv_inv :: "kv_store \<Rightarrow> bool" where
  "kv_inv st \<longleftrightarrow> bt_ok (kv_data st)"

lemma kv_new_inv: "kv_inv kv_new"
  by (simp add: kv_inv_def kv_new_def)

lemma map_of_filter_neq: "map_of (filter (\<lambda>e. fst e \<noteq> k) t) = (map_of t)(k := None)"
  by (induction t) (auto simp: fun_eq_iff)

lemma kv_apply_inv: "kv_inv st \<Longrightarrow> kv_inv (fst (kv_apply ctx x st))"
  by (cases x) (auto simp: kv_inv_def bt_ok_insert bt_ok_filter)

lemma kv_apply_get:
  "kv_inv st \<Longrightarrow> kv_get (fst (kv_apply ctx x st)) =
     (case x of Put k v \<Rightarrow> (kv_get st)(k \<mapsto> v) | Delete k \<Rightarrow> (kv_get st)(k := None))"
  by (cases x) (auto simp: kv_inv_def kv_get_def fun_eq_iff map_of_bt_insert map_of_filter_neq)

lemma kv_apply_ok [simp]: "snd (kv_apply ctx x st) = Inr ()"
  by (cases x) auto

text \<open>
  Two stores with the same lookups are the same store: the map is determined by its entries.
\<close>

lemma kv_get_ext: "kv_inv s \<Longrightarrow> kv_inv t \<Longrightarrow> kv_get s = kv_get t \<Longrightarrow> s = t"
proof -
  assume s: "kv_inv s" and t: "kv_inv t" and eq: "kv_get s = kv_get t"
  have "set (kv_data s) = set (kv_data t)"
    using s t eq bt_ok_map_of [of "kv_data s"] bt_ok_map_of [of "kv_data t"]
    by (auto simp: kv_inv_def kv_get_def fun_eq_iff)
  then have "kv_data s = kv_data t" using s t bt_ok_unique by (auto simp: kv_inv_def)
  then show ?thesis by simp
qed

interpretation kv: store_contract "kv_impl pk" "\<lambda>st. kv_codec_laws pk \<and> kv_inv st" kv_store_id
  for pk :: kv_codec
proof unfold_locales
  fix st st' x bs
  assume "kv_codec_laws pk \<and> kv_inv st" "st_encode (kv_impl pk) st x = Inr bs"
  then show "st_decode (kv_impl pk) st' bs = Inr x"
    unfolding kv_codec_laws_def by (auto simp: kv_impl_def) (metis option.inject)
qed (auto simp: kv_impl_def kv_apply_inv)

subsection \<open>Last write wins\<close>

text \<open>The abstract map a history of native ops denotes: the last op that touches a key decides it.\<close>

fun kv_key :: "kv_op \<Rightarrow> string" where
  "kv_key (Put k v) = k"
| "kv_key (Delete k) = k"

definition last_write :: "kv_op list \<Rightarrow> (string \<Rightarrow> bytes option) \<Rightarrow> string \<Rightarrow> bytes option" where
  "last_write natives init k =
     (case find (\<lambda>x. kv_key x = k) (rev natives) of
        None \<Rightarrow> init k
      | Some (Put _ v) \<Rightarrow> Some v
      | Some (Delete _) \<Rightarrow> None)"

definition kv_natives :: "kv_codec \<Rightarrow> signed_op list \<Rightarrow> kv_op option list" where
  "kv_natives pk sops =
     map (\<lambda>x. kv_from_bytes pk (body_payload (op_body x)))
       (filter (\<lambda>x. body_store (op_body x) = kv_store_id) sops)"

lemma find_append: "find P (xs @ ys) = (case find P xs of None \<Rightarrow> find P ys | Some x \<Rightarrow> Some x)"
  by (induction xs) auto

lemma last_write_Nil [simp]: "last_write [] init = init"
  by (simp add: last_write_def fun_eq_iff)

lemma last_write_Cons:
  "last_write (x # xs) init =
     last_write xs (case x of Put k v \<Rightarrow> init(k \<mapsto> v) | Delete k \<Rightarrow> init(k := None))"
  by (cases x) (auto simp: last_write_def find_append fun_eq_iff split: option.split kv_op.split)

lemma last_write_init:
  "k \<in> kv_key ` set natives \<Longrightarrow> last_write natives init k = last_write natives init' k"
proof -
  assume "k \<in> kv_key ` set natives"
  then have "find (\<lambda>x. kv_key x = k) (rev natives) \<noteq> None" by (auto simp: find_None_iff)
  then show ?thesis by (auto simp: last_write_def)
qed

lemma last_write_untouched: "k \<notin> kv_key ` set natives \<Longrightarrow> last_write natives init k = init k"
proof -
  assume "k \<notin> kv_key ` set natives"
  then have "find (\<lambda>x. kv_key x = k) (rev natives) = None" by (auto simp: find_None_iff)
  then show ?thesis by (simp add: last_write_def)
qed

lemma kv_loop_last_write:
  assumes "kv_inv st" "kv_natives pk sops = map Some natives"
  shows "\<exists>st'. apply_loop (kv_impl pk) kv_store_id sops st = (st', Inr ()) \<and> kv_inv st' \<and>
     kv_get st' = last_write natives (kv_get st)"
  using assms
proof (induction sops arbitrary: st natives)
  case (Cons x sops)
  show ?case
  proof (cases "body_store (op_body x) = kv_store_id")
    case True
    then obtain n ns where n: "natives = n # ns" "kv_from_bytes pk (body_payload (op_body x)) = Some n"
        "kv_natives pk sops = map Some ns"
      using Cons.prems(2) by (auto simp: kv_natives_def)
    obtain t where t: "kv_apply (context_of x) n st = (t, Inr ())"
      using kv_apply_ok [of "context_of x" n st] by (metis prod.collapse)
    have ti: "kv_inv t" and tg: "kv_get t = (case n of Put k v \<Rightarrow> (kv_get st)(k \<mapsto> v) | Delete k \<Rightarrow> (kv_get st)(k := None))"
      using kv_apply_inv [OF Cons.prems(1), of "context_of x" n]
        kv_apply_get [OF Cons.prems(1), of "context_of x" n] t by auto
    from Cons.IH [OF ti n(3)] show ?thesis
      using True n t by (auto simp: kv_impl_def last_write_Cons tg)
  next
    case False
    then show ?thesis using Cons by (auto simp: kv_natives_def)
  qed
qed (simp add: kv_natives_def)

lemma kv_ops_last_write:
  assumes "kv_inv st" "kv_natives pk sops = map Some natives"
  shows "\<exists>st'. apply_ops (kv_impl pk) sops st = (st', Inr ()) \<and> kv_inv st' \<and>
     kv_get st' = last_write natives (kv_get st)"
  using kv_loop_last_write [OF assms] by (simp add: apply_ops_def kv_impl_def)

section \<open>A concrete payload codec for the witnesses\<close>

definition demo_kv_codec :: kv_codec where
  "demo_kv_codec =
     \<lparr>kv_to_vec = (\<lambda>x. Some (case x of Put k v \<Rightarrow> 0 # enc_list (map of_char k) @ v | Delete k \<Rightarrow> 1 # map of_char k)),
      kv_from_bytes = (\<lambda>bs. case bs of [] \<Rightarrow> None
        | t # r \<Rightarrow> if t = 0 then let (k, v) = dec_list r in Some (Put (map (\<lambda>b. char_of (unat b)) k) v)
                  else Some (Delete (map (\<lambda>b. char_of (unat b)) r)))\<rparr>"

lemma demo_kv_codec_laws: "kv_codec_laws demo_kv_codec"
  unfolding kv_codec_laws_def
proof
  fix x
  show "\<exists>bs. kv_to_vec demo_kv_codec x = Some bs \<and> kv_from_bytes demo_kv_codec bs = Some x"
    by (cases x) (auto simp: demo_kv_codec_def o_def)
qed

lemma demo_letter: "char_of (97::nat) = CHR ''a''"
  by code_simp

section \<open>Properties\<close>

text \<open>
  C34: Replaying a history into the key/value store is last-write-wins. If every kv payload of the
  history decodes, the replay succeeds, keeps the map sorted and every key reads as its last write or
  deletion says, untouched keys as before; and replaying over a store that only holds keys the
  history touches gives the very store a replay from empty gives.
\<close>

theorem kv_replay_last_write_wins:
  assumes "kv_inv st" "kv_natives pk sops = map Some natives"
    and "\<And>k. kv_get st k \<noteq> None \<Longrightarrow> k \<in> kv_key ` set natives"
  shows "\<exists>st'. apply_ops (kv_impl pk) sops st = (st', Inr ()) \<and> kv_inv st' \<and>
     (\<forall>k. kv_get st' k = last_write natives (kv_get st) k) \<and>
     apply_ops (kv_impl pk) sops kv_new = (st', Inr ())"
proof -
  obtain s where s: "apply_ops (kv_impl pk) sops st = (s, Inr ())" "kv_inv s"
      "kv_get s = last_write natives (kv_get st)"
    using kv_ops_last_write [OF assms(1,2)] by blast
  obtain t where t: "apply_ops (kv_impl pk) sops kv_new = (t, Inr ())" "kv_inv t"
      "kv_get t = last_write natives (kv_get kv_new)"
    using kv_ops_last_write [OF kv_new_inv assms(2)] by blast
  have "last_write natives (kv_get st) k = last_write natives (kv_get kv_new) k" for k
  proof (cases "k \<in> kv_key ` set natives")
    case False
    then have "kv_get st k = None" using assms(3) by blast
    with False show ?thesis by (simp add: last_write_untouched) (simp add: kv_get_def kv_new_def)
  qed (rule last_write_init)
  then have "s = t" using s t kv_get_ext by (simp add: fun_eq_iff)
  with s t show ?thesis by auto
qed

theorem kv_replay_last_write_wins_witness:
  "\<exists>st'. apply_ops (kv_impl demo_kv_codec)
       [plain_op 1 [1] [1] ''kv'' [0, 1, 97, 0, 7], plain_op 2 [1] [2] ''kv'' [1, 97]] kv_new = (st', Inr ()) \<and>
     kv_inv st' \<and>
     (\<forall>k. kv_get st' k = last_write [Put ''a'' [7], Delete ''a''] (kv_get kv_new) k) \<and>
     apply_ops (kv_impl demo_kv_codec)
       [plain_op 1 [1] [1] ''kv'' [0, 1, 97, 0, 7], plain_op 2 [1] [2] ''kv'' [1, 97]] kv_new = (st', Inr ())"
  by (rule kv_replay_last_write_wins [OF kv_new_inv])
    (simp_all add: kv_natives_def plain_op_def demo_kv_codec_def kv_store_id_def kv_get_def kv_new_def demo_letter)

end
