(* ===== verification/OpLog.thy ===== *)
theory OpLog
  imports Stores
begin

text \<open>
  The op-log engine (\<open>src/log.rs\<close>): an append-only set of signed ops, deduplicated by content id,
  kept in global order and, beside it, in local arrival order; and the \<open>LogSource\<close> trait the servers
  read it through, with the default methods of the trait and the implementation for the in-memory
  log. A \<open>String\<close> error is kept as the error it renders; the one \<open>expect\<close> of \<open>relay_page\<close> is the value
  \<open>LogPanic\<close>.
\<close>

section \<open>The log\<close>

datatype log_error = LogEncode op_error | LogPanic | LogBackend string

record relay_stream_state =
  rs_epoch :: bytes
  rs_head :: nat
  rs_floor :: nat

record relay_log_entry =
  entry_seq :: nat
  entry_op :: signed_op

record relay_log_page =
  page_state :: relay_stream_state
  page_entries :: "relay_log_entry list"

record op_log =
  log_ops :: "(order_key, signed_op) btree"
  log_ids :: "op_id set"
  relay_epoch :: bytes
  relay_order :: "order_key list"

text \<open>\<open>OpLog::default\<close> draws 32 random bytes; an all-zero draw gets its first byte set.\<close>

definition log_new :: "bytes \<Rightarrow> op_log" where
  "log_new random =
     \<lparr>log_ops = [], log_ids = {},
      relay_epoch = (if random = replicate 32 0 then random[0 := 1] else random),
      relay_order = []\<rparr>"

definition log_append :: "op_log \<Rightarrow> signed_op \<Rightarrow> op_log \<times> bool" where
  "log_append log sop =
     (if op_id sop \<in> log_ids log then (log, False)
      else (log\<lparr>log_ids := insert (op_id sop) (log_ids log),
                relay_order := relay_order log @ [order_key sop],
                log_ops := bt_insert (order_key sop) sop (log_ops log)\<rparr>, True))"

definition contains :: "op_log \<Rightarrow> op_id \<Rightarrow> bool" where
  "contains log i \<longleftrightarrow> i \<in> log_ids log"

definition log_iter :: "op_log \<Rightarrow> signed_op list" where
  "log_iter log = bt_values (log_ops log)"

definition since :: "op_log \<Rightarrow> order_key \<Rightarrow> signed_op list" where
  "since log cursor = map snd (filter (\<lambda>e. cursor < fst e) (log_ops log))"

definition log_head :: "op_log \<Rightarrow> order_key option" where
  "log_head log = (if log_ops log = [] then None else Some (fst (last (log_ops log))))"

definition log_len :: "op_log \<Rightarrow> nat" where
  "log_len log = length (log_ops log)"

definition relay_state :: "op_log \<Rightarrow> relay_stream_state" where
  "relay_state log = \<lparr>rs_epoch = relay_epoch log, rs_head = length (relay_order log), rs_floor = 0\<rparr>"

definition relay_page :: "op_log \<Rightarrow> nat \<Rightarrow> nat \<Rightarrow> log_error + relay_log_page" where
  "relay_page log after limit =
     (let start = min after (length (relay_order log)) in
      and_then
        (try_map (\<lambda>(index, k).
             case map_of (log_ops log) k of
               None \<Rightarrow> Inl LogPanic
             | Some sop \<Rightarrow> Inr \<lparr>entry_seq = index + 1, entry_op = sop\<rparr>)
           (take limit (drop start (enumerate 0 (relay_order log)))))
        (\<lambda>entries. Inr \<lparr>page_state = relay_state log, page_entries = entries\<rparr>))"

fun btree_set_insert :: "'a::linorder \<Rightarrow> 'a list \<Rightarrow> 'a list" where
  "btree_set_insert x [] = [x]"
| "btree_set_insert x (y # ys) =
     (if x < y then x # y # ys else if x = y then y # ys else y # btree_set_insert x ys)"

definition origins_of :: "signed_op list \<Rightarrow> device_id list" where
  "origins_of sops = foldl (\<lambda>acc sop. btree_set_insert (body_device (op_body sop)) acc) [] sops"

definition origins :: "op_log \<Rightarrow> device_id list" where
  "origins log = origins_of (log_iter log)"

definition store_matches :: "store_id option \<Rightarrow> signed_op \<Rightarrow> bool" where
  "store_matches wanted sop \<longleftrightarrow> (case wanted of None \<Rightarrow> True | Some w \<Rightarrow> body_store (op_body sop) = w)"

fun origin_loop ::
  "codec \<Rightarrow> device_id \<Rightarrow> store_id option \<Rightarrow> nat \<Rightarrow> (order_key \<times> signed_op) list \<Rightarrow>
   (order_key \<times> bytes) list \<Rightarrow> log_error + (order_key \<times> bytes) list" where
  "origin_loop pc origin wanted limit [] out = Inr out"
| "origin_loop pc origin wanted limit ((k, sop) # rest) out =
     (if body_device (op_body sop) \<noteq> origin then origin_loop pc origin wanted limit rest out
      else if \<not> store_matches wanted sop then origin_loop pc origin wanted limit rest out
      else case to_bytes pc sop of
        Inl e \<Rightarrow> Inl (LogEncode e)
      | Inr bs \<Rightarrow>
          if length (out @ [(k, bs)]) \<ge> limit then Inr (out @ [(k, bs)])
          else origin_loop pc origin wanted limit rest (out @ [(k, bs)]))"

definition origin_since ::
  "codec \<Rightarrow> op_log \<Rightarrow> device_id \<Rightarrow> order_key option \<Rightarrow> store_id option \<Rightarrow> nat \<Rightarrow>
   log_error + (order_key \<times> bytes) list" where
  "origin_since pc log origin after wanted limit =
     origin_loop pc origin wanted limit
       (case after of None \<Rightarrow> log_ops log | Some bound \<Rightarrow> filter (\<lambda>e. bound < fst e) (log_ops log)) []"

definition with_envelopes ::
  "codec \<Rightarrow> relay_log_page \<Rightarrow> log_error + (nat \<times> signed_op \<times> bytes) list" where
  "with_envelopes pc page =
     try_map (\<lambda>e. and_then (map_err LogEncode (to_bytes pc (entry_op e)))
                    (\<lambda>bs. Inr (entry_seq e, entry_op e, bs)))
       (page_entries page)"

definition relay_since_with_envelopes ::
  "codec \<Rightarrow> op_log \<Rightarrow> nat \<Rightarrow> nat \<Rightarrow> log_error + (nat \<times> signed_op \<times> bytes) list" where
  "relay_since_with_envelopes pc log after limit =
     and_then (relay_page log after limit) (with_envelopes pc)"

definition replay ::
  "('s, 'o, 'e) store_impl \<Rightarrow> op_log \<Rightarrow> 's \<Rightarrow> 's \<times> ('e replay_error + unit)" where
  "replay impl log st = apply_ops impl (log_iter log) st"

definition apply_range ::
  "('s, 'o, 'e) store_impl \<Rightarrow> op_log \<Rightarrow> 's \<Rightarrow> order_key \<Rightarrow> order_key \<Rightarrow> 's \<times> ('e replay_error + unit)" where
  "apply_range impl log st after through =
     apply_ops impl (takeWhile (\<lambda>sop. order_key sop \<le> through) (since log after)) st"

section \<open>The \<open>LogSource\<close> trait\<close>

record log_source =
  ls_since :: "order_key \<Rightarrow> nat \<Rightarrow> signed_op list"
  ls_head :: "order_key option"
  ls_contains :: "op_id \<Rightarrow> bool"
  ls_relay_state :: "log_error + relay_stream_state option"
  ls_relay_page :: "nat \<Rightarrow> nat \<Rightarrow> log_error + relay_log_page option"
  ls_origins :: "log_error + device_id list"
  ls_origin_since ::
    "device_id \<Rightarrow> order_key option \<Rightarrow> store_id option \<Rightarrow> nat \<Rightarrow> log_error + (order_key \<times> bytes) list"
  ls_relay_since :: "nat \<Rightarrow> nat \<Rightarrow> log_error + (nat \<times> signed_op \<times> bytes) list option"

definition usize_max :: nat where
  "usize_max = 2 ^ 64 - 1"

definition default_relay_state :: "log_error + relay_stream_state option" where
  "default_relay_state = Inr None"

definition default_relay_page :: "nat \<Rightarrow> nat \<Rightarrow> log_error + relay_log_page option" where
  "default_relay_page after limit = Inr None"

definition default_origins :: "(order_key \<Rightarrow> nat \<Rightarrow> signed_op list) \<Rightarrow> log_error + device_id list" where
  "default_origins since_fn = Inr (origins_of (since_fn MIN_KEY usize_max))"

fun default_origin_loop ::
  "codec \<Rightarrow> device_id \<Rightarrow> order_key option \<Rightarrow> store_id option \<Rightarrow> nat \<Rightarrow> signed_op list \<Rightarrow>
   (order_key \<times> bytes) list \<Rightarrow> log_error + (order_key \<times> bytes) list" where
  "default_origin_loop pc origin after wanted limit [] out = Inr out"
| "default_origin_loop pc origin after wanted limit (sop # rest) out =
     (if body_device (op_body sop) \<noteq> origin then default_origin_loop pc origin after wanted limit rest out
      else if (case after of None \<Rightarrow> False | Some bound \<Rightarrow> order_key sop \<le> bound)
        then default_origin_loop pc origin after wanted limit rest out
      else if \<not> store_matches wanted sop then default_origin_loop pc origin after wanted limit rest out
      else case to_bytes pc sop of
        Inl e \<Rightarrow> Inl (LogEncode e)
      | Inr bs \<Rightarrow>
          if length (out @ [(order_key sop, bs)]) \<ge> limit then Inr (out @ [(order_key sop, bs)])
          else default_origin_loop pc origin after wanted limit rest (out @ [(order_key sop, bs)]))"

definition default_origin_since ::
  "codec \<Rightarrow> (order_key \<Rightarrow> nat \<Rightarrow> signed_op list) \<Rightarrow> device_id \<Rightarrow> order_key option \<Rightarrow> store_id option \<Rightarrow> nat \<Rightarrow>
   log_error + (order_key \<times> bytes) list" where
  "default_origin_since pc since_fn origin after wanted limit =
     (let start = (case after of None \<Rightarrow> MIN_KEY | Some a \<Rightarrow> a) in
      default_origin_loop pc origin after wanted limit (since_fn start usize_max) [])"

definition default_relay_since ::
  "codec \<Rightarrow> (nat \<Rightarrow> nat \<Rightarrow> log_error + relay_log_page option) \<Rightarrow> nat \<Rightarrow> nat \<Rightarrow>
   log_error + (nat \<times> signed_op \<times> bytes) list option" where
  "default_relay_since pc page_fn after limit =
     and_then (page_fn after limit) (\<lambda>p.
       case p of
         None \<Rightarrow> Inr None
       | Some page \<Rightarrow> and_then (with_envelopes pc page) (\<lambda>out. Inr (Some out)))"

text \<open>The implementation for \<open>Arc<Mutex<OpLog>>\<close>: each method under the lock.\<close>

definition log_as_source :: "codec \<Rightarrow> op_log \<Rightarrow> log_source" where
  "log_as_source pc log =
     \<lparr>ls_since = (\<lambda>cursor limit. take limit (since log cursor)),
      ls_head = log_head log,
      ls_contains = contains log,
      ls_relay_state = Inr (Some (relay_state log)),
      ls_relay_page = (\<lambda>after limit. and_then (relay_page log after limit) (\<lambda>p. Inr (Some p))),
      ls_origins = Inr (origins log),
      ls_origin_since = origin_since pc log,
      ls_relay_since = (\<lambda>after limit. and_then (relay_since_with_envelopes pc log after limit) (\<lambda>r. Inr (Some r)))\<rparr>"

section \<open>The log invariant\<close>

text \<open>
  What every sequence of appends keeps: entries sorted by the order key of their op, the id set is
  the set of held ids, no two held ops share an id, and the arrival order lists each key once.
\<close>

definition log_ok :: "op_log \<Rightarrow> bool" where
  "log_ok log \<longleftrightarrow>
     bt_ok (log_ops log) \<and>
     (\<forall>(k, sop) \<in> set (log_ops log). k = order_key sop) \<and>
     log_ids log = op_id ` set (log_iter log) \<and>
     inj_on op_id (set (log_iter log)) \<and>
     distinct (relay_order log) \<and> set (relay_order log) = order_key ` set (log_iter log)"

lemma log_new_ok: "log_ok (log_new r)"
  by (simp add: log_ok_def log_new_def log_iter_def)

lemma log_ok_entries: "log_ok log \<Longrightarrow> log_ops log = map (\<lambda>sop. (order_key sop, sop)) (log_iter log)"
  unfolding log_ok_def log_iter_def map_map
  by (rule map_idI [symmetric]) auto

lemma log_ok_sorted: "log_ok log \<Longrightarrow> sorted_wrt (\<lambda>x y. order_key x < order_key y) (log_iter log)"
proof -
  assume ok: "log_ok log"
  then have "sorted_wrt (<) (bt_keys (log_ops log))" by (simp add: log_ok_def bt_ok_def)
  moreover have "bt_keys (log_ops log) = map order_key (log_iter log)"
    by (subst log_ok_entries [OF ok]) (simp add: o_def)
  ultimately show ?thesis by (simp add: sorted_wrt_map)
qed

lemma order_key_op_id: "key_op_id (order_key sop) = op_id sop"
  by (simp add: order_key_def)

lemma log_append_iter:
  assumes "log_ok log"
  shows "set (log_iter (fst (log_append log sop))) =
    (if contains log (op_id sop) then set (log_iter log) else insert sop (set (log_iter log)))"
proof (cases "op_id sop \<in> log_ids log")
  case False
  have "order_key sop \<notin> fst ` set (log_ops log)"
  proof
    assume "order_key sop \<in> fst ` set (log_ops log)"
    then obtain x where e: "(order_key sop, x) \<in> set (log_ops log)" by auto
    then have "order_key sop = order_key x" using assms by (auto simp: log_ok_def)
    then have "op_id sop = op_id x" by (simp add: order_key_def)
    moreover have "x \<in> set (log_iter log)" using e by (force simp: log_iter_def)
    ultimately show False using False assms by (simp add: log_ok_def)
  qed
  then show ?thesis
    using False by (auto simp: log_append_def contains_def log_iter_def set_bt_insert_new)
qed (simp add: log_append_def contains_def)

lemma log_append_ok:
  assumes "log_ok log"
  shows "log_ok (fst (log_append log sop))"
proof (cases "op_id sop \<in> log_ids log")
  case False
  let ?log = "fst (log_append log sop)"
  have it: "set (log_iter ?log) = insert sop (set (log_iter log))"
    using log_append_iter [OF assms, of sop] False by (simp add: contains_def)
  have fresh: "order_key sop \<notin> set (relay_order log)"
    using False assms by (auto simp: log_ok_def order_key_def)
  have "k = order_key x" if "(k, x) \<in> set (log_ops ?log)" for k x
    using that set_bt_insert_sub [of "order_key sop" sop "log_ops log"] assms False
    by (auto simp: log_append_def log_ok_def)
  moreover have "bt_ok (log_ops ?log)" "log_ids ?log = insert (op_id sop) (log_ids log)"
      "relay_order ?log = relay_order log @ [order_key sop]"
    using assms False by (simp_all add: log_append_def log_ok_def bt_ok_insert)
  ultimately show ?thesis
    using assms False fresh unfolding log_ok_def it by auto
qed (use assms in \<open>simp add: log_append_def\<close>)

lemma log_append_new_iff: "snd (log_append log sop) \<longleftrightarrow> \<not> contains log (op_id sop)"
  by (simp add: log_append_def contains_def)

lemma log_append_seen: "contains log (op_id sop) \<Longrightarrow> log_append log sop = (log, False)"
  by (simp add: log_append_def contains_def)

lemma contains_append: "contains (fst (log_append log sop)) i \<longleftrightarrow> i = op_id sop \<or> contains log i"
  by (auto simp: log_append_def contains_def)

lemma contains_iff: "log_ok log \<Longrightarrow> contains log i \<longleftrightarrow> (\<exists>sop \<in> set (log_iter log). op_id sop = i)"
  by (auto simp: log_ok_def contains_def)

lemmas log_append_views [log_simps] = log_append_new_iff log_append_seen contains_append log_append_ok

lemma since_iter: "log_ok log \<Longrightarrow> since log c = filter (\<lambda>sop. c < order_key sop) (log_iter log)"
  unfolding since_def by (subst log_ok_entries, assumption) (simp add: filter_map o_def)

lemma log_head_iter:
  "log_ok log \<Longrightarrow> log_head log = (if log_iter log = [] then None else Some (order_key (last (log_iter log))))"
proof (cases "log_ops log = []")
  case False
  moreover assume "log_ok log"
  ultimately have "fst (last (log_ops log)) = order_key (snd (last (log_ops log)))"
    using last_in_set [OF False] by (auto simp: log_ok_def)
  then show ?thesis using False by (simp add: log_head_def log_iter_def last_map)
qed (simp add: log_head_def log_iter_def)

text \<open>A log is determined, up to signatures, by the ids and bodies it holds.\<close>

definition log_view :: "op_log \<Rightarrow> (op_id \<times> op_body) list" where
  "log_view log = map op_view (log_iter log)"

lemma sorted_view_unique:
  assumes "sorted_wrt (\<lambda>x y. order_key x < order_key y) xs"
    and "sorted_wrt (\<lambda>x y. order_key x < order_key y) ys"
    and "op_view ` set xs = op_view ` set ys"
  shows "map op_view xs = map op_view ys"
proof -
  define key where "key v = OrderKey (body_hlc (snd v)) (body_device (snd v)) (fst v)" for v :: "op_id \<times> op_body"
  have key: "key (op_view x) = order_key x" for x by (simp add: key_def op_view_def order_key_def)
  let ?t = "\<lambda>zs. map (\<lambda>v. (key v, v)) (map op_view zs)"
  have ok: "bt_ok (?t zs)" if "sorted_wrt (\<lambda>x y. order_key x < order_key y) zs" for zs
    using that by (simp add: bt_ok_def sorted_wrt_map o_def key)
  have "set (?t xs) = set (?t ys)" using assms(3) by (simp only: list.set_map)
  then have "?t xs = ?t ys" using bt_ok_unique ok assms(1,2) by blast
  then have "map snd (?t xs) = map snd (?t ys)" by simp
  then show ?thesis by (simp add: o_def)
qed

section \<open>Histories\<close>

definition log_of :: "bytes \<Rightarrow> signed_op list \<Rightarrow> op_log" where
  "log_of r sops = foldl (\<lambda>log sop. fst (log_append log sop)) (log_new r) sops"

text \<open>Ids determine bodies in a set of ops, as they do among verified ops without a hash collision.\<close>

definition coherent :: "signed_op set \<Rightarrow> bool" where
  "coherent S \<longleftrightarrow> (\<forall>x \<in> S. \<forall>y \<in> S. op_id x = op_id y \<longrightarrow> op_body x = op_body y)"

lemma coherentD: "coherent S \<Longrightarrow> x \<in> S \<Longrightarrow> y \<in> S \<Longrightarrow> op_id x = op_id y \<Longrightarrow> op_body x = op_body y"
  unfolding coherent_def by blast

lemma log_of_Nil: "log_of r [] = log_new r"
  by (simp add: log_of_def)

lemma log_of_snoc: "log_of r (xs @ [x]) = fst (log_append (log_of r xs) x)"
  by (simp add: log_of_def)

lemma log_of_ok: "log_ok (log_of r xs)"
  by (induction xs rule: rev_induct) (simp_all add: log_of_Nil log_of_snoc log_new_ok log_append_ok)

lemma log_of_ids: "contains (log_of r xs) i \<longleftrightarrow> i \<in> op_id ` set xs"
proof (induction xs rule: rev_induct)
  case Nil
  then show ?case by (simp add: log_of_Nil log_new_def contains_def)
next
  case (snoc x xs)
  then show ?case by (auto simp: log_of_snoc contains_append)
qed

lemma log_of_sub: "set (log_iter (log_of r xs)) \<subseteq> set xs"
proof (induction xs rule: rev_induct)
  case (snoc x xs)
  then show ?case by (auto simp: log_of_snoc log_append_iter log_of_ok split: if_splits)
qed (simp add: log_of_Nil log_new_def log_iter_def)

lemma log_of_views:
  assumes "coherent (set xs)"
  shows "op_view ` set (log_iter (log_of r xs)) = op_view ` set xs"
proof
  show "op_view ` set (log_iter (log_of r xs)) \<subseteq> op_view ` set xs"
    by (rule image_mono [OF log_of_sub])
  show "op_view ` set xs \<subseteq> op_view ` set (log_iter (log_of r xs))"
  proof
    fix v assume "v \<in> op_view ` set xs"
    then obtain x where x: "x \<in> set xs" "v = op_view x" by blast
    then have "contains (log_of r xs) (op_id x)" by (simp add: log_of_ids)
    then obtain y where y: "y \<in> set (log_iter (log_of r xs))" "op_id y = op_id x"
      unfolding contains_iff [OF log_of_ok] by (elim bexE)
    have "y \<in> set xs" by (rule subsetD [OF log_of_sub y(1)])
    then have "op_view y = op_view x"
      using coherentD [OF assms _ x(1) y(2)] y(2) by (simp add: op_view_def)
    then show "v \<in> op_view ` set (log_iter (log_of r xs))" 
      using x(2) imageI [OF y(1), of op_view] by simp
  qed
qed

section \<open>The arrival stream\<close>

definition arrivals :: "op_log \<Rightarrow> signed_op list" where
  "arrivals log = map (\<lambda>k. the (map_of (log_ops log) k)) (relay_order log)"

definition stream_entries :: "signed_op list \<Rightarrow> nat \<Rightarrow> nat \<Rightarrow> relay_log_entry list" where
  "stream_entries xs after limit =
     map (\<lambda>i. \<lparr>entry_seq = i + 1, entry_op = xs ! i\<rparr>) [after..<min (after + limit) (length xs)]"

lemma length_arrivals [simp]: "length (arrivals log) = length (relay_order log)"
  by (simp add: arrivals_def)

lemma lookup_held:
  "log_ok log \<Longrightarrow> k \<in> set (relay_order log) \<Longrightarrow>
     \<exists>sop \<in> set (log_iter log). map_of (log_ops log) k = Some sop \<and> order_key sop = k"
proof -
  assume ok: "log_ok log" and "k \<in> set (relay_order log)"
  then obtain sop where sop: "sop \<in> set (log_iter log)" "k = order_key sop"
    by (auto simp: log_ok_def)
  then have "(k, sop) \<in> set (map (\<lambda>sop. (order_key sop, sop)) (log_iter log))" by simp
  then have "(k, sop) \<in> set (log_ops log)" by (simp only: log_ok_entries [OF ok, symmetric])
  then have "map_of (log_ops log) k = Some sop" using ok by (simp add: log_ok_def bt_ok_map_of)
  with sop show ?thesis by blast
qed

lemma arrival_keys: "log_ok log \<Longrightarrow> map order_key (arrivals log) = relay_order log"
  unfolding arrivals_def map_map
proof (rule map_idI)
  fix k assume "log_ok log" "k \<in> set (relay_order log)"
  from lookup_held [OF this] show "(order_key \<circ> (\<lambda>k. the (map_of (log_ops log) k))) k = k" by auto
qed

lemma set_arrivals: "log_ok log \<Longrightarrow> set (arrivals log) = set (log_iter log)"
proof
  assume ok: "log_ok log"
  show "set (arrivals log) \<subseteq> set (log_iter log)"
  proof
    fix x assume "x \<in> set (arrivals log)"
    then obtain k where "k \<in> set (relay_order log)" "x = the (map_of (log_ops log) k)"
      by (auto simp: arrivals_def)
    with lookup_held [OF ok] show "x \<in> set (log_iter log)" by fastforce
  qed
  show "set (log_iter log) \<subseteq> set (arrivals log)"
  proof
    fix x assume x: "x \<in> set (log_iter log)"
    then have "order_key x \<in> set (map order_key (arrivals log))"
      using ok by (simp add: arrival_keys) (simp add: log_ok_def)
    then obtain y where y: "y \<in> set (arrivals log)" "order_key y = order_key x" by auto
    then have "y \<in> set (log_iter log)" using \<open>set (arrivals log) \<subseteq> _\<close> by blast
    then have "y = x"
      using y x ok by (auto simp: log_ok_def order_key_def dest: inj_onD)
    with y show "x \<in> set (arrivals log)" by simp
  qed
qed

lemma distinct_arrivals: "log_ok log \<Longrightarrow> distinct (arrivals log)"
proof -
  assume ok: "log_ok log"
  then have "distinct (map order_key (arrivals log))" by (simp add: arrival_keys) (simp add: log_ok_def)
  then show ?thesis by (simp add: distinct_map)
qed

lemma arrivals_append:
  assumes "log_ok log" "\<not> contains log (op_id sop)"
  shows "arrivals (fst (log_append log sop)) = arrivals log @ [sop]"
proof -
  have "order_key sop \<notin> set (relay_order log)"
    using assms by (auto simp: log_ok_def order_key_def contains_def)
  moreover have "bt_ok (log_ops log)" using assms(1) by (simp add: log_ok_def)
  ultimately show ?thesis
    using assms(2) by (auto simp: arrivals_def log_append_def contains_def map_of_bt_insert)
qed

lemma stream_entries_snoc:
  "stream_entries (xs @ [x]) a n = stream_entries xs a n @
     (if a \<le> length xs \<and> length xs < a + n then [\<lparr>entry_seq = length xs + 1, entry_op = x\<rparr>] else [])"
proof -
  let ?f = "\<lambda>ys i. \<lparr>entry_seq = i + 1, entry_op = ys ! i\<rparr>" and ?l = "length xs"
  have old: "map (?f (xs @ [x])) [a..<min (a + n) ?l] = map (?f xs) [a..<min (a + n) ?l]"
    by (rule map_cong) (auto simp: nth_append)
  show ?thesis
  proof (cases "a \<le> ?l \<and> ?l < a + n")
    case True
    then have "min (a + n) (Suc ?l) = Suc ?l" "min (a + n) ?l = ?l" by auto
    then have "[a..<min (a + n) (Suc ?l)] = [a..<min (a + n) ?l] @ [?l]" using True by simp
    then show ?thesis using True old by (simp add: stream_entries_def)
  next
    case False
    then have "[a..<min (a + n) (Suc ?l)] = [a..<min (a + n) ?l]" by (auto simp: min_def)
    then show ?thesis using False old unfolding stream_entries_def by auto
  qed
qed

lemma take_drop_enumerate:
  "take n (drop a (enumerate 0 xs)) = map (\<lambda>i. (i, xs ! i)) [a..<min (a + n) (length xs)]"
proof (rule nth_equalityI)
  fix i assume "i < length (take n (drop a (enumerate 0 xs)))"
  then have "i < n" "a + i < length xs" by auto
  then show "take n (drop a (enumerate 0 xs)) ! i =
      map (\<lambda>i. (i, xs ! i)) [a..<min (a + n) (length xs)] ! i"
    using nth_upt [of a i "min (a + n) (length xs)"] by (simp add: nth_enumerate_eq)
qed auto

lemma relay_page_entries:
  assumes "log_ok log"
  shows "relay_page log after limit =
    Inr \<lparr>page_state = relay_state log, page_entries = stream_entries (arrivals log) after limit\<rparr>"
proof -
  let ?f = "\<lambda>(index, k). case map_of (log_ops log) k of
       None \<Rightarrow> Inl LogPanic | Some sop \<Rightarrow> Inr \<lparr>entry_seq = index + 1, entry_op = sop\<rparr>"
  let ?a = "min after (length (relay_order log))"
  have "try_map ?f (take limit (drop ?a (enumerate 0 (relay_order log)))) =
      Inr (map (\<lambda>(i, k). \<lparr>entry_seq = i + 1, entry_op = the (map_of (log_ops log) k)\<rparr>)
             (take limit (drop ?a (enumerate 0 (relay_order log)))))"
  proof (rule try_map_total)
    fix x assume "x \<in> set (take limit (drop ?a (enumerate 0 (relay_order log))))"
    then have "snd x \<in> set (relay_order log)"
      by (auto dest!: in_set_takeD in_set_dropD simp: in_set_enumerate_eq) (metis nth_mem)
    then show "?f x = Inr ((\<lambda>(i, k). \<lparr>entry_seq = i + 1, entry_op = the (map_of (log_ops log) k)\<rparr>) x)"
      using lookup_held [OF assms, of "snd x"] by (cases x) auto
  qed
  moreover have "map (\<lambda>(i, k). \<lparr>entry_seq = i + 1, entry_op = the (map_of (log_ops log) k)\<rparr>)
      (take limit (drop ?a (enumerate 0 (relay_order log)))) = stream_entries (arrivals log) after limit"
    unfolding take_drop_enumerate stream_entries_def
    by (cases "after \<le> length (relay_order log)") (auto simp: arrivals_def)
  ultimately show ?thesis by (simp add: relay_page_def Let_def)
qed

section \<open>Paging one origin\<close>

definition env_bytes :: "codec \<Rightarrow> signed_op \<Rightarrow> bytes" where
  "env_bytes pc sop = (case to_bytes pc sop of Inr bs \<Rightarrow> bs | Inl _ \<Rightarrow> [])"

definition of_origin :: "device_id \<Rightarrow> store_id option \<Rightarrow> signed_op \<Rightarrow> bool" where
  "of_origin origin wanted sop \<longleftrightarrow> body_device (op_body sop) = origin \<and> store_matches wanted sop"

definition after_key :: "order_key option \<Rightarrow> signed_op \<Rightarrow> bool" where
  "after_key after sop \<longleftrightarrow> (case after of None \<Rightarrow> True | Some bound \<Rightarrow> bound < order_key sop)"

text \<open>The page both implementations mean: at least one row, at most \<open>limit\<close>, in key order.\<close>

definition origin_page ::
  "codec \<Rightarrow> signed_op list \<Rightarrow> device_id \<Rightarrow> order_key option \<Rightarrow> store_id option \<Rightarrow> nat \<Rightarrow> (order_key \<times> bytes) list" where
  "origin_page pc sops origin after wanted limit =
     map (\<lambda>sop. (order_key sop, env_bytes pc sop))
       (take (max 1 limit) (filter (\<lambda>sop. after_key after sop \<and> of_origin origin wanted sop) sops))"

lemma after_key_cases [simp]:
  "after_key None = (\<lambda>sop. True)" "after_key (Some k) = (\<lambda>sop. k < order_key sop)"
  by (simp_all add: after_key_def fun_eq_iff)

lemma to_bytes_total: "codec_laws pc \<Longrightarrow> to_bytes pc sop = Inr (env_bytes pc sop)"
proof -
  assume "codec_laws pc"
  then have "\<exists>bs. to_bytes pc sop = Inr bs" unfolding codec_laws_def to_bytes_def ok_or_Inr by blast
  then show ?thesis by (auto simp: env_bytes_def)
qed

lemma origin_loop_Cons:
  assumes "codec_laws pc"
  shows "origin_loop pc origin wanted limit ((k, x) # rest) out =
    (if \<not> of_origin origin wanted x then origin_loop pc origin wanted limit rest out
     else if limit \<le> Suc (length out) then Inr (out @ [(k, env_bytes pc x)])
     else origin_loop pc origin wanted limit rest (out @ [(k, env_bytes pc x)]))"
  by (simp add: of_origin_def to_bytes_total [OF assms])

lemma origin_loop_take:
  assumes "codec_laws pc" "length out < n" "n = max 1 limit"
  shows "origin_loop pc origin wanted limit (map (\<lambda>sop. (order_key sop, sop)) sops) out =
    Inr (out @ map (\<lambda>sop. (order_key sop, env_bytes pc sop))
           (take (n - length out) (filter (of_origin origin wanted) sops)))"
  using assms(2)
proof (induction sops arbitrary: out)
  case (Cons x sops)
  let ?row = "(order_key x, env_bytes pc x)"
  have "limit \<le> Suc (length out) \<longleftrightarrow> n - length out = 1"
    using Cons.prems assms(3) by linarith
  moreover obtain m where m: "n - length out = Suc m"
    using Cons.prems by (cases "n - length out") auto
  moreover have "n - length (out @ [?row]) = m" using m by simp
  moreover have "m \<noteq> 0 \<Longrightarrow> length (out @ [?row]) < n" using m by simp
  ultimately show ?case
    using Cons.IH [of out] Cons.IH [of "out @ [?row]"] Cons.prems
    by (cases m) (simp_all only: list.map origin_loop_Cons [OF assms(1)] filter.simps, simp_all)
qed simp

lemma origin_since_page:
  assumes "codec_laws pc" "log_ok log"
  shows "origin_since pc log origin after wanted limit = Inr (origin_page pc (log_iter log) origin after wanted limit)"
proof -
  let ?sops = "filter (after_key after) (log_iter log)"
  have "(case after of None \<Rightarrow> log_ops log | Some bound \<Rightarrow> filter (\<lambda>e. bound < fst e) (log_ops log)) =
      map (\<lambda>sop. (order_key sop, sop)) ?sops"
    by (subst (1 2) log_ok_entries [OF assms(2)], cases after) (auto simp: filter_map o_def)
  then show ?thesis
    using origin_loop_take [OF assms(1), of "[]" _ limit origin wanted ?sops]
    by (simp add: origin_since_def origin_page_def)
qed

lemma default_origin_loop_eq:
  "default_origin_loop pc origin after wanted limit sops out =
   origin_loop pc origin wanted limit (map (\<lambda>sop. (order_key sop, sop)) (filter (after_key after) sops)) out"
  by (induction sops arbitrary: out) (auto simp: after_key_def split: sum.split option.splits)

lemma default_origin_since_page:
  assumes "codec_laws pc"
    and "since_fn (case after of None \<Rightarrow> MIN_KEY | Some a \<Rightarrow> a) usize_max =
           filter (\<lambda>sop. (case after of None \<Rightarrow> MIN_KEY | Some a \<Rightarrow> a) < order_key sop) sops"
    and "\<And>sop. sop \<in> set sops \<Longrightarrow> MIN_KEY < order_key sop"
  shows "default_origin_since pc since_fn origin after wanted limit = Inr (origin_page pc sops origin after wanted limit)"
proof -
  have "filter (after_key after) (filter (\<lambda>sop. (case after of None \<Rightarrow> MIN_KEY | Some a \<Rightarrow> a) < order_key sop) sops) =
      filter (after_key after) sops"
    using assms(3) by (auto simp: after_key_def split: option.split intro!: filter_cong)
  then show ?thesis
    using origin_loop_take [OF assms(1), of "[]" _ limit origin wanted "filter (after_key after) sops"]
    by (simp add: default_origin_since_def Let_def assms(2) default_origin_loop_eq origin_page_def)
qed

section \<open>Origins\<close>

lemma set_btree_set_insert: "set (btree_set_insert x ys) = insert x (set ys)"
  by (induction x ys rule: btree_set_insert.induct) auto

lemma sorted_btree_set_insert: "sorted_wrt (<) ys \<Longrightarrow> sorted_wrt (<) (btree_set_insert x ys)"
  by (induction x ys rule: btree_set_insert.induct) (auto simp: set_btree_set_insert)

lemma origins_of_snoc: "origins_of (xs @ [x]) = btree_set_insert (body_device (op_body x)) (origins_of xs)"
  by (simp add: origins_of_def)

lemma origins_of_set: "set (origins_of xs) = (\<lambda>x. body_device (op_body x)) ` set xs"
proof (induction xs rule: rev_induct)
  case (snoc x xs)
  then show ?case by (simp add: origins_of_snoc set_btree_set_insert)
qed (simp add: origins_of_def)

lemma origins_of_sorted: "sorted_wrt (<) (origins_of xs)"
proof (induction xs rule: rev_induct)
  case (snoc x xs)
  then show ?case by (simp add: origins_of_snoc sorted_btree_set_insert)
qed (simp add: origins_of_def)

section \<open>The reader contract\<close>

text \<open>
  What a server relies on of whatever log it reads: \<open>held\<close> is the log in global order, \<open>arrived\<close> the
  same ops in local arrival order, and every method is a view of one of the two.
\<close>

locale log_reader =
  fixes src :: "'l \<Rightarrow> log_source"
    and inv :: "'l \<Rightarrow> bool"
    and pc :: codec
    and held :: "'l \<Rightarrow> signed_op list"
    and arrived :: "'l \<Rightarrow> signed_op list"
    and epoch :: "'l \<Rightarrow> bytes"
  assumes held_sorted: "inv l \<Longrightarrow> sorted_wrt (\<lambda>x y. order_key x < order_key y) (held l)"
    and arrived_held: "inv l \<Longrightarrow> set (arrived l) = set (held l)"
    and arrived_distinct: "inv l \<Longrightarrow> distinct (arrived l)"
    and src_since: "inv l \<Longrightarrow> ls_since (src l) c n = take n (filter (\<lambda>x. c < order_key x) (held l))"
    and src_contains: "inv l \<Longrightarrow> ls_contains (src l) i \<longleftrightarrow> i \<in> op_id ` set (held l)"
    and src_origins: "inv l \<Longrightarrow> ls_origins (src l) = Inr (origins_of (held l))"
    and src_origin_since:
      "inv l \<Longrightarrow> ls_origin_since (src l) d after w n = Inr (origin_page pc (held l) d after w n)"
    and src_relay_state: "inv l \<Longrightarrow> ls_relay_state (src l) =
           Inr (Some \<lparr>rs_epoch = epoch l, rs_head = length (arrived l), rs_floor = 0\<rparr>)"
    and src_relay_page: "inv l \<Longrightarrow> ls_relay_page (src l) a n =
           Inr (Some \<lparr>page_state = \<lparr>rs_epoch = epoch l, rs_head = length (arrived l), rs_floor = 0\<rparr>,
                      page_entries = stream_entries (arrived l) a n\<rparr>)"
    and src_relay_since: "inv l \<Longrightarrow> ls_relay_since (src l) a n =
           Inr (Some (map (\<lambda>e. (entry_seq e, entry_op e, env_bytes pc (entry_op e))) (stream_entries (arrived l) a n)))"
begin

text \<open>A page read after a key is sorted and strictly above it, and a short page is the whole rest.\<close>

lemma since_above: "inv l \<Longrightarrow> x \<in> set (ls_since (src l) c n) \<Longrightarrow> c < order_key x \<and> x \<in> set (held l)"
  by (auto simp: src_since dest: in_set_takeD)

lemma since_complete:
  "inv l \<Longrightarrow> length (ls_since (src l) c n) < n \<Longrightarrow> x \<in> set (held l) \<Longrightarrow> c < order_key x \<Longrightarrow>
     x \<in> set (ls_since (src l) c n)"
  by (simp add: src_since min_def split: if_splits)

lemma sorted_take_before:
  assumes "sorted_wrt (\<lambda>x y. order_key x < order_key y) xs" "x \<in> set xs" "y \<in> set (take n xs)"
    and "order_key x \<le> order_key y"
  shows "x \<in> set (take n xs)"
proof (rule ccontr)
  assume no: "x \<notin> set (take n xs)"
  moreover have "set xs = set (take n xs) \<union> set (drop n xs)" by (metis append_take_drop_id set_append)
  ultimately have "x \<in> set (drop n xs)" using assms(2) by blast
  moreover have "sorted_wrt (\<lambda>x y. order_key x < order_key y) (take n xs @ drop n xs)" using assms(1) by simp
  ultimately have "order_key y < order_key x" using assms(3) by (simp only: sorted_wrt_append)
  with assms(4) show False by simp
qed

text \<open>Nothing is skipped below the last row of a page.\<close>

lemma since_no_gap:
  assumes "inv l" "x \<in> set (held l)" "c < order_key x"
    and "y \<in> set (ls_since (src l) c n)" "order_key x \<le> order_key y"
  shows "x \<in> set (ls_since (src l) c n)"
  using assms sorted_take_before [of "filter (\<lambda>x. c < order_key x) (held l)" x y n]
    sorted_wrt_filter [OF held_sorted [OF assms(1)]]
  by (simp add: src_since)

lemma relay_since_rows:
  assumes "inv l"
  shows "\<exists>rows. ls_relay_since (src l) a n = Inr (Some rows) \<and>
    map fst rows = map Suc [a..<min (a + n) (length (arrived l))] \<and>
    (\<forall>(s, x, bs) \<in> set rows. x = arrived l ! (s - 1) \<and> x \<in> set (held l) \<and> bs = env_bytes pc x)"
proof -
  have "arrived l ! i \<in> set (held l)" if "i < length (arrived l)" for i
    using that nth_mem [OF that] by (simp only: arrived_held [OF assms])
  then show ?thesis
    unfolding src_relay_since [OF assms] stream_entries_def
    by (intro exI conjI) (rule refl, simp_all add: o_def)
qed

end

lemma with_envelopes_page:
  "codec_laws pc \<Longrightarrow> with_envelopes pc \<lparr>page_state = ps, page_entries = es\<rparr> =
     Inr (map (\<lambda>e. (entry_seq e, entry_op e, env_bytes pc (entry_op e))) es)"
  by (simp add: with_envelopes_def try_map_total to_bytes_total)

interpretation mem_log: log_reader "log_as_source pc" "\<lambda>log. codec_laws pc \<and> log_ok log" pc log_iter arrivals relay_epoch
  for pc :: codec
  by unfold_locales
    (auto simp: log_as_source_def log_ok_sorted set_arrivals distinct_arrivals since_iter origins_def
      origin_since_page relay_state_def relay_since_with_envelopes_def relay_page_entries
      with_envelopes_page contains_iff)

section \<open>Ranges\<close>

lemma takeWhile_sorted:
  "sorted_wrt (\<lambda>x y. order_key x < order_key y) xs \<Longrightarrow>
     takeWhile (\<lambda>x. order_key x \<le> b) xs = filter (\<lambda>x. order_key x \<le> b) xs"
proof (induction xs)
  case (Cons x xs)
  show ?case
  proof (cases "order_key x \<le> b")
    case False
    then have "\<forall>y \<in> set xs. \<not> order_key y \<le> b" using Cons.prems by force
    with False show ?thesis by (simp add: filter_empty_conv)
  qed (use Cons in simp)
qed simp

definition in_range :: "order_key \<Rightarrow> order_key \<Rightarrow> signed_op \<Rightarrow> bool" where
  "in_range a b sop \<longleftrightarrow> a < order_key sop \<and> order_key sop \<le> b"

lemma range_filter:
  assumes "log_ok log"
  shows "takeWhile (\<lambda>sop. order_key sop \<le> b) (since log a) = filter (in_range a b) (log_iter log)"
proof -
  have "takeWhile (\<lambda>sop. order_key sop \<le> b) (since log a) =
      filter (\<lambda>sop. order_key sop \<le> b) (filter (\<lambda>sop. a < order_key sop) (log_iter log))"
    unfolding since_iter [OF assms]
    by (rule takeWhile_sorted) (rule sorted_wrt_filter [OF log_ok_sorted [OF assms]])
  then show ?thesis by (simp add: in_range_def [abs_def])
qed

lemma range_split:
  assumes "sorted_wrt (\<lambda>x y. order_key x < order_key y) xs" "a \<le> b" "b \<le> c"
  shows "filter (in_range a c) xs = filter (in_range a b) xs @ filter (in_range b c) xs"
  using assms(1)
proof (induction xs)
  case (Cons x xs)
  show ?case
  proof (cases "in_range b c x")
    case True
    then have "\<forall>y \<in> set xs. \<not> in_range a b y" using Cons.prems by (force simp: in_range_def)
    then have "filter (in_range a b) xs = []" by (simp add: filter_empty_conv)
    moreover have "\<not> in_range a b x" "in_range a c x" using True assms(2) by (auto simp: in_range_def)
    ultimately show ?thesis using True Cons by simp
  next
    case False
    then have "in_range a c x \<longleftrightarrow> in_range a b x" using assms(3) by (auto simp: in_range_def)
    then show ?thesis using False Cons by simp
  qed
qed simp

section \<open>Properties\<close>

text \<open>
  C1: Replicas converge. Two logs that received the same ops (the same ids with the same bodies), in
  any order, with any duplication and with whatever valid signatures, hold the same ops in the same
  global order, and replaying either into any store gives the same store and the same result.
\<close>

theorem op_log_converges:
  assumes "op_view ` set xs = op_view ` set ys" "coherent (set xs \<union> set ys)"
  shows "log_view (log_of r xs) = log_view (log_of q ys) \<and>
    replay impl (log_of r xs) st = replay impl (log_of q ys) st"
proof -
  have "coherent (set xs)" "coherent (set ys)"
    using assms(2) unfolding coherent_def by blast+
  then have "map op_view (log_iter (log_of r xs)) = map op_view (log_iter (log_of q ys))"
    using assms(1) by (intro sorted_view_unique log_ok_sorted log_of_ok) (simp add: log_of_views)
  then show ?thesis
    unfolding log_view_def replay_def apply_ops_def by (intro conjI apply_loop_view)
qed

theorem op_log_converges_witness:
  "let a = plain_op 1 [1] [1] ''kv'' [0, 1, 97, 0, 7]; b = plain_op 2 [2] [2] ''kv'' [1, 97] in
   log_view (log_of [] [a, b]) = log_view (log_of [5] [b, a, b]) \<and>
   replay (kv_impl demo_kv_codec) (log_of [] [a, b]) kv_new =
     replay (kv_impl demo_kv_codec) (log_of [5] [b, a, b]) kv_new"
  unfolding Let_def
  by (rule op_log_converges) (auto simp: op_view_def coherent_def plain_op_def)

text \<open>
  C25: Appending keeps the log well formed and is idempotent per content id: every log built by
  appends satisfies \<open>log_ok\<close>; an append reports new exactly when the id was not held, then adds just
  that op at the end of the arrival stream; a second append of the id changes nothing.
\<close>

theorem append_contract:
  assumes "log = log_of r xs"
  shows "log_ok log \<and>
    (snd (log_append log sop) \<longleftrightarrow> op_id sop \<notin> op_id ` set xs) \<and>
    (op_id sop \<notin> op_id ` set xs \<longrightarrow>
       set (log_iter (fst (log_append log sop))) = insert sop (set (log_iter log)) \<and>
       arrivals (fst (log_append log sop)) = arrivals log @ [sop]) \<and>
    log_append (fst (log_append log sop)) sop = (fst (log_append log sop), False)"
proof -
  have ok: "log_ok log" unfolding assms by (rule log_of_ok)
  have c: "contains log (op_id sop) \<longleftrightarrow> op_id sop \<in> op_id ` set xs"
    unfolding assms by (rule log_of_ids)
  show ?thesis
    using ok c log_append_iter [OF ok, of sop] arrivals_append [OF ok, of sop]
    by (simp add: log_simps)
qed

theorem append_contract_witness:
  "let a = plain_op 1 [1] [1] ''kv'' [7]; log = log_of [] [a]; b = plain_op 2 [1] [2] ''kv'' [8] in
   snd (log_append log b) \<and> arrivals (fst (log_append log b)) = arrivals log @ [b]"
  using append_contract [of "log_of [] [plain_op 1 [1] [1] ''kv'' [7]]" "[]" "[plain_op 1 [1] [1] ''kv'' [7]]"
      "plain_op 2 [1] [2] ''kv'' [8]"]
  by (simp add: Let_def plain_op_def)

text \<open>
  C26: The relay stream of a log is append-only and gap-free: a page after sequence \<open>a\<close> lists sequence
  numbers \<open>a+1, a+2, ..\<close> without a hole up to the limit or the head, never panics, its ops are held,
  and further appends only extend it, so a sequence number names the same op for ever.
\<close>

theorem relay_stream_append_only:
  assumes "log_ok log"
  shows "\<exists>page. relay_page log a n = Inr page \<and>
    map entry_seq (page_entries page) = map Suc [a..<min (a + n) (rs_head (relay_state log))] \<and>
    entry_op ` set (page_entries page) \<subseteq> set (log_iter log) \<and>
    (\<exists>page'. relay_page (fst (log_append log sop)) a n = Inr page' \<and>
       (\<exists>more. page_entries page' = page_entries page @ more \<and> length more \<le> 1))"
proof -
  let ?log = "fst (log_append log sop)"
  have head: "rs_head (relay_state log) = length (arrivals log)" by (simp add: relay_state_def)
  have sub: "entry_op ` set (stream_entries (arrivals log) a n) \<subseteq> set (log_iter log)"
    using set_arrivals [OF assms] nth_mem [of _ "arrivals log"] by (auto simp: stream_entries_def)
  have more: "\<exists>more. stream_entries (arrivals ?log) a n = stream_entries (arrivals log) a n @ more \<and> length more \<le> 1"
    using arrivals_append [OF assms, of sop] stream_entries_snoc [of "arrivals log" sop a n]
    by (cases "contains log (op_id sop)") (simp_all add: log_append_seen split: if_splits)
  show ?thesis
    using sub more relay_page_entries [OF assms] relay_page_entries [OF log_append_ok [OF assms, of sop]]
    by (simp add: head) (simp add: stream_entries_def o_def)
qed

theorem relay_stream_append_only_witness:
  "let a = plain_op 1 [1] [1] ''kv'' [7]; b = plain_op 2 [1] [2] ''kv'' [8] in
   \<exists>page. relay_page (log_of [] [a]) 0 5 = Inr page \<and>
    map entry_seq (page_entries page) = map Suc [0..<min (0 + 5) (rs_head (relay_state (log_of [] [a])))] \<and>
    entry_op ` set (page_entries page) \<subseteq> set (log_iter (log_of [] [a])) \<and>
    (\<exists>page'. relay_page (fst (log_append (log_of [] [a]) b)) 0 5 = Inr page' \<and>
       (\<exists>more. page_entries page' = page_entries page @ more \<and> length more \<le> 1))"
  unfolding Let_def by (rule relay_stream_append_only [OF log_of_ok])

text \<open>
  The default methods of \<open>LogSource\<close> agree with the in-memory log's own ones: for a log whose ops
  all sort above \<open>OrderKey::MIN\<close> and whose length fits a \<open>usize\<close>, the defaults driven by the log's
  \<open>since\<close> return the same origins, the same origin pages and the same relay rows.
\<close>

theorem log_source_defaults_agree:
  assumes "codec_laws pc" "log_ok log" "length (log_iter log) \<le> usize_max"
    and "\<And>sop. sop \<in> set (log_iter log) \<Longrightarrow> MIN_KEY < order_key sop"
  shows "default_origins (ls_since (log_as_source pc log)) = ls_origins (log_as_source pc log) \<and>
    default_origin_since pc (ls_since (log_as_source pc log)) d after w n =
      ls_origin_since (log_as_source pc log) d after w n \<and>
    default_relay_since pc (ls_relay_page (log_as_source pc log)) a n = ls_relay_since (log_as_source pc log) a n"
proof -
  have since: "ls_since (log_as_source pc log) c usize_max = filter (\<lambda>x. c < order_key x) (log_iter log)" for c
    using le_trans [OF length_filter_le assms(3)] mem_log.src_since [of pc log c usize_max] assms(1,2) by simp
  have all: "filter (\<lambda>x. MIN_KEY < order_key x) (log_iter log) = log_iter log"
    using assms(4) by (simp add: filter_id_conv)
  have "default_origin_since pc (ls_since (log_as_source pc log)) d after w n =
      Inr (origin_page pc (log_iter log) d after w n)"
    by (rule default_origin_since_page [OF assms(1)]) (simp_all add: since assms(4))
  moreover have "default_origins (ls_since (log_as_source pc log)) = Inr (origins_of (log_iter log))"
    by (simp add: default_origins_def since all)
  moreover have "default_relay_since pc (ls_relay_page (log_as_source pc log)) a n =
      ls_relay_since (log_as_source pc log) a n"
    by (simp add: default_relay_since_def log_as_source_def relay_since_with_envelopes_def
        relay_page_entries [OF assms(2)])
  ultimately show ?thesis
    using mem_log.src_origins [of pc log] mem_log.src_origin_since [of pc log d after w n] assms(1,2) by simp
qed

theorem log_source_defaults_agree_witness:
  "let log = log_of [] [plain_op 1 (replicate 32 1) (replicate 32 1) ''kv'' [7]]; src = log_as_source demo_codec log in
   default_origins (ls_since src) = ls_origins src \<and>
   default_origin_since demo_codec (ls_since src) (DeviceId []) None None 3 = ls_origin_since src (DeviceId []) None None 3 \<and>
   default_relay_since demo_codec (ls_relay_page src) 0 3 = ls_relay_since src 0 3"
  unfolding Let_def
  by (rule log_source_defaults_agree [OF demo_codec_laws log_of_ok])
    (simp_all add: log_of_def log_append_def log_new_def log_iter_def plain_op_def usize_max_def MIN_KEY_def
      order_key_def less_order_key_def)

text \<open>
  Incremental replay composes: applying the ops of \<open>(a, b]\<close> and then those of \<open>(b, c]\<close> is applying
  those of \<open>(a, c]\<close>, an error of the first half ending both, for every store that answers one
  namespace; so a sync that applies only what it newly crossed follows the whole-log order.
\<close>

theorem apply_range_composes:
  assumes "log_ok log" "a \<le> b" "b \<le> c" "st_store_id impl = (\<lambda>_. sid)"
  shows "apply_range impl log st a c =
    (case apply_range impl log st a b of
       (st', Inl e) \<Rightarrow> (st', Inl e)
     | (st', Inr _) \<Rightarrow> apply_range impl log st' b c)"
  unfolding apply_range_def range_filter [OF assms(1)]
    range_split [OF log_ok_sorted [OF assms(1)] assms(2,3)] apply_ops_def assms(4)
  by (rule apply_loop_append)

theorem apply_range_composes_witness:
  "let log = log_of [] [plain_op 1 [1] [1] ''kv'' [0, 1, 97, 0, 7], plain_op 2 [2] [2] ''kv'' [1, 97]];
       impl = kv_impl demo_kv_codec; k = OrderKey 1 (DeviceId [1]) (OpId [1]); m = OrderKey 9 (DeviceId []) (OpId [])
   in apply_range impl log kv_new (OrderKey 0 (DeviceId []) (OpId [])) m =
    (case apply_range impl log kv_new (OrderKey 0 (DeviceId []) (OpId [])) k of
       (st', Inl e) \<Rightarrow> (st', Inl e)
     | (st', Inr _) \<Rightarrow> apply_range impl log st' k m)"
  unfolding Let_def
  by (rule apply_range_composes [OF log_of_ok, where sid = kv_store_id])
    (simp_all add: kv_impl_def less_eq_order_key_def less_order_key_def)

end
