(* ===== verification/Registry.thy ===== *)
theory Registry
  imports OpLog
begin

text \<open>
  The device registry (\<open>src/registry.rs\<close>): verifying keys by the device id they derive, and the
  \<open>DeviceBook\<close> trait the server reads it through. A \<open>HashMap\<close> iterates in an unspecified order; the
  model fixes the order of the ids and the contract below does not depend on it.
\<close>

section \<open>The registry\<close>

type_synonym 'vk registry = "(device_id, 'vk) btree"

definition reg_new :: "'vk registry" where
  "reg_new = []"

definition insert_key :: "('sk, 'vk, 'sg) crypto \<Rightarrow> 'vk registry \<Rightarrow> 'vk \<Rightarrow> 'vk registry \<times> device_id" where
  "insert_key c reg key = (let d = device_id_of c key in (bt_insert d key reg, d))"

definition insert_sec1 ::
  "('sk, 'vk, 'sg) crypto \<Rightarrow> 'vk registry \<Rightarrow> bytes \<Rightarrow> 'vk registry \<times> (identity_error + device_id)" where
  "insert_sec1 c reg sec1 =
     (case vk_from_sec1 c sec1 of
        None \<Rightarrow> (reg, Inl InvalidPublicKey)
      | Some key \<Rightarrow> (let (reg', d) = insert_key c reg key in (reg', Inr d)))"

definition key_for :: "'vk registry \<Rightarrow> device_id \<Rightarrow> 'vk option" where
  "key_for reg d = map_of reg d"

definition sec1_keys :: "('sk, 'vk, 'sg) crypto \<Rightarrow> 'vk registry \<Rightarrow> bytes list" where
  "sec1_keys c reg = map (\<lambda>e. sec1_compressed c (snd e)) reg"

definition reg_entries :: "('sk, 'vk, 'sg) crypto \<Rightarrow> 'vk registry \<Rightarrow> (device_id \<times> bytes) list" where
  "reg_entries c reg = map (\<lambda>(d, key). (d, sec1_compressed c key)) reg"

definition reg_contains :: "'vk registry \<Rightarrow> device_id \<Rightarrow> bool" where
  "reg_contains reg d \<longleftrightarrow> map_of reg d \<noteq> None"

definition reg_remove :: "'vk registry \<Rightarrow> device_id \<Rightarrow> 'vk registry" where
  "reg_remove reg d = filter (\<lambda>e. fst e \<noteq> d) reg"

section \<open>The \<open>DeviceBook\<close> trait\<close>

record device_book =
  db_known_devices :: "(device_id \<times> bytes) list"
  db_try_known_devices :: "string + (device_id \<times> bytes) list"
  db_try_key_for_device :: "device_id \<Rightarrow> string + bytes option"

definition default_try_known_devices :: "(device_id \<times> bytes) list \<Rightarrow> string + (device_id \<times> bytes) list" where
  "default_try_known_devices known = Inr known"

definition default_try_key_for_device ::
  "string + (device_id \<times> bytes) list \<Rightarrow> device_id \<Rightarrow> string + bytes option" where
  "default_try_key_for_device try_known d =
     and_then try_known (\<lambda>known. Inr (map_option snd (find (\<lambda>e. fst e = d) known)))"

definition registry_as_book :: "('sk, 'vk, 'sg) crypto \<Rightarrow> 'vk registry \<Rightarrow> device_book" where
  "registry_as_book c reg =
     \<lparr>db_known_devices = reg_entries c reg,
      db_try_known_devices = default_try_known_devices (reg_entries c reg),
      db_try_key_for_device = (\<lambda>d. Inr (map_option (sec1_compressed c) (key_for reg d)))\<rparr>"

section \<open>The registry invariant\<close>

definition reg_ok :: "('sk, 'vk, 'sg) crypto \<Rightarrow> 'vk registry \<Rightarrow> bool" where
  "reg_ok c reg \<longleftrightarrow> bt_ok reg \<and> (\<forall>(d, key) \<in> set reg. d = device_id_of c key)"

lemma reg_new_ok: "reg_ok c reg_new"
  by (simp add: reg_ok_def reg_new_def)

lemma insert_key_ok: "reg_ok c reg \<Longrightarrow> reg_ok c (fst (insert_key c reg key))"
  using set_bt_insert_sub [of "device_id_of c key" key reg]
  by (auto simp: reg_ok_def insert_key_def Let_def bt_ok_insert)

lemma insert_sec1_ok: "reg_ok c reg \<Longrightarrow> reg_ok c (fst (insert_sec1 c reg sec1))"
  by (auto simp: insert_sec1_def case_prod_beta insert_key_ok split: option.split)

lemma reg_remove_ok: "reg_ok c reg \<Longrightarrow> reg_ok c (reg_remove reg d)"
  by (auto simp: reg_ok_def reg_remove_def bt_ok_filter)

lemma key_for_insert:
  "reg_ok c reg \<Longrightarrow> key_for (fst (insert_key c reg key)) d =
     (if d = device_id_of c key then Some key else key_for reg d)"
  by (simp add: reg_ok_def key_for_def insert_key_def Let_def map_of_bt_insert)

lemma key_for_remove: "key_for (reg_remove reg d) e = (if e = d then None else key_for reg e)"
  by (simp add: key_for_def reg_remove_def map_of_filter_neq)

lemma key_for_derives: "reg_ok c reg \<Longrightarrow> key_for reg d = Some key \<Longrightarrow> device_id_of c key = d"
  by (auto simp: reg_ok_def key_for_def dest!: map_of_SomeD)

lemmas reg_keeps_ok = reg_new_ok insert_key_ok insert_sec1_ok reg_remove_ok

section \<open>The book contract\<close>

text \<open>
  What a server relies on of its device book: the key it resolves for a device is one the gossiped
  set lists, it derives the device's id, and resolving never disagrees with the default scan.
\<close>

locale book_contract =
  fixes c :: "('sk, 'vk, 'sg) crypto"
    and book :: "'b \<Rightarrow> device_book"
    and inv :: "'b \<Rightarrow> bool"
  assumes lookup_scan: "inv b \<Longrightarrow> db_try_key_for_device (book b) d =
            default_try_key_for_device (db_try_known_devices (book b)) d"
    and known_ok: "inv b \<Longrightarrow> db_try_known_devices (book b) = Inr (db_known_devices (book b))"
    and known_derive: "inv b \<Longrightarrow> (d, k) \<in> set (db_known_devices (book b)) \<Longrightarrow>
            \<exists>key. vk_from_sec1 c k = Some key \<and> device_id_of c key = d \<and> length k = 33"
begin

lemma lookup_known:
  assumes "inv b" "db_try_key_for_device (book b) d = Inr (Some k)"
  shows "(d, k) \<in> set (db_known_devices (book b))"
proof -
  from assms obtain e where "find (\<lambda>e. fst e = d) (db_known_devices (book b)) = Some e" "snd e = k"
    by (auto simp: lookup_scan known_ok default_try_key_for_device_def)
  then show ?thesis by (auto simp: find_Some_iff)
qed

text \<open>A resolved key only verifies ops stamped by the device it was resolved for.\<close>

lemma resolved_key_stamps:
  assumes "inv b" "db_try_key_for_device (book b) d = Inr (Some k)" "verify_with_sec1 c pc sop k = Inr ()"
  shows "body_device (op_body sop) = d"
proof -
  obtain key where "vk_from_sec1 c k = Some key" "device_id_of c key = d"
    using known_derive [OF assms(1) lookup_known [OF assms(1,2)]] by blast
  with assms(3) show ?thesis by (auto simp: verify_with_sec1_Inr dest: verify_device)
qed

end

lemma find_entries:
  "map_option snd (find (\<lambda>e. fst e = d) (reg_entries c reg)) = map_option (sec1_compressed c) (map_of reg d)"
  by (induction reg) (auto simp: reg_entries_def)

interpretation mem_book: book_contract c "registry_as_book c" "\<lambda>reg. sec1_laws c \<and> reg_ok c reg"
  for c :: "('sk, 'vk, 'sg) crypto"
proof unfold_locales
  fix reg d
  show "db_try_key_for_device (registry_as_book c reg) d =
      default_try_key_for_device (db_try_known_devices (registry_as_book c reg)) d"
    by (simp add: registry_as_book_def default_try_key_for_device_def default_try_known_devices_def
        find_entries key_for_def)
next
  fix reg d k
  assume "sec1_laws c \<and> reg_ok c reg" "(d, k) \<in> set (db_known_devices (registry_as_book c reg))"
  then show "\<exists>key. vk_from_sec1 c k = Some key \<and> device_id_of c key = d \<and> length k = 33"
    by (auto simp: registry_as_book_def reg_entries_def reg_ok_def sec1_laws_def sec1_compressed_def)
qed (simp add: registry_as_book_def default_try_known_devices_def)

text \<open>
  Keys are filed under the id they derive and nothing else. The empty registry, inserting a key,
  inserting a SEC1 encoding and removing a device keep every entry under the id its key derives; a
  device inserted from its SEC1 key resolves to a key that derives its id, other devices resolve as
  before, and a removed device resolves to nothing. The key the registry serves as a device book for a
  device verifies only ops stamped with that device.
\<close>

theorem registry_keys_derive_ids:
  assumes "sec1_laws c" "reg_ok c reg"
  shows "reg_ok c reg_new \<and> reg_ok c (fst (insert_key c reg key0)) \<and>
    reg_ok c (fst (insert_sec1 c reg sec1)) \<and> reg_ok c (reg_remove reg d) \<and>
    key_for (reg_remove reg d) d = None \<and>
    (case insert_sec1 c reg sec1 of
       (reg', Inl e) \<Rightarrow> reg' = reg \<and> e = InvalidPublicKey \<and> vk_from_sec1 c sec1 = None
     | (reg', Inr d') \<Rightarrow>
         device_id_from_sec1 c sec1 = Inr d' \<and>
         (\<exists>key. key_for reg' d' = Some key \<and> device_id_of c key = d') \<and>
         (\<forall>e. e \<noteq> d' \<longrightarrow> key_for reg' e = key_for reg e)) \<and>
    (db_try_key_for_device (registry_as_book c reg) d = Inr (Some k) \<and> verify_with_sec1 c pc sop k = Inr () \<longrightarrow>
       body_device (op_body sop) = d)"
proof -
  note keeps = insert_sec1_ok [OF assms(2), of sec1] reg_remove_ok [OF assms(2), of d]
    insert_key_ok [OF assms(2), of key0] reg_new_ok [of c]
  note stamps = mem_book.resolved_key_stamps [of c reg d k pc sop]
  show ?thesis
  proof (cases "vk_from_sec1 c sec1")
    case (Some key)
    obtain reg' d' where ins: "insert_key c reg key = (reg', d')" by fastforce
    then have "d' = device_id_of c key" by (auto simp: insert_key_def Let_def)
    then show ?thesis
      using Some ins keeps stamps assms key_for_insert [OF assms(2), of key]
      by (simp add: insert_sec1_def device_id_from_sec1_def key_for_remove)
  qed (use assms keeps stamps in \<open>simp add: insert_sec1_def key_for_remove\<close>)
qed

theorem registry_keys_derive_ids_witness:
  "reg_ok demo_crypto (fst (insert_sec1 demo_crypto [] (5 # replicate 32 0))) \<and>
   snd (insert_sec1 demo_crypto [] (5 # replicate 32 0)) = Inr (device_id_of demo_crypto 5)"
  using registry_keys_derive_ids [of demo_crypto "[]" 5 "5 # replicate 32 0" "DeviceId []" "[]" demo_codec "plain_op 1 [1] [1] ''kv'' []"]
  using demo_sec1_laws by (simp add: reg_ok_def insert_sec1_def insert_key_def Let_def demo_crypto_def)

end
