(* ===== verification/Durable.thy ===== *)
theory Durable
  imports Registry
begin

text \<open>
  Op-log durability of the reference daemon (\<open>src/durable.rs\<close>): an append-only file of
  length-prefixed envelopes, its writer with rollback and poisoning, and the replay that re-verifies
  the frames at startup and cuts a torn tail off. A file is its bytes; what the operating system
  answers to each call is an argument (\<open>append_io\<close>, \<open>replay_io\<close>), so every I/O failure is a branch.
\<close>

section \<open>Writer\<close>

datatype durability_error = DurIo | DurOp op_error | Poisoned

record writer =
  w_file :: bytes
  w_pos :: nat
  w_poisoned :: bool

text \<open>
  The answers to one append: the length query, how many bytes of the frame reach the file before a
  write or the flush fails (\<open>None\<close> if none does), the rollback's truncation and its seek.
\<close>

record append_io =
  io_metadata :: bool
  io_write_fails :: "nat option"
  io_set_len :: bool
  io_seek :: bool

definition u32_to_le_bytes :: "32 word \<Rightarrow> bytes" where
  "u32_to_le_bytes w = rev (be_digits 4 (unat w))"

definition u32_from_le_bytes :: "bytes \<Rightarrow> 32 word" where
  "u32_from_le_bytes bs = word_of_nat (be_value (rev bs))"

definition write_at :: "nat \<Rightarrow> bytes \<Rightarrow> bytes \<Rightarrow> bytes" where
  "write_at pos data file =
     take pos (file @ replicate (pos - length file) 0) @ data @ drop (pos + length data) file"

definition set_len :: "nat \<Rightarrow> bytes \<Rightarrow> bytes" where
  "set_len n file = take n (file @ replicate (n - length file) 0)"

definition writer_open :: "bool \<Rightarrow> bool \<Rightarrow> bytes option \<Rightarrow> durability_error + writer" where
  "writer_open open_ok seek_ok existing =
     (if \<not> open_ok \<or> \<not> seek_ok then Inl DurIo
      else let file = (case existing of None \<Rightarrow> [] | Some f \<Rightarrow> f) in
        Inr \<lparr>w_file = file, w_pos = length file, w_poisoned = False\<rparr>)"

definition frame_bytes :: "bytes \<Rightarrow> bytes" where
  "frame_bytes bs = u32_to_le_bytes (word_of_nat (length bs)) @ bs"

definition write_frame :: "append_io \<Rightarrow> bytes \<Rightarrow> writer \<Rightarrow> writer \<times> (durability_error + unit)" where
  "write_frame io bs w =
     (case io_write_fails io of
        None \<Rightarrow>
          (w\<lparr>w_file := write_at (w_pos w) (frame_bytes bs) (w_file w),
             w_pos := w_pos w + length (frame_bytes bs)\<rparr>, Inr ())
      | Some n \<Rightarrow>
          (let part = take n (frame_bytes bs) in
           (w\<lparr>w_file := write_at (w_pos w) part (w_file w), w_pos := w_pos w + length part\<rparr>, Inl DurIo)))"

definition writer_append ::
  "codec \<Rightarrow> append_io \<Rightarrow> signed_op \<Rightarrow> writer \<Rightarrow> writer \<times> (durability_error + unit)" where
  "writer_append pc io sop w =
     (if w_poisoned w then (w, Inl Poisoned)
      else case to_bytes pc sop of
        Inl e \<Rightarrow> (w, Inl (DurOp e))
      | Inr bs \<Rightarrow>
          if \<not> io_metadata io then (w, Inl DurIo)
          else let start = length (w_file w) in
            (case write_frame io bs w of
               (w', Inr _) \<Rightarrow> (w', Inr ())
             | (w', Inl e) \<Rightarrow>
                 let w1 = (if io_set_len io then w'\<lparr>w_file := set_len start (w_file w')\<rparr> else w');
                     w2 = (if io_set_len io \<and> io_seek io then w1\<lparr>w_pos := start\<rparr> else w1);
                     rolled_back = io_set_len io \<and> io_seek io
                 in (if rolled_back then w2 else w2\<lparr>w_poisoned := True\<rparr>, Inl e)))"

definition sync_after_batch :: "bool \<Rightarrow> writer \<Rightarrow> durability_error + unit" where
  "sync_after_batch sync_ok w = (if sync_ok then Inr () else Inl DurIo)"

section \<open>Replay\<close>

text \<open>
  The answers to a replay: whether reading the header, or the body, of the frame at an offset fails
  with something other than end of file, and whether the final truncation works.
\<close>

record replay_io =
  header_fails :: "nat \<Rightarrow> bool"
  body_fails :: "nat \<Rightarrow> bool"
  truncate_ok :: bool

definition replay_one ::
  "('sk, 'vk, 'sg) crypto \<Rightarrow> codec \<Rightarrow> 'vk registry \<Rightarrow> signed_op \<Rightarrow> op_log \<Rightarrow> op_log \<times> bool" where
  "replay_one c pc reg sop log =
     (case key_for reg (body_device (op_body sop)) of
        None \<Rightarrow> (log, False)
      | Some key \<Rightarrow> if verify c pc sop key = Inr () then log_append log sop else (log, False))"

function replay_loop ::
  "('sk, 'vk, 'sg) crypto \<Rightarrow> codec \<Rightarrow> 'vk registry \<Rightarrow> replay_io \<Rightarrow> bytes \<Rightarrow> nat \<Rightarrow> op_log \<Rightarrow> nat \<Rightarrow>
   op_log \<times> nat \<times> nat \<times> durability_error option" where
  "replay_loop c pc reg io rest valid_end log appended =
     (if header_fails io valid_end then (log, appended, valid_end, Some DurIo)
      else if length rest < 4 then (log, appended, valid_end, None)
      else let len = unat (u32_from_le_bytes (take 4 rest)) in
        if body_fails io valid_end \<or> length rest < 4 + len then (log, appended, valid_end, None)
        else case from_bytes pc (take len (drop 4 rest)) of
          Inl _ \<Rightarrow> (log, appended, valid_end, None)
        | Inr sop \<Rightarrow>
            let (log', new) = replay_one c pc reg sop log in
            replay_loop c pc reg io (drop (4 + len) rest) (valid_end + 4 + len) log'
              (if new then appended + 1 else appended))"
  by pat_completeness auto
termination
  by (relation "measure (\<lambda>(c, pc, reg, io, rest, valid_end, log, appended). length rest)") auto

declare replay_loop.simps [simp del]

definition replay_oplog_file ::
  "('sk, 'vk, 'sg) crypto \<Rightarrow> codec \<Rightarrow> 'vk registry \<Rightarrow> replay_io \<Rightarrow> bytes option \<Rightarrow> op_log \<Rightarrow>
   bytes option \<times> op_log \<times> (durability_error + nat)" where
  "replay_oplog_file c pc reg io file log =
     (case file of
        None \<Rightarrow> (None, log, Inr 0)
      | Some bs \<Rightarrow>
          (case replay_loop c pc reg io bs 0 log 0 of
             (log', appended, valid_end, Some e) \<Rightarrow> (Some bs, log', Inl e)
           | (log', appended, valid_end, None) \<Rightarrow>
               if valid_end < length bs then
                 (if truncate_ok io then (Some (set_len valid_end bs), log', Inr appended)
                  else (Some bs, log', Inl DurIo))
               else (Some bs, log', Inr appended)))"

section \<open>Frames\<close>

definition frame :: "codec \<Rightarrow> signed_op \<Rightarrow> bytes" where
  "frame pc sop = frame_bytes (env_bytes pc sop)"

definition frames :: "codec \<Rightarrow> signed_op list \<Rightarrow> bytes" where
  "frames pc sops = concat (map (frame pc) sops)"

lemma u32_le_roundtrip [simp]: "u32_from_le_bytes (u32_to_le_bytes w) = w"
proof -
  have "unat w < 256 ^ 4" using unsigned_less [of w] by simp
  then show ?thesis by (simp add: u32_from_le_bytes_def u32_to_le_bytes_def be_value_digits)
qed

lemma length_u32_to_le_bytes [simp]: "length (u32_to_le_bytes w) = 4"
  by (simp add: u32_to_le_bytes_def)

lemma length_frame_bytes [simp]: "length (frame_bytes bs) = 4 + length bs"
  by (simp add: frame_bytes_def)

lemma frames_simps [simp]:
  "frames pc [] = []" "frames pc (x # xs) = frame pc x @ frames pc xs"
  "frames pc (xs @ ys) = frames pc xs @ frames pc ys"
  by (simp_all add: frames_def)

lemma write_at_end: "write_at (length file) data file = file @ data"
  by (simp add: write_at_def)

lemma set_len_prefix: "set_len (length xs) (xs @ ys) = xs"
  by (simp add: set_len_def)

lemma set_len_take: "n \<le> length xs \<Longrightarrow> set_len n xs = take n xs"
  by (simp add: set_len_def)

section \<open>The writer under faults\<close>

text \<open>A run of append attempts, each with its own answers, and the ops it acknowledged.\<close>

fun run_writer :: "codec \<Rightarrow> (append_io \<times> signed_op) list \<Rightarrow> writer \<Rightarrow> writer \<times> signed_op list" where
  "run_writer pc [] w = (w, [])"
| "run_writer pc ((io, sop) # rest) w =
     (case writer_append pc io sop w of
        (w', Inr _) \<Rightarrow> (let (w'', acked) = run_writer pc rest w' in (w'', sop # acked))
      | (w', Inl _) \<Rightarrow> run_writer pc rest w')"

definition writer_ok :: "writer \<Rightarrow> bool" where
  "writer_ok w \<longleftrightarrow> \<not> w_poisoned w \<and> w_pos w = length (w_file w)"

text \<open>One append leaves a writer that is ready again or one that is poisoned.\<close>

lemma writer_append_cases:
  assumes "codec_laws pc" "writer_ok w" "writer_append pc io sop w = (w', res)"
  shows "(res = Inr () \<and> writer_ok w' \<and> w_file w' = w_file w @ frame pc sop) \<or>
    ((\<exists>e. res = Inl e) \<and> writer_ok w' \<and> w_file w' = w_file w) \<or>
    ((\<exists>e. res = Inl e) \<and> w_poisoned w' \<and> (\<exists>n. w_file w' = w_file w @ take n (frame pc sop)))"
proof -
  have pos: "w_pos w = length (w_file w)" and live: "\<not> w_poisoned w"
    using assms(2) by (auto simp: writer_ok_def)
  show ?thesis
  proof (cases "io_metadata io")
    case False
    then show ?thesis using assms live by (auto simp: writer_append_def to_bytes_total)
  next
    case True
    show ?thesis
    proof (cases "io_write_fails io")
      case None
      then show ?thesis
        using assms(3) live pos True
        by (auto simp: writer_append_def to_bytes_total [OF assms(1)] write_frame_def write_at_end
            writer_ok_def frame_def)
    next
      case (Some n)
      let ?part = "take n (frame pc sop)"
      consider "io_set_len io \<and> io_seek io" | "io_set_len io \<and> \<not> io_seek io" | "\<not> io_set_len io" by blast
      then show ?thesis
      proof cases
        case 1
        then show ?thesis
          using assms(3) live pos True Some
          by (auto simp: writer_append_def to_bytes_total [OF assms(1)] write_frame_def write_at_end
              set_len_prefix writer_ok_def frame_def Let_def)
      next
        case 2
        then have "w_poisoned w' \<and> w_file w' = w_file w @ take 0 (frame pc sop) \<and> (\<exists>e. res = Inl e)"
          using assms(3) live pos True Some
          by (auto simp: writer_append_def to_bytes_total [OF assms(1)] write_frame_def write_at_end
              set_len_prefix frame_def Let_def)
        then show ?thesis by blast
      next
        case 3
        then have "w_poisoned w' \<and> w_file w' = w_file w @ ?part \<and> (\<exists>e. res = Inl e)"
          using assms(3) live pos True Some
          by (auto simp: writer_append_def to_bytes_total [OF assms(1)] write_frame_def write_at_end
              frame_def Let_def)
        then show ?thesis by blast
      qed
    qed
  qed
qed

lemma poisoned_stays: "w_poisoned w \<Longrightarrow> run_writer pc attempts w = (w, [])"
  by (induction attempts) (auto simp: writer_append_def)

lemma run_writer_file:
  assumes "codec_laws pc" "writer_ok w" "run_writer pc attempts w = (w', acked)"
  shows "\<exists>tail. w_file w' = w_file w @ frames pc acked @ tail \<and>
    set acked \<subseteq> snd ` set attempts \<and>
    (if w_poisoned w' then \<exists>sop \<in> snd ` set attempts. \<exists>n. tail = take n (frame pc sop)
     else tail = [] \<and> w_pos w' = length (w_file w'))"
  using assms(2,3)
proof (induction attempts arbitrary: w acked)
  case Nil
  then show ?case by (auto simp: writer_ok_def)
next
  case (Cons a rest)
  obtain io sop where a: "a = (io, sop)" by fastforce
  obtain v res where v: "writer_append pc io sop w = (v, res)" by fastforce
  from writer_append_cases [OF assms(1) Cons.prems(1) v]
  consider (acked) "res = Inr ()" "writer_ok v" "w_file v = w_file w @ frame pc sop"
    | (rolled) e where "res = Inl e" "writer_ok v" "w_file v = w_file w"
    | (poisoned) e n where "res = Inl e" "w_poisoned v" "w_file v = w_file w @ take n (frame pc sop)"
    by blast
  then show ?case
  proof cases
    case acked
    obtain acked' where r: "run_writer pc rest v = (w', acked')" "acked = sop # acked'"
      using Cons.prems(2) acked v a by (auto split: prod.splits)
    show ?thesis using Cons.IH [OF acked(2) r(1)] acked(3) r(2) a by auto
  next
    case rolled
    then have r: "run_writer pc rest v = (w', acked)" using Cons.prems(2) v a by simp
    show ?thesis using Cons.IH [OF rolled(2) r] rolled(3) a by auto
  next
    case poisoned
    then have "w' = v" "acked = []" using Cons.prems(2) v a poisoned_stays by auto
    then show ?thesis using poisoned a by auto
  qed
qed

section \<open>Recovery\<close>

text \<open>An op the registry can verify and whose frame length fits the prefix.\<close>

definition recoverable :: "('sk, 'vk, 'sg) crypto \<Rightarrow> codec \<Rightarrow> 'vk registry \<Rightarrow> signed_op \<Rightarrow> bool" where
  "recoverable c pc reg sop \<longleftrightarrow>
     op_wf sop \<and> length (env_bytes pc sop) < 2 ^ 32 \<and>
     (\<exists>key. key_for reg (body_device (op_body sop)) = Some key \<and> verify c pc sop key = Inr ())"

definition faultless :: "replay_io \<Rightarrow> bool" where
  "faultless io \<longleftrightarrow> (\<forall>n. \<not> header_fails io n \<and> \<not> body_fails io n) \<and> truncate_ok io"

lemma recoverable_replay: "recoverable c pc reg sop \<Longrightarrow> replay_one c pc reg sop log = log_append log sop"
  by (auto simp: recoverable_def replay_one_def)

lemma from_env_bytes: "codec_laws pc \<Longrightarrow> op_wf sop \<Longrightarrow> from_bytes pc (env_bytes pc sop) = Inr sop"
  using from_to_bytes [of pc sop] by (auto simp: env_bytes_def)

lemma frame_header:
  assumes "length (env_bytes pc sop) < 2 ^ 32" "4 \<le> n"
  shows "unat (u32_from_le_bytes (take 4 (take n (frame pc sop @ rest)))) = length (env_bytes pc sop)"
proof -
  have "take 4 (take n (frame pc sop @ rest)) = u32_to_le_bytes (word_of_nat (length (env_bytes pc sop)))"
    using assms(2) by (simp add: frame_def frame_bytes_def min_def)
  then show ?thesis using assms(1) by (simp add: unat_of_nat)
qed

lemma replay_step:
  assumes "faultless io" "unat (u32_from_le_bytes (take 4 bs)) = len" "4 + len \<le> length bs"
    and "from_bytes pc (take len (drop 4 bs)) = Inr sop"
  shows "replay_loop c pc reg io bs valid_end log appended =
    replay_loop c pc reg io (drop (4 + len) bs) (valid_end + 4 + len) (fst (replay_one c pc reg sop log))
      (if snd (replay_one c pc reg sop log) then appended + 1 else appended)"
  using assms by (subst replay_loop.simps) (simp add: faultless_def Let_def case_prod_beta)

lemma replay_whole_frame:
  assumes "codec_laws pc" "faultless io" "recoverable c pc reg sop"
  shows "replay_loop c pc reg io (frame pc sop @ rest) valid_end log appended =
    replay_loop c pc reg io rest (valid_end + length (frame pc sop)) (fst (log_append log sop))
      (if snd (log_append log sop) then appended + 1 else appended)"
proof -
  have len: "length (env_bytes pc sop) < 2 ^ 32" and wf: "op_wf sop"
    using assms(3) by (auto simp: recoverable_def)
  have head: "unat (u32_from_le_bytes (take 4 (frame pc sop @ rest))) = length (env_bytes pc sop)"
    using frame_header [OF len, of "4 + length (frame pc sop @ rest)" rest] by simp
  have body: "take (length (env_bytes pc sop)) (drop 4 (frame pc sop @ rest)) = env_bytes pc sop"
    by (simp add: frame_def frame_bytes_def)
  have skip: "drop (4 + length (env_bytes pc sop)) (frame pc sop @ rest) = rest"
    by (simp add: frame_def)
  have size: "length (frame pc sop) = 4 + length (env_bytes pc sop)" by (simp add: frame_def)
  then have "4 + length (env_bytes pc sop) \<le> length (frame pc sop @ rest)" by simp
  from replay_step [OF assms(2) head this, unfolded body, OF from_env_bytes [OF assms(1) wf],
      where c = c and reg = reg and log = log]
  show ?thesis by (simp only: skip recoverable_replay [OF assms(3)] size add.assoc)
qed

lemma replay_stop:
  assumes "faultless io" "length bs < 4 \<or> length bs < 4 + unat (u32_from_le_bytes (take 4 bs))"
  shows "replay_loop c pc reg io bs valid_end log appended = (log, appended, valid_end, None)"
  using assms by (subst replay_loop.simps) (auto simp: faultless_def Let_def)

lemma replay_torn_frame:
  assumes "faultless io" "length (env_bytes pc sop) < 2 ^ 32" "n < length (frame pc sop)"
  shows "replay_loop c pc reg io (take n (frame pc sop)) valid_end log appended = (log, appended, valid_end, None)"
proof (rule replay_stop [OF assms(1)])
  have len: "length (take n (frame pc sop)) = n" "n < 4 + length (env_bytes pc sop)"
    using assms(3) by (auto simp: frame_def)
  show "length (take n (frame pc sop)) < 4 \<or>
      length (take n (frame pc sop)) < 4 + unat (u32_from_le_bytes (take 4 (take n (frame pc sop))))"
  proof (cases "n < 4")
    case False
    then show ?thesis
      using frame_header [OF assms(2), of n "[]"] len by (simp only: append_Nil2 not_less simp_thms)
  qed (use len in simp)
qed

lemma replay_end: "faultless io \<Longrightarrow> replay_loop c pc reg io [] valid_end log appended = (log, appended, valid_end, None)"
  by (subst replay_loop.simps) (simp add: faultless_def)

definition append_all :: "op_log \<Rightarrow> signed_op list \<Rightarrow> op_log" where
  "append_all log sops = foldl (\<lambda>log sop. fst (log_append log sop)) log sops"

definition count_new :: "op_log \<Rightarrow> signed_op list \<Rightarrow> nat" where
  "count_new log sops = log_len (append_all log sops) - log_len log"

lemma append_all_simps [simp]:
  "append_all log [] = log" "append_all log (x # xs) = append_all (fst (log_append log x)) xs"
  by (simp_all add: append_all_def)

lemma log_len_append:
  "log_ok log \<Longrightarrow> log_len (fst (log_append log sop)) = log_len log + (if snd (log_append log sop) then 1 else 0)"
proof (cases "op_id sop \<in> log_ids log")
  case False
  assume ok: "log_ok log"
  have "order_key sop \<notin> fst ` set (log_ops log)"
  proof
    assume "order_key sop \<in> fst ` set (log_ops log)"
    then obtain x where "(order_key sop, x) \<in> set (log_ops log)" by auto
    then have "order_key sop = order_key x" "x \<in> set (log_iter log)"
      using ok by (auto simp: log_ok_def log_iter_def intro: rev_image_eqI)
    then show False using False ok by (auto simp: log_ok_def order_key_def)
  qed
  then show ?thesis using False by (simp add: log_len_def log_append_def length_bt_insert_new)
qed (simp add: log_append_def)

lemma append_all_len: "log_ok log \<Longrightarrow> log_len log \<le> log_len (append_all log xs) \<and> log_ok (append_all log xs)"
proof (induction xs arbitrary: log)
  case (Cons x xs)
  show ?case
    using Cons.IH [OF log_append_ok [OF Cons.prems, of x]] log_len_append [OF Cons.prems, of x] by simp
qed simp

lemma replay_prefix:
  assumes "codec_laws pc" "faultless io" "\<And>sop. sop \<in> set sops \<Longrightarrow> recoverable c pc reg sop" "log_ok log"
  shows "\<exists>n \<le> length sops. length (frames pc (take n sops)) \<le> k \<and>
    (n < length sops \<longrightarrow> k < length (frames pc (take (Suc n) sops))) \<and>
    replay_loop c pc reg io (take k (frames pc sops)) valid_end log appended =
      (append_all log (take n sops), appended + count_new log (take n sops),
       valid_end + length (frames pc (take n sops)), None)"
  using assms(3,4)
proof (induction sops arbitrary: k valid_end log appended)
  case Nil
  then show ?case using replay_end [OF assms(2)] by (simp add: count_new_def)
next
  case (Cons x sops)
  have rx: "recoverable c pc reg x" and len: "length (env_bytes pc x) < 2 ^ 32"
    using Cons.prems(1) [of x] by (auto simp: recoverable_def)
  show ?case
  proof (cases "k < length (frame pc x)")
    case True
    then show ?thesis
      using replay_torn_frame [OF assms(2) len True]
      by (intro exI [of _ 0]) (simp add: count_new_def)
  next
    case False
    let ?log = "fst (log_append log x)"
    have ok: "log_ok ?log" by (rule log_append_ok [OF Cons.prems(2)])
    let ?app = "if snd (log_append log x) then appended + 1 else appended"
    obtain n where n: "n \<le> length sops" "length (frames pc (take n sops)) \<le> k - length (frame pc x)"
      "n < length sops \<longrightarrow> k - length (frame pc x) < length (frames pc (take (Suc n) sops))"
      "replay_loop c pc reg io (take (k - length (frame pc x)) (frames pc sops)) (valid_end + length (frame pc x)) ?log ?app =
        (append_all ?log (take n sops), ?app + count_new ?log (take n sops),
         valid_end + length (frame pc x) + length (frames pc (take n sops)), None)"
      using Cons.IH [OF Cons.prems(1) ok] by (metis (no_types, lifting) list.set_intros(2))
    have split: "take k (frames pc (x # sops)) = frame pc x @ take (k - length (frame pc x)) (frames pc sops)"
      using False by simp
    have "?app + count_new ?log (take n sops) = appended + count_new log (take (Suc n) (x # sops))"
      using log_len_append [OF Cons.prems(2), of x] append_all_len [OF ok, of "take n sops"]
      by (auto simp: count_new_def)
    then show ?thesis
      using n False unfolding split replay_whole_frame [OF assms(1,2) rx]
      by (intro exI [of _ "Suc n"]) (auto simp: add.assoc)
  qed
qed

section \<open>Properties\<close>



text \<open>
  C3: Crash recovery. If a crash leaves any byte prefix of a clean op-log file, replay without further
  I/O errors succeeds, brings back exactly the ops whose frames are whole in that prefix, counts the
  ones new to the log, and truncates the file to their frames, so a reopened writer continues at a
  frame boundary.
\<close>

theorem crash_prefix_recovers:
  assumes "codec_laws pc" "faultless io" "\<And>sop. sop \<in> set sops \<Longrightarrow> recoverable c pc reg sop" "log_ok log"
    and "bs = take k (frames pc sops)"
  shows "\<exists>n \<le> length sops. length (frames pc (take n sops)) \<le> k \<and>
    (n < length sops \<longrightarrow> k < length (frames pc (take (Suc n) sops))) \<and>
    replay_oplog_file c pc reg io (Some bs) log =
      (Some (frames pc (take n sops)), append_all log (take n sops), Inr (count_new log (take n sops)))"
proof -
  obtain n where n: "n \<le> length sops" "length (frames pc (take n sops)) \<le> k"
      "n < length sops \<longrightarrow> k < length (frames pc (take (Suc n) sops))"
      "replay_loop c pc reg io (take k (frames pc sops)) 0 log 0 =
        (append_all log (take n sops), 0 + count_new log (take n sops), 0 + length (frames pc (take n sops)), None)"
    using replay_prefix [OF assms(1-4)] by blast
  let ?v = "frames pc (take n sops)"
  have pre: "frames pc sops = ?v @ frames pc (drop n sops)"
    by (metis append_take_drop_id frames_simps(3))
  have "length ?v \<le> length bs" using n(2) unfolding assms(5) pre by simp
  have "bs = ?v @ take (k - length ?v) (frames pc (drop n sops))" using n(2) unfolding assms(5) pre by simp
  then have "set_len (length ?v) bs = ?v" by (metis set_len_prefix)
  moreover have "\<not> length ?v < length bs \<Longrightarrow> bs = ?v"
    using \<open>length ?v \<le> length bs\<close> calculation by (simp add: set_len_def)
  ultimately show ?thesis
    using n assms(2,5) by (auto simp: replay_oplog_file_def faultless_def)
qed

theorem crash_prefix_recovers_witness:
  "let io = \<lparr>header_fails = (\<lambda>_. False), body_fails = (\<lambda>_. False), truncate_ok = True\<rparr>;
       sops = [demo_op 5 42 [1], demo_op 5 43 [2]]; reg = [(device_id_of demo_crypto 5, 5)] in
   \<exists>n \<le> length sops. length (frames demo_codec (take n sops)) \<le> 300 \<and>
    (n < length sops \<longrightarrow> 300 < length (frames demo_codec (take (Suc n) sops))) \<and>
    replay_oplog_file demo_crypto demo_codec reg io (Some (take 300 (frames demo_codec sops))) (log_new []) =
      (Some (frames demo_codec (take n sops)), append_all (log_new []) (take n sops), Inr (count_new (log_new []) (take n sops)))"
proof -
  have "recoverable demo_crypto demo_codec [(device_id_of demo_crypto 5, 5)] (demo_op 5 h [x])" for h x
    using demo_op_bytes [of 5 h "[x]"] demo_op_wf [of 5 h "[x]"] demo_op_verifies [of 5 h "[x]"]
    by (auto simp: recoverable_def key_for_def demo_op_body env_bytes_def)
  then show ?thesis
    unfolding Let_def
    by (intro crash_prefix_recovers [OF demo_codec_laws _ _ log_new_ok refl]) (auto simp: faultless_def)
qed

text \<open>
  C38: Replay does not tell a failing disk from a torn tail: when reading the body of a frame fails for
  any reason, the frame and everything after it is cut off the file and the replay reports success
  with what it had read so far. On a first frame whose read fails this empties the whole file.
\<close>

theorem body_read_error_truncates:
  assumes "\<not> header_fails io 0" "body_fails io 0" "truncate_ok io" "4 \<le> length bs"
  shows "replay_oplog_file c pc reg io (Some bs) log = (Some [], log, Inr 0)"
proof -
  have "replay_loop c pc reg io bs 0 log 0 = (log, 0, 0, None)"
    using assms(1,2,4) by (subst replay_loop.simps) (simp add: Let_def)
  then show ?thesis using assms(3,4) by (auto simp: replay_oplog_file_def set_len_def)
qed

theorem body_read_error_truncates_witness:
  "let io = \<lparr>header_fails = (\<lambda>_. False), body_fails = (\<lambda>n. n = 0), truncate_ok = True\<rparr>;
       sops = [demo_op 5 42 [1], demo_op 5 43 [2]]; reg = [(device_id_of demo_crypto 5, 5)] in
   replay_oplog_file demo_crypto demo_codec reg io (Some (frames demo_codec sops)) (log_new []) =
     (Some [], log_new [], Inr 0)"
  unfolding Let_def by (rule body_read_error_truncates) (simp_all add: frame_def)

end
