(* ===== verification/RelayWire.thy ===== *)
theory RelayWire
  imports Durable
begin

text \<open>
  Relay v2 on the wire (\<open>src/net/mod.rs\<close>, \<open>src/net/relay.rs\<close>): cursors and response bodies, the
  signing inputs of requests, responses and device books, request authentication with its replay
  cache, and the client's validation of a response. An \<open>Instant\<close> is a natural number of nanoseconds;
  a \<open>u64\<close> is a natural number, with \<open>2 ^ 64\<close> written out where the code checks for overflow. The bodies
  are encoded by postcard, a parameter (\<open>net_codec\<close>).
\<close>

section \<open>Types\<close>

datatype transport_error =
    THttp
  | TWire
  | TRelayUnsupported nat
  | TReplay
  | TVerify device_id "op_error option"
  | TDrift device_id hlc
  | TOp op_error
  | TIdentity identity_error
  | TDurability durability_error
  | TIdentityMismatch device_id device_id

datatype status =
    BAD_REQUEST
  | UNAUTHORIZED
  | FORBIDDEN
  | NOT_FOUND
  | CONFLICT
  | TOO_MANY_REQUESTS
  | INTERNAL_SERVER_ERROR
  | NOT_IMPLEMENTED
  | SERVICE_UNAVAILABLE

text \<open>A header value; \<open>Opaque\<close> is one \<open>to_str\<close> refuses.\<close>

datatype header_value = Visible string | Opaque

type_synonym header_map = "(string \<times> header_value) list"

record http_ok =
  resp_headers :: header_map
  resp_body :: bytes

definition to_str :: "header_value \<Rightarrow> string option" where
  "to_str v = (case v of Visible s \<Rightarrow> Some s | Opaque \<Rightarrow> None)"

definition DEFAULT_PULL_LIMIT :: nat where
  "DEFAULT_PULL_LIMIT = 512"

definition RELAY_PROTOCOL_VERSION :: byte where
  "RELAY_PROTOCOL_VERSION = 2"

record identity_resp =
  ir_device_id :: bytes
  ir_public_key :: bytes

record pull_response =
  pr_ops :: "bytes list"
  pr_next :: bytes

record relay_cursor =
  cur_epoch :: bytes
  cur_after :: nat

definition zero_epoch :: bytes where
  "zero_epoch = replicate 32 0"

definition RELAY_START :: relay_cursor where
  "RELAY_START = \<lparr>cur_epoch = zero_epoch, cur_after = 0\<rparr>"

record relay_wire_entry =
  we_seq :: nat
  we_envelope :: bytes

record relay_response =
  rr_v :: byte
  rr_epoch :: bytes
  rr_head :: nat
  rr_floor :: nat
  rr_next :: nat
  rr_reset :: bool
  rr_entries :: "relay_wire_entry list"

record relay_op =
  ro_seq :: nat
  ro_op :: signed_op

record relay_page =
  rp_epoch :: bytes
  rp_head :: nat
  rp_floor :: nat
  rp_next :: nat
  rp_reset :: bool
  rp_entries :: "relay_op list"

definition page_cursor :: "relay_page \<Rightarrow> relay_cursor" where
  "page_cursor p = \<lparr>cur_epoch = rp_epoch p, cur_after = rp_next p\<rparr>"

record device_entry =
  de_device_id :: bytes
  de_public_key :: bytes

definition encode_order_key :: "order_key \<Rightarrow> string" where
  "encode_order_key k = encode_hex (to_wire k)"

definition decode_fixed_hex :: "nat \<Rightarrow> string \<Rightarrow> bytes option" where
  "decode_fixed_hex n s =
     (case decode_hex s of None \<Rightarrow> None | Some bs \<Rightarrow> if length bs = n then Some bs else None)"

definition decode_order_key :: "string \<Rightarrow> order_key option" where
  "decode_order_key s = map_option from_wire (decode_fixed_hex 72 s)"

record net_codec =
  nc_identity_to :: "identity_resp \<Rightarrow> bytes option"
  nc_identity_from :: "bytes \<Rightarrow> identity_resp option"
  nc_pull_to :: "pull_response \<Rightarrow> bytes option"
  nc_pull_from :: "bytes \<Rightarrow> pull_response option"
  nc_relay_to :: "relay_response \<Rightarrow> bytes option"
  nc_relay_from :: "bytes \<Rightarrow> relay_response option"
  nc_devices_to :: "device_entry list \<Rightarrow> bytes option"
  nc_devices_from :: "bytes \<Rightarrow> device_entry list option"

definition net_codec_laws :: "net_codec \<Rightarrow> bool" where
  "net_codec_laws nc \<longleftrightarrow>
     (\<forall>x. \<exists>bs. nc_identity_to nc x = Some bs \<and> nc_identity_from nc bs = Some x) \<and>
     (\<forall>x. \<exists>bs. nc_pull_to nc x = Some bs \<and> nc_pull_from nc bs = Some x) \<and>
     (\<forall>x. \<exists>bs. nc_relay_to nc x = Some bs \<and> nc_relay_from nc bs = Some x) \<and>
     (\<forall>x. \<exists>bs. nc_devices_to nc x = Some bs \<and> nc_devices_from nc bs = Some x)"

section \<open>Contexts and signing inputs\<close>

definition ctx :: "string \<Rightarrow> bytes" where
  "ctx s = map of_char s @ [0]"

definition RELAY_OPS_SIGNING_CONTEXT :: bytes where
  "RELAY_OPS_SIGNING_CONTEXT = ctx ''proxy-node-server/relay/ops/v2''"

definition RELAY_HEAD_SIGNING_CONTEXT :: bytes where
  "RELAY_HEAD_SIGNING_CONTEXT = ctx ''proxy-node-server/relay/head/v2''"

definition RELAY_WATCH_SIGNING_CONTEXT :: bytes where
  "RELAY_WATCH_SIGNING_CONTEXT = ctx ''proxy-node-server/relay/watch/v2''"

definition RELAY_OPS_REQUEST_CONTEXT :: bytes where
  "RELAY_OPS_REQUEST_CONTEXT = ctx ''proxy-node-server/relay/request/ops/v2''"

definition RELAY_HEAD_REQUEST_CONTEXT :: bytes where
  "RELAY_HEAD_REQUEST_CONTEXT = ctx ''proxy-node-server/relay/request/head/v2''"

definition RELAY_WATCH_REQUEST_CONTEXT :: bytes where
  "RELAY_WATCH_REQUEST_CONTEXT = ctx ''proxy-node-server/relay/request/watch/v2''"

definition DEVICE_BOOK_SIGNING_CONTEXT :: bytes where
  "DEVICE_BOOK_SIGNING_CONTEXT = ctx ''proxy-node-server/device-book/v2''"

definition RELAY_NONCE_HEADER :: string where
  "RELAY_NONCE_HEADER = ''x-proxy-relay-nonce''"

definition RELAY_CALLER_HEADER :: string where
  "RELAY_CALLER_HEADER = ''x-proxy-relay-caller''"

definition RELAY_REQUEST_SIGNATURE_HEADER :: string where
  "RELAY_REQUEST_SIGNATURE_HEADER = ''x-proxy-relay-request-signature''"

definition RELAY_SIGNATURE_HEADER :: string where
  "RELAY_SIGNATURE_HEADER = ''x-proxy-relay-signature''"

definition DEVICE_BOOK_NONCE_HEADER :: string where
  "DEVICE_BOOK_NONCE_HEADER = ''x-proxy-device-book-nonce''"

definition DEVICE_BOOK_SIGNATURE_HEADER :: string where
  "DEVICE_BOOK_SIGNATURE_HEADER = ''x-proxy-device-book-signature''"

definition RELAY_REPLAY_TTL :: nat where
  "RELAY_REPLAY_TTL = 5 * 60 * 1000000000"

definition RELAY_REPLAY_LIMIT :: nat where
  "RELAY_REPLAY_LIMIT = 4096"

type_synonym replay_cache = "((device_id \<times> bytes) \<times> nat) list"

definition relay_request_signing_input ::
  "bytes \<Rightarrow> device_id \<Rightarrow> device_id \<Rightarrow> bytes \<Rightarrow> nat \<Rightarrow> nat \<Rightarrow> bytes \<Rightarrow> bytes" where
  "relay_request_signing_input context caller serving_peer request_epoch after request_bound nonce =
     context @ as_bytes caller @ as_bytes serving_peer @ request_epoch @ be_digits 8 after @
     be_digits 8 request_bound @ nonce"

definition sign_relay_request ::
  "('sk, 'vk, 'sg) crypto \<Rightarrow> ('sk, 'vk) device_identity \<Rightarrow> bytes \<Rightarrow> device_id \<Rightarrow> bytes \<Rightarrow> nat \<Rightarrow> nat \<Rightarrow> bytes \<Rightarrow> bytes" where
  "sign_relay_request c identity context serving_peer request_epoch after request_bound nonce =
     sig_to_bytes c (low_s c (identity_sign c identity
       (relay_request_signing_input context (device_id identity) serving_peer request_epoch after request_bound nonce)))"

definition relay_response_signing_input ::
  "bytes \<Rightarrow> device_id \<Rightarrow> device_id \<Rightarrow> bytes \<Rightarrow> nat \<Rightarrow> nat \<Rightarrow> bytes \<Rightarrow> bytes \<Rightarrow> bytes" where
  "relay_response_signing_input context signer caller request_epoch after request_bound nonce body =
     context @ as_bytes signer @ as_bytes caller @ request_epoch @ be_digits 8 after @
     be_digits 8 request_bound @ nonce @ body"

definition sign_relay_response ::
  "('sk, 'vk, 'sg) crypto \<Rightarrow> ('sk, 'vk) device_identity \<Rightarrow> device_id \<Rightarrow> bytes \<Rightarrow> bytes \<Rightarrow> nat \<Rightarrow> nat \<Rightarrow> bytes \<Rightarrow> bytes \<Rightarrow> bytes" where
  "sign_relay_response c identity caller context request_epoch after request_bound nonce body =
     sig_to_bytes c (low_s c (identity_sign c identity
       (relay_response_signing_input context (device_id identity) caller request_epoch after request_bound nonce body)))"

definition device_book_signing_input :: "device_id \<Rightarrow> bytes \<Rightarrow> bytes \<Rightarrow> bytes" where
  "device_book_signing_input signer nonce body =
     DEVICE_BOOK_SIGNING_CONTEXT @ as_bytes signer @ nonce @ body"

definition sign_device_book ::
  "('sk, 'vk, 'sg) crypto \<Rightarrow> ('sk, 'vk) device_identity \<Rightarrow> bytes \<Rightarrow> bytes \<Rightarrow> bytes" where
  "sign_device_book c identity nonce body =
     sig_to_bytes c (low_s c (identity_sign c identity (device_book_signing_input (device_id identity) nonce body)))"

section \<open>Authenticating a request\<close>

record relay_request_auth =
  ra_epoch :: bytes
  ra_nonce :: bytes
  ra_caller :: device_id

definition header_text :: "header_map \<Rightarrow> string \<Rightarrow> string option" where
  "header_text headers name =
     (case map_of headers name of None \<Rightarrow> None | Some v \<Rightarrow> to_str v)"

text \<open>Everything \<open>relay_request\<close> checks before it touches the replay cache.\<close>

definition relay_request_fields ::
  "string \<Rightarrow> nat \<Rightarrow> header_map \<Rightarrow> status + (bytes \<times> bytes \<times> device_id \<times> bytes)" where
  "relay_request_fields epoch_text after headers =
     and_then (ok_or BAD_REQUEST (decode_fixed_hex 32 epoch_text)) (\<lambda>epoch.
       if epoch = zero_epoch \<and> after \<noteq> 0 then Inl BAD_REQUEST
       else and_then (ok_or BAD_REQUEST (map_of headers RELAY_NONCE_HEADER)) (\<lambda>nonce_value.
         and_then (ok_or UNAUTHORIZED (Option.bind (to_str nonce_value) (decode_fixed_hex 32))) (\<lambda>nonce.
           and_then (ok_or UNAUTHORIZED
               (Option.bind (header_text headers RELAY_CALLER_HEADER) (decode_fixed_hex 32))) (\<lambda>caller.
             and_then (ok_or UNAUTHORIZED
                 (Option.bind (header_text headers RELAY_REQUEST_SIGNATURE_HEADER) (decode_fixed_hex 64)))
               (\<lambda>sg. Inr (epoch, nonce, DeviceId caller, sg))))))"

definition relay_request_check ::
  "('sk, 'vk, 'sg) crypto \<Rightarrow> string \<Rightarrow> nat \<Rightarrow> nat \<Rightarrow> header_map \<Rightarrow> bytes \<Rightarrow> device_id \<Rightarrow> device_book \<Rightarrow>
   status + relay_request_auth" where
  "relay_request_check c epoch_text after request_bound headers request_context serving_peer devices =
     and_then (relay_request_fields epoch_text after headers) (\<lambda>(epoch, nonce, caller, sig_bytes).
       and_then (ok_or UNAUTHORIZED (sig_from_slice c sig_bytes)) (\<lambda>sg.
         if sig_normalize_s c sg \<noteq> None then Inl UNAUTHORIZED
         else and_then (map_err (\<lambda>_. SERVICE_UNAVAILABLE) (db_try_key_for_device devices caller)) (\<lambda>key.
           and_then (ok_or UNAUTHORIZED key) (\<lambda>sec1.
             if ok (device_id_from_sec1 c sec1) \<noteq> Some caller then Inl UNAUTHORIZED
             else and_then (ok_or UNAUTHORIZED (vk_from_sec1 c sec1)) (\<lambda>verifying.
               and_then (map_err (\<lambda>_. UNAUTHORIZED)
                   (identity_verify c verifying
                     (relay_request_signing_input request_context caller serving_peer epoch after request_bound nonce) sg))
                 (\<lambda>_. Inr \<lparr>ra_epoch = epoch, ra_nonce = nonce, ra_caller = caller\<rparr>))))))"

definition admit_nonce :: "nat \<Rightarrow> device_id \<times> bytes \<Rightarrow> replay_cache \<Rightarrow> replay_cache \<times> (status + unit)" where
  "admit_nonce now k cache =
     (let kept = filter (\<lambda>e. now - snd e \<le> RELAY_REPLAY_TTL) cache in
      if map_of kept k \<noteq> None then (kept, Inl CONFLICT)
      else if length kept \<ge> RELAY_REPLAY_LIMIT then (kept, Inl TOO_MANY_REQUESTS)
      else ((k, now) # kept, Inr ()))"

definition relay_request ::
  "('sk, 'vk, 'sg) crypto \<Rightarrow> nat \<Rightarrow> string \<Rightarrow> nat \<Rightarrow> nat \<Rightarrow> header_map \<Rightarrow> bytes \<Rightarrow> device_id \<Rightarrow> device_book \<Rightarrow>
   replay_cache \<Rightarrow> replay_cache \<times> (status + relay_request_auth)" where
  "relay_request c now epoch_text after request_bound headers request_context serving_peer devices replays =
     (case relay_request_check c epoch_text after request_bound headers request_context serving_peer devices of
        Inl s \<Rightarrow> (replays, Inl s)
      | Inr auth \<Rightarrow>
          (case admit_nonce now (ra_caller auth, ra_nonce auth) replays of
             (replays', Inl s) \<Rightarrow> (replays', Inl s)
           | (replays', Inr _) \<Rightarrow> (replays', Inr auth)))"

section \<open>Stream state and resets\<close>

definition relay_needs_reset :: "bytes \<Rightarrow> nat \<Rightarrow> relay_stream_state \<Rightarrow> bool" where
  "relay_needs_reset request_epoch after state \<longleftrightarrow>
     request_epoch = zero_epoch \<and> rs_floor state > 0 \<or>
     request_epoch \<noteq> zero_epoch \<and> request_epoch \<noteq> rs_epoch state \<or>
     request_epoch = rs_epoch state \<and> (after < rs_floor state \<or> after > rs_head state)"

definition valid_relay_state :: "relay_stream_state \<Rightarrow> bool" where
  "valid_relay_state state \<longleftrightarrow> rs_epoch state \<noteq> zero_epoch \<and> rs_floor state \<le> rs_head state"

definition signed_relay_response ::
  "('sk, 'vk, 'sg) crypto \<Rightarrow> codec \<Rightarrow> net_codec \<Rightarrow> ('sk, 'vk) device_identity \<Rightarrow> device_id \<Rightarrow> bytes \<Rightarrow> bytes \<Rightarrow>
   nat \<Rightarrow> nat \<Rightarrow> bytes \<Rightarrow> relay_stream_state \<Rightarrow> bool \<Rightarrow> nat \<Rightarrow> relay_log_entry list \<Rightarrow> status + http_ok" where
  "signed_relay_response c pc nc identity caller context request_epoch after request_bound nonce state reset next entries =
     and_then (map_err (\<lambda>_. INTERNAL_SERVER_ERROR)
         (try_map (\<lambda>e. and_then (to_bytes pc (entry_op e))
                         (\<lambda>bs. Inr \<lparr>we_seq = entry_seq e, we_envelope = bs\<rparr>)) entries)) (\<lambda>wire_entries.
       and_then (ok_or INTERNAL_SERVER_ERROR (nc_relay_to nc
           \<lparr>rr_v = RELAY_PROTOCOL_VERSION, rr_epoch = rs_epoch state, rr_head = rs_head state,
            rr_floor = rs_floor state, rr_next = next, rr_reset = reset, rr_entries = wire_entries\<rparr>)) (\<lambda>body.
         let signature = sign_relay_response c identity caller context request_epoch after request_bound nonce body in
         Inr \<lparr>resp_headers = [(RELAY_SIGNATURE_HEADER, Visible (encode_hex signature))], resp_body = body\<rparr>))"

section \<open>Validating a response\<close>

definition verify_signed ::
  "('sk, 'vk, 'sg) crypto \<Rightarrow> device_id \<Rightarrow> bytes \<Rightarrow> bytes \<Rightarrow> string \<Rightarrow> transport_error + unit" where
  "verify_signed c expected_peer expected_sec1 input signature_hex =
     and_then (map_err TIdentity (device_id_from_sec1 c expected_sec1)) (\<lambda>derived.
       if derived \<noteq> expected_peer then Inl (TIdentityMismatch expected_peer derived)
       else and_then (ok_or (TIdentity InvalidPublicKey) (vk_from_sec1 c expected_sec1)) (\<lambda>verifying.
         and_then (ok_or TWire (decode_fixed_hex 64 signature_hex)) (\<lambda>signature_bytes.
           and_then (ok_or TWire (sig_from_slice c signature_bytes)) (\<lambda>sg.
             if sig_normalize_s c sg \<noteq> None then Inl TWire
             else map_err TIdentity (identity_verify c verifying input sg)))))"

definition verify_device_book ::
  "('sk, 'vk, 'sg) crypto \<Rightarrow> device_id \<Rightarrow> bytes \<Rightarrow> bytes \<Rightarrow> bytes \<Rightarrow> string \<Rightarrow> transport_error + unit" where
  "verify_device_book c expected_peer expected_sec1 nonce body signature_hex =
     verify_signed c expected_peer expected_sec1 (device_book_signing_input expected_peer nonce body) signature_hex"

definition verify_relay_signature ::
  "('sk, 'vk, 'sg) crypto \<Rightarrow> device_id \<Rightarrow> device_id \<Rightarrow> bytes \<Rightarrow> bytes \<Rightarrow> relay_cursor \<Rightarrow> nat \<Rightarrow> bytes \<Rightarrow> bytes \<Rightarrow> string \<Rightarrow>
   transport_error + unit" where
  "verify_relay_signature c caller expected_peer expected_sec1 context cursor request_bound nonce body signature_hex =
     verify_signed c expected_peer expected_sec1
       (relay_response_signing_input context expected_peer caller (cur_epoch cursor) (cur_after cursor) request_bound nonce body)
       signature_hex"

definition u64_checked_succ :: "nat \<Rightarrow> nat option" where
  "u64_checked_succ n = (if n + 1 < 2 ^ 64 then Some (n + 1) else None)"

fun contiguous :: "nat \<Rightarrow> nat \<Rightarrow> nat list \<Rightarrow> bool" where
  "contiguous previous head [] \<longleftrightarrow> True"
| "contiguous previous head (s # rest) \<longleftrightarrow>
     u64_checked_succ previous = Some s \<and> s \<le> head \<and> contiguous s head rest"

definition last_seq :: "nat \<Rightarrow> nat list \<Rightarrow> nat" where
  "last_seq after seqs = (if seqs = [] then after else last seqs)"

definition cursor_invalid :: "relay_cursor \<Rightarrow> relay_response \<Rightarrow> bool" where
  "cursor_invalid cursor wire \<longleftrightarrow>
     cur_epoch cursor = zero_epoch \<and> rr_floor wire > 0 \<or>
     cur_epoch cursor \<noteq> zero_epoch \<and> cur_epoch cursor \<noteq> rr_epoch wire \<or>
     cur_epoch cursor = rr_epoch wire \<and>
       (cur_after cursor < rr_floor wire \<or> cur_after cursor > rr_head wire)"

definition decode_relay_response ::
  "codec \<Rightarrow> relay_response \<Rightarrow> relay_cursor \<Rightarrow> nat \<Rightarrow> bool \<Rightarrow> transport_error + relay_page" where
  "decode_relay_response pc wire cursor max_entries status_only =
     (let seqs = map we_seq (rr_entries wire);
          expected_next = last_seq (cur_after cursor) seqs
      in if rr_v wire \<noteq> RELAY_PROTOCOL_VERSION then Inl TWire
         else if rr_epoch wire = zero_epoch \<or> rr_floor wire > rr_head wire then Inl TWire
         else if rr_reset wire then
           (if \<not> cursor_invalid cursor wire \<or> rr_entries wire \<noteq> [] \<or> rr_next wire \<noteq> rr_floor wire then Inl TWire
            else Inr \<lparr>rp_epoch = rr_epoch wire, rp_head = rr_head wire, rp_floor = rr_floor wire,
                      rp_next = rr_next wire, rp_reset = True, rp_entries = []\<rparr>)
         else if cursor_invalid cursor wire then Inl TWire
         else if status_only \<and> (rr_entries wire \<noteq> [] \<or> rr_next wire \<noteq> cur_after cursor) then Inl TWire
         else if \<not> status_only \<and> length (rr_entries wire) > max_entries then Inl TWire
         else if \<not> status_only \<and> \<not> contiguous (cur_after cursor) (rr_head wire) seqs then Inl TWire
         else if \<not> status_only \<and>
           (rr_next wire \<noteq> expected_next \<or> rr_next wire < rr_floor wire \<or> rr_next wire > rr_head wire) then Inl TWire
         else and_then (map_err TOp (try_map (\<lambda>e. and_then (from_bytes pc (we_envelope e))
                           (\<lambda>sop. Inr \<lparr>ro_seq = we_seq e, ro_op = sop\<rparr>)) (rr_entries wire))) (\<lambda>entries.
           Inr \<lparr>rp_epoch = rr_epoch wire, rp_head = rr_head wire, rp_floor = rr_floor wire,
                rp_next = rr_next wire, rp_reset = False, rp_entries = entries\<rparr>))"

section \<open>Hex fields\<close>

lemma decode_fixed_hex_encode [simp]: "decode_fixed_hex n (encode_hex bs) = (if length bs = n then Some bs else None)"
  by (simp add: decode_fixed_hex_def)

lemma decode_fixed_hex_length: "decode_fixed_hex n s = Some bs \<Longrightarrow> length bs = n"
  by (auto simp: decode_fixed_hex_def split: option.splits if_splits)

lemma decode_encode_order_key: "key_wf k \<Longrightarrow> decode_order_key (encode_order_key k) = Some k"
  by (simp add: decode_order_key_def encode_order_key_def length_to_wire)

section \<open>Signing inputs\<close>

definition nul_free :: "string \<Rightarrow> bool" where
  "nul_free s \<longleftrightarrow> list_all (\<lambda>ch. (of_char ch :: byte) \<noteq> 0) s"

lemma ctx_split:
  assumes "nul_free s"
  shows "takeWhile (\<lambda>b. b \<noteq> 0) (ctx s @ x) = map of_char s" "dropWhile (\<lambda>b. b \<noteq> 0) (ctx s @ x) = 0 # x"
  using assms by (induction s) (auto simp: nul_free_def ctx_def)

lemma ctx_append_inj:
  assumes "nul_free s" "nul_free t" "ctx s @ x = ctx t @ y"
  shows "ctx s = ctx t \<and> x = y"
  using ctx_split [OF assms(1), of x] ctx_split [OF assms(2), of y] assms(3) by (auto simp: ctx_def)

text \<open>The contexts of the protocol messages and of the op envelope.\<close>

definition contexts :: "bytes list" where
  "contexts = [SIGNING_CONTEXT, RELAY_OPS_SIGNING_CONTEXT, RELAY_HEAD_SIGNING_CONTEXT,
     RELAY_WATCH_SIGNING_CONTEXT, RELAY_OPS_REQUEST_CONTEXT, RELAY_HEAD_REQUEST_CONTEXT,
     RELAY_WATCH_REQUEST_CONTEXT, DEVICE_BOOK_SIGNING_CONTEXT]"

lemma context_is_ctx: "a \<in> set contexts \<Longrightarrow> \<exists>s. nul_free s \<and> a = ctx s"
proof -
  have "SIGNING_CONTEXT = ctx ''proxy-node-server/op/v1''"
    by (simp add: SIGNING_CONTEXT_def ctx_def)
  moreover have "list_all nul_free [''proxy-node-server/op/v1'', ''proxy-node-server/relay/ops/v2'',
      ''proxy-node-server/relay/head/v2'', ''proxy-node-server/relay/watch/v2'',
      ''proxy-node-server/relay/request/ops/v2'', ''proxy-node-server/relay/request/head/v2'',
      ''proxy-node-server/relay/request/watch/v2'', ''proxy-node-server/device-book/v2'']"
    by code_simp
  ultimately show "a \<in> set contexts \<Longrightarrow> \<exists>s. nul_free s \<and> a = ctx s"
    unfolding contexts_def RELAY_OPS_SIGNING_CONTEXT_def RELAY_HEAD_SIGNING_CONTEXT_def
      RELAY_WATCH_SIGNING_CONTEXT_def RELAY_OPS_REQUEST_CONTEXT_def RELAY_HEAD_REQUEST_CONTEXT_def
      RELAY_WATCH_REQUEST_CONTEXT_def DEVICE_BOOK_SIGNING_CONTEXT_def
    by auto
qed

lemma contexts_separate:
  "a \<in> set contexts \<Longrightarrow> b \<in> set contexts \<Longrightarrow> a @ x = b @ y \<Longrightarrow> a = b \<and> x = y"
  using context_is_ctx [of a] context_is_ctx [of b] ctx_append_inj by blast

lemma be_digits_inj: "x < 2 ^ 64 \<Longrightarrow> y < 2 ^ 64 \<Longrightarrow> be_digits 8 x = be_digits 8 y \<longleftrightarrow> x = y"
proof -
  assume xy: "x < 2 ^ 64" "y < 2 ^ 64"
  have "x = y" if "be_digits 8 x = be_digits 8 y"
    using arg_cong [OF that, of be_value] xy by (simp add: be_value_digits)
  then show ?thesis by blast
qed

lemma request_input_inj:
  assumes "a \<in> set contexts" "b \<in> set contexts"
    and "device_wf d \<and> device_wf d' \<and> device_wf s \<and> device_wf s' \<and> length e = 32 \<and> length e' = 32 \<and>
      n < 2 ^ 64 \<and> n' < 2 ^ 64 \<and> m < 2 ^ 64 \<and> m' < 2 ^ 64 \<and>
      relay_request_signing_input a d s e n m k = relay_request_signing_input b d' s' e' n' m' k'"
  shows "a = b \<and> d = d' \<and> s = s' \<and> e = e' \<and> n = n' \<and> m = m' \<and> k = k'"
proof -
  have len: "length (as_bytes d) = length (as_bytes d')" "length (as_bytes s) = length (as_bytes s')" "length e = length e'"
    using assms(3) by (simp_all add: device_wf_def)
  have "a = b \<and> as_bytes d @ as_bytes s @ e @ be_digits 8 n @ be_digits 8 m @ k =
      as_bytes d' @ as_bytes s' @ e' @ be_digits 8 n' @ be_digits 8 m' @ k'"
    using assms(3) contexts_separate [OF assms(1,2)] unfolding relay_request_signing_input_def by blast
  then have "a = b \<and> as_bytes d = as_bytes d' \<and> as_bytes s = as_bytes s' \<and> e = e' \<and>
      be_digits 8 n = be_digits 8 n' \<and> be_digits 8 m = be_digits 8 m' \<and> k = k'"
    by (simp only: append_eq_append_conv len length_be_digits simp_thms)
  then show ?thesis using assms(3) by (simp only: as_bytes_inject be_digits_inj simp_thms)
qed

section \<open>Sequences\<close>

lemma contiguous_upt:
  "contiguous previous head seqs \<Longrightarrow> seqs = [Suc previous..<Suc previous + length seqs] \<and> last_seq previous seqs = previous + length seqs \<and>
     (seqs \<noteq> [] \<longrightarrow> previous + length seqs \<le> head)"
proof (induction seqs arbitrary: previous)
  case (Cons s seqs)
  then have s: "s = Suc previous" "s \<le> head" by (auto simp: u64_checked_succ_def split: if_splits)
  have ih: "seqs = [Suc s..<Suc s + length seqs]" "last_seq s seqs = s + length seqs"
      "seqs \<noteq> [] \<longrightarrow> s + length seqs \<le> head"
    using Cons by auto
  have "s # seqs = [Suc previous..<Suc previous + length (s # seqs)]"
    using ih(1) by (metis add_Suc_right add_Suc_shift length_Cons less_add_Suc1 s(1) upt_conv_Cons)
  moreover have "last_seq previous (s # seqs) = previous + length (s # seqs)"
    using ih(2) s(1) by (auto simp: last_seq_def split: if_splits)
  moreover have "previous + length (s # seqs) \<le> head" using ih(3) s by (cases "seqs = []") auto
  ultimately show ?case by blast
qed (simp add: last_seq_def)

lemma upt_contiguous:
  "previous + n \<le> head \<Longrightarrow> head < 2 ^ 64 \<Longrightarrow> contiguous previous head [Suc previous..<Suc previous + n]"
proof (induction n arbitrary: previous)
  case (Suc n)
  then have "[Suc previous..<Suc previous + Suc n] = Suc previous # [Suc (Suc previous)..<Suc (Suc previous) + n]"
    by (simp add: upt_rec)
  then show ?case using Suc.IH [of "Suc previous"] Suc.prems by (simp add: u64_checked_succ_def)
qed simp

text \<open>What a client accepts as an ops page.\<close>

lemma try_map_from_bytes:
  "try_map (\<lambda>e. and_then (from_bytes pc (we_envelope e)) (\<lambda>sop. Inr \<lparr>ro_seq = we_seq e, ro_op = sop\<rparr>)) es = Inr ros \<Longrightarrow>
     map ro_seq ros = map we_seq es \<and> map (\<lambda>e. from_bytes pc (we_envelope e)) es = map (\<lambda>r. Inr (ro_op r)) ros"
  by (induction es arbitrary: ros) (auto simp: and_then_Inr)

lemma decode_ops_page:
  assumes "decode_relay_response pc wire cursor max_entries False = Inr page" "\<not> rp_reset page"
  shows "map ro_seq (rp_entries page) = [Suc (cur_after cursor)..<Suc (cur_after cursor) + length (rp_entries page)] \<and>
    rp_next page = cur_after cursor + length (rp_entries page) \<and> rp_next page \<le> rp_head page \<and>
    length (rp_entries page) \<le> max_entries \<and> rp_epoch page \<noteq> zero_epoch \<and>
    (cur_epoch cursor \<noteq> zero_epoch \<longrightarrow> rp_epoch page = cur_epoch cursor)"
proof -
  let ?seqs = "map we_seq (rr_entries wire)"
  obtain ros where ros: "try_map (\<lambda>e. and_then (from_bytes pc (we_envelope e)) (\<lambda>sop. Inr \<lparr>ro_seq = we_seq e, ro_op = sop\<rparr>)) (rr_entries wire) = Inr ros"
      "page = \<lparr>rp_epoch = rr_epoch wire, rp_head = rr_head wire, rp_floor = rr_floor wire,
                rp_next = rr_next wire, rp_reset = False, rp_entries = ros\<rparr>"
    and c: "contiguous (cur_after cursor) (rr_head wire) ?seqs" "rr_next wire = last_seq (cur_after cursor) ?seqs"
      "rr_next wire \<le> rr_head wire" "length (rr_entries wire) \<le> max_entries" "rr_epoch wire \<noteq> zero_epoch"
      "\<not> cursor_invalid cursor wire"
    using assms unfolding decode_relay_response_def Let_def
    by (simp add: and_then_Inr not_less split: if_split_asm) auto
  have len: "length ros = length (rr_entries wire)" using try_map_from_bytes [OF ros(1)] by (metis length_map)
  have last: "last_seq (cur_after cursor) ?seqs = cur_after cursor + length ros"
    using contiguous_upt [OF c(1), THEN conjunct2, THEN conjunct1] unfolding len by (simp only: length_map)
  have "map ro_seq ros = ?seqs" using try_map_from_bytes [OF ros(1)] by blast
  also have "?seqs = [Suc (cur_after cursor)..<Suc (cur_after cursor) + length ros]"
    using contiguous_upt [OF c(1), THEN conjunct1] unfolding len by (simp only: length_map)
  finally have "map ro_seq ros = [Suc (cur_after cursor)..<Suc (cur_after cursor) + length ros]" .
  moreover have "cur_epoch cursor \<noteq> zero_epoch \<longrightarrow> rr_epoch wire = cur_epoch cursor"
    using c(6) by (auto simp: cursor_invalid_def)
  ultimately show ?thesis
    unfolding ros(2) using c(2-5) len last by (simp only: relay_page.simps simp_thms)
qed

section \<open>Honest messages are accepted\<close>

definition relay_request_headers ::
  "('sk, 'vk, 'sg) crypto \<Rightarrow> ('sk, 'vk) device_identity \<Rightarrow> bytes \<Rightarrow> device_id \<Rightarrow> relay_cursor \<Rightarrow> nat \<Rightarrow> bytes \<Rightarrow> header_map" where
  "relay_request_headers c identity request_context peer cursor request_bound nonce =
     [(RELAY_NONCE_HEADER, Visible (encode_hex nonce)),
      (RELAY_CALLER_HEADER, Visible (to_hex (device_id identity))),
      (RELAY_REQUEST_SIGNATURE_HEADER, Visible (encode_hex
         (sign_relay_request c identity request_context peer (cur_epoch cursor) (cur_after cursor) request_bound nonce)))]"

lemma relay_header_names [simp]:
  "RELAY_NONCE_HEADER \<noteq> RELAY_CALLER_HEADER" "RELAY_NONCE_HEADER \<noteq> RELAY_REQUEST_SIGNATURE_HEADER"
  "RELAY_CALLER_HEADER \<noteq> RELAY_NONCE_HEADER" "RELAY_REQUEST_SIGNATURE_HEADER \<noteq> RELAY_NONCE_HEADER"
  "RELAY_CALLER_HEADER \<noteq> RELAY_REQUEST_SIGNATURE_HEADER" "RELAY_REQUEST_SIGNATURE_HEADER \<noteq> RELAY_CALLER_HEADER"
  by (simp_all add: RELAY_NONCE_HEADER_def RELAY_CALLER_HEADER_def RELAY_REQUEST_SIGNATURE_HEADER_def)

lemma device_id_of_length: "sha_laws c \<Longrightarrow> length (as_bytes (device_id_of c vk)) = 32"
  using device_id_of_wf by (auto simp: device_wf_def)

lemma honest_fields:
  assumes "sha_laws c" "ecdsa_laws c" "length nonce = 32" "length (cur_epoch cursor) = 32"
    and "cur_epoch cursor = zero_epoch \<longrightarrow> cur_after cursor = 0"
  shows "relay_request_fields (encode_hex (cur_epoch cursor)) (cur_after cursor)
      (relay_request_headers c (from_signing c sk) cx peer cursor bound nonce) =
    Inr (cur_epoch cursor, nonce, device_id (from_signing c sk),
      sign_relay_request c (from_signing c sk) cx peer (cur_epoch cursor) (cur_after cursor) bound nonce)"
  using assms sig_bytes_roundtrip [OF assms(2)]
  by (simp add: relay_request_fields_def relay_request_headers_def header_text_def to_str_def to_hex_def
      sign_relay_request_def device_id_of_length)

lemma honest_request_check:
  assumes laws: "sha_laws c" "sec1_laws c" "ecdsa_laws c"
    and fields: "length nonce = 32" "length (cur_epoch cursor) = 32" "cur_epoch cursor = zero_epoch \<longrightarrow> cur_after cursor = 0"
    and known: "db_try_key_for_device book (device_id (from_signing c sk)) = Inr (Some (public_key_sec1 c (from_signing c sk)))"
  shows "relay_request_check c (encode_hex (cur_epoch cursor)) (cur_after cursor) bound
      (relay_request_headers c (from_signing c sk) cx peer cursor bound nonce) cx peer book =
    Inr \<lparr>ra_epoch = cur_epoch cursor, ra_nonce = nonce, ra_caller = device_id (from_signing c sk)\<rparr>"
proof -
  let ?me = "from_signing c sk"
  let ?input = "relay_request_signing_input cx (device_id ?me) peer (cur_epoch cursor) (cur_after cursor) bound nonce"
  have sig: "sig_from_slice c (sign_relay_request c ?me cx peer (cur_epoch cursor) (cur_after cursor) bound nonce) =
      Some (low_s c (identity_sign c ?me ?input))"
    unfolding sign_relay_request_def using sig_bytes_roundtrip [OF laws(3)] by blast
  have vk: "vk_from_sec1 c (public_key_sec1 c ?me) = Some (verifying ?me)"
    using laws(2) by (simp add: sec1_laws_def public_key_sec1_def sec1_compressed_def)
  have "ec_verify c (verifying ?me) ?input (low_s c (identity_sign c ?me ?input))"
    by (rule sign_verifies [OF laws(3)])
  then show ?thesis
    unfolding relay_request_check_def honest_fields [OF laws(1,3) fields]
    by (simp add: sig vk known low_s_canonical [OF laws(3)] device_id_of_public_key [OF laws(2)] identity_verify_def
        del: device_id_from_signing)
qed

lemma honest_signed:
  assumes "sha_laws c" "sec1_laws c" "ecdsa_laws c"
  shows "verify_signed c (device_id (from_signing c sk)) (public_key_sec1 c (from_signing c sk)) input
      (encode_hex (sig_to_bytes c (low_s c (identity_sign c (from_signing c sk) input)))) = Inr ()"
proof -
  let ?me = "from_signing c sk" and ?sg = "low_s c (identity_sign c (from_signing c sk) input)"
  have vk: "vk_from_sec1 c (public_key_sec1 c ?me) = Some (verifying ?me)"
    using assms(2) by (simp add: sec1_laws_def public_key_sec1_def sec1_compressed_def)
  have sg: "sig_from_slice c (sig_to_bytes c ?sg) = Some ?sg" "length (sig_to_bytes c ?sg) = 64"
    using sig_bytes_roundtrip [OF assms(3)] by blast+
  show ?thesis
    unfolding verify_signed_def device_id_of_public_key [OF assms(2)]
    by (simp add: vk sg low_s_canonical [OF assms(3)] sign_verifies [OF assms(3)] identity_verify_def
        del: device_id_from_signing)
qed

lemma honest_response_verifies:
  assumes "sha_laws c" "sec1_laws c" "ecdsa_laws c"
  shows "verify_relay_signature c caller (device_id (from_signing c sk)) (public_key_sec1 c (from_signing c sk)) cx
      cursor bound nonce body (encode_hex (sign_relay_response c (from_signing c sk) caller cx (cur_epoch cursor)
        (cur_after cursor) bound nonce body)) = Inr ()"
  unfolding verify_relay_signature_def sign_relay_response_def by (rule honest_signed [OF assms])

lemma honest_device_book_verifies:
  assumes "sha_laws c" "sec1_laws c" "ecdsa_laws c"
  shows "verify_device_book c (device_id (from_signing c sk)) (public_key_sec1 c (from_signing c sk)) nonce body
      (encode_hex (sign_device_book c (from_signing c sk) nonce body)) = Inr ()"
  unfolding verify_device_book_def sign_device_book_def by (rule honest_signed [OF assms])

section \<open>Properties\<close>

text \<open>A history of the replay cache: each request at its time, and the nonces accepted so far, newest first.\<close>

inductive cache_run :: "('sk, 'vk, 'sg) crypto \<Rightarrow> nat \<Rightarrow> replay_cache \<Rightarrow> replay_cache \<Rightarrow> bool" for c where
  start: "cache_run c t [] []"
| request: "cache_run c t cache accepted \<Longrightarrow> t \<le> now \<Longrightarrow>
    relay_request c now epoch_text after bound headers context peer book cache = (cache', res) \<Longrightarrow>
    cache_run c now cache' (case res of Inl _ \<Rightarrow> accepted
      | Inr auth \<Rightarrow> ((ra_caller auth, ra_nonce auth), now) # accepted)"

definition cache_kept :: "nat \<Rightarrow> replay_cache \<Rightarrow> replay_cache" where
  "cache_kept now cache = filter (\<lambda>e. now - snd e \<le> RELAY_REPLAY_TTL) cache"

lemma relay_request_cases:
  assumes "relay_request c now et after bound headers cx peer book cache = (cache', res)"
  obtains (refused) s where "res = Inl s" "cache' = cache \<or> cache' = cache_kept now cache"
  | (granted) auth where "relay_request_check c et after bound headers cx peer book = Inr auth" "res = Inr auth"
      "cache' = ((ra_caller auth, ra_nonce auth), now) # cache_kept now cache"
      "(ra_caller auth, ra_nonce auth) \<notin> fst ` set (cache_kept now cache)"
      "length (cache_kept now cache) < RELAY_REPLAY_LIMIT"
proof (cases "relay_request_check c et after bound headers cx peer book")
  case (Inl s)
  then have "res = Inl s" "cache' = cache" using assms by (auto simp: relay_request_def)
  then show ?thesis by (intro refused) auto
next
  case (Inr auth)
  let ?k = "(ra_caller auth, ra_nonce auth)" and ?kept = "cache_kept now cache"
  have adm: "admit_nonce now ?k cache =
      (if map_of ?kept ?k \<noteq> None then (?kept, Inl CONFLICT)
       else if length ?kept \<ge> RELAY_REPLAY_LIMIT then (?kept, Inl TOO_MANY_REQUESTS)
       else ((?k, now) # ?kept, Inr ()))"
    by (simp add: admit_nonce_def cache_kept_def Let_def)
  show ?thesis
  proof (cases "map_of ?kept ?k \<noteq> None \<or> length ?kept \<ge> RELAY_REPLAY_LIMIT")
    case True
    then obtain s where "res = Inl s" "cache' = ?kept"
      using assms Inr adm by (auto simp: relay_request_def split: if_splits)
    then show ?thesis by (intro refused) auto
  next
    case False
    then have "res = Inr auth" "cache' = (?k, now) # ?kept" using assms Inr adm by (auto simp: relay_request_def)
    moreover have "?k \<notin> fst ` set ?kept" using False by (simp add: map_of_eq_None_iff)
    ultimately show ?thesis using Inr False by (intro granted) auto
  qed
qed

lemma cache_run_inv:
  assumes "cache_run c now cache accepted"
  shows "length cache \<le> RELAY_REPLAY_LIMIT \<and>
    sorted_wrt (\<lambda>x y. fst x = fst y \<longrightarrow> snd x - snd y > RELAY_REPLAY_TTL) accepted \<and>
    (\<forall>e \<in> set accepted. snd e \<le> now \<and> (now - snd e \<le> RELAY_REPLAY_TTL \<longrightarrow> e \<in> set cache))"
  using assms
proof induction
  case (request t cache accepted now et after bound headers cx peer book cache' res)
  let ?kept = "cache_kept now cache"
  have kept: "e \<in> set ?kept" if "e \<in> set accepted" "now - snd e \<le> RELAY_REPLAY_TTL" for e
  proof -
    have "t - snd e \<le> RELAY_REPLAY_TTL" using that(2) request.hyps(2) by linarith
    then have "e \<in> set cache" using request.IH that(1) by blast
    then show ?thesis using that(2) by (simp add: cache_kept_def)
  qed
  have past: "snd e \<le> now" if "e \<in> set accepted" for e
    using request.IH request.hyps(2) that by (meson le_trans)
  have sub: "set ?kept \<subseteq> set cache" "length ?kept \<le> length cache" by (auto simp: cache_kept_def)
  from request.hyps(3) show ?case
  proof (cases rule: relay_request_cases)
    case (refused s)
    then show ?thesis using request.IH kept past sub by auto
  next
    case (granted auth)
    let ?k = "(ra_caller auth, ra_nonce auth)"
    have fresh: "now - snd e > RELAY_REPLAY_TTL" if "e \<in> set accepted" "fst e = ?k" for e
      using kept [OF that(1)] granted(4) that(2) by (metis image_eqI not_le)
    show ?thesis using granted request.IH kept past fresh by auto
  qed
qed simp

text \<open>
  C27: The relay replay cache is bounded and does its job: over any history of requests at non-decreasing
  times it never exceeds 4096 entries, and a (caller, nonce) pair is never accepted twice within five
  minutes.
\<close>

theorem relay_nonce_not_replayed:
  assumes "cache_run c now cache accepted"
  shows "length cache \<le> 4096 \<and>
    (\<forall>i j. i < j \<and> j < length accepted \<and> fst (accepted ! i) = fst (accepted ! j) \<longrightarrow>
       snd (accepted ! i) - snd (accepted ! j) > 5 * 60 * 1000000000)"
  using cache_run_inv [OF assms]
  by (auto simp: RELAY_REPLAY_LIMIT_def RELAY_REPLAY_TTL_def sorted_wrt_iff_nth_less)

lemma demo_public_key: "public_key_sec1 demo_crypto (from_signing demo_crypto k) = k # replicate 32 0"
  by (simp add: public_key_sec1_def sec1_compressed_def from_signing_def demo_crypto_def)

definition demo_book :: device_book where
  "demo_book = registry_as_book demo_crypto [(device_id_of demo_crypto 5, 5)]"

lemma demo_book_lookup:
  "db_try_key_for_device demo_book (device_id (from_signing demo_crypto 5)) = Inr (Some (public_key_sec1 demo_crypto (from_signing demo_crypto 5)))"
  by (simp add: demo_book_def registry_as_book_def key_for_def public_key_sec1_def from_signing_def demo_verifying)

theorem relay_nonce_not_replayed_witness:
  "\<exists>cache accepted. cache_run demo_crypto 7 cache accepted \<and> length accepted = 1 \<and> length cache \<le> 4096 \<and>
    (\<forall>i j. i < j \<and> j < length accepted \<and> fst (accepted ! i) = fst (accepted ! j) \<longrightarrow>
       snd (accepted ! i) - snd (accepted ! j) > 5 * 60 * 1000000000)"
proof -
  let ?me = "from_signing demo_crypto 5" and ?n = "replicate 32 9"
  let ?auth = "\<lparr>ra_epoch = cur_epoch RELAY_START, ra_nonce = ?n, ra_caller = device_id ?me\<rparr>"
  have "relay_request_check demo_crypto (encode_hex (cur_epoch RELAY_START)) (cur_after RELAY_START) 3
      (relay_request_headers demo_crypto ?me RELAY_OPS_REQUEST_CONTEXT (DeviceId []) RELAY_START 3 ?n)
      RELAY_OPS_REQUEST_CONTEXT (DeviceId []) demo_book = Inr ?auth"
    by (rule honest_request_check [OF demo_sha_laws demo_sec1_laws demo_ecdsa_laws _ _ _ demo_book_lookup])
      (simp_all add: RELAY_START_def zero_epoch_def)
  then have "relay_request demo_crypto 7 (encode_hex (cur_epoch RELAY_START)) (cur_after RELAY_START) 3
      (relay_request_headers demo_crypto ?me RELAY_OPS_REQUEST_CONTEXT (DeviceId []) RELAY_START 3 ?n)
      RELAY_OPS_REQUEST_CONTEXT (DeviceId []) demo_book [] = ([((device_id ?me, ?n), 7)], Inr ?auth)"
    by (simp add: relay_request_def admit_nonce_def RELAY_REPLAY_LIMIT_def)
  from cache_run.request [OF cache_run.start [of _ 0] _ this]
  have run: "cache_run demo_crypto 7 [((device_id ?me, ?n), 7)] [((device_id ?me, ?n), 7)]" by simp
  with relay_nonce_not_replayed [OF run] show ?thesis by (metis length_Cons list.size(3) One_nat_def)
qed

text \<open>
  C28: A relay request is authorised only by its caller: if \<open>relay_request\<close> grants a request, the device
  book holds a key for the named caller, that key derives the caller's id, and a canonical signature in
  the headers verifies under it over exactly this context, caller, serving peer, epoch, position, bound
  and nonce.
\<close>

theorem relay_request_authentic:
  assumes "relay_request c now epoch_text after bound headers cx peer book cache = (cache', Inr auth)"
  shows "\<exists>sec1 vk sg sig_bytes.
    db_try_key_for_device book (ra_caller auth) = Inr (Some sec1) \<and> vk_from_sec1 c sec1 = Some vk \<and>
    device_id_of c vk = ra_caller auth \<and> decode_fixed_hex 32 epoch_text = Some (ra_epoch auth) \<and>
    Option.bind (header_text headers RELAY_NONCE_HEADER) (decode_fixed_hex 32) = Some (ra_nonce auth) \<and>
    Option.bind (header_text headers RELAY_REQUEST_SIGNATURE_HEADER) (decode_fixed_hex 64) = Some sig_bytes \<and>
    sig_from_slice c sig_bytes = Some sg \<and> sig_normalize_s c sg = None \<and>
    ec_verify c vk (relay_request_signing_input cx (ra_caller auth) peer (ra_epoch auth) after bound (ra_nonce auth)) sg"
proof -
  have "relay_request_check c epoch_text after bound headers cx peer book = Inr auth"
    using assms by (cases rule: relay_request_cases) auto
  then show ?thesis
    by (auto simp: relay_request_check_def relay_request_fields_def and_then_Inr device_id_from_sec1_Inr
        identity_verify_def header_text_def split: if_splits option.splits)
qed

theorem relay_request_authentic_witness:
  "\<exists>cache' auth sec1 vk sg.
    relay_request demo_crypto 7 (encode_hex zero_epoch) 0 3
      (relay_request_headers demo_crypto (from_signing demo_crypto 5) RELAY_OPS_REQUEST_CONTEXT (DeviceId []) RELAY_START 3 (replicate 32 9))
      RELAY_OPS_REQUEST_CONTEXT (DeviceId []) demo_book [] = (cache', Inr auth) \<and>
    db_try_key_for_device demo_book (ra_caller auth) = Inr (Some sec1) \<and> vk_from_sec1 demo_crypto sec1 = Some vk \<and>
    ec_verify demo_crypto vk (relay_request_signing_input RELAY_OPS_REQUEST_CONTEXT (ra_caller auth) (DeviceId [])
      (ra_epoch auth) 0 3 (ra_nonce auth)) sg"
proof -
  have "relay_request_check demo_crypto (encode_hex (cur_epoch RELAY_START)) (cur_after RELAY_START) 3
      (relay_request_headers demo_crypto (from_signing demo_crypto 5) RELAY_OPS_REQUEST_CONTEXT (DeviceId []) RELAY_START 3 (replicate 32 9))
      RELAY_OPS_REQUEST_CONTEXT (DeviceId []) demo_book =
      Inr \<lparr>ra_epoch = cur_epoch RELAY_START, ra_nonce = replicate 32 9, ra_caller = device_id (from_signing demo_crypto 5)\<rparr>"
    by (rule honest_request_check [OF demo_sha_laws demo_sec1_laws demo_ecdsa_laws _ _ _ demo_book_lookup])
      (simp_all add: RELAY_START_def zero_epoch_def)
  then obtain cache' auth where r: "relay_request demo_crypto 7 (encode_hex zero_epoch) 0 3
      (relay_request_headers demo_crypto (from_signing demo_crypto 5) RELAY_OPS_REQUEST_CONTEXT (DeviceId []) RELAY_START 3 (replicate 32 9))
      RELAY_OPS_REQUEST_CONTEXT (DeviceId []) demo_book [] = (cache', Inr auth)"
    by (simp add: relay_request_def admit_nonce_def RELAY_REPLAY_LIMIT_def RELAY_START_def)
  with relay_request_authentic [OF r] show ?thesis by blast
qed

text \<open>
  C29: Signatures do not cross protocols or routes, and their inputs have one reading. The contexts of
  op envelopes, of the three relay requests and responses and of device books are prefix-free, so
  inputs under two of them never coincide; and two equal relay request inputs have the same caller,
  serving peer, epoch, position, bound and nonce.
\<close>

theorem signing_inputs_separate:
  assumes "a \<in> set contexts" "b \<in> set contexts"
  shows "(a \<noteq> b \<longrightarrow> a @ x \<noteq> b @ y) \<and>
    (device_wf d \<and> device_wf d' \<and> device_wf s \<and> device_wf s' \<and> length e = 32 \<and> length e' = 32 \<and>
     n < 2 ^ 64 \<and> n' < 2 ^ 64 \<and> m < 2 ^ 64 \<and> m' < 2 ^ 64 \<and>
     relay_request_signing_input a d s e n m k = relay_request_signing_input b d' s' e' n' m' k' \<longrightarrow>
       a = b \<and> d = d' \<and> s = s' \<and> e = e' \<and> n = n' \<and> m = m' \<and> k = k')"
proof (intro conjI impI)
  show "a \<noteq> b \<Longrightarrow> a @ x \<noteq> b @ y" using contexts_separate [OF assms, of x y] by metis
qed (drule request_input_inj [OF assms], simp)+

theorem signing_inputs_separate_witness:
  "RELAY_OPS_REQUEST_CONTEXT @ [1] \<noteq> RELAY_HEAD_REQUEST_CONTEXT @ [2]"
proof -
  have m: "RELAY_OPS_REQUEST_CONTEXT \<in> set contexts" "RELAY_HEAD_REQUEST_CONTEXT \<in> set contexts"
    by (simp_all add: contexts_def)
  have "RELAY_OPS_REQUEST_CONTEXT \<noteq> RELAY_HEAD_REQUEST_CONTEXT"
    by (simp add: RELAY_OPS_REQUEST_CONTEXT_def RELAY_HEAD_REQUEST_CONTEXT_def ctx_def)
  with signing_inputs_separate [OF m, THEN conjunct1] show ?thesis by (rule mp)
qed

end
