(* ===== verification/RelayServer.thy ===== *)
theory RelayServer
  imports RelayWire
begin

text \<open>
  The HTTP handlers of \<open>src/net/server.rs\<close> and the client calls of \<open>src/net/client.rs\<close> for v1 pull,
  relay v2 and \<open>/devices\<close>. A handler returns a status or a success reply; the routes that consult the
  replay cache also return the cache they leave. Axum, serde and reqwest only carry the request fields
  and the reply between the two sides: the client takes what the network answers as the argument \<open>send\<close>.
\<close>

section \<open>Serving\<close>

record ('sk, 'vk) serve_state =
  sv_identity :: "('sk, 'vk) device_identity"
  sv_log :: log_source
  sv_devices :: device_book
  sv_relay_callers :: device_book
  sv_relay_replays :: replay_cache

definition ServeState_new :: "('sk, 'vk) device_identity \<Rightarrow> log_source \<Rightarrow> device_book \<Rightarrow> ('sk, 'vk) serve_state" where
  "ServeState_new identity log devices =
     \<lparr>sv_identity = identity, sv_log = log, sv_devices = devices, sv_relay_callers = devices, sv_relay_replays = []\<rparr>"

definition octet :: "bytes \<Rightarrow> http_ok" where
  "octet bs = \<lparr>resp_headers = [(''content-type'', Visible ''application/octet-stream'')], resp_body = bs\<rparr>"

definition get_identity ::
  "('sk, 'vk, 'sg) crypto \<Rightarrow> net_codec \<Rightarrow> ('sk, 'vk) serve_state \<Rightarrow> status + http_ok" where
  "get_identity c nc st =
     (case nc_identity_to nc \<lparr>ir_device_id = as_bytes (device_id (sv_identity st)),
                              ir_public_key = public_key_sec1 c (sv_identity st)\<rparr> of
        Some bs \<Rightarrow> Inr (octet bs)
      | None \<Rightarrow> Inl INTERNAL_SERVER_ERROR)"

definition query_key :: "string option \<Rightarrow> status + order_key" where
  "query_key q =
     (case q of
        Some s \<Rightarrow> if s \<noteq> [] then ok_or BAD_REQUEST (decode_order_key s) else Inr MIN_KEY
      | None \<Rightarrow> Inr MIN_KEY)"

fun ops_loop :: "codec \<Rightarrow> signed_op list \<Rightarrow> bytes list \<Rightarrow> order_key \<Rightarrow> status + (bytes list \<times> order_key)" where
  "ops_loop pc [] ops next = Inr (ops, next)"
| "ops_loop pc (sop # rest) ops next =
     (case to_bytes pc sop of
        Inr bs \<Rightarrow> ops_loop pc rest (ops @ [bs]) (order_key sop)
      | Inl _ \<Rightarrow> Inl INTERNAL_SERVER_ERROR)"

definition get_ops ::
  "codec \<Rightarrow> net_codec \<Rightarrow> ('sk, 'vk) serve_state \<Rightarrow> string option \<Rightarrow> nat option \<Rightarrow> status + http_ok" where
  "get_ops pc nc st q_since q_limit =
     and_then (query_key q_since) (\<lambda>cursor.
       let limit = (case q_limit of Some l \<Rightarrow> l | None \<Rightarrow> DEFAULT_PULL_LIMIT) in
       and_then (ops_loop pc (ls_since (sv_log st) cursor limit) [] cursor) (\<lambda>(ops, next).
         and_then (ok_or INTERNAL_SERVER_ERROR (nc_pull_to nc \<lparr>pr_ops = ops, pr_next = to_wire next\<rparr>)) (\<lambda>bs.
           Inr (octet bs))))"

definition get_head :: "('sk, 'vk) serve_state \<Rightarrow> status + http_ok" where
  "get_head st = Inr (octet (to_wire (case ls_head (sv_log st) of Some k \<Rightarrow> k | None \<Rightarrow> MIN_KEY)))"

text \<open>
  The v1 long poll: \<open>parked\<close> is the head \<open>until_head_changes\<close> returned, \<open>None\<close> if no permit was free.
\<close>

definition get_watch :: "('sk, 'vk) serve_state \<Rightarrow> order_key option \<Rightarrow> string option \<Rightarrow> status + http_ok" where
  "get_watch st parked q_head =
     and_then (query_key q_head) (\<lambda>known.
       Inr (octet (to_wire (case parked of
              Some k \<Rightarrow> k
            | None \<Rightarrow> (case ls_head (sv_log st) of Some k \<Rightarrow> k | None \<Rightarrow> MIN_KEY)))))"

record relay_query =
  q_epoch :: string
  q_after :: nat
  q_bound :: nat

definition stream_of :: "log_error + relay_stream_state option \<Rightarrow> status + relay_stream_state" where
  "stream_of r =
     (case r of
        Inr (Some stream) \<Rightarrow> if \<not> valid_relay_state stream then Inl INTERNAL_SERVER_ERROR else Inr stream
      | Inr None \<Rightarrow> Inl NOT_IMPLEMENTED
      | Inl _ \<Rightarrow> Inl SERVICE_UNAVAILABLE)"

definition relay_ops_reply ::
  "('sk, 'vk, 'sg) crypto \<Rightarrow> codec \<Rightarrow> net_codec \<Rightarrow> ('sk, 'vk) serve_state \<Rightarrow> relay_query \<Rightarrow> relay_request_auth \<Rightarrow> status + http_ok" where
  "relay_ops_reply c pc nc st q auth =
     (let reply = signed_relay_response c pc nc (sv_identity st) (ra_caller auth) RELAY_OPS_SIGNING_CONTEXT
                    (ra_epoch auth) (q_after q) (q_bound q) (ra_nonce auth) in
      and_then (stream_of (ls_relay_state (sv_log st))) (\<lambda>stream.
        if relay_needs_reset (ra_epoch auth) (q_after q) stream then reply stream True (rs_floor stream) []
        else case ls_relay_page (sv_log st) (q_after q) (q_bound q) of
          Inl _ \<Rightarrow> Inl SERVICE_UNAVAILABLE
        | Inr None \<Rightarrow> Inl NOT_IMPLEMENTED
        | Inr (Some page) \<Rightarrow>
            if \<not> valid_relay_state (page_state page) then Inl INTERNAL_SERVER_ERROR
            else if relay_needs_reset (ra_epoch auth) (q_after q) (page_state page)
              then reply (page_state page) True (rs_floor (page_state page)) []
            else if length (page_entries page) > q_bound q then Inl INTERNAL_SERVER_ERROR
            else if \<not> contiguous (q_after q) (rs_head (page_state page)) (map entry_seq (page_entries page))
              then Inl INTERNAL_SERVER_ERROR
            else reply (page_state page) False (last_seq (q_after q) (map entry_seq (page_entries page)))
                   (page_entries page)))"

definition get_relay_ops ::
  "('sk, 'vk, 'sg) crypto \<Rightarrow> codec \<Rightarrow> net_codec \<Rightarrow> nat \<Rightarrow> ('sk, 'vk) serve_state \<Rightarrow> relay_query \<Rightarrow> header_map \<Rightarrow>
   replay_cache \<times> (status + http_ok)" where
  "get_relay_ops c pc nc now st q headers =
     (if q_bound q = 0 \<or> q_bound q > DEFAULT_PULL_LIMIT then (sv_relay_replays st, Inl BAD_REQUEST)
      else case relay_request c now (q_epoch q) (q_after q) (q_bound q) headers RELAY_OPS_REQUEST_CONTEXT
                  (device_id (sv_identity st)) (sv_relay_callers st) (sv_relay_replays st) of
          (cache, Inl s) \<Rightarrow> (cache, Inl s)
        | (cache, Inr auth) \<Rightarrow> (cache, relay_ops_reply c pc nc st q auth))"

definition relay_status_reply ::
  "('sk, 'vk, 'sg) crypto \<Rightarrow> codec \<Rightarrow> net_codec \<Rightarrow> ('sk, 'vk) serve_state \<Rightarrow> bytes \<Rightarrow> relay_query \<Rightarrow> relay_request_auth \<Rightarrow>
   relay_stream_state \<Rightarrow> status + http_ok" where
  "relay_status_reply c pc nc st context q auth stream =
     (let reset = relay_needs_reset (ra_epoch auth) (q_after q) stream in
      signed_relay_response c pc nc (sv_identity st) (ra_caller auth) context (ra_epoch auth) (q_after q) (q_bound q)
        (ra_nonce auth) stream reset (if reset then rs_floor stream else q_after q) [])"

definition get_relay_head ::
  "('sk, 'vk, 'sg) crypto \<Rightarrow> codec \<Rightarrow> net_codec \<Rightarrow> nat \<Rightarrow> ('sk, 'vk) serve_state \<Rightarrow> relay_query \<Rightarrow> header_map \<Rightarrow>
   replay_cache \<times> (status + http_ok)" where
  "get_relay_head c pc nc now st q headers =
     (case relay_request c now (q_epoch q) (q_after q) 0 headers RELAY_HEAD_REQUEST_CONTEXT
             (device_id (sv_identity st)) (sv_relay_callers st) (sv_relay_replays st) of
        (cache, Inl s) \<Rightarrow> (cache, Inl s)
      | (cache, Inr auth) \<Rightarrow>
          (cache, and_then (stream_of (ls_relay_state (sv_log st)))
             (relay_status_reply c pc nc st RELAY_HEAD_SIGNING_CONTEXT (q\<lparr>q_bound := 0\<rparr>) auth)))"

text \<open>
  The long poll: \<open>parked\<close> is what \<open>until_relay_changes\<close> returned, \<open>None\<close> if no permit was free and the
  handler answers with the state it first saw.
\<close>

definition get_relay_watch ::
  "('sk, 'vk, 'sg) crypto \<Rightarrow> codec \<Rightarrow> net_codec \<Rightarrow> nat \<Rightarrow> ('sk, 'vk) serve_state \<Rightarrow>
   (log_error + relay_stream_state option) option \<Rightarrow> relay_query \<Rightarrow> header_map \<Rightarrow> replay_cache \<times> (status + http_ok)" where
  "get_relay_watch c pc nc now st parked q headers =
     (case relay_request c now (q_epoch q) (q_after q) (q_bound q) headers RELAY_WATCH_REQUEST_CONTEXT
             (device_id (sv_identity st)) (sv_relay_callers st) (sv_relay_replays st) of
        (cache, Inl s) \<Rightarrow> (cache, Inl s)
      | (cache, Inr auth) \<Rightarrow>
          (cache, and_then (stream_of (ls_relay_state (sv_log st))) (\<lambda>initial.
             and_then
               (if relay_needs_reset (ra_epoch auth) (q_after q) initial \<or> ra_epoch auth = zero_epoch \<or>
                   rs_head initial > q_after q \<or> rs_head initial < q_after q
                then Inr initial
                else case parked of Some r \<Rightarrow> stream_of r | None \<Rightarrow> Inr initial)
               (relay_status_reply c pc nc st RELAY_WATCH_SIGNING_CONTEXT q auth))))"

definition get_devices ::
  "('sk, 'vk, 'sg) crypto \<Rightarrow> net_codec \<Rightarrow> ('sk, 'vk) serve_state \<Rightarrow> header_map \<Rightarrow> status + http_ok" where
  "get_devices c nc st headers =
     and_then
       (case map_of headers DEVICE_BOOK_NONCE_HEADER of
          None \<Rightarrow> Inr None
        | Some v \<Rightarrow> and_then (ok_or BAD_REQUEST (Option.bind (to_str v) (decode_fixed_hex 32))) (\<lambda>n. Inr (Some n)))
       (\<lambda>nonce.
          and_then (map_err (\<lambda>_. SERVICE_UNAVAILABLE) (db_try_known_devices (sv_devices st))) (\<lambda>known.
            and_then (ok_or INTERNAL_SERVER_ERROR
                (nc_devices_to nc (map (\<lambda>(d, k). \<lparr>de_device_id = as_bytes d, de_public_key = k\<rparr>) known))) (\<lambda>bs.
              Inr (case nonce of
                     None \<Rightarrow> octet bs
                   | Some n \<Rightarrow> (octet bs)\<lparr>resp_headers := resp_headers (octet bs) @
                       [(DEVICE_BOOK_SIGNATURE_HEADER, Visible (encode_hex (sign_device_book c (sv_identity st) n bs)))]\<rparr>))))"

section \<open>Calling\<close>

fun status_code :: "status \<Rightarrow> nat" where
  "status_code BAD_REQUEST = 400"
| "status_code UNAUTHORIZED = 401"
| "status_code FORBIDDEN = 403"
| "status_code NOT_FOUND = 404"
| "status_code CONFLICT = 409"
| "status_code TOO_MANY_REQUESTS = 429"
| "status_code INTERNAL_SERVER_ERROR = 500"
| "status_code NOT_IMPLEMENTED = 501"
| "status_code SERVICE_UNAVAILABLE = 503"

text \<open>What the network answers: nothing, a failing status, or a success reply.\<close>

datatype http_reply = NoReply | Failed nat | Replied http_ok

definition reply_of :: "status + http_ok \<Rightarrow> http_reply" where
  "reply_of r = (case r of Inl s \<Rightarrow> Failed (status_code s) | Inr k \<Rightarrow> Replied k)"

definition get_bytes :: "http_reply \<Rightarrow> transport_error + bytes" where
  "get_bytes r = (case r of NoReply \<Rightarrow> Inl THttp | Failed _ \<Rightarrow> Inl THttp | Replied k \<Rightarrow> Inr (resp_body k))"

definition fetch_identity :: "net_codec \<Rightarrow> http_reply \<Rightarrow> transport_error + identity_resp" where
  "fetch_identity nc r = and_then (get_bytes r) (\<lambda>bs. ok_or TWire (nc_identity_from nc bs))"

definition fetch_head :: "http_reply \<Rightarrow> transport_error + order_key" where
  "fetch_head r = and_then (get_bytes r) (\<lambda>bs. if length bs \<noteq> 72 then Inl TWire else Inr (from_wire bs))"

definition fetch_devices :: "net_codec \<Rightarrow> http_reply \<Rightarrow> transport_error + device_entry list" where
  "fetch_devices nc r = and_then (get_bytes r) (\<lambda>bs. ok_or TWire (nc_devices_from nc bs))"

text \<open>The signature header every authenticated reply carries, then the body.\<close>

definition signed_reply :: "string \<Rightarrow> http_ok \<Rightarrow> transport_error + string" where
  "signed_reply name k =
     and_then (ok_or TWire (map_of (resp_headers k) name)) (\<lambda>v. ok_or TWire (to_str v))"

definition fetch_attested_devices ::
  "('sk, 'vk, 'sg) crypto \<Rightarrow> net_codec \<Rightarrow> (header_map \<Rightarrow> http_reply) \<Rightarrow> bytes option \<Rightarrow> device_id \<Rightarrow> bytes \<Rightarrow>
   transport_error + device_entry list" where
  "fetch_attested_devices c nc send random expected_peer expected_sec1 =
     and_then (ok_or THttp random) (\<lambda>nonce.
       case send [(DEVICE_BOOK_NONCE_HEADER, Visible (encode_hex nonce))] of
         NoReply \<Rightarrow> Inl THttp
       | Failed _ \<Rightarrow> Inl THttp
       | Replied k \<Rightarrow>
           and_then (signed_reply DEVICE_BOOK_SIGNATURE_HEADER k) (\<lambda>signature.
             and_then (verify_device_book c expected_peer expected_sec1 nonce (resp_body k) signature) (\<lambda>_.
               ok_or TWire (nc_devices_from nc (resp_body k)))))"

definition request_relay ::
  "('sk, 'vk, 'sg) crypto \<Rightarrow> codec \<Rightarrow> net_codec \<Rightarrow> (relay_query \<Rightarrow> header_map \<Rightarrow> http_reply) \<Rightarrow> bytes option \<Rightarrow>
   ('sk, 'vk) device_identity \<Rightarrow> bytes \<Rightarrow> bytes \<Rightarrow> nat \<Rightarrow> relay_cursor \<Rightarrow> device_id \<Rightarrow> bytes \<Rightarrow> nat \<Rightarrow> bool \<Rightarrow>
   transport_error + relay_page" where
  "request_relay c pc nc send random identity context request_context request_bound cursor expected_peer expected_sec1
     max_entries status_only =
     and_then (ok_or THttp random) (\<lambda>nonce.
       case send \<lparr>q_epoch = encode_hex (cur_epoch cursor), q_after = cur_after cursor, q_bound = request_bound\<rparr>
              (relay_request_headers c identity request_context expected_peer cursor request_bound nonce) of
         NoReply \<Rightarrow> Inl THttp
       | Failed s \<Rightarrow> if s = 404 \<or> s = 501 then Inl (TRelayUnsupported s) else Inl THttp
       | Replied k \<Rightarrow>
           and_then (signed_reply RELAY_SIGNATURE_HEADER k) (\<lambda>signature.
             and_then (verify_relay_signature c (device_id identity) expected_peer expected_sec1 context cursor
                         request_bound nonce (resp_body k) signature) (\<lambda>_.
               and_then (ok_or TWire (nc_relay_from nc (resp_body k))) (\<lambda>wire.
                 decode_relay_response pc wire cursor max_entries status_only))))"

definition fetch_relay_ops ::
  "('sk, 'vk, 'sg) crypto \<Rightarrow> codec \<Rightarrow> net_codec \<Rightarrow> (relay_query \<Rightarrow> header_map \<Rightarrow> http_reply) \<Rightarrow> bytes option \<Rightarrow> nat \<Rightarrow>
   ('sk, 'vk) device_identity \<Rightarrow> device_id \<Rightarrow> bytes \<Rightarrow> relay_cursor \<Rightarrow> transport_error + relay_page" where
  "fetch_relay_ops c pc nc send random limit identity expected_peer expected_sec1 cursor =
     request_relay c pc nc send random identity RELAY_OPS_SIGNING_CONTEXT RELAY_OPS_REQUEST_CONTEXT limit cursor
       expected_peer expected_sec1 limit False"

definition fetch_relay_head ::
  "('sk, 'vk, 'sg) crypto \<Rightarrow> codec \<Rightarrow> net_codec \<Rightarrow> (relay_query \<Rightarrow> header_map \<Rightarrow> http_reply) \<Rightarrow> bytes option \<Rightarrow>
   ('sk, 'vk) device_identity \<Rightarrow> device_id \<Rightarrow> bytes \<Rightarrow> relay_cursor \<Rightarrow> transport_error + relay_page" where
  "fetch_relay_head c pc nc send random identity expected_peer expected_sec1 cursor =
     request_relay c pc nc send random identity RELAY_HEAD_SIGNING_CONTEXT RELAY_HEAD_REQUEST_CONTEXT 0 cursor
       expected_peer expected_sec1 0 True"

definition WATCH_MAX_WAIT :: nat where
  "WATCH_MAX_WAIT = 50000"

definition watch_relay_head ::
  "('sk, 'vk, 'sg) crypto \<Rightarrow> codec \<Rightarrow> net_codec \<Rightarrow> (relay_query \<Rightarrow> header_map \<Rightarrow> http_reply) \<Rightarrow> bytes option \<Rightarrow>
   ('sk, 'vk) device_identity \<Rightarrow> device_id \<Rightarrow> bytes \<Rightarrow> relay_cursor \<Rightarrow> nat \<Rightarrow> transport_error + relay_page" where
  "watch_relay_head c pc nc send random identity expected_peer expected_sec1 cursor wait =
     request_relay c pc nc send random identity RELAY_WATCH_SIGNING_CONTEXT RELAY_WATCH_REQUEST_CONTEXT
       (min wait WATCH_MAX_WAIT) cursor expected_peer expected_sec1 0 True"

definition http_pull :: "codec \<Rightarrow> net_codec \<Rightarrow> (order_key \<Rightarrow> http_reply) \<Rightarrow> order_key \<Rightarrow> transport_error + signed_op list" where
  "http_pull pc nc send cursor =
     and_then (get_bytes (send cursor)) (\<lambda>bs.
       and_then (ok_or TWire (nc_pull_from nc bs)) (\<lambda>resp.
         map_err TOp (try_map (from_bytes pc) (pr_ops resp))))"

section \<open>What the relay routes serve\<close>

lemma stream_seqs:
  "map entry_seq (stream_entries xs a n) = [Suc a..<Suc a + length (stream_entries xs a n)]"
proof -
  have "map entry_seq (stream_entries xs a n) = map Suc [a..<min (a + n) (length xs)]"
    by (simp add: stream_entries_def o_def)
  also have "\<dots> = [Suc a..<Suc (min (a + n) (length xs))]" by (rule map_Suc_upt)
  also have "\<dots> = [Suc a..<Suc a + length (stream_entries xs a n)]"
    by (cases "a \<le> min (a + n) (length xs)") (simp_all add: stream_entries_def)
  finally show ?thesis .
qed

lemma stream_bounds:
  "length (stream_entries xs a n) \<le> n"
  "stream_entries xs a n \<noteq> [] \<Longrightarrow> a + length (stream_entries xs a n) \<le> length xs"
  by (auto simp: stream_entries_def)

lemma stream_contiguous:
  "length xs < 2 ^ 64 \<Longrightarrow> contiguous a (length xs) (map entry_seq (stream_entries xs a n))"
  unfolding stream_seqs using upt_contiguous [of a "length (stream_entries xs a n)" "length xs"] stream_bounds(2) [of xs a n]
  by (cases "stream_entries xs a n = []") simp_all

lemma last_seq_upt: "last_seq a [Suc a..<Suc a + n] = a + n"
  by (cases n) (simp_all add: last_seq_def)

lemma stream_last: "last_seq a (map entry_seq (stream_entries xs a n)) = a + length (stream_entries xs a n)"
  unfolding stream_seqs by (rule last_seq_upt)

definition full_stream :: "bytes \<Rightarrow> signed_op list \<Rightarrow> relay_stream_state" where
  "full_stream e xs = \<lparr>rs_epoch = e, rs_head = length xs, rs_floor = 0\<rparr>"

context log_reader
begin

lemma relay_ops_served:
  assumes "inv l" "sv_log st = src l" "epoch l \<noteq> zero_epoch" "length (arrived l) < 2 ^ 64"
  shows "relay_ops_reply c pc' nc st q auth =
    (let reply = signed_relay_response c pc' nc (sv_identity st) (ra_caller auth) RELAY_OPS_SIGNING_CONTEXT
                   (ra_epoch auth) (q_after q) (q_bound q) (ra_nonce auth) (full_stream (epoch l) (arrived l));
         es = stream_entries (arrived l) (q_after q) (q_bound q)
     in if relay_needs_reset (ra_epoch auth) (q_after q) (full_stream (epoch l) (arrived l)) then reply True 0 []
        else reply False (q_after q + length es) es)"
  using assms stream_contiguous [OF assms(4), of "q_after q" "q_bound q"] stream_bounds(1) [of "arrived l" "q_after q" "q_bound q"]
  by (simp add: relay_ops_reply_def stream_of_def src_relay_state src_relay_page valid_relay_state_def
      stream_last full_stream_def Let_def)

end

section \<open>What the client accepts\<close>

lemma net_relay_roundtrip: "net_codec_laws nc \<Longrightarrow> \<exists>bs. nc_relay_to nc x = Some bs \<and> nc_relay_from nc bs = Some x"
  by (simp add: net_codec_laws_def)

definition wire_entry :: "codec \<Rightarrow> relay_log_entry \<Rightarrow> relay_wire_entry" where
  "wire_entry pc e = \<lparr>we_seq = entry_seq e, we_envelope = env_bytes pc (entry_op e)\<rparr>"

lemma signed_relay_response_reply:
  assumes "codec_laws pc" "net_codec_laws nc"
  shows "\<exists>body. signed_relay_response c pc nc identity caller cx e a b n state reset next entries =
      Inr \<lparr>resp_headers = [(RELAY_SIGNATURE_HEADER, Visible (encode_hex (sign_relay_response c identity caller cx e a b n body)))],
           resp_body = body\<rparr> \<and>
    nc_relay_from nc body = Some \<lparr>rr_v = RELAY_PROTOCOL_VERSION, rr_epoch = rs_epoch state, rr_head = rs_head state,
            rr_floor = rs_floor state, rr_next = next, rr_reset = reset, rr_entries = map (wire_entry pc) entries\<rparr>"
proof -
  have "try_map (\<lambda>e. and_then (to_bytes pc (entry_op e)) (\<lambda>bs. Inr \<lparr>we_seq = entry_seq e, we_envelope = bs\<rparr>)) entries =
      Inr (map (wire_entry pc) entries)"
    by (rule try_map_total) (simp add: to_bytes_total [OF assms(1)] wire_entry_def)
  then show ?thesis
    using net_relay_roundtrip [OF assms(2), of "\<lparr>rr_v = RELAY_PROTOCOL_VERSION, rr_epoch = rs_epoch state,
        rr_head = rs_head state, rr_floor = rs_floor state, rr_next = next, rr_reset = reset,
        rr_entries = map (wire_entry pc) entries\<rparr>"]
    by (auto simp: signed_relay_response_def Let_def)
qed

lemma request_relay_accepts:
  assumes "sha_laws c" "sec1_laws c" "ecdsa_laws c"
    and "send \<lparr>q_epoch = encode_hex (cur_epoch cursor), q_after = cur_after cursor, q_bound = bound\<rparr>
           (relay_request_headers c me rcx (device_id (from_signing c sk)) cursor bound nonce) =
         Replied \<lparr>resp_headers = [(RELAY_SIGNATURE_HEADER, Visible (encode_hex (sign_relay_response c (from_signing c sk)
             (device_id me) cx (cur_epoch cursor) (cur_after cursor) bound nonce body)))], resp_body = body\<rparr>"
    and "nc_relay_from nc body = Some wire"
  shows "request_relay c pc nc send (Some nonce) me cx rcx bound cursor (device_id (from_signing c sk))
      (public_key_sec1 c (from_signing c sk)) max_entries status_only =
    decode_relay_response pc wire cursor max_entries status_only"
  unfolding request_relay_def
  by (simp add: assms(4,5) signed_reply_def to_str_def honest_response_verifies [OF assms(1-3)] del: device_id_from_signing)

lemma decode_wire_entries:
  assumes "codec_laws pc" "\<And>e. e \<in> set es \<Longrightarrow> op_wf (entry_op e)"
  shows "try_map (\<lambda>e. and_then (from_bytes pc (we_envelope e)) (\<lambda>sop. Inr \<lparr>ro_seq = we_seq e, ro_op = sop\<rparr>)) (map (wire_entry pc) es) =
    Inr (map (\<lambda>e. \<lparr>ro_seq = entry_seq e, ro_op = entry_op e\<rparr>) es)"
  using assms(2) by (induction es) (auto simp: wire_entry_def from_env_bytes [OF assms(1)])

text \<open>The page a client gets from an honest server: a reset, or the next entries of the stream.\<close>

definition expected_page :: "bytes \<Rightarrow> signed_op list \<Rightarrow> relay_cursor \<Rightarrow> nat \<Rightarrow> relay_page" where
  "expected_page e xs cursor limit =
     (if relay_needs_reset (cur_epoch cursor) (cur_after cursor) (full_stream e xs)
      then \<lparr>rp_epoch = e, rp_head = length xs, rp_floor = 0, rp_next = 0, rp_reset = True, rp_entries = []\<rparr>
      else let es = stream_entries xs (cur_after cursor) limit in
        \<lparr>rp_epoch = e, rp_head = length xs, rp_floor = 0, rp_next = cur_after cursor + length es, rp_reset = False,
         rp_entries = map (\<lambda>e. \<lparr>ro_seq = entry_seq e, ro_op = entry_op e\<rparr>) es\<rparr>)"

definition cursor_wf :: "relay_cursor \<Rightarrow> bool" where
  "cursor_wf cursor \<longleftrightarrow> length (cur_epoch cursor) = 32 \<and> (cur_epoch cursor = zero_epoch \<longrightarrow> cur_after cursor = 0)"

lemma stream_entries_held: "e \<in> set (stream_entries xs a n) \<Longrightarrow> entry_op e \<in> set xs"
  by (auto simp: stream_entries_def)

lemma decode_expected_page:
  assumes "codec_laws pc" "\<And>sop. sop \<in> set xs \<Longrightarrow> op_wf sop" "e \<noteq> zero_epoch" "length xs < 2 ^ 64" "cursor_wf cursor"
    and "reset = relay_needs_reset (cur_epoch cursor) (cur_after cursor) (full_stream e xs)"
    and "es = (if reset then [] else stream_entries xs (cur_after cursor) limit)"
    and "next = (if reset then 0 else cur_after cursor + length es)"
  shows "decode_relay_response pc \<lparr>rr_v = RELAY_PROTOCOL_VERSION, rr_epoch = e, rr_head = length xs, rr_floor = 0,
      rr_next = next, rr_reset = reset, rr_entries = map (wire_entry pc) es\<rparr> cursor limit False =
    Inr (expected_page e xs cursor limit)"
proof -
  let ?wire = "\<lparr>rr_v = RELAY_PROTOCOL_VERSION, rr_epoch = e, rr_head = length xs, rr_floor = 0,
      rr_next = next, rr_reset = reset, rr_entries = map (wire_entry pc) es\<rparr>"
  have inv: "cursor_invalid cursor ?wire \<longleftrightarrow> reset"
    unfolding assms(6) by (simp add: cursor_invalid_def relay_needs_reset_def full_stream_def)
  have seqs: "map we_seq (map (wire_entry pc) es) = map entry_seq es" by (simp add: wire_entry_def)
  show ?thesis
  proof (cases reset)
    case True
    then show ?thesis using inv assms(3,6-8) by (simp add: decode_relay_response_def Let_def expected_page_def)
  next
    case False
    then have es: "es = stream_entries xs (cur_after cursor) limit" and n: "next = cur_after cursor + length es"
      using assms(7,8) by auto
    have "cur_after cursor \<le> length xs"
      using False assms(5,6) by (auto simp: relay_needs_reset_def full_stream_def cursor_wf_def)
    then have next_ok: "next \<le> length xs"
      using stream_bounds(2) [of xs "cur_after cursor" limit] es n by (cases "es = []") auto
    have "op_wf (entry_op e)" if "e \<in> set es" for e
      using that assms(2) stream_entries_held unfolding es by blast
    note dec = decode_wire_entries [OF assms(1) this, of es]
    show ?thesis
      using False inv assms(3,6) next_ok dec stream_contiguous [OF assms(4), of "cur_after cursor" limit]
        stream_bounds(1) [of xs "cur_after cursor" limit] stream_last [of "cur_after cursor" xs limit]
      unfolding decode_relay_response_def Let_def expected_page_def relay_response.simps seqs
      by (simp add: es n)
  qed
qed

section \<open>A concrete body codec for the witnesses\<close>

definition enc_nat :: "nat \<Rightarrow> bytes" where
  "enc_nat n = enc_list (replicate n 0)"

definition dec_nat :: "bytes \<Rightarrow> nat \<times> bytes" where
  "dec_nat bs = (let (xs, r) = dec_list bs in (length xs, r))"

definition enc_many :: "('a \<Rightarrow> bytes) \<Rightarrow> 'a list \<Rightarrow> bytes" where
  "enc_many f xs = enc_nat (length xs) @ concat (map f xs)"

primrec dec_times :: "(bytes \<Rightarrow> 'a \<times> bytes) \<Rightarrow> nat \<Rightarrow> bytes \<Rightarrow> 'a list \<times> bytes" where
  "dec_times d 0 bs = ([], bs)"
| "dec_times d (Suc n) bs = (let (x, r) = d bs; (xs, r') = dec_times d n r in (x # xs, r'))"

definition dec_many :: "(bytes \<Rightarrow> 'a \<times> bytes) \<Rightarrow> bytes \<Rightarrow> 'a list \<times> bytes" where
  "dec_many d bs = (let (n, r) = dec_nat bs in dec_times d n r)"

definition enc_entry :: "relay_wire_entry \<Rightarrow> bytes" where
  "enc_entry e = enc_nat (we_seq e) @ enc_list (we_envelope e)"

definition dec_entry :: "bytes \<Rightarrow> relay_wire_entry \<times> bytes" where
  "dec_entry bs = (let (n, r) = dec_nat bs; (v, r') = dec_list r in (\<lparr>we_seq = n, we_envelope = v\<rparr>, r'))"

definition enc_device :: "device_entry \<Rightarrow> bytes" where
  "enc_device e = enc_list (de_device_id e) @ enc_list (de_public_key e)"

definition dec_device :: "bytes \<Rightarrow> device_entry \<times> bytes" where
  "dec_device bs = (let (d, r) = dec_list bs; (k, r') = dec_list r in (\<lparr>de_device_id = d, de_public_key = k\<rparr>, r'))"

definition enc_relay :: "relay_response \<Rightarrow> bytes" where
  "enc_relay x = rr_v x # enc_list (rr_epoch x) @ enc_nat (rr_head x) @ enc_nat (rr_floor x) @ enc_nat (rr_next x) @
     enc_nat (if rr_reset x then 1 else 0) @ enc_many enc_entry (rr_entries x)"

definition dec_relay :: "bytes \<Rightarrow> relay_response" where
  "dec_relay bs =
     (let (e, r1) = dec_list (tl bs); (h, r2) = dec_nat r1; (f, r3) = dec_nat r2; (n, r4) = dec_nat r3;
          (t, r5) = dec_nat r4; (es, r6) = dec_many dec_entry r5
      in \<lparr>rr_v = hd bs, rr_epoch = e, rr_head = h, rr_floor = f, rr_next = n, rr_reset = (t = 1), rr_entries = es\<rparr>)"

definition demo_net_codec :: net_codec where
  "demo_net_codec =
     \<lparr>nc_identity_to = (\<lambda>x. Some (enc_list (ir_device_id x) @ enc_list (ir_public_key x))),
      nc_identity_from = (\<lambda>bs. let (d, r) = dec_list bs; (k, r') = dec_list r in Some \<lparr>ir_device_id = d, ir_public_key = k\<rparr>),
      nc_pull_to = (\<lambda>x. Some (enc_many enc_list (pr_ops x) @ enc_list (pr_next x))),
      nc_pull_from = (\<lambda>bs. let (os, r) = dec_many dec_list bs; (n, r') = dec_list r in Some \<lparr>pr_ops = os, pr_next = n\<rparr>),
      nc_relay_to = (\<lambda>x. Some (enc_relay x)),
      nc_relay_from = (\<lambda>bs. Some (dec_relay bs)),
      nc_devices_to = (\<lambda>x. Some (enc_many enc_device x)),
      nc_devices_from = (\<lambda>bs. Some (fst (dec_many dec_device bs)))\<rparr>"

lemma dec_enc_nat [simp]: "dec_nat (enc_nat n @ r) = (n, r)"
  by (simp add: dec_nat_def enc_nat_def)

lemma dec_enc_times: "(\<And>x r. d (f x @ r) = (x, r)) \<Longrightarrow> dec_times d (length xs) (concat (map f xs) @ r) = (xs, r)"
  by (induction xs) simp_all

lemma dec_enc_many: "(\<And>x r. d (f x @ r) = (x, r)) \<Longrightarrow> dec_many d (enc_many f xs @ r) = (xs, r)"
  by (simp add: dec_many_def enc_many_def dec_enc_times)

lemma dec_enc_many_end: "(\<And>x r. d (f x @ r) = (x, r)) \<Longrightarrow> dec_many d (enc_many f xs) = (xs, [])"
  using dec_enc_many [of d f xs "[]"] by simp

lemma dec_enc_entry: "dec_entry (enc_entry e @ r) = (e, r)"
  by (simp add: dec_entry_def enc_entry_def)

lemma dec_enc_device: "dec_device (enc_device e @ r) = (e, r)"
  by (simp add: dec_device_def enc_device_def)

lemma dec_enc_relay: "dec_relay (enc_relay x) = x"
  by (simp add: dec_relay_def enc_relay_def dec_enc_many_end [of dec_entry, OF dec_enc_entry])

lemma demo_net_codec_laws: "net_codec_laws demo_net_codec"
  by (simp add: net_codec_laws_def demo_net_codec_def dec_enc_relay dec_enc_many [of dec_list enc_list]
      dec_enc_many_end [of dec_device, OF dec_enc_device])

definition demo_log :: op_log where
  "demo_log = log_of (replicate 32 1) [demo_op 5 42 [1], demo_op 5 43 [2]]"

lemma demo_log_epoch: "relay_epoch demo_log = replicate 32 1"
proof -
  have "relay_epoch (log_of r xs) = relay_epoch (log_new r)" for r xs
    by (induction xs rule: rev_induct) (simp_all add: log_of_Nil log_of_snoc log_append_def)
  then show ?thesis by (simp add: demo_log_def log_new_def)
qed

lemma demo_log_facts:
  "log_ok demo_log" "sop \<in> set (log_iter demo_log) \<Longrightarrow> op_wf sop" "relay_epoch demo_log \<noteq> zero_epoch"
  "length (relay_order demo_log) < 2 ^ 64"
proof -
  show ok: "log_ok demo_log" unfolding demo_log_def by (rule log_of_ok)
  have sub: "set (log_iter demo_log) \<subseteq> {demo_op 5 42 [1], demo_op 5 43 [2]}"
    using log_of_sub [of "replicate 32 1" "[demo_op 5 42 [1], demo_op 5 43 [2]]"] by (simp add: demo_log_def)
  then show "sop \<in> set (log_iter demo_log) \<Longrightarrow> op_wf sop" using demo_op_wf by blast
  show "relay_epoch demo_log \<noteq> zero_epoch" by (simp add: demo_log_epoch zero_epoch_def)
  have "length (relay_order demo_log) = card (set (arrivals demo_log))"
    using distinct_card [OF distinct_arrivals [OF ok]] by simp
  also have "\<dots> \<le> card {demo_op 5 42 [1], demo_op 5 43 [2]}"
    unfolding set_arrivals [OF ok] by (rule card_mono [OF _ sub]) simp
  also have "\<dots> \<le> 2" by (simp add: card_insert_if)
  finally show "length (relay_order demo_log) < 2 ^ 64" by simp
qed

section \<open>Properties\<close>

text \<open>
  C6: Client and server of relay v2 agree end to end. When a client whose key the server knows asks an
  honest server over an in-memory log, with a fresh nonce and a limit of 1 to 512, the request is
  authenticated, the reply's signature verifies, the page passes every check of the client, and what
  comes out is the reset page exactly when the cursor does not fit the stream, and otherwise the next
  entries of the arrival stream in order, with the cursor right behind them.
\<close>

theorem relay_ops_agree:
  assumes laws: "sha_laws c" "sec1_laws c" "ecdsa_laws c" "codec_laws pc" "net_codec_laws nc"
    and log: "log_ok log" "\<And>sop. sop \<in> set (log_iter log) \<Longrightarrow> op_wf sop" "relay_epoch log \<noteq> zero_epoch"
      "length (relay_order log) < 2 ^ 64"
    and server: "sv_identity st = from_signing c sks" "sv_log st = log_as_source pc log"
      "db_try_key_for_device (sv_relay_callers st) (device_id (from_signing c skc)) =
         Inr (Some (public_key_sec1 c (from_signing c skc)))"
    and request: "1 \<le> limit" "limit \<le> 512" "length nonce = 32" "cursor_wf cursor"
      "snd (admit_nonce now (device_id (from_signing c skc), nonce) (sv_relay_replays st)) = Inr ()"
  shows "fetch_relay_ops c pc nc (\<lambda>q h. reply_of (snd (get_relay_ops c pc nc now st q h))) (Some nonce) limit
      (from_signing c skc) (device_id (from_signing c sks)) (public_key_sec1 c (from_signing c sks)) cursor =
    Inr (expected_page (relay_epoch log) (arrivals log) cursor limit)"
proof -
  let ?me = "from_signing c skc" and ?xs = "arrivals log" and ?e = "relay_epoch log"
  let ?q = "\<lparr>q_epoch = encode_hex (cur_epoch cursor), q_after = cur_after cursor, q_bound = limit\<rparr>"
  let ?h = "relay_request_headers c ?me RELAY_OPS_REQUEST_CONTEXT (device_id (from_signing c sks)) cursor limit nonce"
  let ?auth = "\<lparr>ra_epoch = cur_epoch cursor, ra_nonce = nonce, ra_caller = device_id ?me\<rparr>"
  let ?reset = "relay_needs_reset (cur_epoch cursor) (cur_after cursor) (full_stream ?e ?xs)"
  define es where "es = (if ?reset then [] else stream_entries ?xs (cur_after cursor) limit)"
  define nxt where "nxt = (if ?reset then 0 else cur_after cursor + length es)"
  have "relay_request_check c (q_epoch ?q) (q_after ?q) limit ?h RELAY_OPS_REQUEST_CONTEXT (device_id (from_signing c sks))
      (sv_relay_callers st) = Inr ?auth"
    using honest_request_check [OF laws(1-3) request(3) _ _ server(3)] request(4) by (simp add: cursor_wf_def)
  then have auth: "snd (get_relay_ops c pc nc now st ?q ?h) = relay_ops_reply c pc nc st ?q ?auth"
    using request(1,2,5) server(1)
    by (cases "admit_nonce now (device_id ?me, nonce) (sv_relay_replays st)")
      (simp add: get_relay_ops_def DEFAULT_PULL_LIMIT_def relay_request_def)
  have reply: "relay_ops_reply c pc nc st ?q ?auth =
      signed_relay_response c pc nc (from_signing c sks) (device_id ?me) RELAY_OPS_SIGNING_CONTEXT (cur_epoch cursor)
        (cur_after cursor) limit nonce (full_stream ?e ?xs) ?reset nxt es"
    using mem_log.relay_ops_served [of pc log st c pc nc ?q ?auth] log laws(4) server(1,2)
    by (simp add: Let_def es_def nxt_def)
  obtain body where body: "signed_relay_response c pc nc (from_signing c sks) (device_id ?me) RELAY_OPS_SIGNING_CONTEXT
        (cur_epoch cursor) (cur_after cursor) limit nonce (full_stream ?e ?xs) ?reset nxt es =
      Inr \<lparr>resp_headers = [(RELAY_SIGNATURE_HEADER, Visible (encode_hex (sign_relay_response c (from_signing c sks)
             (device_id ?me) RELAY_OPS_SIGNING_CONTEXT (cur_epoch cursor) (cur_after cursor) limit nonce body)))], resp_body = body\<rparr>"
    and wire: "nc_relay_from nc body = Some \<lparr>rr_v = RELAY_PROTOCOL_VERSION, rr_epoch = ?e, rr_head = length ?xs,
            rr_floor = 0, rr_next = nxt, rr_reset = ?reset, rr_entries = map (wire_entry pc) es\<rparr>"
    using signed_relay_response_reply [OF laws(4,5), of c "from_signing c sks" "device_id ?me" RELAY_OPS_SIGNING_CONTEXT
        "cur_epoch cursor" "cur_after cursor" limit nonce "full_stream ?e ?xs" ?reset nxt es]
    by (auto simp: full_stream_def)
  have send: "reply_of (snd (get_relay_ops c pc nc now st ?q ?h)) =
      Replied \<lparr>resp_headers = [(RELAY_SIGNATURE_HEADER, Visible (encode_hex (sign_relay_response c (from_signing c sks)
             (device_id ?me) RELAY_OPS_SIGNING_CONTEXT (cur_epoch cursor) (cur_after cursor) limit nonce body)))], resp_body = body\<rparr>"
    by (simp only: auth reply body reply_of_def sum.case)
  have "op_wf sop" if "sop \<in> set ?xs" for sop using that log(2) set_arrivals [OF log(1)] by simp
  note page = decode_expected_page [OF laws(4) this log(3) _ request(4) refl es_def nxt_def]
  have "fetch_relay_ops c pc nc (\<lambda>q h. reply_of (snd (get_relay_ops c pc nc now st q h))) (Some nonce) limit
      ?me (device_id (from_signing c sks)) (public_key_sec1 c (from_signing c sks)) cursor =
    decode_relay_response pc \<lparr>rr_v = RELAY_PROTOCOL_VERSION, rr_epoch = ?e, rr_head = length ?xs,
            rr_floor = 0, rr_next = nxt, rr_reset = ?reset, rr_entries = map (wire_entry pc) es\<rparr> cursor limit False"
    unfolding fetch_relay_ops_def by (rule request_relay_accepts [OF laws(1-3) _ wire]) (rule send)
  also have "\<dots> = Inr (expected_page ?e ?xs cursor limit)"
    by (rule page) (use log(4) in simp_all)
  finally show ?thesis .
qed

theorem relay_ops_agree_witness:
  "let st = \<lparr>sv_identity = from_signing demo_crypto 7, sv_log = log_as_source demo_codec demo_log,
             sv_devices = demo_book, sv_relay_callers = demo_book, sv_relay_replays = []\<rparr> in
   fetch_relay_ops demo_crypto demo_codec demo_net_codec
      (\<lambda>q h. reply_of (snd (get_relay_ops demo_crypto demo_codec demo_net_codec 0 st q h))) (Some (replicate 32 9)) 10
      (from_signing demo_crypto 5) (device_id (from_signing demo_crypto 7))
      (public_key_sec1 demo_crypto (from_signing demo_crypto 7)) RELAY_START =
    Inr (expected_page (relay_epoch demo_log) (arrivals demo_log) RELAY_START 10)"
  unfolding Let_def
  by (rule relay_ops_agree [OF demo_sha_laws demo_sec1_laws demo_ecdsa_laws demo_codec_laws demo_net_codec_laws
        demo_log_facts])
    (simp_all add: demo_book_lookup cursor_wf_def RELAY_START_def zero_epoch_def admit_nonce_def RELAY_REPLAY_LIMIT_def
      del: device_id_from_signing)

end
