(* ===== verification/Sync.thy ===== *)
theory Sync
  imports RelayServer
begin

text \<open>
  The hybrid logical clock wrapper (\<open>src/hlc.rs\<close>) and the sync rounds of \<open>src/net/sync.rs\<close>: peer
  registration, key gossip, one v1 pull and one relay v2 pull into the node's log, durability file and
  store. The clock itself is the crate \<open>uhlc\<close>, a parameter (\<open>clock_impl\<close>).
\<close>

section \<open>The clock\<close>

record ('h, 'i) clock_impl =
  ck_id :: "bytes \<Rightarrow> 'i option"
  ck_one :: 'i
  ck_update :: "'h \<Rightarrow> hlc \<Rightarrow> 'i \<Rightarrow> 'h \<times> (string + unit)"
  ck_new_timestamp :: "'h \<Rightarrow> 'h \<times> hlc"

text \<open>\<open>ck_one\<close> is the id made of one non-zero byte, which uhlc documents as valid.\<close>

definition clock_id :: "('h, 'i) clock_impl \<Rightarrow> device_id \<Rightarrow> 'i" where
  "clock_id ck d = (case ck_id ck (take 16 (as_bytes d)) of Some i \<Rightarrow> i | None \<Rightarrow> ck_one ck)"

definition clock_now :: "('h, 'i) clock_impl \<Rightarrow> 'h \<Rightarrow> 'h \<times> hlc" where
  "clock_now ck h = ck_new_timestamp ck h"

definition clock_update :: "('h, 'i) clock_impl \<Rightarrow> 'h \<Rightarrow> hlc \<Rightarrow> device_id \<Rightarrow> 'h \<times> (string + hlc)" where
  "clock_update ck h remote from_device =
     (case ck_update ck h remote (clock_id ck from_device) of
        (h', Inl e) \<Rightarrow> (h', Inl e)
      | (h', Inr _) \<Rightarrow> (let (h'', t) = clock_now ck h' in (h'', Inr t)))"

section \<open>Peers and keys\<close>

definition register_peer_with_key ::
  "('sk, 'vk, 'sg) crypto \<Rightarrow> (transport_error + identity_resp) \<Rightarrow> 'vk registry \<Rightarrow>
   'vk registry \<times> (transport_error + (device_id \<times> bytes \<times> bool))" where
  "register_peer_with_key c fetched reg =
     (case fetched of
        Inl e \<Rightarrow> (reg, Inl e)
      | Inr resp \<Rightarrow>
          let advertised = DeviceId (ir_device_id resp); sec1 = ir_public_key resp in
          if length sec1 \<noteq> 33 then (reg, Inl TWire)
          else case device_id_from_sec1 c sec1 of
            Inl e \<Rightarrow> (reg, Inl (TIdentity e))
          | Inr derived \<Rightarrow>
              if derived \<noteq> advertised then (reg, Inl (TIdentityMismatch advertised derived))
              else let newly_added = (\<not> reg_contains reg advertised) in
                (case insert_sec1 c reg sec1 of
                   (reg', Inl e) \<Rightarrow> (reg', Inl (TIdentity e))
                 | (reg', Inr _) \<Rightarrow> (reg', Inr (advertised, sec1, newly_added))))"

fun learn_loop ::
  "('sk, 'vk, 'sg) crypto \<Rightarrow> device_entry list \<Rightarrow> 'vk registry \<Rightarrow> device_id list \<Rightarrow> 'vk registry \<times> device_id list" where
  "learn_loop c [] reg added = (reg, added)"
| "learn_loop c (e # rest) reg added =
     (let advertised = DeviceId (de_device_id e); sec1 = de_public_key e in
      if length sec1 \<noteq> 33 then learn_loop c rest reg added
      else case device_id_from_sec1 c sec1 of
        Inl _ \<Rightarrow> learn_loop c rest reg added
      | Inr derived \<Rightarrow>
          if derived \<noteq> advertised \<or> reg_contains reg advertised then learn_loop c rest reg added
          else (case insert_sec1 c reg sec1 of
                  (reg', Inr _) \<Rightarrow> learn_loop c rest reg' (added @ [advertised])
                | (reg', Inl _) \<Rightarrow> learn_loop c rest reg' added))"

definition learn_device_entries ::
  "('sk, 'vk, 'sg) crypto \<Rightarrow> device_entry list \<Rightarrow> 'vk registry \<Rightarrow> 'vk registry \<times> device_id list" where
  "learn_device_entries c entries reg = learn_loop c entries reg []"

definition learn_devices ::
  "('sk, 'vk, 'sg) crypto \<Rightarrow> (transport_error + device_entry list) \<Rightarrow> 'vk registry \<Rightarrow>
   'vk registry \<times> (transport_error + device_id list)" where
  "learn_devices c fetched reg =
     (case fetched of
        Inl e \<Rightarrow> (reg, Inl e)
      | Inr entries \<Rightarrow> (let (reg', added) = learn_device_entries c entries reg in (reg', Inr added)))"

section \<open>One round\<close>

datatype apply_mode = Replay | Incremental

record ('h, 's, 'vk) node =
  nd_registry :: "'vk registry"
  nd_clock :: 'h
  nd_log :: op_log
  nd_store :: 's
  nd_writer :: "writer option"

text \<open>The answers of the durability file during a round: per op of the page, and the final fsync.\<close>

record sync_io =
  io_append :: "nat \<Rightarrow> append_io"
  io_sync :: bool

definition admit_op ::
  "('sk, 'vk, 'sg) crypto \<Rightarrow> codec \<Rightarrow> ('h, 'i) clock_impl \<Rightarrow> append_io \<Rightarrow> signed_op \<Rightarrow> ('h, 's, 'vk) node \<Rightarrow>
   ('h, 's, 'vk) node \<times> (transport_error + bool)" where
  "admit_op c pc ck io sop node =
     (let d = body_device (op_body sop) in
      case key_for (nd_registry node) d of
        None \<Rightarrow> (node, Inl (TVerify d None))
      | Some key \<Rightarrow>
          (case verify c pc sop key of
             Inl e \<Rightarrow> (node, Inl (TVerify d (Some e)))
           | Inr _ \<Rightarrow>
               (case clock_update ck (nd_clock node) (body_hlc (op_body sop)) d of
                  (h, Inl _) \<Rightarrow> (node\<lparr>nd_clock := h\<rparr>, Inl (TDrift d (body_hlc (op_body sop))))
                | (h, Inr _) \<Rightarrow>
                    let node = node\<lparr>nd_clock := h\<rparr> in
                    if contains (nd_log node) (op_id sop) then (node, Inr False)
                    else case nd_writer node of
                      None \<Rightarrow> (node\<lparr>nd_log := fst (log_append (nd_log node) sop)\<rparr>, Inr True)
                    | Some w \<Rightarrow>
                        (case writer_append pc io sop w of
                           (w', Inl e) \<Rightarrow> (node\<lparr>nd_writer := Some w'\<rparr>, Inl (TDurability e))
                         | (w', Inr _) \<Rightarrow>
                             (node\<lparr>nd_writer := Some w', nd_log := fst (log_append (nd_log node) sop)\<rparr>, Inr True)))))"

text \<open>
  The loop of both rounds over a page: each op with the cursor position it stands for (its order key in
  v1, its sequence number in v2), the position reached, the ops accepted and the ops new to the log.
\<close>

fun admit_loop ::
  "('sk, 'vk, 'sg) crypto \<Rightarrow> codec \<Rightarrow> ('h, 'i) clock_impl \<Rightarrow> (nat \<Rightarrow> append_io) \<Rightarrow> (signed_op \<times> 'm) list \<Rightarrow> 'm \<Rightarrow> nat \<Rightarrow> nat \<Rightarrow>
   ('h, 's, 'vk) node \<Rightarrow> ('h, 's, 'vk) node \<times> 'm \<times> nat \<times> nat \<times> transport_error option" where
  "admit_loop c pc ck io [] reached received appended node = (node, reached, received, appended, None)"
| "admit_loop c pc ck io ((sop, m) # rest) reached received appended node =
     (case admit_op c pc ck (io received) sop node of
        (node', Inl e) \<Rightarrow> (node', reached, received, appended, Some e)
      | (node', Inr new) \<Rightarrow>
          admit_loop c pc ck io rest m (received + 1) (if new then appended + 1 else appended) node')"

definition sync_file :: "bool \<Rightarrow> ('h, 's, 'vk) node \<Rightarrow> durability_error + unit" where
  "sync_file ok_flag node = (case nd_writer node of None \<Rightarrow> Inr () | Some w \<Rightarrow> sync_after_batch ok_flag w)"

definition sync_once_with ::
  "('sk, 'vk, 'sg) crypto \<Rightarrow> codec \<Rightarrow> ('h, 'i) clock_impl \<Rightarrow> ('s, 'o, 'e) store_impl \<Rightarrow> sync_io \<Rightarrow> apply_mode \<Rightarrow>
   (order_key \<Rightarrow> transport_error + signed_op list) \<Rightarrow> order_key \<Rightarrow> ('h, 's, 'vk) node \<Rightarrow>
   ('h, 's, 'vk) node \<times> order_key \<times> (transport_error + nat)" where
  "sync_once_with c pc ck impl io mode source cursor node =
     (case source cursor of
        Inl e \<Rightarrow> (node, cursor, Inl e)
      | Inr sops \<Rightarrow>
          (case admit_loop c pc ck (io_append io) (map (\<lambda>x. (x, order_key x)) sops) cursor 0 0 node of
             (node, highest, received, appended, abort) \<Rightarrow>
               let finish = (case abort of Some e \<Rightarrow> Inl e | None \<Rightarrow> Inr appended) in
               if highest = cursor then (node, cursor, finish)
               else case sync_file (io_sync io) node of
                 Inl e \<Rightarrow> (node, cursor, Inl (TDurability e))
               | Inr _ \<Rightarrow>
                   (case (case mode of
                            Replay \<Rightarrow> replay impl (nd_log node) (nd_store node)
                          | Incremental \<Rightarrow> apply_range impl (nd_log node) (nd_store node) cursor highest) of
                      (store, Inl _) \<Rightarrow> (node\<lparr>nd_store := store\<rparr>, cursor, Inl TReplay)
                    | (store, Inr _) \<Rightarrow> (node\<lparr>nd_store := store\<rparr>, highest, finish))))"

definition sync_once ::
  "('sk, 'vk, 'sg) crypto \<Rightarrow> codec \<Rightarrow> ('h, 'i) clock_impl \<Rightarrow> ('s, 'o, 'e) store_impl \<Rightarrow> sync_io \<Rightarrow>
   (order_key \<Rightarrow> transport_error + signed_op list) \<Rightarrow> order_key \<Rightarrow> ('h, 's, 'vk) node \<Rightarrow>
   ('h, 's, 'vk) node \<times> order_key \<times> (transport_error + nat)" where
  "sync_once c pc ck impl io source cursor node = sync_once_with c pc ck impl io Replay source cursor node"

record relay_sync_outcome =
  so_received :: nat
  so_appended :: nat
  so_reset :: bool

definition sync_relay_once ::
  "('sk, 'vk, 'sg) crypto \<Rightarrow> codec \<Rightarrow> ('h, 'i) clock_impl \<Rightarrow> ('s, 'o, 'e) store_impl \<Rightarrow> sync_io \<Rightarrow>
   (relay_cursor \<Rightarrow> transport_error + relay_page) \<Rightarrow> relay_cursor \<Rightarrow> ('h, 's, 'vk) node \<Rightarrow>
   ('h, 's, 'vk) node \<times> relay_cursor \<times> (transport_error + relay_sync_outcome)" where
  "sync_relay_once c pc ck impl io source cursor node =
     (case source cursor of
        Inl e \<Rightarrow> (node, cursor, Inl e)
      | Inr page \<Rightarrow>
          if rp_reset page then
            (node, page_cursor page, Inr \<lparr>so_received = 0, so_appended = 0, so_reset = True\<rparr>)
          else
          (case admit_loop c pc ck (io_append io) (map (\<lambda>e. (ro_op e, ro_seq e)) (rp_entries page)) (cur_after cursor) 0 0 node of
             (node, after, received, appended, abort) \<Rightarrow>
               let cursor' = \<lparr>cur_epoch = rp_epoch page, cur_after = after\<rparr>;
                   finish = (case abort of Some e \<Rightarrow> Inl e
                     | None \<Rightarrow> Inr \<lparr>so_received = received, so_appended = appended, so_reset = False\<rparr>) in
               if after = cur_after cursor then (node, cursor', finish)
               else case sync_file (io_sync io) node of
                 Inl e \<Rightarrow> (node, cursor, Inl (TDurability e))
               | Inr _ \<Rightarrow>
                   (case replay impl (nd_log node) (nd_store node) of
                      (store, Inl _) \<Rightarrow> (node\<lparr>nd_store := store\<rparr>, cursor, Inl TReplay)
                    | (store, Inr _) \<Rightarrow> (node\<lparr>nd_store := store\<rparr>, cursor', finish))))"

section \<open>What a round keeps\<close>

definition verified :: "('sk, 'vk, 'sg) crypto \<Rightarrow> codec \<Rightarrow> 'vk registry \<Rightarrow> signed_op \<Rightarrow> bool" where
  "verified c pc reg sop \<longleftrightarrow>
     (\<exists>key. key_for reg (body_device (op_body sop)) = Some key \<and> verify c pc sop key = Inr ())"

text \<open>The durability file mirrors the log in arrival order, up to a torn tail once the writer is poisoned.\<close>

definition mirrored :: "codec \<Rightarrow> op_log \<Rightarrow> writer option \<Rightarrow> bool" where
  "mirrored pc log wo \<longleftrightarrow>
     (case wo of
        None \<Rightarrow> True
      | Some w \<Rightarrow> \<exists>tail. w_file w = frames pc (arrivals log) @ tail \<and>
          (w_poisoned w \<or> tail = [] \<and> w_pos w = length (w_file w)))"

lemma writer_append_mirrored:
  assumes "codec_laws pc" "log_ok log" "mirrored pc log (Some w)" "\<not> contains log (op_id sop)"
    and "writer_append pc io sop w = (w', res)"
  shows "(case res of Inl _ \<Rightarrow> mirrored pc log (Some w') | Inr _ \<Rightarrow> mirrored pc (fst (log_append log sop)) (Some w'))"
proof (cases "w_poisoned w")
  case True
  then show ?thesis using assms(3,5) by (auto simp: writer_append_def)
next
  case False
  then have ok: "writer_ok w" and content: "w_file w = frames pc (arrivals log)"
    using assms(3) by (auto simp: mirrored_def writer_ok_def)
  from writer_append_cases [OF assms(1) ok assms(5)] show ?thesis
    using content arrivals_append [OF assms(2,4)] by (auto simp: mirrored_def writer_ok_def)
qed

lemma admit_op_cases:
  assumes "codec_laws pc" "log_ok (nd_log node)" "mirrored pc (nd_log node) (nd_writer node)"
    and "admit_op c pc ck io sop node = (node', res)"
  shows "nd_registry node' = nd_registry node \<and> nd_store node' = nd_store node \<and>
    mirrored pc (nd_log node') (nd_writer node') \<and> (nd_writer node' = None \<longleftrightarrow> nd_writer node = None) \<and>
    (case res of
       Inl e \<Rightarrow> nd_log node' = nd_log node
     | Inr new \<Rightarrow> verified c pc (nd_registry node) sop \<and> nd_log node' = fst (log_append (nd_log node) sop) \<and>
         new = snd (log_append (nd_log node) sop))"
proof -
  let ?d = "body_device (op_body sop)"
  show ?thesis
  proof (cases "verified c pc (nd_registry node) sop")
    case False
    then show ?thesis
      using assms(3,4) by (auto simp: admit_op_def verified_def Let_def split: option.splits sum.splits)
  next
    case True
    then obtain key where key: "key_for (nd_registry node) ?d = Some key" "verify c pc sop key = Inr ()"
      by (auto simp: verified_def)
    obtain h r where clk: "clock_update ck (nd_clock node) (body_hlc (op_body sop)) ?d = (h, r)" by fastforce
    show ?thesis
    proof (cases r)
      case (Inl e)
      then show ?thesis using assms(3,4) key clk by (auto simp: admit_op_def Let_def)
    next
      case (Inr t)
      show ?thesis
      proof (cases "contains (nd_log node) (op_id sop)")
        case seen: True
        then show ?thesis
          using assms(3,4) key clk Inr True by (auto simp: admit_op_def Let_def log_append_seen)
      next
        case new: False
        show ?thesis
        proof (cases "nd_writer node")
          case None
          then show ?thesis
            using assms(4) key clk Inr True new by (auto simp: admit_op_def Let_def log_append_new_iff mirrored_def)
        next
          case (Some w)
          obtain w' wr where w: "writer_append pc io sop w = (w', wr)" by fastforce
          have "mirrored pc (nd_log node) (Some w)" using assms(3) Some by simp
          from writer_append_mirrored [OF assms(1,2) this new w] show ?thesis
            using assms(4) key clk Inr True new Some w
            by (auto simp: admit_op_def Let_def log_append_new_iff split: sum.splits)
        qed
      qed
    qed
  qed
qed

lemma admit_loop_prefix:
  assumes "codec_laws pc" "log_ok (nd_log node)" "mirrored pc (nd_log node) (nd_writer node)"
    and "admit_loop c pc ck io items reached received appended node = (node', reached', received', appended', abort)"
  shows "\<exists>n \<le> length items.
    (abort = None \<longleftrightarrow> n = length items) \<and> received' = received + n \<and>
    appended' = appended + count_new (nd_log node) (map fst (take n items)) \<and>
    reached' = (if n = 0 then reached else snd (items ! (n - 1))) \<and>
    list_all (verified c pc (nd_registry node)) (map fst (take n items)) \<and>
    nd_log node' = append_all (nd_log node) (map fst (take n items)) \<and>
    nd_registry node' = nd_registry node \<and> nd_store node' = nd_store node \<and>
    (nd_writer node' = None \<longleftrightarrow> nd_writer node = None) \<and> mirrored pc (nd_log node') (nd_writer node')"
  using assms(2-4)
proof (induction items arbitrary: reached received appended node)
  case Nil
  then show ?case by (auto simp: count_new_def)
next
  case (Cons item items)
  obtain sop m where item: "item = (sop, m)" by fastforce
  obtain v res where v: "admit_op c pc ck (io received) sop node = (v, res)" by fastforce
  note adm = admit_op_cases [OF assms(1) Cons.prems(1,2) v]
  show ?case
  proof (cases res)
    case (Inl e)
    then have "node' = v" "abort = Some e" "reached' = reached" "received' = received" "appended' = appended"
      using Cons.prems(3) v item by auto
    then show ?thesis using adm Inl by (intro exI [of _ 0]) (auto simp: count_new_def)
  next
    case (Inr new)
    let ?log = "fst (log_append (nd_log node) sop)"
    have ok: "log_ok ?log" by (rule log_append_ok [OF Cons.prems(1)])
    have log: "nd_log v = ?log" and nw: "new = snd (log_append (nd_log node) sop)"
      and ver: "verified c pc (nd_registry node) sop" and mir: "mirrored pc (nd_log v) (nd_writer v)"
      and keep: "nd_registry v = nd_registry node" "nd_store v = nd_store node" "nd_writer v = None \<longleftrightarrow> nd_writer node = None"
      using adm Inr by auto
    have run: "admit_loop c pc ck io items m (received + 1) (if new then appended + 1 else appended) v =
        (node', reached', received', appended', abort)"
      using Cons.prems(3) v item Inr by simp
    obtain n where n: "n \<le> length items" "abort = None \<longleftrightarrow> n = length items" "received' = received + 1 + n"
      "appended' = (if new then appended + 1 else appended) + count_new (nd_log v) (map fst (take n items))"
      "reached' = (if n = 0 then m else snd (items ! (n - 1)))"
      "list_all (verified c pc (nd_registry v)) (map fst (take n items))"
      "nd_log node' = append_all (nd_log v) (map fst (take n items))"
      "nd_registry node' = nd_registry v" "nd_store node' = nd_store v"
      "nd_writer node' = None \<longleftrightarrow> nd_writer v = None" "mirrored pc (nd_log node') (nd_writer node')"
      using Cons.IH [OF _ mir run] ok log by auto
    have "appended' = appended + count_new (nd_log node) (map fst (take (Suc n) (item # items)))"
      using n(4) log_len_append [OF Cons.prems(1), of sop] append_all_len [OF ok, of "map fst (take n items)"]
      by (auto simp: count_new_def log nw item)
    then show ?thesis
      using n keep ver log item by (intro exI [of _ "Suc n"]) (auto simp: nth_Cons')
  qed
qed

section \<open>Repeated relay rounds\<close>

fun relay_rounds ::
  "nat \<Rightarrow> ('sk, 'vk, 'sg) crypto \<Rightarrow> codec \<Rightarrow> ('h, 'i) clock_impl \<Rightarrow> ('s, 'o, 'e) store_impl \<Rightarrow> sync_io \<Rightarrow>
   (relay_cursor \<Rightarrow> transport_error + relay_page) \<Rightarrow> relay_cursor \<Rightarrow> ('h, 's, 'vk) node \<Rightarrow> ('h, 's, 'vk) node \<times> relay_cursor" where
  "relay_rounds 0 c pc ck impl io source cursor node = (node, cursor)"
| "relay_rounds (Suc k) c pc ck impl io source cursor node =
     (case sync_relay_once c pc ck impl io source cursor node of
        (node', cursor', _) \<Rightarrow> relay_rounds k c pc ck impl io source cursor' node')"

definition clock_accepts :: "('h, 'i) clock_impl \<Rightarrow> bool" where
  "clock_accepts ck \<longleftrightarrow> (\<forall>h t d. \<exists>h' t'. clock_update ck h t d = (h', Inr t'))"

lemma admit_op_accepts:
  assumes "clock_accepts ck" "nd_writer node = None" "verified c pc (nd_registry node) sop"
  shows "\<exists>h. admit_op c pc ck io sop node =
    (node\<lparr>nd_clock := h, nd_log := fst (log_append (nd_log node) sop)\<rparr>, Inr (snd (log_append (nd_log node) sop)))"
proof -
  obtain key where "key_for (nd_registry node) (body_device (op_body sop)) = Some key" "verify c pc sop key = Inr ()"
    using assms(3) by (auto simp: verified_def)
  moreover obtain h t where "clock_update ck (nd_clock node) (body_hlc (op_body sop)) (body_device (op_body sop)) = (h, Inr t)"
    using assms(1) unfolding clock_accepts_def by blast
  ultimately show ?thesis
    using assms(2)
    by (cases "contains (nd_log node) (op_id sop)")
      (auto simp: admit_op_def Let_def log_append_seen log_append_new_iff intro!: exI [of _ h])
qed

lemma admit_loop_accepts:
  assumes "clock_accepts ck" "nd_writer node = None" "\<And>i. i \<in> set items \<Longrightarrow> verified c pc (nd_registry node) (fst i)"
  shows "\<exists>h appended'. admit_loop c pc ck io items reached received appended node =
    (node\<lparr>nd_clock := h, nd_log := append_all (nd_log node) (map fst items)\<rparr>,
     (if items = [] then reached else snd (last items)), received + length items, appended', None)"
  using assms(2,3)
proof (induction items arbitrary: reached received appended node)
  case Nil
  then show ?case by (auto intro!: exI [of _ "nd_clock node"])
next
  case (Cons item items)
  obtain sop m where item: "item = (sop, m)" by fastforce
  obtain h where h: "admit_op c pc ck (io received) sop node =
      (node\<lparr>nd_clock := h, nd_log := fst (log_append (nd_log node) sop)\<rparr>, Inr (snd (log_append (nd_log node) sop)))"
    using admit_op_accepts [OF assms(1) Cons.prems(1), of c pc sop "io received"] Cons.prems(2) [of item] item by auto
  let ?v = "node\<lparr>nd_clock := h, nd_log := fst (log_append (nd_log node) sop)\<rparr>"
  have "\<exists>h' appended'. admit_loop c pc ck io items m (received + 1)
      (if snd (log_append (nd_log node) sop) then appended + 1 else appended) ?v =
      (?v\<lparr>nd_clock := h', nd_log := append_all (nd_log ?v) (map fst items)\<rparr>,
       (if items = [] then m else snd (last items)), received + 1 + length items, appended', None)"
    by (rule Cons.IH) (use Cons.prems in auto)
  then show ?case using h item by (auto simp: last.simps)
qed

lemma append_all_append: "append_all log (xs @ ys) = append_all (append_all log xs) ys"
  by (simp add: append_all_def)

lemma contains_append_all: "contains (append_all log xs) i \<longleftrightarrow> contains log i \<or> i \<in> op_id ` set xs"
proof (induction xs arbitrary: log)
  case (Cons x xs)
  then show ?case by (auto simp: contains_append)
qed simp

text \<open>A cursor that has read the first \<open>a\<close> entries of the stream.\<close>

definition at_position :: "bytes \<Rightarrow> nat \<Rightarrow> relay_cursor \<Rightarrow> bool" where
  "at_position e a cursor \<longleftrightarrow> cur_after cursor = a \<and> (cur_epoch cursor = e \<or> cur_epoch cursor = zero_epoch \<and> a = 0)"

lemma at_position_wf: "at_position e a cursor \<Longrightarrow> length e = 32 \<Longrightarrow> e \<noteq> zero_epoch \<Longrightarrow> cursor_wf cursor"
  by (auto simp: at_position_def cursor_wf_def zero_epoch_def)

lemma expected_page_at:
  assumes "at_position e a cursor" "a \<le> length xs" "e \<noteq> zero_epoch"
  shows "\<not> rp_reset (expected_page e xs cursor limit)" "rp_epoch (expected_page e xs cursor limit) = e"
    "rp_entries (expected_page e xs cursor limit) =
       map (\<lambda>e. \<lparr>ro_seq = entry_seq e, ro_op = entry_op e\<rparr>) (stream_entries xs a limit)"
  using assms by (auto simp: expected_page_def Let_def relay_needs_reset_def full_stream_def at_position_def)

lemma stream_ops: "map entry_op (stream_entries xs a n) = take n (drop a xs)"
proof -
  have "map entry_op (stream_entries xs a n) = map snd (map (\<lambda>i. (i, xs ! i)) [a..<min (a + n) (length xs)])"
    by (simp add: stream_entries_def o_def)
  also have "\<dots> = take n (drop a (map snd (enumerate 0 xs)))"
    unfolding take_drop_enumerate [symmetric] by (simp only: take_map drop_map)
  finally show ?thesis by simp
qed

lemma relay_round_step:
  assumes "clock_accepts ck" "nd_writer node = None" "\<And>x. x \<in> set xs \<Longrightarrow> verified c pc (nd_registry node) x"
    and "\<And>log st. set (log_iter log) \<subseteq> S \<Longrightarrow> snd (replay impl log st) = Inr ()"
    and "log_ok (nd_log node)" "set (log_iter (nd_log node)) \<union> set xs \<subseteq> S"
    and "at_position e a cursor" "a \<le> length xs" "e \<noteq> zero_epoch"
    and "\<And>cur. cursor_wf cur \<Longrightarrow> source cur = Inr (expected_page e xs cur limit)" "length e = 32"
  shows "\<exists>node' cursor' res. sync_relay_once c pc ck impl io source cursor node = (node', cursor', res) \<and>
    nd_log node' = append_all (nd_log node) (take limit (drop a xs)) \<and> nd_writer node' = None \<and>
    nd_registry node' = nd_registry node \<and> at_position e (min (a + limit) (length xs)) cursor'"
proof -
  let ?es = "stream_entries xs a limit"
  let ?items = "map (\<lambda>e. (ro_op e, ro_seq e)) (rp_entries (expected_page e xs cursor limit))"
  have items: "?items = map (\<lambda>e. (entry_op e, entry_seq e)) ?es"
    unfolding expected_page_at(3) [OF assms(7-9)] by (simp add: o_def)
  have ops: "map fst ?items = take limit (drop a xs)"
    unfolding items by (simp add: o_def stream_ops [symmetric])
  have len: "length ?es = min (a + limit) (length xs) - a" by (simp add: stream_entries_def)
  have last: "?items \<noteq> [] \<Longrightarrow> snd (last ?items) = min (a + limit) (length xs)"
    unfolding items using stream_last [of a xs limit] assms(8)
    by (auto simp: last_map last_seq_def len split: if_splits)
  have ver: "verified c pc (nd_registry node) (fst i)" if "i \<in> set ?items" for i
    using that assms(3) stream_entries_held unfolding items by auto
  obtain h k where run: "admit_loop c pc ck (io_append io) ?items (cur_after cursor) 0 0 node =
      (node\<lparr>nd_clock := h, nd_log := append_all (nd_log node) (map fst ?items)\<rparr>,
       (if ?items = [] then cur_after cursor else snd (last ?items)), 0 + length ?items, k, None)"
    using admit_loop_accepts [OF assms(1,2) ver] by blast
  define node1 where "node1 = node\<lparr>nd_clock := h, nd_log := append_all (nd_log node) (take limit (drop a xs))\<rparr>"
  define after where "after = (if ?items = [] then cur_after cursor else snd (last ?items))"
  have pos: "after = min (a + limit) (length xs)"
  proof (cases "?items = []")
    case True
    then have "min (a + limit) (length xs) \<le> a" using len items by auto
    then show ?thesis using True assms(7,8) by (simp add: after_def at_position_def)
  qed (simp add: after_def last)
  have "set (log_iter (append_all (nd_log node) ys)) \<subseteq> set (log_iter (nd_log node)) \<union> set ys" for ys
    using assms(5)
  proof (induction ys arbitrary: node)
    case (Cons y ys)
    have "set (log_iter (append_all (fst (log_append (nd_log node) y)) ys)) \<subseteq>
        set (log_iter (fst (log_append (nd_log node) y))) \<union> set ys"
      using Cons.IH [of "node\<lparr>nd_log := fst (log_append (nd_log node) y)\<rparr>"] log_append_ok [OF Cons.prems] by simp
    then show ?case using log_append_iter [OF Cons.prems, of y] by (auto split: if_splits)
  qed simp
  then have "set (log_iter (nd_log node1)) \<subseteq> S"
    using assms(6) set_take_subset [of limit "drop a xs"] set_drop_subset [of a xs]
    by (force simp: node1_def)
  then obtain st where st: "replay impl (nd_log node1) (nd_store node1) = (st, Inr ())"
    using assms(4) by (metis prod.collapse)
  have n1: "nd_writer node1 = None" "nd_registry node1 = nd_registry node" "nd_log node1 = append_all (nd_log node) (take limit (drop a xs))"
    using assms(2) by (simp_all add: node1_def)
  have "sync_relay_once c pc ck impl io source cursor node =
      (if after = cur_after cursor then (node1, \<lparr>cur_epoch = e, cur_after = after\<rparr>, Inr \<lparr>so_received = length ?items, so_appended = k, so_reset = False\<rparr>)
       else (node1\<lparr>nd_store := st\<rparr>, \<lparr>cur_epoch = e, cur_after = after\<rparr>, Inr \<lparr>so_received = length ?items, so_appended = k, so_reset = False\<rparr>))"
    unfolding sync_relay_once_def assms(10) [OF at_position_wf [OF assms(7,11,9)]]
    by (simp add: expected_page_at(1,2) [OF assms(7-9)] run [unfolded ops, folded node1_def after_def] sync_file_def n1(1) st Let_def)
  then show ?thesis
    using n1 pos by (auto simp: at_position_def)
qed

lemma log_iter_append_all:
  "log_ok log \<Longrightarrow> set (log_iter (append_all log ys)) \<subseteq> set (log_iter log) \<union> set ys"
proof (induction ys arbitrary: log)
  case (Cons y ys)
  have "set (log_iter (append_all (fst (log_append log y)) ys)) \<subseteq> set (log_iter (fst (log_append log y))) \<union> set ys"
    by (rule Cons.IH [OF log_append_ok [OF Cons.prems]])
  then show ?case using log_append_iter [OF Cons.prems, of y] by (auto split: if_splits)
qed simp

lemma relay_rounds_reach:
  assumes "clock_accepts ck" "nd_writer node = None" "\<And>x. x \<in> set xs \<Longrightarrow> verified c pc (nd_registry node) x"
    and "\<And>log st. set (log_iter log) \<subseteq> S \<Longrightarrow> snd (replay impl log st) = Inr ()"
    and "log_ok (nd_log node)" "set (log_iter (nd_log node)) \<union> set xs \<subseteq> S"
    and "at_position e a cursor" "a \<le> length xs" "e \<noteq> zero_epoch"
    and "\<And>cur. cursor_wf cur \<Longrightarrow> source cur = Inr (expected_page e xs cur limit)" "length e = 32"
  shows "\<exists>node' cursor'. relay_rounds k c pc ck impl io source cursor node = (node', cursor') \<and>
    nd_log node' = append_all (nd_log node) (take (k * limit) (drop a xs)) \<and>
    at_position e (min (a + k * limit) (length xs)) cursor'"
  using assms(2,3,5-8)
proof (induction k arbitrary: node cursor a)
  case 0
  then show ?case by (simp add: min_def)
next
  case (Suc k)
  obtain v cur res where v: "sync_relay_once c pc ck impl io source cursor node = (v, cur, res)"
      "nd_log v = append_all (nd_log node) (take limit (drop a xs))" "nd_writer v = None"
      "nd_registry v = nd_registry node" "at_position e (min (a + limit) (length xs)) cur"
    using relay_round_step [OF assms(1) Suc.prems(1,2) assms(4) Suc.prems(3-6) assms(9-11), where io = io] by blast
  let ?a = "min (a + limit) (length xs)"
  have "log_ok (nd_log v)" using append_all_len [OF Suc.prems(3)] v(2) by simp
  moreover have "set (log_iter (nd_log v)) \<union> set xs \<subseteq> S"
    using log_iter_append_all [OF Suc.prems(3), of "take limit (drop a xs)"] Suc.prems(4)
      set_take_subset [of limit "drop a xs"] set_drop_subset [of a xs] unfolding v(2) by blast
  moreover have "verified c pc (nd_registry v) x" if "x \<in> set xs" for x using Suc.prems(2) [OF that] v(4) by simp
  ultimately obtain w cur' where w: "relay_rounds k c pc ck impl io source cur v = (w, cur')"
      "nd_log w = append_all (nd_log v) (take (k * limit) (drop ?a xs))"
      "at_position e (min (?a + k * limit) (length xs)) cur'"
    using Suc.IH [of v ?a cur] v(3,5) by auto
  have "drop ?a xs = drop limit (drop a xs)"
    by (cases "a + limit \<le> length xs") (simp_all add: min_def add.commute)
  then have "take limit (drop a xs) @ take (k * limit) (drop ?a xs) = take (Suc k * limit) (drop a xs)"
    by (simp add: take_add)
  moreover have "min (?a + k * limit) (length xs) = min (a + Suc k * limit) (length xs)" by simp
  ultimately show ?case using v w by (simp flip: append_all_append)
qed

lemma reg_contains_key: "reg_contains reg d \<longleftrightarrow> key_for reg d \<noteq> None"
  by (simp add: reg_contains_def key_for_def)

lemma learn_loop_adds:
  assumes "reg_ok c reg" "learn_loop c entries reg added0 = (reg', added)"
  shows "reg_ok c reg' \<and> (\<forall>d. key_for reg d \<noteq> None \<longrightarrow> key_for reg' d = key_for reg d) \<and>
    (\<exists>more. added = added0 @ more \<and> (\<forall>d. key_for reg' d \<noteq> None \<longleftrightarrow> key_for reg d \<noteq> None \<or> d \<in> set more) \<and>
      (\<forall>d \<in> set more. key_for reg d = None))"
  using assms
proof (induction entries arbitrary: reg added0)
  case (Cons e entries)
  let ?d = "DeviceId (de_device_id e)"
  show ?case
  proof (cases "length (de_public_key e) = 33 \<and> device_id_from_sec1 c (de_public_key e) = Inr ?d \<and> key_for reg ?d = None")
    case True
    obtain key where key: "vk_from_sec1 c (de_public_key e) = Some key" "?d = device_id_of c key"
      using True by (auto simp: device_id_from_sec1_Inr)
    let ?reg = "fst (insert_key c reg key)"
    have lk: "key_for ?reg d = (if d = ?d then Some key else key_for reg d)" for d
      using key_for_insert [OF Cons.prems(1)] key(2) by simp
    have "learn_loop c entries ?reg (added0 @ [?d]) = (reg', added)"
      using Cons.prems(2) True key(1) by (auto simp: Let_def insert_sec1_def case_prod_beta reg_contains_key)
    from Cons.IH [OF insert_key_ok [OF Cons.prems(1)] this] obtain more where
      "reg_ok c reg'" "\<forall>d. key_for ?reg d \<noteq> None \<longrightarrow> key_for reg' d = key_for ?reg d" "added = (added0 @ [?d]) @ more"
      "\<forall>d. key_for reg' d \<noteq> None \<longleftrightarrow> key_for ?reg d \<noteq> None \<or> d \<in> set more" "\<forall>d \<in> set more. key_for ?reg d = None"
      by blast
    then show ?thesis
      using True unfolding lk by (intro conjI exI [of _ "?d # more"]) (auto split: if_splits)
  next
    case False
    then have "learn_loop c entries reg added0 = (reg', added)"
      using Cons.prems(2) by (auto simp: Let_def reg_contains_key split: if_splits sum.splits)
    then show ?thesis using Cons.IH Cons.prems(1) by blast
  qed
qed simp

section \<open>Properties\<close>

text \<open>
  C2: A v1 round never moves the cursor past an op it did not take in. Whatever the peer serves and
  whichever call fails, some prefix of the page verified against the registry and was appended to the
  log in order; the durability file mirrors the log; the cursor either stays or is the key of the last
  op of that prefix, and only after the file was synced; and a successful round took the whole page and
  counts the ops that were new.
\<close>

theorem sync_cursor_safe:
  assumes "codec_laws pc" "log_ok (nd_log node)" "mirrored pc (nd_log node) (nd_writer node)" "source cursor = Inr sops"
    and "sync_once_with c pc ck impl io mode source cursor node = (node', cursor', res)"
  shows "\<exists>n \<le> length sops. list_all (verified c pc (nd_registry node)) (take n sops) \<and>
    nd_log node' = append_all (nd_log node) (take n sops) \<and> mirrored pc (nd_log node') (nd_writer node') \<and>
    (cursor' = cursor \<or> 0 < n \<and> cursor' = order_key (sops ! (n - 1)) \<and> (nd_writer node' \<noteq> None \<longrightarrow> io_sync io)) \<and>
    (\<forall>k. res = Inr k \<longrightarrow> n = length sops \<and> k = count_new (nd_log node) sops \<and>
       (sops \<noteq> [] \<longrightarrow> cursor' = order_key (last sops)))"
proof -
  let ?items = "map (\<lambda>x. (x, order_key x)) sops"
  obtain v highest received appended abort where v: "admit_loop c pc ck (io_append io) ?items cursor 0 0 node =
      (v, highest, received, appended, abort)" by (metis prod_cases5)
  obtain n where n: "n \<le> length sops" "abort = None \<longleftrightarrow> n = length sops"
      "appended = count_new (nd_log node) (take n sops)"
      "highest = (if n = 0 then cursor else order_key (sops ! (n - 1)))"
      "list_all (verified c pc (nd_registry node)) (take n sops)"
      "nd_log v = append_all (nd_log node) (take n sops)" "mirrored pc (nd_log v) (nd_writer v)"
    using admit_loop_prefix [OF assms(1-3) v] by (auto simp: take_map o_def)
  define out where "out = (case mode of Replay \<Rightarrow> replay impl (nd_log v) (nd_store v)
      | Incremental \<Rightarrow> apply_range impl (nd_log v) (nd_store v) cursor highest)"
  have last: "n = length sops \<Longrightarrow> sops \<noteq> [] \<Longrightarrow> highest = order_key (last sops)"
    using n(4) by (simp add: last_conv_nth)
  have run: "(node', cursor', res) =
      (let finish = (case abort of Some e \<Rightarrow> Inl e | None \<Rightarrow> Inr appended) in
       if highest = cursor then (v, cursor, finish)
       else case sync_file (io_sync io) v of
         Inl e \<Rightarrow> (v, cursor, Inl (TDurability e))
       | Inr _ \<Rightarrow> (case out of (store, Inl _) \<Rightarrow> (v\<lparr>nd_store := store\<rparr>, cursor, Inl TReplay)
                   | (store, Inr _) \<Rightarrow> (v\<lparr>nd_store := store\<rparr>, highest, finish)))"
    using assms(5) unfolding sync_once_with_def out_def by (simp add: assms(4) v eq_commute [of "(node', cursor', res)"])
  have fin: "(case abort of Some e \<Rightarrow> Inl e | None \<Rightarrow> Inr appended) = Inr k \<Longrightarrow>
      n = length sops \<and> k = count_new (nd_log node) sops" for k
    using n(2,3) by (auto split: option.splits)
  obtain store r where out: "out = (store, r)" by fastforce
  have keep: "nd_log node' = nd_log v" "nd_writer node' = nd_writer v"
    using run unfolding Let_def out by (auto split: if_splits sum.splits)
  have moved: "cursor' \<noteq> cursor \<Longrightarrow> cursor' = highest \<and> (nd_writer v \<noteq> None \<longrightarrow> io_sync io)"
    using run unfolding Let_def out by (auto simp: sync_file_def sync_after_batch_def split: if_splits sum.splits option.splits)
  have returned: "res = Inr k \<Longrightarrow> cursor' = highest \<and> n = length sops \<and> k = count_new (nd_log node) sops" for k
  proof -
    assume "res = Inr k"
    then have "cursor' = highest \<and> (case abort of Some e \<Rightarrow> Inl e | None \<Rightarrow> Inr appended) = Inr k"
      using run unfolding Let_def out by (auto split: if_splits sum.splits)
    then show ?thesis using fin by blast
  qed
  have "cursor' = cursor \<or> 0 < n \<and> cursor' = order_key (sops ! (n - 1)) \<and> (nd_writer node' \<noteq> None \<longrightarrow> io_sync io)"
    using moved n(4) keep by (auto split: if_splits)
  moreover have "\<forall>k. res = Inr k \<longrightarrow> n = length sops \<and> k = count_new (nd_log node) sops \<and>
       (sops \<noteq> [] \<longrightarrow> cursor' = order_key (last sops))"
    using returned last by blast
  ultimately show ?thesis using n keep by auto
qed

definition demo_clock :: "(unit, unit) clock_impl" where
  "demo_clock = \<lparr>ck_id = (\<lambda>_. Some ()), ck_one = (), ck_update = (\<lambda>h t i. (h, Inr ())), ck_new_timestamp = (\<lambda>h. (h, 0))\<rparr>"

definition demo_node :: "(unit, kv_store, byte) node" where
  "demo_node = \<lparr>nd_registry = [(device_id_of demo_crypto 5, 5)], nd_clock = (), nd_log = log_new [], nd_store = kv_new,
     nd_writer = Some \<lparr>w_file = [], w_pos = 0, w_poisoned = False\<rparr>\<rparr>"

theorem sync_cursor_safe_witness:
  "let io = \<lparr>io_append = (\<lambda>_. \<lparr>io_metadata = True, io_write_fails = Some 3, io_set_len = False, io_seek = True\<rparr>), io_sync = True\<rparr>;
       sops = [demo_op 5 42 [1], demo_op 5 43 [2]];
       run = sync_once_with demo_crypto demo_codec demo_clock (kv_impl demo_kv_codec) io Incremental (\<lambda>_. Inr sops) MIN_KEY demo_node
   in \<exists>n \<le> 2. nd_log (fst run) = append_all (log_new []) (take n sops) \<and>
        mirrored demo_codec (nd_log (fst run)) (nd_writer (fst run)) \<and>
        (fst (snd run) = MIN_KEY \<or> 0 < n \<and> fst (snd run) = order_key (sops ! (n - 1)))"
proof -
  let ?io = "\<lparr>io_append = (\<lambda>_. \<lparr>io_metadata = True, io_write_fails = Some 3, io_set_len = False, io_seek = True\<rparr>), io_sync = True\<rparr>"
  let ?sops = "[demo_op 5 42 [1], demo_op 5 43 [2]]"
  obtain node' cursor' res where run: "sync_once_with demo_crypto demo_codec demo_clock (kv_impl demo_kv_codec) ?io
      Incremental (\<lambda>_. Inr ?sops) MIN_KEY demo_node = (node', cursor', res)"
    by (metis prod_cases3)
  have m: "log_ok (nd_log demo_node)" "mirrored demo_codec (nd_log demo_node) (nd_writer demo_node)"
    by (simp add: demo_node_def log_new_ok) (simp add: demo_node_def mirrored_def arrivals_def log_new_def)
  have start: "nd_log demo_node = log_new []" by (simp add: demo_node_def)
  obtain n where "n \<le> length ?sops" "nd_log node' = append_all (nd_log demo_node) (take n ?sops)"
      "mirrored demo_codec (nd_log node') (nd_writer node')"
      "cursor' = MIN_KEY \<or> 0 < n \<and> cursor' = order_key (?sops ! (n - 1))"
    using sync_cursor_safe [OF demo_codec_laws m refl run] by blast
  then show ?thesis unfolding Let_def run start fst_conv snd_conv by (intro exI [of _ n]) auto
qed


lemma kv_loop_succeeds:
  "(\<And>x. x \<in> set xs \<Longrightarrow> kv_from_bytes pk (body_payload (op_body x)) \<noteq> None) \<Longrightarrow>
     snd (apply_loop (kv_impl pk) sid xs st) = Inr ()"
proof (induction xs arbitrary: st)
  case (Cons x xs)
  obtain n where n: "kv_from_bytes pk (body_payload (op_body x)) = Some n" using Cons.prems [of x] by auto
  obtain t where t: "kv_apply (context_of x) n st = (t, Inr ())"
    using kv_apply_ok [of "context_of x" n st] by (metis prod.collapse)
  have "snd (apply_loop (kv_impl pk) sid xs s) = Inr ()" for s by (rule Cons.IH) (use Cons.prems in auto)
  then show ?case using n t by (simp add: kv_impl_def)
qed simp


text \<open>
  Key gossip only ever adds keys that derive the id they are advertised under, and never replaces a
  known one: the registry stays well formed, every device known before resolves to the same key, and
  exactly the reported devices are new, each resolving to a key that derives its id.
\<close>

theorem learned_keys_derive:
  assumes "reg_ok c reg" "learn_device_entries c entries reg = (reg', added)"
  shows "reg_ok c reg' \<and> (\<forall>d. reg_contains reg d \<longrightarrow> key_for reg' d = key_for reg d) \<and>
    (\<forall>d. reg_contains reg' d \<longleftrightarrow> reg_contains reg d \<or> d \<in> set added) \<and>
    (\<forall>d \<in> set added. \<not> reg_contains reg d \<and> (\<exists>key. key_for reg' d = Some key \<and> device_id_of c key = d))"
proof -
  obtain more where "added = [] @ more" "\<forall>d. key_for reg' d \<noteq> None \<longleftrightarrow> key_for reg d \<noteq> None \<or> d \<in> set more"
      "\<forall>d \<in> set more. key_for reg d = None"
    and ok: "reg_ok c reg'" "\<forall>d. key_for reg d \<noteq> None \<longrightarrow> key_for reg' d = key_for reg d"
    using learn_loop_adds [OF assms(1)] assms(2) unfolding learn_device_entries_def by blast
  then show ?thesis
    using key_for_derives [OF ok(1)] by (fastforce simp: reg_contains_key)
qed

theorem learned_keys_derive_witness:
  "let entries = [\<lparr>de_device_id = as_bytes (device_id_of demo_crypto 5), de_public_key = 5 # replicate 32 0\<rparr>,
                  \<lparr>de_device_id = [], de_public_key = 6 # replicate 32 0\<rparr>];
       out = learn_device_entries demo_crypto entries []
   in reg_ok demo_crypto (fst out) \<and> (\<forall>d. reg_contains (fst out) d \<longleftrightarrow> d \<in> set (snd out))"
proof -
  obtain reg' added where out: "learn_device_entries demo_crypto
      [\<lparr>de_device_id = as_bytes (device_id_of demo_crypto 5), de_public_key = 5 # replicate 32 0\<rparr>,
       \<lparr>de_device_id = [], de_public_key = 6 # replicate 32 0\<rparr>] [] = (reg', added)" by fastforce
  have "reg_ok demo_crypto []" by (simp add: reg_ok_def)
  from learned_keys_derive [OF this out] show ?thesis
    unfolding Let_def out by (simp add: reg_contains_def)
qed

end
