(* ===== verification/PullWire.thy ===== *)
theory PullWire
  imports Sync "HOL-Library.Char_ord"
begin

text \<open>
  Pull protocol v3 on the wire (\<open>src/pull.rs\<close>): coverage claims and their hex form, requests, pages and
  the signed envelopes that carry them. The payload of an envelope is JSON and the ops of a page are
  base64: both are parameters (\<open>pull_codec\<close>). An error message is kept as the value it renders, with the
  wording in \<open>pull_text\<close> where the server reads it back.
\<close>

section \<open>Constants\<close>

definition PULL_VERSION :: byte where
  "PULL_VERSION = 1"

definition PULL_REQUEST_STORE_ID :: store_id where
  "PULL_REQUEST_STORE_ID = ''mesh-pull-request''"

definition PULL_PAGE_STORE_ID :: store_id where
  "PULL_PAGE_STORE_ID = ''mesh-pull-page''"

definition PAGE_LIMIT_MAX :: nat where
  "PAGE_LIMIT_MAX = 8192"

definition PULL_PAGE_LIMIT_MAX :: nat where
  "PULL_PAGE_LIMIT_MAX = PAGE_LIMIT_MAX"

definition PULL_PAGE_BYTE_BUDGET :: nat where
  "PULL_PAGE_BYTE_BUDGET = 32 * 1024 * 1024"

definition MAX_REQUEST_SKEW_MS :: int where
  "MAX_REQUEST_SKEW_MS = 120000"

section \<open>Coverage claims\<close>

record origin_head =
  oh_origin :: device_id
  oh_head :: order_key

definition to_wire_pair :: "origin_head \<Rightarrow> string \<times> string" where
  "to_wire_pair e = (to_hex (oh_origin e), encode_hex (to_wire (oh_head e)))"

definition from_wire_pair :: "string \<Rightarrow> string \<Rightarrow> origin_head option" where
  "from_wire_pair origin_hex head_hex =
     Option.bind (ok (from_hex origin_hex)) (\<lambda>origin.
       Option.bind (decode_hex head_hex) (\<lambda>wire.
         if length wire \<noteq> 72 then None
         else let head = from_wire wire in
           if key_device head = origin then Some \<lparr>oh_origin = origin, oh_head = head\<rparr> else None))"

type_synonym coverage_vector = "(device_id, order_key) btree"

definition coverage_new :: coverage_vector where
  "coverage_new = []"

definition covers :: "coverage_vector \<Rightarrow> order_key \<Rightarrow> bool" where
  "covers cov key = (case map_of cov (key_device key) of None \<Rightarrow> False | Some claim \<Rightarrow> key \<le> claim)"

text \<open>\<open>collect\<close> into a \<open>BTreeMap\<close> inserts the pairs in turn.\<close>

definition bt_collect :: "('k::linorder \<times> 'v) list \<Rightarrow> ('k, 'v) btree" where
  "bt_collect xs = fold (\<lambda>(k, v). bt_insert k v) xs []"

definition to_wire_map :: "coverage_vector \<Rightarrow> (string, string) btree" where
  "to_wire_map cov = bt_collect (map (\<lambda>(origin, head). to_wire_pair \<lparr>oh_origin = origin, oh_head = head\<rparr>) cov)"

definition from_wire_map :: "(string, string) btree \<Rightarrow> coverage_vector" where
  "from_wire_map wire =
     bt_collect (map (\<lambda>e. (oh_origin e, oh_head e)) (List.map_filter (\<lambda>(origin, key). from_wire_pair origin key) wire))"

section \<open>Requests and pages\<close>

datatype pull_phase = Backfill | Keyed

record resume =
  rsm_phase :: pull_phase
  rsm_after_seq :: nat
  rsm_origin :: string
  rsm_after_key :: string

record pull_request =
  pq_version :: byte
  pq_coverage :: "(string, string) btree"
  pq_relay_epoch :: string
  pq_relay_after :: nat
  pq_resume :: "resume option"
  pq_limit :: nat
  pq_audit :: bool
  pq_store :: "string option"
  pq_issued_at_ms :: int

definition decode_coverage :: "pull_request \<Rightarrow> coverage_vector" where
  "decode_coverage r = from_wire_map (pq_coverage r)"

record pull_page =
  pp_version :: byte
  pp_epoch :: string
  pp_reset :: bool
  pp_floor :: nat
  pp_backfill :: "(nat \<times> string) list"
  pp_keyed :: "string list"
  pp_next_relay_seq :: nat
  pp_head_seq :: nat
  pp_resume :: "resume option"
  pp_complete :: bool
  pp_snapshot_recommended :: bool
  pp_store :: "string option"

record pull_codec =
  pj_request_to :: "pull_request \<Rightarrow> string + bytes"
  pj_request_from :: "bytes \<Rightarrow> string + pull_request"
  pj_page_to :: "pull_page \<Rightarrow> string + bytes"
  pj_page_from :: "bytes \<Rightarrow> string + pull_page"
  b64_encode :: "bytes \<Rightarrow> string"
  b64_decode :: "string \<Rightarrow> string + bytes"

text \<open>
  Documented behaviour: serde\_json writes any request or page and reads it back, the map of claims in
  key order; base64 decodes what it encoded.
\<close>

definition pull_codec_laws :: "pull_codec \<Rightarrow> bool" where
  "pull_codec_laws j \<longleftrightarrow>
     (\<forall>x. bt_ok (pq_coverage x) \<longrightarrow> (\<exists>bs. pj_request_to j x = Inr bs \<and> pj_request_from j bs = Inr x)) \<and>
     (\<forall>x. \<exists>bs. pj_page_to j x = Inr bs \<and> pj_page_from j bs = Inr x) \<and>
     (\<forall>bs. b64_decode j (b64_encode j bs) = Inr bs)"

section \<open>Envelopes\<close>

datatype pull_message =
    EncodePayload string
  | PullStoreId op_error
  | SignPull op_error
  | EncodeEnvelope op_error
  | InvalidEnvelope op_error
  | InvalidDomain
  | NoStoredKey
  | OtherSigner
  | InvalidStoredKey op_error
  | KeyDerivesOther
  | InvalidPullSignature op_error
  | InvalidPayload string
  | UnsupportedPullVersion
  | PullExpired
  | OversizedPage

definition seal_pull ::
  "('sk, 'vk, 'sg) crypto \<Rightarrow> codec \<Rightarrow> store_id \<Rightarrow> string + bytes \<Rightarrow> ('sk, 'vk) device_identity \<Rightarrow> hlc \<Rightarrow> pull_message + bytes" where
  "seal_pull c pc name encoded identity t =
     and_then (map_err EncodePayload encoded) (\<lambda>payload.
       and_then (map_err PullStoreId (StoreId_new name)) (\<lambda>store.
         and_then (map_err SignPull (seal c pc
             \<lparr>body_v = ENVELOPE_VERSION, body_hlc = t, body_device = device_id identity, body_store = store,
              body_payload = payload\<rparr> identity)) (\<lambda>sop.
           map_err EncodeEnvelope (to_bytes pc sop))))"

definition sign_pull_request ::
  "('sk, 'vk, 'sg) crypto \<Rightarrow> codec \<Rightarrow> pull_codec \<Rightarrow> pull_request \<Rightarrow> ('sk, 'vk) device_identity \<Rightarrow> hlc \<Rightarrow> pull_message + bytes" where
  "sign_pull_request c pc j request identity t =
     seal_pull c pc PULL_REQUEST_STORE_ID (pj_request_to j request) identity t"

text \<open>The three readings of a verification error, shared by requests and pages.\<close>

fun key_error :: "op_error \<Rightarrow> pull_message" where
  "key_error (OpIdentity InvalidPublicKey) = InvalidStoredKey (OpIdentity InvalidPublicKey)"
| "key_error (OpIdentity (InvalidLength a b)) = InvalidStoredKey (OpIdentity (InvalidLength a b))"
| "key_error DeviceMismatch = KeyDerivesOther"
| "key_error e = InvalidPullSignature e"

text \<open>An error of the caller's key lookup, or one of the verification itself.\<close>

datatype 'x pull_refusal = LookupRefused 'x | Refused pull_message

definition verify_pull_request ::
  "('sk, 'vk, 'sg) crypto \<Rightarrow> codec \<Rightarrow> pull_codec \<Rightarrow> bytes \<Rightarrow> int \<Rightarrow> (device_id \<Rightarrow> 'x + bytes option) \<Rightarrow>
   'x pull_refusal + (device_id \<times> pull_request)" where
  "verify_pull_request c pc j bs now_ms lookup_sec1 =
     and_then (map_err (\<lambda>e. Refused (InvalidEnvelope e)) (from_bytes pc bs)) (\<lambda>sop.
       if body_store (op_body sop) \<noteq> PULL_REQUEST_STORE_ID then Inl (Refused InvalidDomain)
       else let peer = body_device (op_body sop) in
         and_then (map_err LookupRefused (lookup_sec1 peer)) (\<lambda>found.
           and_then (ok_or (Refused NoStoredKey) found) (\<lambda>stored_key.
             and_then (map_err (\<lambda>e. Refused (key_error e)) (verify_with_sec1 c pc sop stored_key)) (\<lambda>_.
               and_then (map_err (\<lambda>e. Refused (InvalidPayload e)) (pj_request_from j (body_payload (op_body sop)))) (\<lambda>request.
                 if pq_version request \<noteq> PULL_VERSION then Inl (Refused UnsupportedPullVersion)
                 else if \<bar>now_ms - pq_issued_at_ms request\<bar> > MAX_REQUEST_SKEW_MS then Inl (Refused PullExpired)
                 else Inr (peer, request))))))"

definition seal_pull_page ::
  "('sk, 'vk, 'sg) crypto \<Rightarrow> codec \<Rightarrow> pull_codec \<Rightarrow> pull_page \<Rightarrow> ('sk, 'vk) device_identity \<Rightarrow> hlc \<Rightarrow> pull_message + bytes" where
  "seal_pull_page c pc j page identity t =
     seal_pull c pc PULL_PAGE_STORE_ID (pj_page_to j page) identity t"

definition verify_pull_page ::
  "('sk, 'vk, 'sg) crypto \<Rightarrow> codec \<Rightarrow> pull_codec \<Rightarrow> bytes \<Rightarrow> device_id \<Rightarrow> bytes \<Rightarrow> pull_message + pull_page" where
  "verify_pull_page c pc j bs peer peer_key =
     and_then (map_err InvalidEnvelope (from_bytes pc bs)) (\<lambda>sop.
       if body_store (op_body sop) \<noteq> PULL_PAGE_STORE_ID then Inl InvalidDomain
       else if body_device (op_body sop) \<noteq> peer then Inl OtherSigner
       else and_then (map_err key_error (verify_with_sec1 c pc sop peer_key)) (\<lambda>_.
         and_then (map_err InvalidPayload (pj_page_from j (body_payload (op_body sop)))) (\<lambda>page.
           if pp_version page \<noteq> PULL_VERSION then Inl UnsupportedPullVersion
           else if length (pp_backfill page) > PAGE_LIMIT_MAX \<or> length (pp_keyed page) > PAGE_LIMIT_MAX
             then Inl OversizedPage
           else Inr page)))"

section \<open>Lemmas on claims\<close>

lemma bt_collect_snoc: "bt_collect (xs @ [(k, v)]) = bt_insert k v (bt_collect xs)"
  by (simp add: bt_collect_def)

lemma bt_collect_ok [simp]: "bt_ok (bt_collect xs)"
  by (induction xs rule: rev_induct) (auto simp: bt_collect_snoc bt_ok_insert, simp add: bt_collect_def)

lemma map_of_bt_collect: "map_of (bt_collect xs) = map_of (rev xs)"
proof (induction xs rule: rev_induct)
  case (snoc x xs)
  then show ?case by (cases x) (simp add: bt_collect_snoc map_of_bt_insert)
qed (simp add: bt_collect_def)

lemma set_bt_collect_sub: "set (bt_collect xs) \<subseteq> set xs"
proof (induction xs rule: rev_induct)
  case (snoc x xs)
  then show ?case
    using set_bt_insert_sub [of "fst x" "snd x" "bt_collect xs"] by (cases x) (auto simp: bt_collect_snoc)
qed (simp add: bt_collect_def)

lemma set_bt_collect:
  assumes "distinct (map fst xs)"
  shows "set (bt_collect xs) = set xs"
proof -
  have "(k, v) \<in> set (bt_collect xs) \<longleftrightarrow> (k, v) \<in> set xs" for k v
    using assms bt_ok_map_of [OF bt_collect_ok, of xs k v] map_of_eq_Some_iff [of "rev xs" k v]
    by (simp add: map_of_bt_collect rev_map [symmetric])
  then show ?thesis by auto
qed

lemma bt_collect_id: "bt_ok t \<Longrightarrow> set xs = set t \<Longrightarrow> distinct (map fst xs) \<Longrightarrow> bt_collect xs = t"
  by (rule bt_ok_unique) (simp_all add: set_bt_collect)

text \<open>What every coverage vector of the program satisfies: sorted, and each claim a key of its own origin.\<close>

definition coverage_ok :: "coverage_vector \<Rightarrow> bool" where
  "coverage_ok cov \<longleftrightarrow> bt_ok cov \<and> (\<forall>(origin, head) \<in> set cov. key_wf head \<and> key_device head = origin)"

lemma coverage_okD: "coverage_ok cov \<Longrightarrow> e \<in> set cov \<Longrightarrow> key_wf (snd e) \<and> key_device (snd e) = fst e"
  by (auto simp: coverage_ok_def)

lemma wire_pair_roundtrip:
  "key_wf h \<Longrightarrow> from_wire_pair (fst (to_wire_pair \<lparr>oh_origin = key_device h, oh_head = h\<rparr>))
     (snd (to_wire_pair \<lparr>oh_origin = key_device h, oh_head = h\<rparr>)) = Some \<lparr>oh_origin = key_device h, oh_head = h\<rparr>"
  by (simp add: to_wire_pair_def from_wire_pair_def from_hex_to_hex key_wf_def length_to_wire)

lemma from_wire_pair_Some:
  "from_wire_pair a b = Some e \<Longrightarrow> key_wf (oh_head e) \<and> key_device (oh_head e) = oh_origin e"
  by (auto simp: from_wire_pair_def bind_eq_Some_conv Let_def from_wire_wf split: if_splits)

lemma to_hex_inj: "to_hex a = to_hex b \<longleftrightarrow> a = b"
  by (simp add: to_hex_def encode_hex_inj as_bytes_inject)

lemma from_wire_map_ok: "coverage_ok (from_wire_map wire)"
  unfolding coverage_ok_def from_wire_map_def
  using set_bt_collect_sub [of "map (\<lambda>e. (oh_origin e, oh_head e)) (List.map_filter (\<lambda>(origin, key). from_wire_pair origin key) wire)"]
    from_wire_pair_Some
  by (fastforce simp: List.map_filter_def)

lemma set_map_filter: "set (List.map_filter f xs) = {y. \<exists>x \<in> set xs. f x = Some y}"
  by (force simp: List.map_filter_def)

lemma to_wire_map_ok [simp]: "bt_ok (to_wire_map cov)"
  by (simp add: to_wire_map_def)

lemma collect_roundtrip:
  assumes "bt_ok t" "distinct (map (fst \<circ> f) t)" "\<And>e. e \<in> set t \<Longrightarrow> g (f e) = Some e"
  shows "bt_collect (List.map_filter g (bt_collect (map f t))) = t"
proof (rule bt_collect_id [OF assms(1)])
  let ?w = "bt_collect (map f t)" and ?again = "List.map_filter g (bt_collect (map f t))"
  have w: "set ?w = f ` set t" using assms(2) by (simp add: set_bt_collect)
  show inv: "set ?again = set t" unfolding set_map_filter w using assms(3) by auto
  have "length ?again \<le> length ?w" by (simp add: List.map_filter_def)
  also have "\<dots> = card (f ` set t)"
    using bt_ok_distinct [OF bt_collect_ok, of "map f t"] distinct_card [of ?w] by (simp add: distinct_map w)
  also have "\<dots> \<le> card (set ?again)" unfolding inv by (rule card_image_le) simp
  finally have "distinct ?again" using card_length [of ?again] by (intro card_distinct) simp
  then show "distinct (map fst ?again)"
    using bt_ok_distinct [OF assms(1)] inv by (simp add: distinct_map)
qed

lemma wire_map_roundtrip:
  assumes "coverage_ok cov"
  shows "from_wire_map (to_wire_map cov) = cov"
proof -
  let ?f = "\<lambda>(origin, head). to_wire_pair \<lparr>oh_origin = origin, oh_head = head\<rparr>"
  let ?g = "\<lambda>(a, b). map_option (\<lambda>e. (oh_origin e, oh_head e)) (from_wire_pair a b)"
  have hex: "map (fst \<circ> ?f) cov = map to_hex (map fst cov)" by (simp add: to_wire_pair_def split_beta)
  have dist: "distinct (map (fst \<circ> ?f) cov)"
    unfolding hex distinct_map [of to_hex]
    using assms bt_ok_distinct [of cov] by (simp add: coverage_ok_def inj_on_def to_hex_inj)
  have "?g (?f e) = Some e" if "e \<in> set cov" for e
  proof -
    have e: "key_device (snd e) = fst e" "key_wf (snd e)" using coverage_okD [OF assms that] by simp_all
    show ?thesis using wire_pair_roundtrip [OF e(2)] unfolding e(1) by (simp add: split_beta)
  qed
  from collect_roundtrip [OF _ dist this] have "bt_collect (List.map_filter ?g (bt_collect (map ?f cov))) = cov"
    using assms by (simp add: coverage_ok_def)
  moreover have "List.map_filter ?g xs =
      map (\<lambda>e. (oh_origin e, oh_head e)) (List.map_filter (\<lambda>(a, b). from_wire_pair a b) xs)" for xs
    by (induction xs) (auto simp: map_filter_simps split: option.split)
  ultimately show ?thesis by (simp only: from_wire_map_def to_wire_map_def)
qed

section \<open>Lemmas on envelopes\<close>

lemma pull_store_ids:
  "StoreId_new PULL_REQUEST_STORE_ID = Inr PULL_REQUEST_STORE_ID" "StoreId_new PULL_PAGE_STORE_ID = Inr PULL_PAGE_STORE_ID"
  "PULL_REQUEST_STORE_ID \<noteq> PULL_PAGE_STORE_ID"
  by (simp_all add: PULL_REQUEST_STORE_ID_def PULL_PAGE_STORE_ID_def StoreId_new_def is_ascii_def MAX_STORE_ID_LEN_def)

lemma seal_pull_travels:
  assumes "sha_laws c" "sec1_laws c" "ecdsa_laws c" "codec_laws pc" "StoreId_new name = Inr name"
  shows "\<exists>sop bs. seal_pull c pc name (Inr payload) (from_signing c sk) t = Inr bs \<and> from_bytes pc bs = Inr sop \<and>
    body_store (op_body sop) = name \<and> body_payload (op_body sop) = payload \<and>
    body_device (op_body sop) = device_id_of c (sk_verifying c sk) \<and>
    verify_with_sec1 c pc sop (public_key_sec1 c (from_signing c sk)) = Inr ()"
proof -
  let ?b = "\<lparr>body_v = ENVELOPE_VERSION, body_hlc = t, body_device = device_id (from_signing c sk), body_store = name,
      body_payload = payload\<rparr>"
  obtain sop where sop: "seal c pc ?b (from_signing c sk) = Inr sop"
    using seal_total [OF assms(4)] by blast
  have "op_wf sop" by (rule seal_op_wf [OF assms(1,3) _ _ sop]) (simp_all add: assms(5))
  then obtain bs where bs: "to_bytes pc sop = Inr bs" "from_bytes pc bs = Inr sop"
    using from_to_bytes [OF assms(4), of sop] by blast
  have "verify_with_sec1 c pc sop (public_key_sec1 c (from_signing c sk)) = Inr ()"
    using seal_verifies [OF assms(3) sop] assms(2)
    by (simp add: verify_with_sec1_Inr public_key_sec1_def sec1_compressed_def sec1_laws_def from_signing_def)
  moreover have "op_body sop = ?b\<lparr>body_device := device_id_of c (sk_verifying c sk)\<rparr>"
    using sop by (auto simp: seal_Inr from_signing_def)
  ultimately show ?thesis using sop bs assms(5) by (auto simp: seal_pull_def)
qed

lemma request_travels:
  assumes "sha_laws c" "sec1_laws c" "ecdsa_laws c" "codec_laws pc" "pull_codec_laws j"
    and "bt_ok (pq_coverage request)" "pq_version request = PULL_VERSION"
    and "\<bar>now_ms - pq_issued_at_ms request\<bar> \<le> MAX_REQUEST_SKEW_MS"
    and "lookup (device_id_of c (sk_verifying c sk)) = Inr (Some (public_key_sec1 c (from_signing c sk)))"
  shows "\<exists>bs. sign_pull_request c pc j request (from_signing c sk) t = Inr bs \<and>
    verify_pull_request c pc j bs now_ms lookup = Inr (device_id_of c (sk_verifying c sk), request)"
proof -
  obtain payload where payload: "pj_request_to j request = Inr payload" "pj_request_from j payload = Inr request"
    using assms(5,6) by (auto simp: pull_codec_laws_def)
  from seal_pull_travels [OF assms(1-4) pull_store_ids(1), of payload sk t] show ?thesis
    using payload assms(7-9) by (auto simp: sign_pull_request_def verify_pull_request_def Let_def)
qed

lemma page_travels:
  assumes "sha_laws c" "sec1_laws c" "ecdsa_laws c" "codec_laws pc" "pull_codec_laws j"
    and "pp_version page = PULL_VERSION" "length (pp_backfill page) \<le> PAGE_LIMIT_MAX" "length (pp_keyed page) \<le> PAGE_LIMIT_MAX"
  shows "\<exists>bs. seal_pull_page c pc j page (from_signing c sk) t = Inr bs \<and>
    verify_pull_page c pc j bs (device_id_of c (sk_verifying c sk)) (public_key_sec1 c (from_signing c sk)) = Inr page"
proof -
  obtain payload where payload: "pj_page_to j page = Inr payload" "pj_page_from j payload = Inr page"
    using assms(5) unfolding pull_codec_laws_def by blast
  from seal_pull_travels [OF assms(1-4) pull_store_ids(2), of payload sk t] show ?thesis
    using payload assms(6-8) by (auto simp: seal_pull_page_def verify_pull_page_def)
qed

lemma verify_pull_request_InrD:
  assumes "verify_pull_request c pc j bs now_ms lookup = Inr (peer, request)"
  shows "\<exists>sop key. from_bytes pc bs = Inr sop \<and> body_store (op_body sop) = PULL_REQUEST_STORE_ID \<and>
    body_device (op_body sop) = peer \<and> lookup peer = Inr (Some key) \<and> verify_with_sec1 c pc sop key = Inr () \<and>
    pj_request_from j (body_payload (op_body sop)) = Inr request \<and> pq_version request = PULL_VERSION \<and>
    \<bar>now_ms - pq_issued_at_ms request\<bar> \<le> MAX_REQUEST_SKEW_MS"
  using assms unfolding verify_pull_request_def Let_def by (auto simp: and_then_Inr split: if_splits)

lemma verify_pull_page_InrD:
  assumes "verify_pull_page c pc j bs peer key = Inr page"
  shows "\<exists>sop. from_bytes pc bs = Inr sop \<and> body_store (op_body sop) = PULL_PAGE_STORE_ID \<and>
    body_device (op_body sop) = peer \<and> verify_with_sec1 c pc sop key = Inr () \<and>
    pj_page_from j (body_payload (op_body sop)) = Inr page \<and> pp_version page = PULL_VERSION \<and>
    length (pp_backfill page) \<le> PAGE_LIMIT_MAX \<and> length (pp_keyed page) \<le> PAGE_LIMIT_MAX"
  using assms unfolding verify_pull_page_def by (auto simp: and_then_Inr split: if_splits)

section \<open>A concrete codec for the witnesses\<close>

definition enc_str :: "string \<Rightarrow> bytes" where
  "enc_str s = enc_list (map of_char s)"

definition dec_str :: "bytes \<Rightarrow> string \<times> bytes" where
  "dec_str bs = (let (xs, r) = dec_list bs in (map (\<lambda>b. char_of (unat b)) xs, r))"

definition enc_pair :: "('a \<Rightarrow> bytes) \<Rightarrow> ('b \<Rightarrow> bytes) \<Rightarrow> 'a \<times> 'b \<Rightarrow> bytes" where
  "enc_pair f g x = f (fst x) @ g (snd x)"

definition dec_pair :: "(bytes \<Rightarrow> 'a \<times> bytes) \<Rightarrow> (bytes \<Rightarrow> 'b \<times> bytes) \<Rightarrow> bytes \<Rightarrow> ('a \<times> 'b) \<times> bytes" where
  "dec_pair d e bs = (let (x, r) = d bs; (y, r') = e r in ((x, y), r'))"

definition enc_bool :: "bool \<Rightarrow> bytes" where
  "enc_bool b = enc_nat (if b then 1 else 0)"

definition dec_bool :: "bytes \<Rightarrow> bool \<times> bytes" where
  "dec_bool bs = (let (n, r) = dec_nat bs in (n = 1, r))"

definition enc_int :: "int \<Rightarrow> bytes" where
  "enc_int i = enc_pair enc_bool enc_nat (i < 0, nat \<bar>i\<bar>)"

definition dec_int :: "bytes \<Rightarrow> int \<times> bytes" where
  "dec_int bs = (let ((neg, n), r) = dec_pair dec_bool dec_nat bs in (if neg then - int n else int n, r))"

definition enc_opt :: "('a \<Rightarrow> bytes) \<Rightarrow> 'a option \<Rightarrow> bytes" where
  "enc_opt f x = enc_many f (case x of None \<Rightarrow> [] | Some y \<Rightarrow> [y])"

definition dec_opt :: "(bytes \<Rightarrow> 'a \<times> bytes) \<Rightarrow> bytes \<Rightarrow> 'a option \<times> bytes" where
  "dec_opt d bs = (let (xs, r) = dec_many d bs in (case xs of [] \<Rightarrow> None | y # _ \<Rightarrow> Some y, r))"

definition enc_resume :: "resume \<Rightarrow> bytes" where
  "enc_resume x = enc_bool (rsm_phase x = Keyed) @ enc_nat (rsm_after_seq x) @ enc_str (rsm_origin x) @ enc_str (rsm_after_key x)"

definition dec_resume :: "bytes \<Rightarrow> resume \<times> bytes" where
  "dec_resume bs =
     (let (p, r1) = dec_bool bs; (n, r2) = dec_nat r1; (oh, r3) = dec_str r2; (k, r4) = dec_str r3
      in (\<lparr>rsm_phase = if p then Keyed else Backfill, rsm_after_seq = n, rsm_origin = oh, rsm_after_key = k\<rparr>, r4))"

definition enc_request :: "pull_request \<Rightarrow> bytes" where
  "enc_request x = pq_version x # enc_many (enc_pair enc_str enc_str) (pq_coverage x) @ enc_str (pq_relay_epoch x) @
     enc_nat (pq_relay_after x) @ enc_opt enc_resume (pq_resume x) @ enc_nat (pq_limit x) @ enc_bool (pq_audit x) @
     enc_opt enc_str (pq_store x) @ enc_int (pq_issued_at_ms x)"

definition dec_request :: "bytes \<Rightarrow> pull_request" where
  "dec_request bs =
     (let (cov, r1) = dec_many (dec_pair dec_str dec_str) (tl bs); (e, r2) = dec_str r1; (n, r3) = dec_nat r2;
          (rsm, r4) = dec_opt dec_resume r3; (l, r5) = dec_nat r4; (a, r6) = dec_bool r5; (st, r7) = dec_opt dec_str r6;
          (t, r8) = dec_int r7
      in \<lparr>pq_version = hd bs, pq_coverage = cov, pq_relay_epoch = e, pq_relay_after = n, pq_resume = rsm, pq_limit = l,
          pq_audit = a, pq_store = st, pq_issued_at_ms = t\<rparr>)"

definition enc_page :: "pull_page \<Rightarrow> bytes" where
  "enc_page x = pp_version x # enc_str (pp_epoch x) @ enc_bool (pp_reset x) @ enc_nat (pp_floor x) @
     enc_many (enc_pair enc_nat enc_str) (pp_backfill x) @ enc_many enc_str (pp_keyed x) @ enc_nat (pp_next_relay_seq x) @
     enc_nat (pp_head_seq x) @ enc_opt enc_resume (pp_resume x) @ enc_bool (pp_complete x) @
     enc_bool (pp_snapshot_recommended x) @ enc_opt enc_str (pp_store x)"

definition dec_page :: "bytes \<Rightarrow> pull_page" where
  "dec_page bs =
     (let (e, r1) = dec_str (tl bs); (rst, r2) = dec_bool r1; (fl, r3) = dec_nat r2;
          (bf, r4) = dec_many (dec_pair dec_nat dec_str) r3; (kd, r5) = dec_many dec_str r4; (n, r6) = dec_nat r5;
          (h, r7) = dec_nat r6; (rsm, r8) = dec_opt dec_resume r7; (cp, r9) = dec_bool r8; (sn, r10) = dec_bool r9;
          (st, r11) = dec_opt dec_str r10
      in \<lparr>pp_version = hd bs, pp_epoch = e, pp_reset = rst, pp_floor = fl, pp_backfill = bf, pp_keyed = kd,
          pp_next_relay_seq = n, pp_head_seq = h, pp_resume = rsm, pp_complete = cp, pp_snapshot_recommended = sn,
          pp_store = st\<rparr>)"

definition demo_pull_codec :: pull_codec where
  "demo_pull_codec =
     \<lparr>pj_request_to = (\<lambda>x. Inr (enc_request x)), pj_request_from = (\<lambda>bs. Inr (dec_request bs)),
      pj_page_to = (\<lambda>x. Inr (enc_page x)), pj_page_from = (\<lambda>bs. Inr (dec_page bs)),
      b64_encode = map (\<lambda>b. char_of (unat b)), b64_decode = (\<lambda>s. Inr (map of_char s))\<rparr>"

lemma dec_enc_str: "dec_str (enc_str s @ r) = (s, r)"
  by (simp add: dec_str_def enc_str_def o_def)

lemma dec_enc_pair:
  "(\<And>x r. d (f x @ r) = (x, r)) \<Longrightarrow> (\<And>x r. e (g x @ r) = (x, r)) \<Longrightarrow> dec_pair d e (enc_pair f g x @ r) = (x, r)"
  by (simp add: dec_pair_def enc_pair_def)

lemma dec_enc_bool: "dec_bool (enc_bool b @ r) = (b, r)"
  by (simp add: dec_bool_def enc_bool_def)

lemma dec_enc_int: "dec_int (enc_int i @ r) = (i, r)"
  by (simp add: dec_int_def enc_int_def dec_enc_pair dec_enc_bool)

lemma dec_enc_opt: "(\<And>x r. d (f x @ r) = (x, r)) \<Longrightarrow> dec_opt d (enc_opt f x @ r) = (x, r)"
  by (cases x) (simp_all add: dec_opt_def enc_opt_def dec_enc_many)

lemma dec_enc_resume: "dec_resume (enc_resume x @ r) = (x, r)"
  by (cases x; cases "rsm_phase x") (simp_all add: dec_resume_def enc_resume_def dec_enc_bool dec_enc_str)

lemmas dec_enc = dec_enc_str dec_enc_pair dec_enc_bool dec_enc_int dec_enc_opt dec_enc_many dec_enc_resume

lemma dec_enc_request: "dec_request (enc_request x) = x"
proof -
  have "dec_int (enc_int i) = (i, [])" for i using dec_enc_int [of i "[]"] by simp
  then show ?thesis by (cases x) (simp add: dec_request_def enc_request_def dec_enc)
qed

lemma dec_enc_page: "dec_page (enc_page x) = x"
proof -
  have "dec_opt dec_str (enc_opt enc_str y) = (y, [])" for y
    using dec_enc_opt [of dec_str enc_str y "[]"] by (simp add: dec_enc_str)
  then show ?thesis by (cases x) (simp add: dec_page_def enc_page_def dec_enc)
qed

lemma byte_char_roundtrip [simp]: "(of_char (char_of (unat b)) :: byte) = b"
proof -
  have "(of_char (char_of (unat b)) :: byte) = of_nat (of_char (char_of (unat b)))" by (rule of_nat_of_char [symmetric])
  also have "(of_char (char_of (unat b)) :: nat) = unat b" using unat_byte_bound [of b] by simp
  finally show ?thesis by simp
qed

lemma demo_pull_codec_laws: "pull_codec_laws demo_pull_codec"
  by (simp add: pull_codec_laws_def demo_pull_codec_def dec_enc_request dec_enc_page o_def)

section \<open>Properties\<close>

text \<open>
  Coverage claims survive the wire. The hex map a request carries decodes to exactly the coverage
  vector it was made from, so client and server agree on every key the puller claims; and whatever map
  a peer sends, what is decoded is a well-formed vector in which each claim is a key of the origin it
  is filed under.
\<close>

theorem claims_travel:
  assumes "coverage_ok cov"
  shows "decode_coverage (request\<lparr>pq_coverage := to_wire_map cov\<rparr>) = cov \<and>
    covers (decode_coverage (request\<lparr>pq_coverage := to_wire_map cov\<rparr>)) key = covers cov key \<and>
    coverage_ok (decode_coverage any)"
  using wire_map_roundtrip [OF assms] by (simp add: decode_coverage_def from_wire_map_ok)

definition demo_request :: pull_request where
  "demo_request = \<lparr>pq_version = PULL_VERSION, pq_coverage = [], pq_relay_epoch = encode_hex zero_epoch, pq_relay_after = 0,
     pq_resume = None, pq_limit = 10, pq_audit = False, pq_store = None, pq_issued_at_ms = 1000\<rparr>"

theorem claims_travel_witness:
  "let k = order_key (demo_op 5 42 [1]); cov = [(key_device k, k)] in
   decode_coverage (demo_request\<lparr>pq_coverage := to_wire_map cov\<rparr>) = cov \<and>
   covers (decode_coverage (demo_request\<lparr>pq_coverage := to_wire_map cov\<rparr>)) k"
proof -
  let ?k = "order_key (demo_op 5 42 [1])"
  have "coverage_ok [(key_device ?k, ?k)]"
    using demo_op_wf [of 5 42 "[1]"] by (simp add: coverage_ok_def bt_ok_Cons op_wf_def key_wf_def order_key_def)
  from claims_travel [OF this, of demo_request ?k demo_request] show ?thesis
    unfolding Let_def by (simp add: covers_def)
qed

text \<open>
  C40: A signed pull request reaches the server unchanged and only as what it is. The server that finds
  the signer's key recovers the signer and the request, as long as its clock is within two minutes of
  the request's; outside that window it refuses the request as expired; and the same bytes are never
  accepted as a page. A sealed page within the entry cap reaches the puller unchanged in the same way.
\<close>

theorem pull_envelopes_travel:
  assumes "sha_laws c" "sec1_laws c" "ecdsa_laws c" "codec_laws pc" "pull_codec_laws j"
    and "bt_ok (pq_coverage request)" "pq_version request = PULL_VERSION"
    and "lookup (device_id_of c (sk_verifying c sk)) = Inr (Some (public_key_sec1 c (from_signing c sk)))"
    and "pp_version page = PULL_VERSION" "length (pp_backfill page) \<le> PAGE_LIMIT_MAX" "length (pp_keyed page) \<le> PAGE_LIMIT_MAX"
  shows "\<exists>bs ps. sign_pull_request c pc j request (from_signing c sk) t = Inr bs \<and>
    verify_pull_request c pc j bs now_ms lookup =
      (if \<bar>now_ms - pq_issued_at_ms request\<bar> \<le> MAX_REQUEST_SKEW_MS
       then Inr (device_id_of c (sk_verifying c sk), request) else Inl (Refused PullExpired)) \<and>
    verify_pull_page c pc j bs peer key = Inl InvalidDomain \<and>
    seal_pull_page c pc j page (from_signing c sk') t' = Inr ps \<and>
    verify_pull_page c pc j ps (device_id_of c (sk_verifying c sk')) (public_key_sec1 c (from_signing c sk')) = Inr page \<and>
    verify_pull_request c pc j ps now_ms lookup = Inl (Refused InvalidDomain)"
proof -
  obtain payload where payload: "pj_request_to j request = Inr payload" "pj_request_from j payload = Inr request"
    using assms(5,6) by (auto simp: pull_codec_laws_def)
  obtain body where body: "pj_page_to j page = Inr body" "pj_page_from j body = Inr page"
    using assms(5) unfolding pull_codec_laws_def by blast
  obtain sop bs where req: "sign_pull_request c pc j request (from_signing c sk) t = Inr bs" "from_bytes pc bs = Inr sop"
      "body_store (op_body sop) = PULL_REQUEST_STORE_ID" "body_payload (op_body sop) = payload"
      "body_device (op_body sop) = device_id_of c (sk_verifying c sk)"
      "verify_with_sec1 c pc sop (public_key_sec1 c (from_signing c sk)) = Inr ()"
    using seal_pull_travels [OF assms(1-4) pull_store_ids(1), of payload sk t] payload by (auto simp: sign_pull_request_def)
  obtain pop ps where pg: "seal_pull_page c pc j page (from_signing c sk') t' = Inr ps" "from_bytes pc ps = Inr pop"
      "body_store (op_body pop) = PULL_PAGE_STORE_ID" "body_payload (op_body pop) = body"
      "body_device (op_body pop) = device_id_of c (sk_verifying c sk')"
      "verify_with_sec1 c pc pop (public_key_sec1 c (from_signing c sk')) = Inr ()"
    using seal_pull_travels [OF assms(1-4) pull_store_ids(2), of body sk' t'] body by (auto simp: seal_pull_page_def)
  have "verify_pull_request c pc j bs now_ms lookup =
      (if \<bar>now_ms - pq_issued_at_ms request\<bar> \<le> MAX_REQUEST_SKEW_MS
       then Inr (device_id_of c (sk_verifying c sk), request) else Inl (Refused PullExpired))"
    using req payload assms(7,8) by (simp add: verify_pull_request_def Let_def)
  moreover have "verify_pull_page c pc j bs peer key = Inl InvalidDomain" "verify_pull_request c pc j ps now_ms lookup = Inl (Refused InvalidDomain)"
    using req(2,3) pg(2,3) pull_store_ids(3) by (simp_all add: verify_pull_page_def verify_pull_request_def)
  moreover have "verify_pull_page c pc j ps (device_id_of c (sk_verifying c sk')) (public_key_sec1 c (from_signing c sk')) = Inr page"
    using pg body assms(9-11) by (simp add: verify_pull_page_def)
  ultimately show ?thesis using req(1) pg(1) by blast
qed

definition demo_page :: pull_page where
  "demo_page = \<lparr>pp_version = PULL_VERSION, pp_epoch = [], pp_reset = False, pp_floor = 0, pp_backfill = [(1, ''x'')],
     pp_keyed = [''y''], pp_next_relay_seq = 1, pp_head_seq = 1, pp_resume = None, pp_complete = True,
     pp_snapshot_recommended = False, pp_store = None\<rparr>"

theorem pull_envelopes_travel_witness:
  "\<exists>bs ps. sign_pull_request demo_crypto demo_codec demo_pull_codec demo_request (from_signing demo_crypto 5) 0 = Inr bs \<and>
    verify_pull_request demo_crypto demo_codec demo_pull_codec bs 122000 (\<lambda>_. Inr (Some (public_key_sec1 demo_crypto (from_signing demo_crypto 5)))) =
      (Inl (Refused PullExpired) :: string pull_refusal + _) \<and>
    seal_pull_page demo_crypto demo_codec demo_pull_codec demo_page (from_signing demo_crypto 7) 0 = Inr ps"
proof -
  let ?lookup = "\<lambda>_. (Inr (Some (public_key_sec1 demo_crypto (from_signing demo_crypto 5))) :: string + bytes option)"
  have "bt_ok (pq_coverage demo_request)" "pq_version demo_request = PULL_VERSION" "pq_issued_at_ms demo_request = 1000"
      "pp_version demo_page = PULL_VERSION" "length (pp_backfill demo_page) \<le> PAGE_LIMIT_MAX"
      "length (pp_keyed demo_page) \<le> PAGE_LIMIT_MAX"
    by (simp_all add: demo_request_def demo_page_def PAGE_LIMIT_MAX_def)
  note facts = this
  from pull_envelopes_travel [OF demo_sha_laws demo_sec1_laws demo_ecdsa_laws demo_codec_laws demo_pull_codec_laws facts(1,2) _ facts(4-6),
      of ?lookup 5 0 122000 "DeviceId []" "[]" 7 0]
  show ?thesis unfolding facts(3) MAX_REQUEST_SKEW_MS_def by auto
qed

end
