(* ===== verification/PullSocket.thy ===== *)
theory PullSocket
  imports PullWire
begin

text \<open>
  The storage contract of pull v3 (\<open>src/net/socket.rs\<close>): the trait \<open>MeshPullSocket\<close> as a record of methods
  over a state, its implementation for the HTTP server's \<open>ServeState\<close>, and \<open>OpLogPullSocket\<close>, the node that
  pulls into an in-memory log. A method that changes the host's state returns the new state. Mutexes are
  not modelled: each method is one step. Error strings are kept as the values they render.
\<close>

section \<open>Messages\<close>

datatype socket_message =
    PullFailed pull_message
  | MethodMissing string
  | InvalidRelayEpoch
  | InvalidPageEpoch
  | EpochChanged device_id
  | NonAdvancing device_id nat nat
  | UndecodableEntry device_id string
  | InvalidEntry device_id op_error
  | NonAscendingKey device_id device_id
  | OriginsOutOfOrder device_id
  | ResetNotMarked
  | ResetFloorAboveHead nat nat
  | ResetCarriesData
  | ResetUnjustified
  | PullTransport device_id transport_error
  | PullHttpStatus device_id nat
  | SnapshotRepeated device_id
  | ResetRepeated device_id
  | PullStalled device_id nat
  | SweepStalled device_id

datatype socket_error =
    SocketMessage socket_message
  | SourceError log_error
  | BookError string
  | NoRelayStream
  | NoRelayPage
  | UnknownSigner device_id
  | VerifyFailed op_id op_error
  | ClockRejected op_id string
  | ReplayFailed

section \<open>The trait\<close>

record 'e pull_admission =
  pa_admitted :: nat
  pa_claim_safe :: nat
  pa_error :: "'e option"

text \<open>
  The variables the callbacks of \<open>admit_ops\<close> capture and change: the relay cursor of the running drain, and
  how many ops of the origin run at hand are already claimed.
\<close>

record quantum =
  qm_current :: relay_cursor
  qm_committed :: nat

type_synonym ('s, 'e) after_quantum = "'s \<times> quantum \<Rightarrow> nat \<Rightarrow> nat \<Rightarrow> ('s \<times> quantum) \<times> ('e + unit)"

record ('s, 'sk, 'vk, 'e) pull_socket =
  ps_protocol_error :: "socket_message \<Rightarrow> 'e"
  ps_invalid_argument :: "socket_message \<Rightarrow> 'e"
  ps_own_device_id :: "'s \<Rightarrow> device_id"
  ps_local_identity :: "'s \<Rightarrow> ('sk, 'vk) device_identity"
  ps_now_ms :: "'s \<Rightarrow> 's \<times> int"
  ps_next_hlc :: "'s \<Rightarrow> 's \<times> hlc"
  ps_lookup_peer_sec1 :: "'s \<Rightarrow> device_id \<Rightarrow> 'e + bytes option"
  ps_is_peer_trusted :: "'s \<Rightarrow> device_id \<Rightarrow> 'e + bool"
  ps_is_coverage_primed :: "'s \<Rightarrow> 'e + bool"
  ps_relay_stream_state :: "'s \<Rightarrow> 'e + relay_stream_state"
  ps_origins :: "'s \<Rightarrow> 'e + device_id list"
  ps_origin_since :: "'s \<Rightarrow> device_id \<Rightarrow> order_key option \<Rightarrow> string option \<Rightarrow> nat \<Rightarrow> 'e + (order_key \<times> bytes) list"
  ps_relay_since :: "'s \<Rightarrow> nat \<Rightarrow> nat \<Rightarrow> 'e + (nat \<times> signed_op \<times> bytes) list"
  ps_record_peer_ack :: "'s \<Rightarrow> device_id \<Rightarrow> bytes \<Rightarrow> nat \<Rightarrow> 's \<times> ('e + unit)"
  ps_local_coverage :: "'s \<Rightarrow> 'e + coverage_vector"
  ps_known_origins :: "'s \<Rightarrow> 'e + device_id list"
  ps_advance_local_coverage :: "'s \<Rightarrow> device_id \<Rightarrow> order_key \<Rightarrow> 's \<times> ('e + unit)"
  ps_save_relay_cursor :: "'s \<Rightarrow> device_id \<Rightarrow> relay_cursor \<Rightarrow> 's \<times> ('e + unit)"
  ps_commit_relay_cursor :: "'s \<Rightarrow> device_id \<Rightarrow> relay_cursor \<Rightarrow> 's \<times> ('e + unit)"
  ps_commit_pull_reset :: "'s \<Rightarrow> device_id \<Rightarrow> relay_cursor \<Rightarrow> 's \<times> ('e + unit)"
  ps_on_page_applied :: "'s \<Rightarrow> device_id \<Rightarrow> pull_page \<Rightarrow> nat \<Rightarrow> nat \<Rightarrow> 's"
  ps_admit_ops :: "'s \<times> quantum \<Rightarrow> device_id \<Rightarrow> signed_op list \<Rightarrow> bool \<Rightarrow> bool \<Rightarrow> ('s, 'e) after_quantum \<Rightarrow>
    ('s \<times> quantum) \<times> ('e + 'e pull_admission)"

text \<open>\<open>unix_ms() as i64\<close> and the default of \<open>next_hlc\<close>: milliseconds shifted by 16 bits, the top bits lost.\<close>

definition as_i64 :: "nat \<Rightarrow> int" where
  "as_i64 n = (let m = int n mod 2 ^ 64 in if m < 2 ^ 63 then m else m - 2 ^ 64)"

definition default_next_hlc :: "int \<Rightarrow> hlc" where
  "default_next_hlc now_ms = push_bit 16 (word_of_int (max now_ms 0))"

section \<open>The server's socket\<close>

text \<open>\<open>unix\<close> is the system clock in milliseconds; methods the implementation leaves out have the trait's defaults.\<close>

definition serve_socket :: "nat \<Rightarrow> (('sk, 'vk) serve_state, 'sk, 'vk, socket_error) pull_socket" where
  "serve_socket unix =
     \<lparr>ps_protocol_error = SocketMessage, ps_invalid_argument = SocketMessage,
      ps_own_device_id = (\<lambda>st. device_id (sv_identity st)),
      ps_local_identity = sv_identity,
      ps_now_ms = (\<lambda>st. (st, as_i64 unix)),
      ps_next_hlc = (\<lambda>st. (st, default_next_hlc (as_i64 unix))),
      ps_lookup_peer_sec1 = (\<lambda>st peer. map_err BookError (db_try_key_for_device (sv_relay_callers st) peer)),
      ps_is_peer_trusted = (\<lambda>st peer. Inr True),
      ps_is_coverage_primed = (\<lambda>st. Inr True),
      ps_relay_stream_state = (\<lambda>st. and_then (map_err SourceError (ls_relay_state (sv_log st))) (ok_or NoRelayStream)),
      ps_origins = (\<lambda>st. map_err SourceError (ls_origins (sv_log st))),
      ps_origin_since = (\<lambda>st origin after wanted limit. map_err SourceError (ls_origin_since (sv_log st) origin after wanted limit)),
      ps_relay_since = (\<lambda>st after_seq limit.
        and_then (map_err SourceError (ls_relay_since (sv_log st) after_seq limit)) (ok_or NoRelayPage)),
      ps_record_peer_ack = (\<lambda>st peer epoch after. (st, Inr ())),
      ps_local_coverage = (\<lambda>st. Inr coverage_new),
      ps_known_origins = (\<lambda>st. map_err SourceError (ls_origins (sv_log st))),
      ps_advance_local_coverage = (\<lambda>st origin key. (st, Inr ())),
      ps_save_relay_cursor = (\<lambda>st peer cursor. (st, Inr ())),
      ps_commit_relay_cursor = (\<lambda>st peer cursor. (st, Inr ())),
      ps_commit_pull_reset = (\<lambda>st peer cursor. (st, Inr ())),
      ps_on_page_applied = (\<lambda>st peer page pages total. st),
      ps_admit_ops = (\<lambda>w peer sops skip vouch cb. (w, Inl (SocketMessage (MethodMissing ''admit_ops''))))\<rparr>"

lemma serve_socket_simps [simp]:
  "ps_protocol_error (serve_socket unix) = SocketMessage" "ps_invalid_argument (serve_socket unix) = SocketMessage"
  "ps_own_device_id (serve_socket unix) st = device_id (sv_identity st)" "ps_now_ms (serve_socket unix) st = (st, as_i64 unix)"
  "ps_lookup_peer_sec1 (serve_socket unix) st = (\<lambda>peer. map_err BookError (db_try_key_for_device (sv_relay_callers st) peer))"
  "ps_is_peer_trusted (serve_socket unix) st peer = Inr True" "ps_is_coverage_primed (serve_socket unix) st = Inr True"
  "ps_relay_stream_state (serve_socket unix) st = and_then (map_err SourceError (ls_relay_state (sv_log st))) (ok_or NoRelayStream)"
  "ps_record_peer_ack (serve_socket unix) st peer epoch after = (st, Inr ())"
  by (simp_all add: serve_socket_def)

section \<open>The pulling node\<close>

text \<open>
  The state behind \<open>OpLogPullSocket\<close>. \<open>pn_unix k\<close> is the \<open>k\<close>-th reading of the system clock, in milliseconds.
\<close>

record ('h, 's, 'vk) pull_node =
  pn_clock :: 'h
  pn_registry :: "'vk registry"
  pn_log :: op_log
  pn_store :: 's
  pn_coverage :: coverage_vector
  pn_cursors :: "(device_id, relay_cursor) btree"
  pn_unix :: "nat \<Rightarrow> nat"
  pn_reads :: nat

definition read_now_ms :: "('h, 's, 'vk) pull_node \<Rightarrow> ('h, 's, 'vk) pull_node \<times> int" where
  "read_now_ms node = (node\<lparr>pn_reads := Suc (pn_reads node)\<rparr>, as_i64 (pn_unix node (pn_reads node)))"

definition node_next_hlc :: "('h, 'i) clock_impl \<Rightarrow> ('h, 's, 'vk) pull_node \<Rightarrow> ('h, 's, 'vk) pull_node \<times> hlc" where
  "node_next_hlc ck node = (let (h, t) = clock_now ck (pn_clock node) in (node\<lparr>pn_clock := h\<rparr>, t))"

definition advance_local_coverage :: "('h, 's, 'vk) pull_node \<Rightarrow> device_id \<Rightarrow> order_key \<Rightarrow> ('h, 's, 'vk) pull_node" where
  "advance_local_coverage node origin key =
     node\<lparr>pn_coverage := (case map_of (pn_coverage node) origin of
        Some existing \<Rightarrow> if key > existing then bt_insert origin key (pn_coverage node) else pn_coverage node
      | None \<Rightarrow> bt_insert origin key (pn_coverage node))\<rparr>"

definition save_relay_cursor :: "('h, 's, 'vk) pull_node \<Rightarrow> device_id \<Rightarrow> relay_cursor \<Rightarrow> ('h, 's, 'vk) pull_node" where
  "save_relay_cursor node peer cursor =
     node\<lparr>pn_cursors := (case map_of (pn_cursors node) peer of
        Some existing \<Rightarrow>
          if cur_epoch existing = cur_epoch cursor
          then bt_insert peer (existing\<lparr>cur_after := max (cur_after existing) (cur_after cursor)\<rparr>) (pn_cursors node)
          else bt_insert peer cursor (pn_cursors node)
      | None \<Rightarrow> bt_insert peer cursor (pn_cursors node))\<rparr>"

definition reset_relay_cursor :: "('h, 's, 'vk) pull_node \<Rightarrow> device_id \<Rightarrow> relay_cursor \<Rightarrow> ('h, 's, 'vk) pull_node" where
  "reset_relay_cursor node peer cursor = node\<lparr>pn_cursors := bt_insert peer cursor (pn_cursors node)\<rparr>"

text \<open>The loop of \<open>admit_ops\<close>: ops admitted so far, whether one was new, and the error that stopped it.\<close>

fun relayed_loop ::
  "('sk, 'vk, 'sg) crypto \<Rightarrow> codec \<Rightarrow> ('h, 'i) clock_impl \<Rightarrow> bool \<Rightarrow> signed_op list \<Rightarrow> nat \<Rightarrow> bool \<Rightarrow> ('h, 's, 'vk) pull_node \<Rightarrow>
   ('h, 's, 'vk) pull_node \<times> nat \<times> bool \<times> socket_error option" where
  "relayed_loop c pc ck skip [] admitted appended node = (node, admitted, appended, None)"
| "relayed_loop c pc ck skip (sop # rest) admitted appended node =
     (let d = body_device (op_body sop) in
      case key_for (pn_registry node) d of
        None \<Rightarrow>
          if skip then relayed_loop c pc ck skip rest (admitted + 1) appended node
          else (node, admitted, appended, Some (UnknownSigner d))
      | Some key \<Rightarrow>
          (case verify c pc sop key of
             Inl e \<Rightarrow> (node, admitted, appended, Some (VerifyFailed (op_id sop) e))
           | Inr _ \<Rightarrow>
               (case clock_update ck (pn_clock node) (body_hlc (op_body sop)) d of
                  (h, Inl e) \<Rightarrow> (node\<lparr>pn_clock := h\<rparr>, admitted, appended, Some (ClockRejected (op_id sop) e))
                | (h, Inr _) \<Rightarrow>
                    let (log, new) = log_append (pn_log node) sop in
                    relayed_loop c pc ck skip rest (admitted + 1) (appended \<or> new) (node\<lparr>pn_clock := h, pn_log := log\<rparr>))))"

definition admit_ops ::
  "('sk, 'vk, 'sg) crypto \<Rightarrow> codec \<Rightarrow> ('h, 'i) clock_impl \<Rightarrow> ('s, 'o, 'e) store_impl \<Rightarrow> ('h, 's, 'vk) pull_node \<times> quantum \<Rightarrow>
   signed_op list \<Rightarrow> bool \<Rightarrow> (('h, 's, 'vk) pull_node, socket_error) after_quantum \<Rightarrow>
   (('h, 's, 'vk) pull_node \<times> quantum) \<times> (socket_error + socket_error pull_admission)" where
  "admit_ops c pc ck impl w sops skip cb =
     (case relayed_loop c pc ck skip sops 0 False (fst w) of
        (node, admitted, appended, err) \<Rightarrow>
          let (node, err) =
            (if appended then
               (case replay impl (pn_log node) (pn_store node) of
                  (st, Inl _) \<Rightarrow> (node\<lparr>pn_store := st\<rparr>, Some ReplayFailed)
                | (st, Inr _) \<Rightarrow> (node\<lparr>pn_store := st\<rparr>, err))
             else (node, err))
          in case cb (node, snd w) admitted admitted of
               (w', Inl e) \<Rightarrow> (w', Inl e)
             | (w', Inr _) \<Rightarrow> (w', Inr \<lparr>pa_admitted = admitted, pa_claim_safe = admitted, pa_error = err\<rparr>))"

definition oplog_socket ::
  "('sk, 'vk, 'sg) crypto \<Rightarrow> codec \<Rightarrow> ('h, 'i) clock_impl \<Rightarrow> ('s, 'o, 'e) store_impl \<Rightarrow> ('sk, 'vk) device_identity \<Rightarrow>
   (('h, 's, 'vk) pull_node, 'sk, 'vk, socket_error) pull_socket" where
  "oplog_socket c pc ck impl identity =
     \<lparr>ps_protocol_error = SocketMessage, ps_invalid_argument = SocketMessage,
      ps_own_device_id = (\<lambda>node. device_id identity),
      ps_local_identity = (\<lambda>node. identity),
      ps_now_ms = read_now_ms,
      ps_next_hlc = node_next_hlc ck,
      ps_lookup_peer_sec1 = (\<lambda>node peer. Inr None),
      ps_is_peer_trusted = (\<lambda>node peer. Inr True),
      ps_is_coverage_primed = (\<lambda>node. Inr True),
      ps_relay_stream_state = (\<lambda>node. Inr (relay_state (pn_log node))),
      ps_origins = (\<lambda>node. Inr (origins (pn_log node))),
      ps_origin_since = (\<lambda>node origin after wanted limit. map_err SourceError (origin_since pc (pn_log node) origin after wanted limit)),
      ps_relay_since = (\<lambda>node after_seq limit. map_err SourceError (relay_since_with_envelopes pc (pn_log node) after_seq limit)),
      ps_record_peer_ack = (\<lambda>node peer epoch after. (node, Inr ())),
      ps_local_coverage = (\<lambda>node. Inr (pn_coverage node)),
      ps_known_origins = (\<lambda>node. Inr (map fst (reg_entries c (pn_registry node)))),
      ps_advance_local_coverage = (\<lambda>node origin key. (advance_local_coverage node origin key, Inr ())),
      ps_save_relay_cursor = (\<lambda>node peer cursor. (save_relay_cursor node peer cursor, Inr ())),
      ps_commit_relay_cursor = (\<lambda>node peer cursor. (save_relay_cursor node peer cursor, Inr ())),
      ps_commit_pull_reset = (\<lambda>node peer cursor. (reset_relay_cursor node peer cursor, Inr ())),
      ps_on_page_applied = (\<lambda>node peer page pages total. node),
      ps_admit_ops = (\<lambda>w peer sops skip vouch cb. admit_ops c pc ck impl w sops skip cb)\<rparr>"

section \<open>What the page builder relies on\<close>

text \<open>
  The read side of the contract: the state \<open>state l\<close> holds the ops \<open>held l\<close> in global order, \<open>arrived l\<close> are
  the same ops in arrival order, nothing is compacted, and every read is a view of one of the two.
\<close>

locale pull_source =
  fixes sk :: "('s, 'sk, 'vk, 'e) pull_socket"
    and state :: "'l \<Rightarrow> 's"
    and inv :: "'l \<Rightarrow> bool"
    and pc :: codec
    and held :: "'l \<Rightarrow> signed_op list"
    and arrived :: "'l \<Rightarrow> signed_op list"
    and epoch :: "'l \<Rightarrow> bytes"
  assumes sk_sorted: "inv l \<Longrightarrow> sorted_wrt (\<lambda>x y. order_key x < order_key y) (held l)"
    and sk_arrived: "inv l \<Longrightarrow> set (arrived l) = set (held l)"
    and sk_distinct: "inv l \<Longrightarrow> distinct (arrived l)"
    and sk_stream: "inv l \<Longrightarrow> ps_relay_stream_state sk (state l) = Inr (full_stream (epoch l) (arrived l))"
    and sk_origins: "inv l \<Longrightarrow> ps_origins sk (state l) = Inr (origins_of (held l))"
    and sk_origin_since:
      "inv l \<Longrightarrow> ps_origin_since sk (state l) d after w n = Inr (origin_page pc (held l) d after w n)"
    and sk_relay_since: "inv l \<Longrightarrow> ps_relay_since sk (state l) a n =
           Inr (map (\<lambda>e. (entry_seq e, entry_op e, env_bytes pc (entry_op e))) (stream_entries (arrived l) a n))"

text \<open>A server over any log that keeps the reader contract is such a socket, and so is the pulling node.\<close>

sublocale log_reader \<subseteq> served: pull_source "serve_socket unix" "\<lambda>(st, l). st\<lparr>sv_log := src l\<rparr>" "\<lambda>(st, l). inv l" pc
    "\<lambda>(st, l). held l" "\<lambda>(st, l). arrived l" "\<lambda>(st, l). epoch l" for unix :: nat
  by unfold_locales
    (auto simp: serve_socket_def held_sorted arrived_held arrived_distinct src_relay_state src_origins src_origin_since
      src_relay_since full_stream_def)

interpretation node: pull_source "oplog_socket c pc ck impl identity" "\<lambda>node. node" "\<lambda>node. codec_laws pc \<and> log_ok (pn_log node)" pc
    "\<lambda>node. log_iter (pn_log node)" "\<lambda>node. arrivals (pn_log node)" "\<lambda>node. relay_epoch (pn_log node)"
  for c :: "('sk, 'vk, 'sg) crypto" and pc :: codec and ck :: "('h, 'i) clock_impl" and impl :: "('s, 'o, 'e) store_impl"
    and identity :: "('sk, 'vk) device_identity"
  by unfold_locales
    (auto simp: oplog_socket_def log_ok_sorted set_arrivals distinct_arrivals relay_state_def full_stream_def origins_def
      origin_since_page relay_since_with_envelopes_def relay_page_entries with_envelopes_page)

end
