(* ===== verification/PullServer.thy ===== *)
theory PullServer
  imports PullSocket
begin

text \<open>
  The serving side of pull v3 (\<open>src/net/pull_server.rs\<close>): the page builder with its two channels, the
  admission of compaction acknowledgments, request authentication and the HTTP handler, all over an
  arbitrary \<open>MeshPullSocket\<close>. The body of an error reply is not kept, only its status.
\<close>

section \<open>Pages\<close>

definition decode_epoch :: "string \<Rightarrow> bytes option" where
  "decode_epoch hex = decode_fixed_hex 32 hex"

definition pull_needs_reset :: "bytes \<Rightarrow> nat \<Rightarrow> relay_stream_state \<Rightarrow> bool" where
  "pull_needs_reset request_epoch after state \<longleftrightarrow>
     request_epoch = zero_epoch \<and> rs_floor state > 0 \<or>
     request_epoch \<noteq> zero_epoch \<and> request_epoch \<noteq> rs_epoch state \<or>
     request_epoch = rs_epoch state \<and> (after < rs_floor state \<or> after > rs_head state)"

definition reset_pull_page :: "relay_stream_state \<Rightarrow> pull_page" where
  "reset_pull_page stream =
     \<lparr>pp_version = PULL_VERSION, pp_epoch = encode_hex (rs_epoch stream), pp_reset = True, pp_floor = rs_floor stream,
      pp_backfill = [], pp_keyed = [], pp_next_relay_seq = 0, pp_head_seq = rs_head stream, pp_resume = None,
      pp_complete = False, pp_snapshot_recommended = False, pp_store = None\<rparr>"

fun encode_rows_loop ::
  "pull_codec \<Rightarrow> nat \<Rightarrow> (order_key \<times> bytes) list \<Rightarrow> string list \<Rightarrow> nat \<Rightarrow> nat \<Rightarrow> order_key option \<Rightarrow>
   string list \<times> nat \<times> nat \<times> order_key option" where
  "encode_rows_loop j byte_budget [] keyed used served last_key = (keyed, used, served, last_key)"
| "encode_rows_loop j byte_budget ((key, envelope) # rest) keyed used served last_key =
     (let encoded = b64_encode j envelope; used = used + length encoded in
      if used \<ge> byte_budget then (keyed @ [encoded], used, served + 1, Some key)
      else encode_rows_loop j byte_budget rest (keyed @ [encoded]) used (served + 1) (Some key))"

definition encode_origin_rows ::
  "pull_codec \<Rightarrow> (order_key \<times> bytes) list \<Rightarrow> string list \<Rightarrow> nat \<Rightarrow> nat \<Rightarrow> string list \<times> nat \<times> nat \<times> order_key option" where
  "encode_origin_rows j rows keyed used byte_budget = encode_rows_loop j byte_budget rows keyed used 0 None"

definition keyed_resume :: "device_id \<Rightarrow> order_key option \<Rightarrow> resume" where
  "keyed_resume origin last_key =
     \<lparr>rsm_phase = Keyed, rsm_after_seq = 0, rsm_origin = to_hex origin,
      rsm_after_key = (case last_key of Some key \<Rightarrow> encode_hex (to_wire key) | None \<Rightarrow> [])\<rparr>"

text \<open>The position channel A continues from for one origin: its claim, or the resume token if that is further.\<close>

definition keyed_after :: "coverage_vector \<Rightarrow> bool \<Rightarrow> resume option \<Rightarrow> device_id \<Rightarrow> order_key option" where
  "keyed_after claims audit resume origin =
     (let resume_origin = Option.bind resume (\<lambda>r. ok (from_hex (rsm_origin r)));
          resume_key = Option.bind resume (\<lambda>r. decode_order_key (rsm_after_key r));
          claim = (if audit then None else map_of claims origin) in
      case (claim, if resume_origin = Some origin then resume_key else None) of
        (Some claim, Some key) \<Rightarrow> Some (max claim key)
      | (Some claim, None) \<Rightarrow> Some claim
      | (None, key) \<Rightarrow> key)"

fun keyed_loop ::
  "pull_codec \<Rightarrow> (device_id \<Rightarrow> nat \<Rightarrow> 'e + (order_key \<times> bytes) list) \<Rightarrow> nat \<Rightarrow> (device_id \<Rightarrow> bool) \<Rightarrow> device_id list \<Rightarrow>
   string list \<Rightarrow> nat \<Rightarrow> nat \<Rightarrow> 'e + (string list \<times> resume option)" where
  "keyed_loop j rows_of byte_budget skip [] keyed used remaining = Inr (keyed, None)"
| "keyed_loop j rows_of byte_budget skip (origin # rest) keyed used remaining =
     (if skip origin then keyed_loop j rows_of byte_budget skip rest keyed used remaining
      else and_then (rows_of origin remaining) (\<lambda>rows.
        case encode_origin_rows j rows keyed used byte_budget of
          (keyed, used, served, last_key) \<Rightarrow>
            if length rows = remaining \<or> served < length rows \<or> used \<ge> byte_budget
            then Inr (keyed, Some (keyed_resume origin last_key))
            else keyed_loop j rows_of byte_budget skip rest keyed used (remaining - served)))"

definition build_keyed_channel ::
  "pull_codec \<Rightarrow> ('s, 'sk, 'vk, 'e) pull_socket \<Rightarrow> 's \<Rightarrow> coverage_vector \<Rightarrow> resume option \<Rightarrow> bool \<Rightarrow> nat \<Rightarrow> nat \<Rightarrow> string option \<Rightarrow>
   device_id \<Rightarrow> 'e + (string list \<times> resume option)" where
  "build_keyed_channel j sk s claims resume audit budget byte_budget store own =
     (if budget = 0 then Inr ([], resume)
      else and_then (ps_origins sk s) (\<lambda>origins.
        let start = (case Option.bind resume (\<lambda>r. ok (from_hex (rsm_origin r))) of
                       Some origin \<Rightarrow> length (takeWhile (\<lambda>candidate. candidate < origin) origins)
                     | None \<Rightarrow> 0);
            rows_of = (\<lambda>origin n. ps_origin_since sk s origin (keyed_after claims audit resume origin) store n) in
        if resume = None \<and> own \<in> set origins then
          and_then (ps_origin_since sk s own (if audit then None else map_of claims own) store budget) (\<lambda>rows.
            case encode_origin_rows j rows [] 0 byte_budget of
              (keyed, used, served, last_key) \<Rightarrow>
                let remaining = budget - served in
                if remaining = 0 \<or> served < length rows \<or> used \<ge> byte_budget
                then Inr (keyed, Some (keyed_resume own last_key))
                else keyed_loop j rows_of byte_budget (\<lambda>origin. origin = own) (drop start origins) keyed used remaining)
        else keyed_loop j rows_of byte_budget (\<lambda>_. False) (drop start origins) [] 0 budget))"

fun backfill_loop ::
  "pull_codec \<Rightarrow> coverage_vector \<Rightarrow> (nat \<times> signed_op \<times> bytes) list \<Rightarrow> nat \<Rightarrow> (nat \<times> string) list \<Rightarrow> nat \<Rightarrow> bool \<Rightarrow>
   nat \<times> (nat \<times> string) list \<times> bool" where
  "backfill_loop j claims [] next_seq backfill page_bytes byte_cut = (next_seq, backfill, byte_cut)"
| "backfill_loop j claims ((sq, sop, envelope) # rest) next_seq backfill page_bytes byte_cut =
     (if byte_cut \<and> covers claims (order_key sop) then (next_seq, backfill, byte_cut)
      else if covers claims (order_key sop) then
        let encoded = b64_encode j envelope; page_bytes = page_bytes + length encoded in
        backfill_loop j claims rest sq (backfill @ [(sq, encoded)]) page_bytes (page_bytes \<ge> PULL_PAGE_BYTE_BUDGET)
      else backfill_loop j claims rest sq backfill page_bytes byte_cut)"

definition backfill_resume :: "nat \<Rightarrow> resume" where
  "backfill_resume after_seq = \<lparr>rsm_phase = Backfill, rsm_after_seq = after_seq, rsm_origin = [], rsm_after_key = []\<rparr>"

definition data_page ::
  "relay_stream_state \<Rightarrow> (nat \<times> string) list \<Rightarrow> string list \<Rightarrow> nat \<Rightarrow> resume option \<Rightarrow> string option \<Rightarrow> pull_page" where
  "data_page stream backfill keyed next_seq resume store =
     \<lparr>pp_version = PULL_VERSION, pp_epoch = encode_hex (rs_epoch stream), pp_reset = False, pp_floor = rs_floor stream,
      pp_backfill = backfill, pp_keyed = keyed, pp_next_relay_seq = next_seq, pp_head_seq = rs_head stream,
      pp_resume = resume, pp_complete = (resume = None), pp_snapshot_recommended = False, pp_store = store\<rparr>"

definition clamp_limit :: "pull_request \<Rightarrow> nat" where
  "clamp_limit request = min (max (pq_limit request) 1) PULL_PAGE_LIMIT_MAX"

definition resume_in :: "pull_phase \<Rightarrow> pull_request \<Rightarrow> resume option" where
  "resume_in phase request =
     (case pq_resume request of Some r \<Rightarrow> if rsm_phase r = phase then Some r else None | None \<Rightarrow> None)"

definition backfill_page ::
  "pull_codec \<Rightarrow> ('s, 'sk, 'vk, 'e) pull_socket \<Rightarrow> 's \<Rightarrow> relay_stream_state \<Rightarrow> coverage_vector \<Rightarrow> string list \<Rightarrow> nat \<Rightarrow> nat \<Rightarrow>
   'e + pull_page" where
  "backfill_page j sk s stream claims keyed start_seq budget =
     and_then (ps_relay_since sk s start_seq budget) (\<lambda>scanned.
       case backfill_loop j claims scanned start_seq [] (sum_list (map length keyed)) False of
         (next_seq, backfill, byte_cut) \<Rightarrow>
           Inr (data_page stream backfill keyed next_seq
             (if length scanned = budget \<and> budget > 0 \<or> byte_cut then Some (backfill_resume next_seq) else None) None))"

definition build_pull_page ::
  "pull_codec \<Rightarrow> ('s, 'sk, 'vk, 'e) pull_socket \<Rightarrow> 's \<Rightarrow> device_id \<Rightarrow> pull_request \<Rightarrow> 'e + pull_page" where
  "build_pull_page j sk s peer request =
     and_then (ps_relay_stream_state sk s) (\<lambda>stream.
     and_then (ok_or (ps_invalid_argument sk InvalidRelayEpoch) (decode_epoch (pq_relay_epoch request))) (\<lambda>request_epoch.
       if pq_store request = None \<and> pull_needs_reset request_epoch (pq_relay_after request) stream
       then Inr (reset_pull_page stream)
       else
       let limit = clamp_limit request; claims = decode_coverage request; own = ps_own_device_id sk s;
           keyed_channel = (\<lambda>store. build_keyed_channel j sk s claims (resume_in Keyed request) (pq_audit request) limit
                              PULL_PAGE_BYTE_BUDGET store own) in
       case pq_store request of
         Some store \<Rightarrow>
           and_then (keyed_channel (Some store)) (\<lambda>(keyed, resume).
             Inr (data_page stream [] keyed (pq_relay_after request) resume (Some store)))
       | None \<Rightarrow>
           (case resume_in Backfill request of
              Some r \<Rightarrow> backfill_page j sk s stream claims [] (rsm_after_seq r) limit
            | None \<Rightarrow>
                and_then (keyed_channel None) (\<lambda>(keyed, resume).
                  if resume \<noteq> None then Inr (data_page stream [] keyed (pq_relay_after request) resume None)
                  else if limit - length keyed = 0
                    then Inr (data_page stream [] keyed (pq_relay_after request)
                           (Some (backfill_resume (pq_relay_after request))) None)
                  else backfill_page j sk s stream claims keyed (pq_relay_after request) (limit - length keyed)))))"

section \<open>Requests\<close>

definition admit_pull_ack ::
  "('s, 'sk, 'vk, 'e) pull_socket \<Rightarrow> 's \<Rightarrow> device_id \<Rightarrow> pull_request \<Rightarrow> 's \<times> ('e + pull_page option)" where
  "admit_pull_ack sk s peer request =
     (case decode_epoch (pq_relay_epoch request) of
        None \<Rightarrow> (s, Inl (ps_invalid_argument sk InvalidRelayEpoch))
      | Some request_epoch \<Rightarrow>
          (case ps_relay_stream_state sk s of
             Inl e \<Rightarrow> (s, Inl e)
           | Inr stream \<Rightarrow>
               if pull_needs_reset request_epoch (pq_relay_after request) stream then (s, Inr (Some (reset_pull_page stream)))
               else if request_epoch = zero_epoch then (s, Inr None)
               else case ps_record_peer_ack sk s peer request_epoch (pq_relay_after request) of
                 (s', Inl e) \<Rightarrow> (s', Inl e)
               | (s', Inr _) \<Rightarrow> (s', Inr None)))"

text \<open>
  The wording of the messages of \<open>verify_pull_request\<close> that the classification reads; \<open>shown\<close> renders an
  \<open>OpError\<close>.
\<close>

fun pull_text :: "(op_error \<Rightarrow> string) \<Rightarrow> pull_message \<Rightarrow> string" where
  "pull_text shown (EncodePayload e) = ''encode pull v3 request: '' @ e"
| "pull_text shown (PullStoreId e) = shown e"
| "pull_text shown (SignPull e) = ''sign pull v3 request: '' @ shown e"
| "pull_text shown (EncodeEnvelope e) = ''encode pull v3 request envelope: '' @ shown e"
| "pull_text shown (InvalidEnvelope e) = ''Invalid signed pull envelope: '' @ shown e"
| "pull_text shown InvalidDomain = ''Invalid pull signature domain''"
| "pull_text shown NoStoredKey = ''Pull requester has no stored mesh key''"
| "pull_text shown OtherSigner = ''v3 pull page was signed by another device''"
| "pull_text shown (InvalidStoredKey e) = ''Invalid stored mesh key: '' @ shown e"
| "pull_text shown KeyDerivesOther = ''Stored mesh key does not derive the signer''"
| "pull_text shown (InvalidPullSignature e) = ''Invalid pull signature: '' @ shown e"
| "pull_text shown (InvalidPayload e) = ''Invalid payload: '' @ e"
| "pull_text shown UnsupportedPullVersion = ''Unsupported pull protocol version''"
| "pull_text shown PullExpired = ''Pull request expired''"
| "pull_text shown OversizedPage = ''oversized v3 pull page''"

definition starts_with :: "string \<Rightarrow> string \<Rightarrow> bool" where
  "starts_with s p \<longleftrightarrow> take (length p) s = p"

definition classify_pull_request_error :: "string \<Rightarrow> status" where
  "classify_pull_request_error message =
     (if starts_with message ''Invalid payload:'' \<or> message = ''Unsupported pull protocol version'' then BAD_REQUEST
      else if message = ''Pull request expired'' then FORBIDDEN
      else UNAUTHORIZED)"

datatype 'e auth_fault = AuthRefused pull_message | AuthHost 'e | NotTrusted | StillPriming

definition authenticate_pull_request ::
  "('sk, 'vk, 'sg) crypto \<Rightarrow> codec \<Rightarrow> pull_codec \<Rightarrow> (op_error \<Rightarrow> string) \<Rightarrow> ('s, 'sk, 'vk, 'e) pull_socket \<Rightarrow> 's \<Rightarrow> bytes \<Rightarrow>
   's \<times> ((status \<times> 'e auth_fault) + (device_id \<times> pull_request))" where
  "authenticate_pull_request c pc j shown sk s bs =
     (case ps_now_ms sk s of
        (s, now_ms) \<Rightarrow>
          (s, and_then
             (map_err (\<lambda>r. case r of
                 LookupRefused e \<Rightarrow> (INTERNAL_SERVER_ERROR, AuthHost e)
               | Refused m \<Rightarrow> (classify_pull_request_error (pull_text shown m), AuthRefused m))
               (verify_pull_request c pc j bs now_ms (ps_lookup_peer_sec1 sk s)))
             (\<lambda>(peer, request).
               and_then (map_err (\<lambda>e. (INTERNAL_SERVER_ERROR, AuthHost e)) (ps_is_peer_trusted sk s peer)) (\<lambda>trusted.
                 if \<not> trusted then Inl (FORBIDDEN, NotTrusted)
                 else and_then (map_err (\<lambda>e. (INTERNAL_SERVER_ERROR, AuthHost e)) (ps_is_coverage_primed sk s)) (\<lambda>primed.
                   if \<not> primed then Inl (SERVICE_UNAVAILABLE, StillPriming)
                   else Inr (peer, request))))))"

text \<open>The trait \<open>PullHandler\<close>; the clock readings of one request are values.\<close>

record ('t, 'sk, 'vk, 'x) pull_handler =
  ph_identity :: "('sk, 'vk) device_identity"
  ph_now_ms :: int
  ph_response_hlc :: hlc
  ph_lookup_peer_sec1 :: "device_id \<Rightarrow> 'x + bytes option"
  ph_is_peer_trusted :: "device_id \<Rightarrow> 'x + bool"
  ph_is_coverage_primed :: "'x + bool"
  ph_admit_pull_ack :: "'t \<Rightarrow> device_id \<Rightarrow> pull_request \<Rightarrow> 't \<times> ('x + pull_page option)"
  ph_serve_pull :: "'t \<Rightarrow> device_id \<Rightarrow> pull_request \<Rightarrow> 'x + pull_page"

definition post_pull ::
  "('sk, 'vk, 'sg) crypto \<Rightarrow> codec \<Rightarrow> pull_codec \<Rightarrow> (op_error \<Rightarrow> string) \<Rightarrow> ('t, 'sk, 'vk, 'x) pull_handler \<Rightarrow> 't \<Rightarrow> bytes \<Rightarrow>
   't \<times> (status + http_ok)" where
  "post_pull c pc j shown h t body =
     (case verify_pull_request c pc j body (ph_now_ms h) (ph_lookup_peer_sec1 h) of
        Inl (LookupRefused _) \<Rightarrow> (t, Inl INTERNAL_SERVER_ERROR)
      | Inl (Refused m) \<Rightarrow> (t, Inl (classify_pull_request_error (pull_text shown m)))
      | Inr (peer, request) \<Rightarrow>
          (case ph_is_peer_trusted h peer of
             Inl _ \<Rightarrow> (t, Inl INTERNAL_SERVER_ERROR)
           | Inr False \<Rightarrow> (t, Inl FORBIDDEN)
           | Inr True \<Rightarrow>
               (case ph_is_coverage_primed h of
                  Inl _ \<Rightarrow> (t, Inl INTERNAL_SERVER_ERROR)
                | Inr False \<Rightarrow> (t, Inl SERVICE_UNAVAILABLE)
                | Inr True \<Rightarrow>
                    (case ph_admit_pull_ack h t peer request of
                       (t', answer) \<Rightarrow>
                         (t', and_then (map_err (\<lambda>_. INTERNAL_SERVER_ERROR)
                                (and_then answer (\<lambda>reset.
                                   case reset of Some page \<Rightarrow> Inr page | None \<Rightarrow> ph_serve_pull h t' peer request)))
                              (\<lambda>page. map_err (\<lambda>_. INTERNAL_SERVER_ERROR)
                                (and_then (seal_pull_page c pc j page (ph_identity h) (ph_response_hlc h)) (\<lambda>bs. Inr (octet bs)))))))))"

text \<open>\<open>PullHandler\<close> for the HTTP server: \<open>unix\<close> and \<open>unix'\<close> are its two readings of the system clock.\<close>

definition serve_handler :: "pull_codec \<Rightarrow> nat \<Rightarrow> nat \<Rightarrow> ('sk, 'vk) serve_state \<Rightarrow>
   (('sk, 'vk) serve_state, 'sk, 'vk, socket_error) pull_handler" where
  "serve_handler j unix unix' st =
     \<lparr>ph_identity = sv_identity st, ph_now_ms = as_i64 unix, ph_response_hlc = default_next_hlc (as_i64 unix'),
      ph_lookup_peer_sec1 = (\<lambda>peer. map_err BookError (db_try_key_for_device (sv_relay_callers st) peer)),
      ph_is_peer_trusted = (\<lambda>peer. Inr True), ph_is_coverage_primed = Inr True,
      ph_admit_pull_ack = (\<lambda>t. admit_pull_ack (serve_socket unix) t),
      ph_serve_pull = (\<lambda>t. build_pull_page j (serve_socket unix) t)\<rparr>"

section \<open>Channel A\<close>

lemma encode_rows_loop_spec:
  assumes "encode_rows_loop j byte_budget rows keyed used served last_key = (keyed', used', served', last_key')" "used < byte_budget"
  shows "\<exists>k \<le> length rows. served' = served + k \<and> keyed' = keyed @ map (\<lambda>r. b64_encode j (snd r)) (take k rows) \<and>
    last_key' = (if k = 0 then last_key else Some (fst (rows ! (k - 1)))) \<and> (rows \<noteq> [] \<longrightarrow> 0 < k) \<and>
    (k < length rows \<longrightarrow> byte_budget \<le> used') \<and> (k = 0 \<longrightarrow> used' = used)"
  using assms
proof (induction rows arbitrary: keyed used served last_key)
  case (Cons r rows)
  obtain key envelope where r: "r = (key, envelope)" by fastforce
  let ?e = "b64_encode j envelope"
  show ?case
  proof (cases "byte_budget \<le> used + length ?e")
    case True
    then show ?thesis using Cons.prems by (intro exI [of _ 1]) (auto simp: r Let_def)
  next
    case False
    then have "encode_rows_loop j byte_budget rows (keyed @ [?e]) (used + length ?e) (served + 1) (Some key) =
        (keyed', used', served', last_key')" "used + length ?e < byte_budget"
      using Cons.prems by (simp_all add: r Let_def)
    from Cons.IH [OF this] obtain k where "k \<le> length rows" "served' = served + 1 + k"
        "keyed' = (keyed @ [?e]) @ map (\<lambda>r. b64_encode j (snd r)) (take k rows)"
        "last_key' = (if k = 0 then Some key else Some (fst (rows ! (k - 1))))" "k < length rows \<longrightarrow> byte_budget \<le> used'"
      by blast
    then show ?thesis by (intro exI [of _ "Suc k"]) (auto simp: r nth_Cons')
  qed
qed auto

lemma encode_origin_rows_spec:
  assumes "encode_origin_rows j rows keyed used byte_budget = (keyed', used', served, last_key)" "used < byte_budget"
  shows "served \<le> length rows" "keyed' = keyed @ map (\<lambda>r. b64_encode j (snd r)) (take served rows)"
    "last_key = (if served = 0 then None else Some (fst (rows ! (served - 1))))" "rows \<noteq> [] \<Longrightarrow> 0 < served"
    "served < length rows \<Longrightarrow> byte_budget \<le> used'" "served = 0 \<Longrightarrow> used' = used"
  using encode_rows_loop_spec [OF assms(1) [unfolded encode_origin_rows_def] assms(2)] by auto

definition entry_of :: "pull_codec \<Rightarrow> codec \<Rightarrow> signed_op \<Rightarrow> string" where
  "entry_of j pc sop = b64_encode j (env_bytes pc sop)"

text \<open>
  What a run of channel A over the origins \<open>os\<close> yields, \<open>wanted\<close> being the ops it has for each: all of them
  and no token, or a cut inside one origin, with a token at the last op served.
\<close>

definition channel_out :: "(device_id \<Rightarrow> signed_op list) \<Rightarrow> device_id list \<Rightarrow> nat \<Rightarrow> signed_op list \<Rightarrow> resume option \<Rightarrow> bool" where
  "channel_out wanted os n sops token \<longleftrightarrow>
     (case token of
        None \<Rightarrow> sops = concat (map wanted os) \<and> length sops < n
      | Some r \<Rightarrow> length sops \<le> n \<and> (\<exists>pre origin post k. os = pre @ origin # post \<and> 0 < k \<and> k \<le> length (wanted origin) \<and>
          sops = concat (map wanted pre) @ take k (wanted origin) \<and>
          r = keyed_resume origin (Some (order_key (wanted origin ! (k - 1))))))"

lemma channel_out_NoneD: "channel_out wanted os n sops None \<Longrightarrow> sops = concat (map wanted os) \<and> length sops < n"
  unfolding channel_out_def option.case .

lemma channel_out_SomeI:
  "os = pre @ origin # post \<Longrightarrow> 0 < k \<Longrightarrow> k \<le> length (wanted origin) \<Longrightarrow> sops = concat (map wanted pre) @ take k (wanted origin) \<Longrightarrow>
   r = keyed_resume origin (Some (order_key (wanted origin ! (k - 1)))) \<Longrightarrow> length sops \<le> n \<Longrightarrow> channel_out wanted os n sops (Some r)"
  by (auto simp: channel_out_def)

lemma channel_out_SomeE:
  assumes "channel_out wanted os n sops (Some r)"
  obtains pre origin post k where "os = pre @ origin # post" "0 < k" "k \<le> length (wanted origin)"
    "sops = concat (map wanted pre) @ take k (wanted origin)" "r = keyed_resume origin (Some (order_key (wanted origin ! (k - 1))))"
    "length sops \<le> n"
  using assms by (auto simp: channel_out_def)

lemma channel_out_Cons:
  assumes "channel_out wanted os (n - length (wanted origin)) sops token" "length (wanted origin) < n"
  shows "channel_out wanted (origin # os) n (wanted origin @ sops) token"
proof (cases token)
  case None
  then show ?thesis using assms by (auto simp: channel_out_def)
next
  case (Some r)
  show ?thesis
    using assms(1) unfolding Some
  proof (rule channel_out_SomeE)
    fix pre d post k
    assume "os = pre @ d # post" "0 < k" "k \<le> length (wanted d)" "sops = concat (map wanted pre) @ take k (wanted d)"
      "r = keyed_resume d (Some (order_key (wanted d ! (k - 1))))" "length sops \<le> n - length (wanted origin)"
    then show "channel_out wanted (origin # os) n (wanted origin @ sops) (Some r)"
      using assms(2) by (intro channel_out_SomeI [of _ "origin # pre" d post k]) auto
  qed
qed

lemma channel_out_cut:
  assumes "0 < k" "k \<le> length (wanted origin)" "k \<le> n"
  shows "channel_out wanted (origin # os) n (take k (wanted origin)) (Some (keyed_resume origin (Some (order_key (wanted origin ! (k - 1))))))"
  using assms by (intro channel_out_SomeI [of _ "[]" origin os k]) auto

lemma keyed_loop_out:
  assumes "\<And>d n. d \<in> set os \<Longrightarrow> 0 < n \<Longrightarrow> rows_of d n = Inr (map (\<lambda>x. (order_key x, env_bytes pc x)) (take n (wanted d)))"
    and "used < byte_budget" "0 < remaining"
  shows "\<exists>sops token. keyed_loop j rows_of byte_budget skip os keyed used remaining = Inr (keyed @ map (entry_of j pc) sops, token) \<and>
    channel_out wanted (filter (\<lambda>d. \<not> skip d) os) remaining sops token"
  using assms
proof (induction os arbitrary: keyed used remaining)
  case Nil
  then show ?case by (intro exI [of _ "[]"] exI [of _ None]) (simp add: channel_out_def)
next
  case (Cons d os)
  show ?case
  proof (cases "skip d")
    case True
    have "\<exists>sops token. keyed_loop j rows_of byte_budget skip os keyed used remaining = Inr (keyed @ map (entry_of j pc) sops, token) \<and>
        channel_out wanted (filter (\<lambda>d. \<not> skip d) os) remaining sops token"
      by (rule Cons.IH) (use Cons.prems in auto)
    then show ?thesis using True by simp
  next
    case False
    let ?rows = "map (\<lambda>x. (order_key x, env_bytes pc x)) (take remaining (wanted d))"
    have rows: "rows_of d remaining = Inr ?rows" using Cons.prems by simp
    obtain keyed' used' served last_key where enc: "encode_origin_rows j ?rows keyed used byte_budget = (keyed', used', served, last_key)"
      by (metis prod_cases4)
    note spec = encode_origin_rows_spec [OF enc Cons.prems(2)]
    have keyed': "keyed' = keyed @ map (entry_of j pc) (take served (wanted d))"
      using spec(1,2) by (simp add: take_map entry_of_def o_def min_def split: if_splits)
    show ?thesis
    proof (cases "length ?rows = remaining \<or> served < length ?rows \<or> byte_budget \<le> used'")
      case cut: True
      have pos: "0 < served" using cut spec(4,6) Cons.prems(2,3) by (cases "?rows = []") auto
      have le: "served \<le> length (wanted d)" "served \<le> remaining" using spec(1) by auto
      have "served - 1 < length ?rows" using spec(1) pos by linarith
      then have "last_key = Some (order_key (wanted d ! (served - 1)))" using spec(3) pos by (simp add: nth_map)
      then show ?thesis
        using False rows enc cut keyed' channel_out_cut [OF pos, of wanted d remaining "filter (\<lambda>d. \<not> skip d) os"] le
        by (intro exI [of _ "take served (wanted d)"] exI [of _ "Some (keyed_resume d last_key)"]) auto
    next
      case run: False
      then have served: "served = length (wanted d)" "length (wanted d) < remaining" using spec(1) by auto
      have "\<exists>sops token. keyed_loop j rows_of byte_budget skip os keyed' used' (remaining - served) =
            Inr (keyed' @ map (entry_of j pc) sops, token) \<and>
          channel_out wanted (filter (\<lambda>d. \<not> skip d) os) (remaining - served) sops token"
        by (rule Cons.IH) (use Cons.prems run served in auto)
      then obtain sops token where sops: "keyed_loop j rows_of byte_budget skip os keyed' used' (remaining - served) =
            Inr (keyed' @ map (entry_of j pc) sops, token)"
          "channel_out wanted (filter (\<lambda>d. \<not> skip d) os) (remaining - served) sops token"
        by blast
      have "keyed_loop j rows_of byte_budget skip (d # os) keyed used remaining =
          Inr (keyed @ map (entry_of j pc) (wanted d @ sops), token)"
        using False rows enc run sops(1) keyed' served by simp
      moreover have "channel_out wanted (filter (\<lambda>d. \<not> skip d) (d # os)) remaining (wanted d @ sops) token"
        using False channel_out_Cons [of wanted "filter (\<lambda>d. \<not> skip d) os" remaining d sops token] sops(2) served by simp
      ultimately show ?thesis by blast
    qed
  qed
qed

lemma keyed_loop_filter:
  "keyed_loop j rows_of byte_budget skip os keyed used remaining =
   keyed_loop j rows_of byte_budget (\<lambda>_. False) (filter (\<lambda>d. \<not> skip d) os) keyed used remaining"
proof (induction os arbitrary: keyed used remaining)
  case (Cons d os)
  then show ?case by (cases "skip d") (simp_all cong: if_cong)
qed simp

text \<open>The origins a request walks, in order: the server's own first when it starts afresh.\<close>

definition keyed_visit :: "device_id \<Rightarrow> resume option \<Rightarrow> device_id list \<Rightarrow> device_id list" where
  "keyed_visit own resume os =
     (if resume = None \<and> own \<in> set os then own # filter (\<lambda>d. d \<noteq> own) os
      else case Option.bind resume (\<lambda>r. ok (from_hex (rsm_origin r))) of
        Some origin \<Rightarrow> drop (length (takeWhile (\<lambda>d. d < origin) os)) os
      | None \<Rightarrow> os)"

definition wanted_ops ::
  "signed_op list \<Rightarrow> coverage_vector \<Rightarrow> bool \<Rightarrow> resume option \<Rightarrow> string option \<Rightarrow> device_id \<Rightarrow> signed_op list" where
  "wanted_ops sops claims audit resume store origin =
     filter (\<lambda>x. after_key (keyed_after claims audit resume origin) x \<and> of_origin origin store x) sops"

abbreviation origin_of :: "signed_op \<Rightarrow> device_id" where
  "origin_of sop \<equiv> body_device (op_body sop)"

text \<open>
  The layout of channel A: one run per origin, ascending by key within it, and the origins ascending
  but for the first.
\<close>

definition keyed_layout :: "signed_op list \<Rightarrow> bool" where
  "keyed_layout sops \<longleftrightarrow> (\<exists>run ds. sops = concat (map run ds) \<and> distinct ds \<and> sorted_wrt (<) (tl ds) \<and>
     (\<forall>d \<in> set ds. (\<forall>x \<in> set (run d). origin_of x = d) \<and> sorted_wrt (\<lambda>x y. order_key x < order_key y) (run d)))"

lemma visit_order: "distinct (keyed_visit own resume (origins_of sops)) \<and> sorted_wrt (<) (tl (keyed_visit own resume (origins_of sops)))"
proof -
  have sorted: "sorted_wrt (<) (origins_of sops)" by (rule origins_of_sorted)
  then have "distinct (origins_of sops)" by (simp add: strict_sorted_iff)
  moreover have "sorted_wrt (<) (tl (drop n (origins_of sops)))" for n
    using sorted_wrt_drop [OF sorted, of "Suc n"] by (simp add: drop_Suc tl_drop)
  moreover have "sorted_wrt (<) (tl (origins_of sops))" using sorted by (cases "origins_of sops") auto
  ultimately show ?thesis
    using sorted by (auto simp: keyed_visit_def sorted_wrt_filter split: option.split)
qed

lemma visit_sub: "d \<in> set (keyed_visit own resume os) \<Longrightarrow> d \<in> set os"
  by (auto simp: keyed_visit_def split: if_splits option.splits dest: in_set_dropD)

lemma visit_fresh: "set (keyed_visit own None os) = set os"
  by (auto simp: keyed_visit_def)

lemma wanted_mem:
  "x \<in> set (wanted_ops sops claims audit resume store d) \<longleftrightarrow>
     x \<in> set sops \<and> after_key (keyed_after claims audit resume d) x \<and> origin_of x = d \<and> store_matches store x"
  by (auto simp: wanted_ops_def of_origin_def)

lemma sorted_take_closed:
  assumes "sorted_wrt (\<lambda>x y. order_key x < order_key y) xs" "y \<in> set (take k xs)" "x \<in> set xs" "order_key x \<le> order_key y"
  shows "x \<in> set (take k xs)"
proof (rule ccontr)
  assume no: "x \<notin> set (take k xs)"
  moreover have "set xs = set (take k xs) \<union> set (drop k xs)" by (metis append_take_drop_id set_append)
  ultimately have "x \<in> set (drop k xs)" using assms(3) by blast
  moreover have "sorted_wrt (\<lambda>x y. order_key x < order_key y) (take k xs @ drop k xs)" using assms(1) by simp
  ultimately have "order_key y < order_key x" using assms(2) by (simp only: sorted_wrt_append)
  with assms(4) show False by simp
qed

text \<open>Every run of channel A is a prefix of what there is for its origin.\<close>

lemma channel_out_runs:
  assumes "channel_out wanted os n sops token" "distinct os"
  obtains cut ds where "sops = concat (map (\<lambda>d. take (cut d) (wanted d)) ds)" "\<exists>post. os = ds @ post" "length sops \<le> n"
    "token = None \<Longrightarrow> ds = os \<and> (\<forall>d. take (cut d) (wanted d) = wanted d)"
    "token \<noteq> None \<Longrightarrow> sops \<noteq> [] \<and> last sops \<in> set (wanted (last ds)) \<and>
       token = Some (keyed_resume (last ds) (Some (order_key (last sops))))"
proof (cases token)
  case None
  then show ?thesis
    using that [of "\<lambda>d. length (wanted d)" os] channel_out_NoneD [of wanted os n sops] assms(1) by auto
next
  case (Some r)
  show ?thesis
    using assms(1) unfolding Some
  proof (rule channel_out_SomeE)
    fix pre origin post k
    assume out: "os = pre @ origin # post" "0 < k" "k \<le> length (wanted origin)"
      "sops = concat (map wanted pre) @ take k (wanted origin)" "r = keyed_resume origin (Some (order_key (wanted origin ! (k - 1))))"
      "length sops \<le> n"
    let ?cut = "\<lambda>d. if d = origin then k else length (wanted d)"
    have "origin \<notin> set pre" using assms(2) out(1) by auto
    then have pre: "map (\<lambda>d. take (?cut d) (wanted d)) pre = map wanted pre" by (intro map_cong) auto
    have "sops = concat (map (\<lambda>d. take (?cut d) (wanted d)) (pre @ [origin]))"
      unfolding out(4) map_append concat_append pre by simp
    moreover have ne: "take k (wanted origin) \<noteq> []" using out(2,3) by auto
    then have "last sops = last (take k (wanted origin))" unfolding out(4) by (rule last_appendR)
    then have "last sops = wanted origin ! (k - 1)"
      unfolding last_conv_nth [OF ne] using out(2,3) by simp
    moreover have "wanted origin ! (k - 1) \<in> set (wanted origin)" using out(2,3) by (intro nth_mem) linarith
    ultimately show ?thesis using that [of ?cut "pre @ [origin]"] out(1,4-6) Some ne by simp
  qed
qed

lemma channel_facts:
  assumes "sorted_wrt (\<lambda>x y. order_key x < order_key y) held"
    and "channel_out (wanted_ops held claims audit resume store) (keyed_visit own resume (origins_of held)) n sops token"
  shows "keyed_layout sops" "length sops \<le> n"
    "x \<in> set sops \<Longrightarrow> x \<in> set held \<and> store_matches store x \<and> after_key (keyed_after claims audit resume (origin_of x)) x"
    "y \<in> set sops \<Longrightarrow> x \<in> set held \<Longrightarrow> origin_of x = origin_of y \<Longrightarrow> store_matches store x \<Longrightarrow>
       after_key (keyed_after claims audit resume (origin_of x)) x \<Longrightarrow> order_key x \<le> order_key y \<Longrightarrow> x \<in> set sops"
    "token = None \<Longrightarrow> x \<in> set held \<Longrightarrow> origin_of x \<in> set (keyed_visit own resume (origins_of held)) \<Longrightarrow> store_matches store x \<Longrightarrow>
       after_key (keyed_after claims audit resume (origin_of x)) x \<Longrightarrow> x \<in> set sops"
    "token = Some r \<Longrightarrow> sops \<noteq> [] \<and> r = keyed_resume (origin_of (last sops)) (Some (order_key (last sops)))"
proof -
  let ?w = "wanted_ops held claims audit resume store" and ?os = "keyed_visit own resume (origins_of held)"
  note visit = visit_order [of own resume held]
  obtain cut ds where runs: "sops = concat (map (\<lambda>d. take (cut d) (?w d)) ds)" "\<exists>post. ?os = ds @ post" "length sops \<le> n"
      "token = None \<Longrightarrow> ds = ?os \<and> (\<forall>d. take (cut d) (?w d) = ?w d)"
      "token \<noteq> None \<Longrightarrow> sops \<noteq> [] \<and> last sops \<in> set (?w (last ds)) \<and>
         token = Some (keyed_resume (last ds) (Some (order_key (last sops))))"
    using channel_out_runs [OF assms(2)] visit by blast
  have sorted: "sorted_wrt (\<lambda>x y. order_key x < order_key y) (?w d)" for d
    using sorted_wrt_filter [OF assms(1)] by (simp add: wanted_ops_def)
  obtain post where post: "?os = ds @ post" using runs(2) by blast
  have ds: "distinct ds" using visit unfolding post by simp
  have "sorted_wrt (<) (tl ds)"
    using visit unfolding post by (cases ds) (simp_all add: sorted_wrt_append)
  moreover have "\<forall>x \<in> set (take (cut d) (?w d)). origin_of x = d" for d
    by (auto simp: wanted_mem dest!: in_set_takeD)
  moreover have "sorted_wrt (\<lambda>x y. order_key x < order_key y) (take (cut d) (?w d))" for d
    by (rule sorted_wrt_take [OF sorted])
  ultimately show "keyed_layout sops"
    unfolding keyed_layout_def using runs(1) ds by blast
  show "length sops \<le> n" by (rule runs(3))
  have mem: "x \<in> set sops \<longleftrightarrow> (\<exists>d \<in> set ds. x \<in> set (take (cut d) (?w d)))" for x
    unfolding runs(1) by simp
  show "x \<in> set sops \<Longrightarrow> x \<in> set held \<and> store_matches store x \<and> after_key (keyed_after claims audit resume (origin_of x)) x"
    by (auto simp: mem wanted_mem dest!: in_set_takeD)
  show "x \<in> set sops" if "y \<in> set sops" "x \<in> set held" "origin_of x = origin_of y" "store_matches store x"
    "after_key (keyed_after claims audit resume (origin_of x)) x" "order_key x \<le> order_key y"
  proof -
    from that(1) obtain d where d: "d \<in> set ds" "y \<in> set (take (cut d) (?w d))" by (auto simp: mem)
    then have "origin_of y = d" by (auto simp: wanted_mem dest!: in_set_takeD)
    then have "x \<in> set (?w d)" using that by (simp add: wanted_mem)
    then show ?thesis using sorted_take_closed [OF sorted d(2)] that(6) d(1) by (auto simp: mem)
  qed
  show "x \<in> set sops" if "token = None" "x \<in> set held" "origin_of x \<in> set ?os" "store_matches store x"
    "after_key (keyed_after claims audit resume (origin_of x)) x"
    using runs(4) [OF that(1)] that(2-5) by (auto simp: mem wanted_mem)
  show "sops \<noteq> [] \<and> r = keyed_resume (origin_of (last sops)) (Some (order_key (last sops)))" if "token = Some r"
    using runs(5) that by (auto simp: wanted_mem)
qed

text \<open>With no audit, and a resume token no further than the claims, channel A is what the claims do not cover.\<close>

definition resume_claimed :: "coverage_vector \<Rightarrow> resume option \<Rightarrow> bool" where
  "resume_claimed claims resume \<longleftrightarrow>
     (\<forall>r d k. resume = Some r \<longrightarrow> ok (from_hex (rsm_origin r)) = Some d \<longrightarrow> decode_order_key (rsm_after_key r) = Some k \<longrightarrow>
        (\<exists>claim. map_of claims d = Some claim \<and> k \<le> claim))"

lemma after_covers:
  assumes "resume_claimed claims resume"
  shows "after_key (keyed_after claims False resume (origin_of x)) x \<longleftrightarrow> \<not> covers claims (order_key x)"
proof -
  have "keyed_after claims False resume d = map_of claims d" for d
  proof (cases resume)
    case (Some r)
    then show ?thesis
      using assms by (cases "decode_order_key (rsm_after_key r)")
        (auto simp: keyed_after_def resume_claimed_def Let_def max_absorb1 split: option.split)
  qed (simp add: keyed_after_def Let_def split: option.split)
  then show ?thesis
    by (auto simp: covers_def order_key_def after_key_def not_le split: option.split)
qed

section \<open>Channel B\<close>

abbreviation covered :: "coverage_vector \<Rightarrow> signed_op \<Rightarrow> bool" where
  "covered claims sop \<equiv> covers claims (order_key sop)"

lemma backfill_loop_spec:
  assumes "backfill_loop j claims (map (\<lambda>e. (entry_seq e, entry_op e, env_bytes pc (entry_op e))) es) next_seq backfill used halt =
    (next_seq', backfill', halt')"
  shows "\<exists>m \<le> length es. next_seq' = (if m = 0 then next_seq else entry_seq (es ! (m - 1))) \<and>
    backfill' = backfill @ map (\<lambda>e. (entry_seq e, entry_of j pc (entry_op e))) (filter (\<lambda>e. covered claims (entry_op e)) (take m es)) \<and>
    (m < length es \<longrightarrow> halt') \<and> (halt' \<longrightarrow> halt \<or> 0 < m)"
  using assms
proof (induction es arbitrary: next_seq backfill used halt)
  case (Cons e es)
  let ?x = "entry_op e"
  show ?case
  proof (cases "halt \<and> covered claims ?x")
    case True
    then show ?thesis using Cons.prems by (intro exI [of _ 0]) auto
  next
    case False
    let ?enc = "entry_of j pc ?x"
    let ?backfill = "if covered claims ?x then backfill @ [(entry_seq e, ?enc)] else backfill"
    let ?used = "if covered claims ?x then used + length ?enc else used"
    let ?halt = "if covered claims ?x then ?used \<ge> PULL_PAGE_BYTE_BUDGET else halt"
    have "backfill_loop j claims (map (\<lambda>e. (entry_seq e, entry_op e, env_bytes pc (entry_op e))) es) (entry_seq e) ?backfill ?used ?halt =
        (next_seq', backfill', halt')"
      using Cons.prems False by (cases "covered claims ?x") (simp_all add: entry_of_def Let_def)
    from Cons.IH [OF this] obtain m where m: "m \<le> length es" "next_seq' = (if m = 0 then entry_seq e else entry_seq (es ! (m - 1)))"
        "backfill' = ?backfill @ map (\<lambda>e. (entry_seq e, entry_of j pc (entry_op e))) (filter (\<lambda>e. covered claims (entry_op e)) (take m es))"
        "m < length es \<longrightarrow> halt'"
      by blast
    then show ?thesis by (intro exI [of _ "Suc m"]) (auto simp: nth_Cons')
  qed
qed auto

lemma stream_seq_nth:
  assumes "0 < m" "m \<le> length (stream_entries xs a n)"
  shows "entry_seq (stream_entries xs a n ! (m - 1)) = a + m"
proof -
  have "m \<le> min (a + n) (length xs) - a" using assms(2) by (simp add: stream_entries_def)
  then have "a + (m - 1) < min (a + n) (length xs)" using assms(1) by linarith
  then have "[a..<min (a + n) (length xs)] ! (m - 1) = a + (m - 1)" by (rule nth_upt)
  moreover have "m - 1 < length [a..<min (a + n) (length xs)]" using assms by (simp add: stream_entries_def)
  ultimately show ?thesis using assms(1) by (simp only: stream_entries_def nth_map relay_log_entry.select_convs)
qed

lemma covered_stream:
  assumes "m \<le> length (stream_entries xs a n)"
  shows "map (\<lambda>e. (entry_seq e, entry_of j pc (entry_op e))) (filter (\<lambda>e. covered claims (entry_op e)) (take m (stream_entries xs a n))) =
    map (\<lambda>i. (Suc i, entry_of j pc (xs ! i))) (filter (\<lambda>i. covered claims (xs ! i)) [a..<a + m])"
proof -
  have "take m [a..<min (a + n) (length xs)] = [a..<a + m]"
    using assms by (cases "m = 0") (simp, intro take_upt, simp add: stream_entries_def min_def split: if_splits)
  then have "take m (stream_entries xs a n) = map (\<lambda>i. \<lparr>entry_seq = Suc i, entry_op = xs ! i\<rparr>) [a..<a + m]"
    by (simp only: stream_entries_def take_map Suc_eq_plus1)
  then show ?thesis by (simp add: filter_map o_def)
qed

text \<open>What channel A owes a puller with these claims.\<close>

definition keyed_part :: "signed_op list \<Rightarrow> coverage_vector \<Rightarrow> resume option \<Rightarrow> nat \<Rightarrow> signed_op list \<Rightarrow> resume option \<Rightarrow> bool" where
  "keyed_part held claims resume limit ks token \<longleftrightarrow>
     keyed_layout ks \<and> length ks \<le> limit \<and> (token = None \<longrightarrow> length ks < limit) \<and>
     (\<forall>x \<in> set ks. x \<in> set held \<and> \<not> covered claims x) \<and>
     (\<forall>x \<in> set held. \<forall>y \<in> set ks. origin_of x = origin_of y \<and> \<not> covered claims x \<and> order_key x \<le> order_key y \<longrightarrow> x \<in> set ks) \<and>
     (token = None \<and> resume = None \<longrightarrow> (\<forall>x \<in> set held. \<not> covered claims x \<longrightarrow> x \<in> set ks)) \<and>
     (\<forall>r. token = Some r \<longrightarrow> ks \<noteq> [] \<and> r = keyed_resume (origin_of (last ks)) (Some (order_key (last ks))))"

lemma keyed_partD:
  assumes "keyed_part held claims resume limit ks token"
  shows "keyed_layout ks" "length ks \<le> limit" "token = None \<Longrightarrow> length ks < limit"
    "x \<in> set ks \<Longrightarrow> x \<in> set held \<and> \<not> covered claims x"
    "x \<in> set held \<Longrightarrow> y \<in> set ks \<Longrightarrow> origin_of x = origin_of y \<Longrightarrow> \<not> covered claims x \<Longrightarrow> order_key x \<le> order_key y \<Longrightarrow> x \<in> set ks"
    "token = None \<Longrightarrow> resume = None \<Longrightarrow> x \<in> set held \<Longrightarrow> \<not> covered claims x \<Longrightarrow> x \<in> set ks"
    "token = Some r \<Longrightarrow> ks \<noteq> [] \<and> r = keyed_resume (origin_of (last ks)) (Some (order_key (last ks)))"
  using assms unfolding keyed_part_def by blast+

section \<open>Whole pages\<close>

text \<open>
  What a page owes a puller that claims \<open>claims\<close> and stands at \<open>after\<close>: channel A carries the ops \<open>ks\<close> that
  are above the claims, closed downwards per origin; channel B scanned the next \<open>m\<close> arrivals and carries
  those the claims cover; without a token the scan reached the head and, on a fresh request, channel A is
  everything above the claims; with a token the page served something the token lies behind.
\<close>

definition page_spec ::
  "pull_codec \<Rightarrow> codec \<Rightarrow> signed_op list \<Rightarrow> signed_op list \<Rightarrow> bytes \<Rightarrow> coverage_vector \<Rightarrow> nat \<Rightarrow> resume option \<Rightarrow> signed_op list \<Rightarrow> nat \<Rightarrow>
   pull_page \<Rightarrow> bool" where
  "page_spec j pc held arrived epoch claims after resume ks m page \<longleftrightarrow>
     (\<exists>token. page = data_page (full_stream epoch arrived)
          (map (\<lambda>i. (Suc i, entry_of j pc (arrived ! i))) (filter (\<lambda>i. covered claims (arrived ! i)) [after..<after + m]))
          (map (entry_of j pc) ks) (after + m) token None \<and>
        after + m \<le> length arrived \<and> length ks + m \<le> PULL_PAGE_LIMIT_MAX \<and> keyed_layout ks \<and>
        (\<forall>x \<in> set ks. x \<in> set held \<and> \<not> covered claims x) \<and>
        (\<forall>x \<in> set held. \<forall>y \<in> set ks. origin_of x = origin_of y \<and> \<not> covered claims x \<and> order_key x \<le> order_key y \<longrightarrow> x \<in> set ks) \<and>
        (token = None \<longrightarrow> after + m = length arrived \<and>
           (resume = None \<longrightarrow> (\<forall>x \<in> set held. \<not> covered claims x \<longrightarrow> x \<in> set ks))) \<and>
        (\<forall>r. token = Some r \<longrightarrow>
           r = keyed_resume (origin_of (last ks)) (Some (order_key (last ks))) \<and> ks \<noteq> [] \<and> m = 0 \<or>
           r = backfill_resume (after + m) \<and> 0 < m))"

lemma page_specI:
  assumes "page = data_page (full_stream epoch arrived)
      (map (\<lambda>i. (Suc i, entry_of j pc (arrived ! i))) (filter (\<lambda>i. covered claims (arrived ! i)) [after..<after + m]))
      (map (entry_of j pc) ks) (after + m) token None"
    and "after + m \<le> length arrived" "length ks + m \<le> PULL_PAGE_LIMIT_MAX" "keyed_layout ks"
    and "\<And>x. x \<in> set ks \<Longrightarrow> x \<in> set held \<and> \<not> covered claims x"
    and "\<And>x y. x \<in> set held \<Longrightarrow> y \<in> set ks \<Longrightarrow> origin_of x = origin_of y \<Longrightarrow> \<not> covered claims x \<Longrightarrow> order_key x \<le> order_key y \<Longrightarrow> x \<in> set ks"
    and "token = None \<Longrightarrow> after + m = length arrived"
    and "\<And>x. token = None \<Longrightarrow> resume = None \<Longrightarrow> x \<in> set held \<Longrightarrow> \<not> covered claims x \<Longrightarrow> x \<in> set ks"
    and "\<And>r. token = Some r \<Longrightarrow> r = keyed_resume (origin_of (last ks)) (Some (order_key (last ks))) \<and> ks \<noteq> [] \<and> m = 0 \<or>
           r = backfill_resume (after + m) \<and> 0 < m"
  shows "page_spec j pc held arrived epoch claims after resume ks m page"
  unfolding page_spec_def
proof (intro exI [of _ token] conjI ballI allI impI)
  show "x \<in> set ks" if "x \<in> set held" "y \<in> set ks" "origin_of x = origin_of y \<and> \<not> covered claims x \<and> order_key x \<le> order_key y" for x y
    by (rule assms(6) [OF that(1,2)]) (use that(3) in blast)+
  show "x \<in> set held" "\<not> covered claims x" if "x \<in> set ks" for x using assms(5) [OF that] by simp_all
qed (rule assms; assumption)+

lemma page_specD:
  assumes "page_spec j pc held arrived epoch claims after resume ks m page"
  shows "pp_keyed page = map (entry_of j pc) ks"
    "pp_backfill page = map (\<lambda>i. (Suc i, entry_of j pc (arrived ! i))) (filter (\<lambda>i. covered claims (arrived ! i)) [after..<after + m])"
    "pp_next_relay_seq page = after + m" "pp_version page = PULL_VERSION" "pp_epoch page = encode_hex epoch" "\<not> pp_reset page"
    "\<not> pp_snapshot_recommended page" "pp_head_seq page = length arrived" "pp_complete page \<longleftrightarrow> pp_resume page = None"
    "after + m \<le> length arrived" "length ks + m \<le> PULL_PAGE_LIMIT_MAX" "keyed_layout ks"
    "x \<in> set ks \<Longrightarrow> x \<in> set held" "x \<in> set ks \<Longrightarrow> \<not> covered claims x"
    "x \<in> set held \<Longrightarrow> y \<in> set ks \<Longrightarrow> origin_of x = origin_of y \<Longrightarrow> \<not> covered claims x \<Longrightarrow> order_key x \<le> order_key y \<Longrightarrow> x \<in> set ks"
    "pp_resume page = None \<Longrightarrow> after + m = length arrived"
    "pp_resume page = None \<Longrightarrow> resume = None \<Longrightarrow> x \<in> set held \<Longrightarrow> \<not> covered claims x \<Longrightarrow> x \<in> set ks"
    "pp_resume page = Some r \<Longrightarrow> r = keyed_resume (origin_of (last ks)) (Some (order_key (last ks))) \<and> ks \<noteq> [] \<and> m = 0 \<or>
       r = backfill_resume (after + m) \<and> 0 < m"
proof -
  obtain token where page: "page = data_page (full_stream epoch arrived)
        (map (\<lambda>i. (Suc i, entry_of j pc (arrived ! i))) (filter (\<lambda>i. covered claims (arrived ! i)) [after..<after + m]))
        (map (entry_of j pc) ks) (after + m) token None"
      and bounds: "after + m \<le> length arrived" "length ks + m \<le> PULL_PAGE_LIMIT_MAX" "keyed_layout ks"
      and mem: "\<forall>x \<in> set ks. x \<in> set held \<and> \<not> covered claims x"
      and closed: "\<forall>x \<in> set held. \<forall>y \<in> set ks. origin_of x = origin_of y \<and> \<not> covered claims x \<and> order_key x \<le> order_key y \<longrightarrow> x \<in> set ks"
      and whole: "token = None \<longrightarrow> after + m = length arrived \<and> (resume = None \<longrightarrow> (\<forall>x \<in> set held. \<not> covered claims x \<longrightarrow> x \<in> set ks))"
      and cut_at: "\<forall>r. token = Some r \<longrightarrow> r = keyed_resume (origin_of (last ks)) (Some (order_key (last ks))) \<and> ks \<noteq> [] \<and> m = 0 \<or>
           r = backfill_resume (after + m) \<and> 0 < m"
    using assms unfolding page_spec_def by (elim exE conjE) (rule that; assumption)
  have token: "pp_resume page = token" by (simp add: page data_page_def)
  show "pp_keyed page = map (entry_of j pc) ks"
    "pp_backfill page = map (\<lambda>i. (Suc i, entry_of j pc (arrived ! i))) (filter (\<lambda>i. covered claims (arrived ! i)) [after..<after + m])"
    "pp_next_relay_seq page = after + m" "pp_version page = PULL_VERSION" "pp_epoch page = encode_hex epoch" "\<not> pp_reset page"
    "\<not> pp_snapshot_recommended page" "pp_head_seq page = length arrived" "pp_complete page \<longleftrightarrow> pp_resume page = None"
    by (simp_all add: page data_page_def full_stream_def)
  show "x \<in> set ks" if "x \<in> set held" "y \<in> set ks" "origin_of x = origin_of y" "\<not> covered claims x" "order_key x \<le> order_key y"
    using closed that by blast
  show "x \<in> set held" "\<not> covered claims x" if "x \<in> set ks" using mem that by blast+
  show "after + m = length arrived" if "pp_resume page = None" using whole that unfolding token by blast
  show "x \<in> set ks" if "pp_resume page = None" "resume = None" "x \<in> set held" "\<not> covered claims x" using whole that unfolding token by blast
  show "r = keyed_resume (origin_of (last ks)) (Some (order_key (last ks))) \<and> ks \<noteq> [] \<and> m = 0 \<or> r = backfill_resume (after + m) \<and> 0 < m"
    if "pp_resume page = Some r" using cut_at that unfolding token by blast
  show "after + m \<le> length arrived" "length ks + m \<le> PULL_PAGE_LIMIT_MAX" "keyed_layout ks" by (rule bounds)+
qed

text \<open>The bounds every page keeps: its entries within the limit, its sequence numbers ascending up to the position it reports.\<close>

definition page_capped :: "nat \<Rightarrow> pull_page \<Rightarrow> bool" where
  "page_capped n page \<longleftrightarrow> pp_version page = PULL_VERSION \<and>
     length (pp_keyed page) + length (pp_backfill page) \<le> n \<and> sorted_wrt (<) (map fst (pp_backfill page)) \<and>
     (\<forall>sq \<in> fst ` set (pp_backfill page). sq \<le> pp_next_relay_seq page) \<and>
     (pp_resume page = None \<longleftrightarrow> pp_complete page \<or> pp_reset page)"

lemma capped_empty: "length keyed \<le> n \<Longrightarrow> page_capped n (data_page stream [] keyed sq token st)"
  by (simp add: page_capped_def data_page_def)

lemma capped_reset: "page_capped n (reset_pull_page stream)"
  by (simp add: page_capped_def reset_pull_page_def)

context pull_source
begin

lemma build_keyed_loop:
  assumes "inv l" "0 < budget" "0 < byte_budget"
  shows "build_keyed_channel j sk (state l) claims resume audit budget byte_budget store own =
    keyed_loop j (\<lambda>d n. ps_origin_since sk (state l) d (keyed_after claims audit resume d) store n) byte_budget (\<lambda>_. False)
      (keyed_visit own resume (origins_of (held l))) [] 0 budget"
proof (cases "resume = None \<and> own \<in> set (origins_of (held l))")
  case True
  let ?rows = "origin_page pc (held l) own (if audit then None else map_of claims own) store budget"
  have own: "keyed_after claims audit resume own = (if audit then None else map_of claims own)"
    using True by (simp add: keyed_after_def split: option.split)
  obtain keyed used served last_key where enc: "encode_origin_rows j ?rows [] 0 byte_budget = (keyed, used, served, last_key)"
    by (metis prod_cases4)
  have "length ?rows \<le> budget" "served \<le> length ?rows"
    using assms(2) encode_origin_rows_spec(1) [OF enc assms(3)] by (auto simp: origin_page_def)
  then have "budget - served = 0 \<or> served < length ?rows \<or> byte_budget \<le> used \<longleftrightarrow>
      length ?rows = budget \<or> served < length ?rows \<or> byte_budget \<le> used"
    by linarith
  then show ?thesis
    using True assms enc own
    by (simp add: build_keyed_channel_def sk_origins sk_origin_since keyed_visit_def Let_def
        keyed_loop_filter [of _ _ _ "\<lambda>d. d = own"] cong: if_cong)
next
  case False
  then show ?thesis
    using assms by (auto simp: build_keyed_channel_def sk_origins keyed_visit_def Let_def split: option.split)
qed

lemma build_keyed_out:
  assumes "inv l" "0 < budget" "0 < byte_budget"
  shows "\<exists>sops token. build_keyed_channel j sk (state l) claims resume audit budget byte_budget store own =
      Inr (map (entry_of j pc) sops, token) \<and>
    channel_out (wanted_ops (held l) claims audit resume store) (keyed_visit own resume (origins_of (held l))) budget sops token"
proof -
  let ?os = "keyed_visit own resume (origins_of (held l))"
  let ?rows = "\<lambda>d n. ps_origin_since sk (state l) d (keyed_after claims audit resume d) store n"
  let ?wanted = "wanted_ops (held l) claims audit resume store"
  have rows: "?rows d n = Inr (map (\<lambda>x. (order_key x, env_bytes pc x)) (take n (?wanted d)))" if "d \<in> set ?os" "0 < n" for d n
    using that(2) by (simp add: sk_origin_since [OF assms(1)] origin_page_def wanted_ops_def max_def)
  have "\<exists>sops token. keyed_loop j ?rows byte_budget (\<lambda>_. False) ?os [] 0 budget = Inr ([] @ map (entry_of j pc) sops, token) \<and>
      channel_out ?wanted (filter (\<lambda>d. \<not> False) ?os) budget sops token"
    by (rule keyed_loop_out [OF rows assms(3,2)])
  then show ?thesis unfolding build_keyed_loop [OF assms] by simp
qed

lemma backfill_page_raw:
  assumes "inv l" "0 < budget"
  shows "\<exists>m token. m \<le> budget \<and>
    backfill_page j sk (state l) stream claims keyed start_seq budget =
      Inr (data_page stream (map (\<lambda>i. (Suc i, entry_of j pc (arrived l ! i)))
             (filter (\<lambda>i. covered claims (arrived l ! i)) [start_seq..<start_seq + m])) keyed (start_seq + m) token None) \<and>
    (start_seq \<le> length (arrived l) \<longrightarrow> start_seq + m \<le> length (arrived l) \<and> (token = None \<longrightarrow> start_seq + m = length (arrived l))) \<and>
    (token \<noteq> None \<longrightarrow> token = Some (backfill_resume (start_seq + m)) \<and> 0 < m)"
proof -
  let ?es = "stream_entries (arrived l) start_seq budget"
  let ?rows = "map (\<lambda>e. (entry_seq e, entry_op e, env_bytes pc (entry_op e))) ?es"
  obtain next_seq backfill halt where loop: "backfill_loop j claims ?rows start_seq [] (sum_list (map length keyed)) False = (next_seq, backfill, halt)"
    by (rule prod_cases3)
  from backfill_loop_spec [OF this] obtain m where m: "m \<le> length ?es"
      "next_seq = (if m = 0 then start_seq else entry_seq (?es ! (m - 1)))" "m < length ?es \<longrightarrow> halt" "halt \<longrightarrow> 0 < m"
    and bf: "backfill = map (\<lambda>e. (entry_seq e, entry_of j pc (entry_op e))) (filter (\<lambda>e. covered claims (entry_op e)) (take m ?es))"
    unfolding append_Nil by blast
  let ?token = "if length ?es = budget \<or> halt then Some (backfill_resume (start_seq + m)) else None"
  have len: "length ?es = min (start_seq + budget) (length (arrived l)) - start_seq" by (simp add: stream_entries_def)
  have next_seq: "next_seq = start_seq + m" using m(1,2) by (cases "m = 0") (simp_all add: stream_seq_nth [simplified])
  have "backfill_page j sk (state l) stream claims keyed start_seq budget = Inr (data_page stream backfill keyed (start_seq + m) ?token None)"
    using assms(2) loop unfolding backfill_page_def sk_relay_since [OF assms(1)] next_seq by simp
  moreover have "m \<le> budget" using m(1) unfolding len by linarith
  moreover have "start_seq \<le> length (arrived l) \<longrightarrow> start_seq + m \<le> length (arrived l) \<and> (?token = None \<longrightarrow> start_seq + m = length (arrived l))"
    using m(1,3) unfolding len by (auto simp: min_def split: if_splits)
  moreover have "?token \<noteq> None \<longrightarrow> ?token = Some (backfill_resume (start_seq + m)) \<and> 0 < m"
    using m(1,3,4) assms(2) by auto
  ultimately show ?thesis unfolding bf covered_stream [OF m(1)] by (intro exI [of _ m] exI [of _ ?token] conjI)
qed

lemma backfill_page_out:
  assumes "inv l" "start_seq \<le> length (arrived l)" "0 < budget"
  shows "\<exists>m token. start_seq + m \<le> length (arrived l) \<and> m \<le> budget \<and>
    backfill_page j sk (state l) stream claims keyed start_seq budget =
      Inr (data_page stream (map (\<lambda>i. (Suc i, entry_of j pc (arrived l ! i)))
             (filter (\<lambda>i. covered claims (arrived l ! i)) [start_seq..<start_seq + m])) keyed (start_seq + m) token None) \<and>
    (token = None \<longrightarrow> start_seq + m = length (arrived l)) \<and>
    (token \<noteq> None \<longrightarrow> token = Some (backfill_resume (start_seq + m)) \<and> 0 < m)"
  using backfill_page_raw [OF assms(1,3), of j stream claims keyed start_seq] assms(2) by blast

lemma page_unfold:
  assumes "inv l" "decode_epoch (pq_relay_epoch request) = Some e"
    and "\<not> pull_needs_reset e (pq_relay_after request) (full_stream (epoch l) (arrived l))"
    and "pq_store request = None" "\<not> pq_audit request"
  shows "build_pull_page j sk (state l) peer request =
    (case resume_in Backfill request of
       Some r \<Rightarrow> backfill_page j sk (state l) (full_stream (epoch l) (arrived l)) (decode_coverage request) [] (rsm_after_seq r) (clamp_limit request)
     | None \<Rightarrow>
         and_then (build_keyed_channel j sk (state l) (decode_coverage request) (resume_in Keyed request) False (clamp_limit request)
             PULL_PAGE_BYTE_BUDGET None (ps_own_device_id sk (state l))) (\<lambda>(keyed, resume).
           if resume \<noteq> None then Inr (data_page (full_stream (epoch l) (arrived l)) [] keyed (pq_relay_after request) resume None)
           else if clamp_limit request - length keyed = 0
             then Inr (data_page (full_stream (epoch l) (arrived l)) [] keyed (pq_relay_after request) (Some (backfill_resume (pq_relay_after request))) None)
           else backfill_page j sk (state l) (full_stream (epoch l) (arrived l)) (decode_coverage request) keyed (pq_relay_after request)
             (clamp_limit request - length keyed)))"
  using assms(2-5) by (simp add: build_pull_page_def sk_stream [OF assms(1)] Let_def)

text \<open>Channel A with the claims, on a request that is not resumed on channel B.\<close>

lemma keyed_claims:
  assumes "inv l" "resume_claimed claims resume" "0 < limit"
  shows "\<exists>ks token. build_keyed_channel j sk (state l) claims resume False limit PULL_PAGE_BYTE_BUDGET None own =
      Inr (map (entry_of j pc) ks, token) \<and> keyed_part (held l) claims resume limit ks token"
proof -
  have budget: "0 < PULL_PAGE_BYTE_BUDGET" by (simp add: PULL_PAGE_BYTE_BUDGET_def)
  obtain ks token where ch: "build_keyed_channel j sk (state l) claims resume False limit PULL_PAGE_BYTE_BUDGET None own =
        Inr (map (entry_of j pc) ks, token)"
      "channel_out (wanted_ops (held l) claims False resume None) (keyed_visit own resume (origins_of (held l))) limit ks token"
    using build_keyed_out [OF assms(1,3) budget, of j claims resume False None own] by blast
  note facts = channel_facts [OF sk_sorted [OF assms(1)] ch(2)]
  note above = after_covers [OF assms(2)]
  have "keyed_part (held l) claims resume limit ks token"
    unfolding keyed_part_def
  proof (intro conjI impI ballI allI)
    show "length ks < limit" if "token = None" using channel_out_NoneD ch(2) unfolding that by blast
    show "x \<in> set (held l)" "\<not> covered claims x" if "x \<in> set ks" for x using facts(3) [OF that] by (simp_all add: above)
    show "x \<in> set ks" if "x \<in> set (held l)" "y \<in> set ks" "origin_of x = origin_of y \<and> \<not> covered claims x \<and> order_key x \<le> order_key y" for x y
    proof (rule facts(4) [OF that(2,1)])
      show "after_key (keyed_after claims False resume (origin_of x)) x" unfolding above using that(3) by blast
    qed (use that(3) in \<open>simp_all add: store_matches_def\<close>)
    show "x \<in> set ks" if "token = None \<and> resume = None" "x \<in> set (held l)" "\<not> covered claims x" for x
    proof (rule facts(5) [OF _ that(2)])
      show "after_key (keyed_after claims False resume (origin_of x)) x" unfolding above by (rule that(3))
    qed (use that(1,2) in \<open>simp_all add: store_matches_def visit_fresh origins_of_set\<close>)
    show "ks \<noteq> []" "r = keyed_resume (origin_of (last ks)) (Some (order_key (last ks)))" if "token = Some r" for r
      using facts(6) [OF that] by simp_all
  qed (rule facts(1), rule facts(2))
  with ch(1) show ?thesis by blast
qed

lemma page_out:
  assumes "inv l" "decode_epoch (pq_relay_epoch request) = Some e"
    and "\<not> pull_needs_reset e (pq_relay_after request) (full_stream (epoch l) (arrived l))"
    and "pq_store request = None" "\<not> pq_audit request" "resume_claimed (decode_coverage request) (resume_in Keyed request)"
    and "\<And>r. resume_in Backfill request = Some r \<Longrightarrow> rsm_after_seq r = pq_relay_after request"
    and "pq_relay_after request \<le> length (arrived l)"
  shows "\<exists>ks m page. build_pull_page j sk (state l) peer request = Inr page \<and>
    page_spec j pc (held l) (arrived l) (epoch l) (decode_coverage request) (pq_relay_after request) (pq_resume request) ks m page"
proof -
  let ?claims = "decode_coverage request" and ?stream = "full_stream (epoch l) (arrived l)" and ?after = "pq_relay_after request"
  let ?limit = "clamp_limit request"
  have limit: "0 < ?limit" "?limit \<le> PULL_PAGE_LIMIT_MAX" by (auto simp: clamp_limit_def PULL_PAGE_LIMIT_MAX_def PAGE_LIMIT_MAX_def)
  note unfold = page_unfold [OF assms(1-5)]
  show ?thesis
  proof (cases "resume_in Backfill request")
    case (Some r)
    then have resumed: "pq_resume request \<noteq> None" by (auto simp: resume_in_def split: option.splits)
    from backfill_page_out [OF assms(1,8) limit(1), of j ?stream ?claims "[]"] obtain m token where m: "?after + m \<le> length (arrived l)" "m \<le> ?limit"
        "backfill_page j sk (state l) ?stream ?claims [] ?after ?limit =
          Inr (data_page ?stream (map (\<lambda>i. (Suc i, entry_of j pc (arrived l ! i)))
             (filter (\<lambda>i. covered ?claims (arrived l ! i)) [?after..<?after + m])) (map (entry_of j pc) []) (?after + m) token None)"
        "token = None \<longrightarrow> ?after + m = length (arrived l)"
        "token \<noteq> None \<longrightarrow> token = Some (backfill_resume (?after + m)) \<and> 0 < m"
      by auto
    show ?thesis
      unfolding unfold Some option.case assms(7) [OF Some] m(3)
      by (intro exI conjI, rule refl, rule page_specI [OF refl m(1)])
        (use m limit resumed in \<open>auto simp: keyed_layout_def intro!: exI [of _ "[]"]\<close>)
  next
    case None
    obtain ks token where ks: "build_keyed_channel j sk (state l) ?claims (resume_in Keyed request) False ?limit PULL_PAGE_BYTE_BUDGET None
          (ps_own_device_id sk (state l)) = Inr (map (entry_of j pc) ks, token)"
        and part: "keyed_part (held l) ?claims (resume_in Keyed request) ?limit ks token"
      using keyed_claims [OF assms(1,6) limit(1), of j "ps_own_device_id sk (state l)"] by blast
    note kp = keyed_partD [OF part]
    show ?thesis
    proof (cases token)
      case (Some r)
      have "page_spec j pc (held l) (arrived l) (epoch l) ?claims ?after (pq_resume request) ks 0 (data_page ?stream [] (map (entry_of j pc) ks) ?after (Some r) None)"
        using kp(2) kp(7) [OF Some] assms(8) limit(2)
        by (intro page_specI [where token = "Some r", OF _ _ _ kp(1,4,5)]) simp_all
      then show ?thesis unfolding unfold None option.case ks Some by auto
    next
      case whole: None
      then have len: "length ks < ?limit" by (rule kp(3))
      obtain m token where m: "?after + m \<le> length (arrived l)" "m \<le> ?limit - length ks"
        "backfill_page j sk (state l) ?stream ?claims (map (entry_of j pc) ks) ?after (?limit - length ks) =
          Inr (data_page ?stream (map (\<lambda>i. (Suc i, entry_of j pc (arrived l ! i)))
             (filter (\<lambda>i. covered ?claims (arrived l ! i)) [?after..<?after + m])) (map (entry_of j pc) ks) (?after + m) token None)"
        "token = None \<longrightarrow> ?after + m = length (arrived l)"
        "token \<noteq> None \<longrightarrow> token = Some (backfill_resume (?after + m)) \<and> 0 < m"
        using backfill_page_out [OF assms(1,8), of "?limit - length ks" j ?stream ?claims "map (entry_of j pc) ks"] len by auto
      have all: "x \<in> set ks" if "pq_resume request = None" "x \<in> set (held l)" "\<not> covered ?claims x" for x
        by (rule kp(6) [OF whole _ that(2,3)]) (simp add: resume_in_def that(1))
      have "page_spec j pc (held l) (arrived l) (epoch l) ?claims ?after (pq_resume request) ks m
          (data_page ?stream (map (\<lambda>i. (Suc i, entry_of j pc (arrived l ! i)))
             (filter (\<lambda>i. covered ?claims (arrived l ! i)) [?after..<?after + m])) (map (entry_of j pc) ks) (?after + m) token None)"
        by (rule page_specI [OF refl m(1) _ kp(1,4,5)]) (use m(2,4,5) len limit(2) in simp_all, simp add: all)
      then show ?thesis unfolding unfold None option.case ks whole using len m(3) by auto
    qed
  qed
qed

lemma page_total:
  assumes "inv l" "decode_epoch (pq_relay_epoch request) = Some e"
  shows "\<exists>page. build_pull_page j sk (state l) peer request = Inr page"
proof -
  have pos: "0 < clamp_limit request" "0 < PULL_PAGE_BYTE_BUDGET"
    by (auto simp: clamp_limit_def PULL_PAGE_LIMIT_MAX_def PAGE_LIMIT_MAX_def PULL_PAGE_BYTE_BUDGET_def)
  have keyed: "\<exists>keyed token. build_keyed_channel j sk (state l) (decode_coverage request) (resume_in Keyed request) (pq_audit request)
      (clamp_limit request) PULL_PAGE_BYTE_BUDGET store own = Inr (keyed, token)" for store own
    using build_keyed_out [OF assms(1) pos] by blast
  have backfill: "\<exists>page. backfill_page j sk (state l) stream claims keyed start_seq budget = Inr page" for stream claims keyed start_seq budget
    by (simp add: backfill_page_def sk_relay_since [OF assms(1)] split: prod.split)
  show ?thesis
    using keyed [of "pq_store request" "ps_own_device_id sk (state l)"] backfill
    by (auto simp: build_pull_page_def sk_stream [OF assms(1)] assms(2) Let_def split: option.split)
qed

text \<open>No request, whatever it asks for, gets a page beyond its limit.\<close>

lemma keyed_caps:
  assumes "inv l" "0 < budget"
    and "build_keyed_channel j sk (state l) claims resume audit budget PULL_PAGE_BYTE_BUDGET store own = Inr (keyed, token)"
  shows "length keyed \<le> budget"
proof -
  have "0 < PULL_PAGE_BYTE_BUDGET" by (simp add: PULL_PAGE_BYTE_BUDGET_def)
  from build_keyed_out [OF assms(1,2) this, of j claims resume audit store own] obtain sops where
      "keyed = map (entry_of j pc) sops"
      "channel_out (wanted_ops (held l) claims audit resume store) (keyed_visit own resume (origins_of (held l))) budget sops token"
    unfolding assms(3) by auto
  then show ?thesis using channel_facts(2) [OF sk_sorted [OF assms(1)]] by simp
qed

lemma backfill_caps:
  assumes "inv l" "0 < budget" "backfill_page j sk (state l) stream claims keyed start_seq budget = Inr page"
  shows "pp_keyed page = keyed" "\<not> pp_reset page" "length (pp_backfill page) \<le> budget" "sorted_wrt (<) (map fst (pp_backfill page))"
    "sq \<in> fst ` set (pp_backfill page) \<Longrightarrow> start_seq < sq \<and> sq \<le> pp_next_relay_seq page" "pp_complete page \<longleftrightarrow> pp_resume page = None" "pp_version page = PULL_VERSION"
proof -
  obtain m token where m: "m \<le> budget" and page: "page = data_page stream (map (\<lambda>i. (Suc i, entry_of j pc (arrived l ! i)))
             (filter (\<lambda>i. covered claims (arrived l ! i)) [start_seq..<start_seq + m])) keyed (start_seq + m) token None"
    using backfill_page_raw [OF assms(1,2), of j stream claims keyed start_seq] unfolding assms(3) sum.inject by blast
  have "length (filter (\<lambda>i. covered claims (arrived l ! i)) [start_seq..<start_seq + m]) \<le> m"
    using length_filter_le [of _ "[start_seq..<start_seq + m]"] by simp
  with m show "length (pp_backfill page) \<le> budget" by (simp add: page data_page_def)
  show "sorted_wrt (<) (map fst (pp_backfill page))"
    by (simp add: page data_page_def o_def sorted_wrt_map sorted_wrt_filter sorted_wrt_upt)
  show "sq \<in> fst ` set (pp_backfill page) \<Longrightarrow> start_seq < sq \<and> sq \<le> pp_next_relay_seq page"
    by (auto simp: page data_page_def)
  show "pp_keyed page = keyed" "\<not> pp_reset page" "pp_complete page \<longleftrightarrow> pp_resume page = None" "pp_version page = PULL_VERSION"
    by (simp_all add: page data_page_def)
qed

lemma page_caps:
  assumes "inv l" "build_pull_page j sk (state l) peer request = Inr page"
  shows "page_capped (clamp_limit request) page"
proof -
  have limit: "0 < clamp_limit request" by (auto simp: clamp_limit_def PULL_PAGE_LIMIT_MAX_def PAGE_LIMIT_MAX_def)
  have rest: "page_capped (clamp_limit request) page"
    if "backfill_page j sk (state l) stream claims keyed start_seq (clamp_limit request - length keyed) = Inr page"
      "length keyed < clamp_limit request" for stream claims keyed start_seq page
    using backfill_caps [OF assms(1) _ that(1)] that(2) unfolding page_capped_def by fastforce
  obtain e where e: "decode_epoch (pq_relay_epoch request) = Some e"
    using assms(2) by (cases "decode_epoch (pq_relay_epoch request)") (simp_all add: build_pull_page_def sk_stream [OF assms(1)])
  note built = assms(2) [unfolded build_pull_page_def sk_stream [OF assms(1)] e Let_def, simplified]
  show ?thesis
  proof (cases "pq_store request = None \<and> pull_needs_reset e (pq_relay_after request) (full_stream (epoch l) (arrived l))")
    case True
    then show ?thesis using built capped_reset by auto
  next
    case False
    show ?thesis
    proof (cases "pq_store request")
      case (Some store)
      then show ?thesis using built by (auto simp: and_then_Inr intro!: capped_empty dest!: keyed_caps [OF assms(1) limit])
    next
      case None
      show ?thesis
      proof (cases "resume_in Backfill request")
        case (Some r)
        then show ?thesis using built False None limit rest [of _ _ "[]"] by simp
      next
        case fresh: None
        obtain kd token where kd: "build_keyed_channel j sk (state l) (decode_coverage request) (resume_in Keyed request) (pq_audit request)
            (clamp_limit request) PULL_PAGE_BYTE_BUDGET None (ps_own_device_id sk (state l)) = Inr (kd, token)"
          using built False None fresh by (auto simp: and_then_Inr)
        show ?thesis
          using built False None fresh kd keyed_caps [OF assms(1) limit kd] rest [of _ _ kd] by (auto intro: capped_empty split: if_splits)
      qed
    qed
  qed
qed

end

section \<open>Properties\<close>

lemma same_log: "sv_log st = l \<Longrightarrow> st\<lparr>sv_log := l\<rparr> = st"
  by (cases st) simp

lemma served_page_out:
  assumes "codec_laws pc" "log_ok log" "sv_log st = log_as_source pc log" "decode_epoch (pq_relay_epoch request) = Some e"
    and "\<not> pull_needs_reset e (pq_relay_after request) (relay_state log)"
    and "pq_store request = None" "\<not> pq_audit request" "resume_claimed (decode_coverage request) (resume_in Keyed request)"
    and "\<And>r. resume_in Backfill request = Some r \<Longrightarrow> rsm_after_seq r = pq_relay_after request"
    and "pq_relay_after request \<le> length (arrivals log)"
  shows "\<exists>ks m page. build_pull_page j (serve_socket unix) st peer request = Inr page \<and>
    page_spec j pc (log_iter log) (arrivals log) (relay_epoch log) (decode_coverage request) (pq_relay_after request) (pq_resume request) ks m page"
proof -
  have stream: "relay_state log = full_stream (relay_epoch log) (arrivals log)" by (simp add: relay_state_def full_stream_def)
  show ?thesis
    using mem_log.served.page_out [of pc "(st, log)" request e j unix peer, unfolded prod.case same_log [OF assms(3)]] assms(1,2,4-10)
    unfolding stream by blast
qed

text \<open>
  C9: Every missing op lands on a channel. For a fresh request the server answers with a page whose keyed
  channel holds only ops strictly above the puller's claims and whose backfill holds only arrivals after
  its cursor that the claims cover; and if the page is complete, then every op of the log above the claims
  is on the keyed channel and every covered arrival after the cursor is in the backfill, with the reported
  position at the head of the stream.
\<close>

theorem two_channels_complete:
  assumes "codec_laws pc" "log_ok log" "sv_log st = log_as_source pc log" "decode_epoch (pq_relay_epoch request) = Some e"
    and "\<not> pull_needs_reset e (pq_relay_after request) (relay_state log)" "pq_relay_after request \<le> length (arrivals log)"
    and "pq_store request = None" "\<not> pq_audit request" "pq_resume request = None"
  shows "\<exists>page ks. build_pull_page j (serve_socket unix) st peer request = Inr page \<and> pp_keyed page = map (entry_of j pc) ks \<and>
    (\<forall>x \<in> set ks. x \<in> set (log_iter log) \<and> \<not> covers (decode_coverage request) (order_key x)) \<and>
    (\<forall>(sq, entry) \<in> set (pp_backfill page). \<exists>i. sq = Suc i \<and> pq_relay_after request \<le> i \<and> i < length (arrivals log) \<and>
       entry = entry_of j pc (arrivals log ! i) \<and> covers (decode_coverage request) (order_key (arrivals log ! i))) \<and>
    (pp_complete page \<longrightarrow> pp_next_relay_seq page = length (arrivals log) \<and>
       (\<forall>i < length (arrivals log). let x = arrivals log ! i in
          if covers (decode_coverage request) (order_key x)
          then pq_relay_after request \<le> i \<longrightarrow> (Suc i, entry_of j pc x) \<in> set (pp_backfill page)
          else x \<in> set ks))"
proof -
  have "resume_claimed (decode_coverage request) (resume_in Keyed request)" "resume_in Backfill request = None"
    using assms(9) by (simp_all add: resume_in_def resume_claimed_def)
  then obtain ks m page where page: "build_pull_page j (serve_socket unix) st peer request = Inr page"
      "page_spec j pc (log_iter log) (arrivals log) (relay_epoch log) (decode_coverage request) (pq_relay_after request) None ks m page"
    using served_page_out [OF assms(1-5,7,8) _ _ assms(6), of j unix peer] assms(9) by auto
  have held: "arrivals log ! i \<in> set (log_iter log)" if "i < length (arrivals log)" for i
    using nth_mem [OF that] by (simp only: set_arrivals [OF assms(2)])
  note spec = page_specD [OF page(2)]
  show ?thesis
  proof (intro exI [of _ page] exI [of _ ks] conjI impI)
    show "\<forall>x \<in> set ks. x \<in> set (log_iter log) \<and> \<not> covers (decode_coverage request) (order_key x)" using spec(13,14) by blast
    show "\<forall>(sq, entry) \<in> set (pp_backfill page). \<exists>i. sq = Suc i \<and> pq_relay_after request \<le> i \<and> i < length (arrivals log) \<and>
       entry = entry_of j pc (arrivals log ! i) \<and> covers (decode_coverage request) (order_key (arrivals log ! i))"
      using spec(10) unfolding spec(2) by auto
    assume "pp_complete page"
    then have none: "pp_resume page = None" by (simp add: spec(9))
    show "pp_next_relay_seq page = length (arrivals log)" unfolding spec(3) by (rule spec(16) [OF none])
    show "\<forall>i < length (arrivals log). let x = arrivals log ! i in
          if covers (decode_coverage request) (order_key x)
          then pq_relay_after request \<le> i \<longrightarrow> (Suc i, entry_of j pc x) \<in> set (pp_backfill page) else x \<in> set ks"
      using spec(17) [OF none refl held] spec(16) [OF none] unfolding spec(2) Let_def by auto
  qed (rule page(1), rule spec(1))
qed

theorem two_channels_complete_witness:
  "let st = ServeState_new (from_signing demo_crypto 7) (log_as_source demo_codec demo_log) demo_book in
   \<exists>page ks. build_pull_page demo_pull_codec (serve_socket 0) st (DeviceId []) demo_request = Inr page \<and>
    pp_keyed page = map (entry_of demo_pull_codec demo_codec) ks \<and>
    (pp_complete page \<longrightarrow> (\<forall>i < length (arrivals demo_log). arrivals demo_log ! i \<in> set ks))"
proof -
  let ?st = "ServeState_new (from_signing demo_crypto 7) (log_as_source demo_codec demo_log) demo_book"
  have none: "decode_coverage demo_request = []"
    by (simp add: demo_request_def decode_coverage_def from_wire_map_def List.map_filter_def bt_collect_def)
  have "decode_epoch (pq_relay_epoch demo_request) = Some zero_epoch" "pq_relay_after demo_request = 0"
      "pq_store demo_request = None" "\<not> pq_audit demo_request" "pq_resume demo_request = None"
    by (simp_all add: demo_request_def decode_epoch_def zero_epoch_def)
  moreover have "\<not> pull_needs_reset zero_epoch 0 (relay_state demo_log)"
    using demo_log_facts(3) by (simp add: pull_needs_reset_def relay_state_def)
  moreover have "sv_log ?st = log_as_source demo_codec demo_log" by (simp add: ServeState_new_def)
  ultimately show ?thesis
    using two_channels_complete [OF demo_codec_laws demo_log_facts(1), of ?st demo_request zero_epoch demo_pull_codec 0 "DeviceId []"]
    unfolding Let_def by (auto simp: none covers_def)
qed

text \<open>
  C39: No request gets more than it may. Whatever a request asks for (limit, claims, resume token, store,
  audit), the two channels of the page together carry at most its limit clamped to 1..8192 entries, so a
  puller never refuses the page as oversized; the sequence numbers of the backfill ascend and do not pass
  the position the page reports; and the page has no resume token exactly when it is complete, or a reset.
\<close>

theorem pull_page_bounded:
  assumes "codec_laws pc" "log_ok log" "sv_log st = log_as_source pc log"
    and "build_pull_page j (serve_socket unix) st peer request = Inr page"
  shows "length (pp_keyed page) + length (pp_backfill page) \<le> clamp_limit request \<and> clamp_limit request \<le> PAGE_LIMIT_MAX \<and>
    sorted_wrt (<) (map fst (pp_backfill page)) \<and> (\<forall>sq \<in> fst ` set (pp_backfill page). sq \<le> pp_next_relay_seq page) \<and>
    (pp_resume page = None \<longleftrightarrow> pp_complete page \<or> pp_reset page)"
proof -
  have "page_capped (clamp_limit request) page"
    using mem_log.served.page_caps [of pc "(st, log)" j unix peer request page, unfolded prod.case same_log [OF assms(3)]] assms(1,2,4) by blast
  then show ?thesis by (auto simp: page_capped_def clamp_limit_def PULL_PAGE_LIMIT_MAX_def)
qed

theorem pull_page_bounded_witness:
  "let st = ServeState_new (from_signing demo_crypto 7) (log_as_source demo_codec demo_log) demo_book in
   \<exists>page. build_pull_page demo_pull_codec (serve_socket 0) st (DeviceId []) (demo_request\<lparr>pq_limit := 1, pq_audit := True\<rparr>) = Inr page \<and>
    length (pp_keyed page) + length (pp_backfill page) \<le> 1"
proof -
  let ?st = "ServeState_new (from_signing demo_crypto 7) (log_as_source demo_codec demo_log) demo_book"
  let ?r = "demo_request\<lparr>pq_limit := 1, pq_audit := True\<rparr>"
  have st: "sv_log ?st = log_as_source demo_codec demo_log" by (simp add: ServeState_new_def)
  have "\<exists>page. build_pull_page demo_pull_codec (serve_socket 0) ?st (DeviceId []) ?r = Inr page"
    using mem_log.served.page_total [of demo_codec "(?st, demo_log)" ?r zero_epoch demo_pull_codec 0 "DeviceId []",
        unfolded prod.case same_log [OF st]] demo_codec_laws demo_log_facts(1)
    by (simp add: demo_request_def decode_epoch_def zero_epoch_def)
  then obtain page where page: "build_pull_page demo_pull_codec (serve_socket 0) ?st (DeviceId []) ?r = Inr page" by blast
  from pull_page_bounded [OF demo_codec_laws demo_log_facts(1) st page] show ?thesis
    unfolding Let_def using page by (auto simp: clamp_limit_def PULL_PAGE_LIMIT_MAX_def PAGE_LIMIT_MAX_def)
qed

lemma admit_ack_served:
  "admit_pull_ack (serve_socket unix) st peer request =
     (st, and_then (ok_or (SocketMessage InvalidRelayEpoch) (decode_epoch (pq_relay_epoch request))) (\<lambda>e.
        and_then (and_then (map_err SourceError (ls_relay_state (sv_log st))) (ok_or NoRelayStream)) (\<lambda>stream.
          Inr (if pull_needs_reset e (pq_relay_after request) stream then Some (reset_pull_page stream) else None))))"
  by (auto simp: admit_pull_ack_def split: option.split sum.split)

lemma refusal_messages:
  assumes "verify_pull_request c pc j bs now_ms lookup = Inl (Refused m)"
  shows "(\<exists>e. m = InvalidEnvelope e) \<or> m = InvalidDomain \<or> m = NoStoredKey \<or> (\<exists>e. m = InvalidStoredKey e) \<or> m = KeyDerivesOther \<or>
    (\<exists>e. m = InvalidPullSignature e) \<or> (\<exists>e. m = InvalidPayload e) \<or> m = UnsupportedPullVersion \<or> m = PullExpired"
proof -
  have key: "(\<exists>e. key_error x = InvalidStoredKey e) \<or> key_error x = KeyDerivesOther \<or> (\<exists>e. key_error x = InvalidPullSignature e)" for x
    by (cases x rule: key_error.cases) auto
  show ?thesis
    using assms key unfolding verify_pull_request_def
    by (auto simp: and_then_Inl Let_def elim!: ok_or.elims map_err.elims split: if_splits)
qed

lemma classify_refusals:
  "classify_pull_request_error (pull_text shown (InvalidEnvelope e)) = UNAUTHORIZED"
  "classify_pull_request_error (pull_text shown InvalidDomain) = UNAUTHORIZED"
  "classify_pull_request_error (pull_text shown NoStoredKey) = UNAUTHORIZED"
  "classify_pull_request_error (pull_text shown (InvalidStoredKey e)) = UNAUTHORIZED"
  "classify_pull_request_error (pull_text shown KeyDerivesOther) = UNAUTHORIZED"
  "classify_pull_request_error (pull_text shown (InvalidPullSignature e)) = UNAUTHORIZED"
  "classify_pull_request_error (pull_text shown (InvalidPayload t)) = BAD_REQUEST"
  "classify_pull_request_error (pull_text shown UnsupportedPullVersion) = BAD_REQUEST"
  "classify_pull_request_error (pull_text shown PullExpired) = FORBIDDEN"
  by (simp_all add: classify_pull_request_error_def starts_with_def)

text \<open>
  What a refused pull request is told. The route answers with the status its own authentication and
  the separate \<open>authenticate_pull_request\<close> agree on: 400 for a payload that does not parse or has the wrong
  version, 403 for a request outside the clock window, 500 when the key lookup itself fails, and 401 for
  every other refusal, whatever text the underlying error renders to. Nothing is served and the server's
  state does not change.
\<close>

theorem pull_refusal_status:
  assumes "verify_pull_request c pc j body (as_i64 unix) (\<lambda>peer. map_err BookError (db_try_key_for_device (sv_relay_callers st) peer)) = Inl r"
  shows "post_pull c pc j shown (serve_handler j unix unix' st) st body =
      (st, Inl (case r of
         LookupRefused _ \<Rightarrow> INTERNAL_SERVER_ERROR
       | Refused (InvalidPayload _) \<Rightarrow> BAD_REQUEST
       | Refused UnsupportedPullVersion \<Rightarrow> BAD_REQUEST
       | Refused PullExpired \<Rightarrow> FORBIDDEN
       | Refused _ \<Rightarrow> UNAUTHORIZED)) \<and>
    (\<exists>fault. authenticate_pull_request c pc j shown (serve_socket unix) st body =
       (st, Inl (case snd (post_pull c pc j shown (serve_handler j unix unix' st) st body) of Inl s \<Rightarrow> (s, fault) | Inr _ \<Rightarrow> (SERVICE_UNAVAILABLE, fault))))"
proof (cases r)
  case (LookupRefused e)
  then show ?thesis
    using assms by (simp add: post_pull_def serve_handler_def authenticate_pull_request_def)
next
  case (Refused m)
  then show ?thesis
    using assms refusal_messages [OF assms [unfolded Refused]]
    by (auto simp: post_pull_def serve_handler_def authenticate_pull_request_def classify_refusals
        simp del: pull_text.simps)
qed

theorem pull_refusal_status_witness:
  "let st = ServeState_new (from_signing demo_crypto 7) (log_as_source demo_codec demo_log) demo_book in
   snd (post_pull demo_crypto demo_codec demo_pull_codec (\<lambda>_. ''Invalid payload:'') (serve_handler demo_pull_codec 0 0 st) st []) = Inl UNAUTHORIZED"
proof -
  let ?st = "ServeState_new (from_signing demo_crypto 7) (log_as_source demo_codec demo_log) demo_book"
  have "verify_pull_request demo_crypto demo_codec demo_pull_codec [] (as_i64 0)
      (\<lambda>peer. map_err BookError (db_try_key_for_device (sv_relay_callers ?st) peer)) = Inl (Refused (InvalidEnvelope Encoding))"
    by (simp add: verify_pull_request_def from_bytes_def demo_codec_def)
  from pull_refusal_status [OF this, of "\<lambda>_. ''Invalid payload:''" 0] show ?thesis unfolding Let_def by simp
qed

text \<open>An honest exchange goes through: the request is accepted and the page that answers it verifies.\<close>

lemma pull_exchange:
  assumes laws: "sha_laws c" "sec1_laws c" "ecdsa_laws c" "codec_laws pc" "pull_codec_laws j"
    and server: "sv_identity st = from_signing c sks" "sv_log st = log_as_source pc log" "log_ok log"
      "db_try_key_for_device (sv_relay_callers st) (device_id_of c (sk_verifying c skc)) = Inr (Some (public_key_sec1 c (from_signing c skc)))"
    and request: "bt_ok (pq_coverage request)" "pq_version request = PULL_VERSION"
      "\<bar>as_i64 unix - pq_issued_at_ms request\<bar> \<le> MAX_REQUEST_SKEW_MS" "decode_epoch (pq_relay_epoch request) = Some e"
  shows "\<exists>body bs page. sign_pull_request c pc j request (from_signing c skc) t = Inr body \<and>
    post_pull c pc j shown (serve_handler j unix unix' st) st body = (st, Inr (octet bs)) \<and>
    verify_pull_page c pc j bs (device_id_of c (sk_verifying c sks)) (public_key_sec1 c (from_signing c sks)) = Inr page \<and>
    seal_pull_page c pc j page (from_signing c sks) (default_next_hlc (as_i64 unix')) = Inr bs \<and>
    (if pull_needs_reset e (pq_relay_after request) (relay_state log) then page = reset_pull_page (relay_state log)
     else build_pull_page j (serve_socket unix) st (device_id_of c (sk_verifying c skc)) request = Inr page)"
proof -
  let ?peer = "device_id_of c (sk_verifying c skc)"
  let ?lookup = "\<lambda>peer. map_err BookError (db_try_key_for_device (sv_relay_callers st) peer)"
  obtain body where body: "sign_pull_request c pc j request (from_signing c skc) t = Inr body"
      "verify_pull_request c pc j body (as_i64 unix) ?lookup = Inr (?peer, request)"
    using request_travels [OF laws request(1,2,3), of ?lookup skc t] server(4) by auto
  have state: "ls_relay_state (sv_log st) = Inr (Some (relay_state log))" by (simp add: server(2) log_as_source_def)
  let ?reset = "pull_needs_reset e (pq_relay_after request) (relay_state log)"
  obtain built where built: "build_pull_page j (serve_socket unix) st ?peer request = Inr built"
    using mem_log.served.page_total [of pc "(st, log)" request e j unix ?peer, unfolded prod.case same_log [OF server(2)]] laws(4) server(3) request(4)
    by blast
  let ?page = "if ?reset then reset_pull_page (relay_state log) else built"
  have capped: "page_capped (clamp_limit request) built"
    using mem_log.served.page_caps [of pc "(st, log)" j unix ?peer request built, unfolded prod.case same_log [OF server(2)]] laws(4) server(3) built
    by blast
  then have caps: "length (pp_backfill ?page) \<le> PAGE_LIMIT_MAX" "length (pp_keyed ?page) \<le> PAGE_LIMIT_MAX"
    using capped_reset [of 0 "relay_state log"] by (auto simp: page_capped_def clamp_limit_def PULL_PAGE_LIMIT_MAX_def)
  have "pp_version ?page = PULL_VERSION" using capped by (simp add: reset_pull_page_def page_capped_def)
  from page_travels [OF laws this caps, of sks "default_next_hlc (as_i64 unix')"] obtain bs where bs:
      "seal_pull_page c pc j ?page (from_signing c sks) (default_next_hlc (as_i64 unix')) = Inr bs"
      "verify_pull_page c pc j bs (device_id_of c (sk_verifying c sks)) (public_key_sec1 c (from_signing c sks)) = Inr ?page"
    by blast
  have "post_pull c pc j shown (serve_handler j unix unix' st) st body = (st, Inr (octet bs))"
    using body(2) bs(1) built state request(4)
    by (cases ?reset) (simp_all add: post_pull_def serve_handler_def admit_ack_served server(1))
  with body(1) bs built show ?thesis by (intro exI [of _ body] exI [of _ bs] exI [of _ ?page]) simp
qed

text \<open>
  C23: A page is served only to a device that signed for it. When the pull route answers with a page, the
  body was an envelope in the request domain, signed within two minutes of the server's clock by a key
  that the server's book holds for the signing device and that derives its id; and the reply is a page,
  sealed by the server, that answers that request: the reset page when the cursor does not fit the stream,
  otherwise the page built for it.
\<close>

theorem pull_route_authentic:
  assumes "post_pull c pc j shown (serve_handler j unix unix' st) st body = (st', Inr reply)"
  shows "st' = st \<and> (\<exists>sop peer request sec1 vk page e stream. from_bytes pc body = Inr sop \<and> body_store (op_body sop) = PULL_REQUEST_STORE_ID \<and>
    pj_request_from j (body_payload (op_body sop)) = Inr request \<and> \<bar>as_i64 unix - pq_issued_at_ms request\<bar> \<le> 120000 \<and>
    db_try_key_for_device (sv_relay_callers st) peer = Inr (Some sec1) \<and> vk_from_sec1 c sec1 = Some vk \<and> device_id_of c vk = peer \<and>
    body_device (op_body sop) = peer \<and> verify c pc sop vk = Inr () \<and>
    decode_epoch (pq_relay_epoch request) = Some e \<and> ls_relay_state (sv_log st) = Inr (Some stream) \<and>
    (if pull_needs_reset e (pq_relay_after request) stream then page = reset_pull_page stream
     else build_pull_page j (serve_socket unix) st peer request = Inr page) \<and>
    seal_pull_page c pc j page (sv_identity st) (default_next_hlc (as_i64 unix')) = Inr (resp_body reply))"
proof -
  let ?lookup = "\<lambda>peer. map_err BookError (db_try_key_for_device (sv_relay_callers st) peer)"
  obtain peer request where ver: "verify_pull_request c pc j body (as_i64 unix) ?lookup = Inr (peer, request)"
    using assms by (auto simp: post_pull_def serve_handler_def split: sum.splits pull_refusal.splits)
  from verify_pull_request_InrD [OF this] obtain sop sec1 where sop: "from_bytes pc body = Inr sop"
      "body_store (op_body sop) = PULL_REQUEST_STORE_ID" "body_device (op_body sop) = peer" "?lookup peer = Inr (Some sec1)"
      "verify_with_sec1 c pc sop sec1 = Inr ()" "pj_request_from j (body_payload (op_body sop)) = Inr request"
      "\<bar>as_i64 unix - pq_issued_at_ms request\<bar> \<le> MAX_REQUEST_SKEW_MS"
    by blast
  from sop(5) obtain vk where vk: "vk_from_sec1 c sec1 = Some vk" "verify c pc sop vk = Inr ()"
    by (auto simp: verify_with_sec1_Inr)
  have "device_id_of c vk = peer" "db_try_key_for_device (sv_relay_callers st) peer = Inr (Some sec1)"
    using verify_device [OF vk(2)] sop(3,4) by simp_all
  moreover from assms ver obtain page where page: "st' = st"
      "and_then (snd (admit_pull_ack (serve_socket unix) st peer request)) (\<lambda>reset.
         case reset of Some page \<Rightarrow> Inr page | None \<Rightarrow> build_pull_page j (serve_socket unix) st peer request) = Inr page"
      "seal_pull_page c pc j page (sv_identity st) (default_next_hlc (as_i64 unix')) = Inr (resp_body reply)"
    by (auto simp: post_pull_def serve_handler_def and_then_Inr octet_def admit_ack_served)
  moreover from page(2) obtain e stream where "decode_epoch (pq_relay_epoch request) = Some e" "ls_relay_state (sv_log st) = Inr (Some stream)"
      "if pull_needs_reset e (pq_relay_after request) stream then page = reset_pull_page stream
       else build_pull_page j (serve_socket unix) st peer request = Inr page"
    by (auto simp: admit_ack_served and_then_Inr split: if_splits)
  ultimately show ?thesis
    using sop(1,2,3,6) sop(7) [unfolded MAX_REQUEST_SKEW_MS_def] vk by blast
qed

theorem pull_route_authentic_witness:
  "let st = ServeState_new (from_signing demo_crypto 7) (log_as_source demo_codec demo_log) demo_book in
   \<exists>body reply page. post_pull demo_crypto demo_codec demo_pull_codec (\<lambda>_. []) (serve_handler demo_pull_codec 1000 1000 st) st body = (st, Inr reply) \<and>
    seal_pull_page demo_crypto demo_codec demo_pull_codec page (from_signing demo_crypto 7) (default_next_hlc (as_i64 1000)) = Inr (resp_body reply)"
proof -
  let ?st = "ServeState_new (from_signing demo_crypto 7) (log_as_source demo_codec demo_log) demo_book"
  have st: "sv_identity ?st = from_signing demo_crypto 7" "sv_log ?st = log_as_source demo_codec demo_log"
      "db_try_key_for_device (sv_relay_callers ?st) (device_id_of demo_crypto (sk_verifying demo_crypto 5)) =
        Inr (Some (public_key_sec1 demo_crypto (from_signing demo_crypto 5)))"
    using demo_book_lookup by (simp_all add: ServeState_new_def from_signing_def)
  have rq: "bt_ok (pq_coverage demo_request)" "pq_version demo_request = PULL_VERSION"
      "\<bar>as_i64 1000 - pq_issued_at_ms demo_request\<bar> \<le> MAX_REQUEST_SKEW_MS" "decode_epoch (pq_relay_epoch demo_request) = Some zero_epoch"
    by (simp_all add: demo_request_def decode_epoch_def zero_epoch_def as_i64_def MAX_REQUEST_SKEW_MS_def)
  from pull_exchange [OF demo_sha_laws demo_sec1_laws demo_ecdsa_laws demo_codec_laws demo_pull_codec_laws st(1,2) demo_log_facts(1) st(3) rq]
  obtain body reply where ex: "post_pull demo_crypto demo_codec demo_pull_codec (\<lambda>_. []) (serve_handler demo_pull_codec 1000 1000 ?st) ?st body = (?st, Inr reply)"
    by blast
  from pull_route_authentic [OF this] obtain page where
      "seal_pull_page demo_crypto demo_codec demo_pull_codec page (sv_identity ?st) (default_next_hlc (as_i64 1000)) = Inr (resp_body reply)"
    by blast
  with ex show ?thesis unfolding Let_def st(1) by blast
qed

end
