(* ===== verification/PullClient.thy ===== *)
theory PullClient
  imports PullServer
begin

text \<open>
  The pulling side of pull v3 (\<open>src/net/pull_client.rs\<close>, and \<open>HttpPullSource::pull_bytes\<close> of
  \<open>src/net/client.rs\<close>): page application, resets, the head-window preview, store sweeps and the multi-page
  drain, over an arbitrary \<open>MeshPullSocket\<close>. The HTTP client and the monotonic clock are parameters
  (\<open>pull_net\<close>). A loop that need not end is a \<open>partial_function\<close> in the option monad, \<open>None\<close> being no return.
\<close>

section \<open>Constants and small helpers\<close>

definition PULL_NO_PROGRESS_LIMIT :: nat where
  "PULL_NO_PROGRESS_LIMIT = 2"

definition NEWEST_FIRST_PREVIEW_GAP :: nat where
  "NEWEST_FIRST_PREVIEW_GAP = PULL_PAGE_LIMIT_MAX"

definition MAX_PULL_RESPONSE_BYTES :: nat where
  "MAX_PULL_RESPONSE_BYTES = 64 * 1024 * 1024"

datatype pull_outcome = Applied nat | Unsupported | Warming

definition preview_resume_after :: "nat option \<Rightarrow> nat \<Rightarrow> nat" where
  "preview_resume_after previous head_seq =
     (let window_start = head_seq - PULL_PAGE_LIMIT_MAX in
      case previous of
        Some after \<Rightarrow> if after \<le> head_seq \<and> head_seq - after \<le> PULL_PAGE_LIMIT_MAX then after else window_start
      | None \<Rightarrow> window_start)"

definition inflated_claims :: "device_id list \<Rightarrow> (string, string) btree" where
  "inflated_claims known =
     bt_collect (map (\<lambda>origin.
       let max_key = OrderKey (- 1) origin (OpId (replicate 32 255)) in
       (to_hex origin, encode_hex (to_wire max_key))) known)"

type_synonym pull_progress = "nat \<times> (nat \<times> nat \<times> string \<times> string) option"

definition cursor_after :: "relay_cursor option \<Rightarrow> nat" where
  "cursor_after cursor = (case cursor of Some cur \<Rightarrow> cur_after cur | None \<Rightarrow> 0)"

definition cursor_epoch :: "relay_cursor option \<Rightarrow> bytes" where
  "cursor_epoch cursor = (case cursor of Some cur \<Rightarrow> cur_epoch cur | None \<Rightarrow> zero_epoch)"

definition pull_progress :: "relay_cursor option \<Rightarrow> resume option \<Rightarrow> pull_progress" where
  "pull_progress relay_cursor resume =
     (cursor_after relay_cursor,
      map_option (\<lambda>r. (case rsm_phase r of Backfill \<Rightarrow> 0 | Keyed \<Rightarrow> 1, rsm_after_seq r, rsm_origin r, rsm_after_key r)) resume)"

definition decode_page_op :: "codec \<Rightarrow> pull_codec \<Rightarrow> string \<Rightarrow> device_id \<Rightarrow> socket_message + signed_op" where
  "decode_page_op pc j encoded peer =
     and_then (map_err (UndecodableEntry peer) (b64_decode j encoded)) (\<lambda>bs.
       map_err (InvalidEntry peer) (from_bytes pc bs))"

section \<open>Resets\<close>

definition validate_pull_reset :: "pull_request \<Rightarrow> pull_page \<Rightarrow> bytes \<Rightarrow> socket_message + relay_cursor" where
  "validate_pull_reset request page response_epoch =
     (if \<not> pp_reset page then Inl ResetNotMarked
      else if pp_floor page > pp_head_seq page then Inl (ResetFloorAboveHead (pp_floor page) (pp_head_seq page))
      else if pp_backfill page \<noteq> [] \<or> pp_keyed page \<noteq> [] \<or> pp_next_relay_seq page \<noteq> 0 \<or> pp_resume page \<noteq> None \<or>
        pp_complete page \<or> pp_snapshot_recommended page \<or> pp_store page \<noteq> None then Inl ResetCarriesData
      else and_then (ok_or InvalidRelayEpoch (decode_epoch (pq_relay_epoch request))) (\<lambda>request_epoch.
        if \<not> pull_needs_reset request_epoch (pq_relay_after request)
             \<lparr>rs_epoch = response_epoch, rs_head = pp_head_seq page, rs_floor = pp_floor page\<rparr>
        then Inl ResetUnjustified
        else Inr \<lparr>cur_epoch = response_epoch, cur_after = pp_floor page\<rparr>))"

definition persist_pull_reset ::
  "('s, 'sk, 'vk, 'e) pull_socket \<Rightarrow> 's \<Rightarrow> device_id \<Rightarrow> pull_request \<Rightarrow> pull_page \<Rightarrow> bytes \<Rightarrow> 's \<times> ('e + relay_cursor)" where
  "persist_pull_reset sk s peer request page response_epoch =
     (case validate_pull_reset request page response_epoch of
        Inl m \<Rightarrow> (s, Inl (if m = InvalidRelayEpoch then ps_invalid_argument sk m else ps_protocol_error sk m))
      | Inr reset \<Rightarrow>
          (case ps_commit_pull_reset sk s peer reset of
             (s', Inl e) \<Rightarrow> (s', Inl e)
           | (s', Inr _) \<Rightarrow> (s', Inr reset)))"

section \<open>Page application\<close>

text \<open>The loop over channel B: sequence numbers must advance, every entry must decode.\<close>

fun decode_backfill ::
  "codec \<Rightarrow> pull_codec \<Rightarrow> device_id \<Rightarrow> nat \<Rightarrow> (nat \<times> string) list \<Rightarrow> nat \<Rightarrow> nat list \<Rightarrow> signed_op list \<Rightarrow>
   socket_message + (nat list \<times> signed_op list)" where
  "decode_backfill pc j peer current_after [] prev_seq seqs sops = Inr (seqs, sops)"
| "decode_backfill pc j peer current_after ((sq, encoded) # rest) prev_seq seqs sops =
     (if sq \<le> prev_seq then Inl (NonAdvancing peer sq current_after)
      else and_then (decode_page_op pc j encoded peer) (\<lambda>sop.
        decode_backfill pc j peer current_after rest sq (seqs @ [sq]) (sops @ [sop])))"

text \<open>
  The two callbacks. The host calls them with counts of admitted ops, at most the number it was given,
  so the index is in range (\<open>admitted_prefix\<close> below).
\<close>

definition save_admitted :: "('s, 'sk, 'vk, 'e) pull_socket \<Rightarrow> device_id \<Rightarrow> nat list \<Rightarrow> ('s, 'e) after_quantum" where
  "save_admitted sk peer backfill_seqs = (\<lambda>(s, q) admitted_total claim_safe_total.
     if admitted_total > 0 then
       let current = (qm_current q)\<lparr>cur_after := backfill_seqs ! (admitted_total - 1)\<rparr> in
       (case ps_save_relay_cursor sk s peer current of (s', r) \<Rightarrow> ((s', q\<lparr>qm_current := current\<rparr>), r))
     else ((s, q), Inr ()))"

definition claim_admitted :: "('s, 'sk, 'vk, 'e) pull_socket \<Rightarrow> device_id \<Rightarrow> order_key list \<Rightarrow> ('s, 'e) after_quantum" where
  "claim_admitted sk origin keys = (\<lambda>(s, q) admitted_total claim_safe_total.
     if claim_safe_total > qm_committed q then
       (case ps_advance_local_coverage sk s origin (keys ! (claim_safe_total - 1)) of
          (s', Inl e) \<Rightarrow> ((s', q), Inl e)
        | (s', Inr _) \<Rightarrow> ((s', q\<lparr>qm_committed := claim_safe_total\<rparr>), Inr ()))
     else ((s, q), Inr ()))"

text \<open>Channel A in runs of one origin each.\<close>

type_synonym keyed_run = "device_id \<times> signed_op list \<times> order_key list"

fun keyed_runs ::
  "codec \<Rightarrow> pull_codec \<Rightarrow> device_id \<Rightarrow> string list \<Rightarrow> keyed_run list \<Rightarrow> order_key option \<Rightarrow> socket_message + keyed_run list" where
  "keyed_runs pc j peer [] runs last_key = Inr runs"
| "keyed_runs pc j peer (encoded # rest) runs last_key =
     and_then (decode_page_op pc j encoded peer) (\<lambda>sop.
       let key = order_key sop in
       if runs = [] then keyed_runs pc j peer rest [(key_device key, [sop], [key])] (Some key)
       else case last runs of (origin, sops, keys) \<Rightarrow>
         if origin = key_device key then
           if (case last_key of Some l \<Rightarrow> key \<le> l | None \<Rightarrow> False) then Inl (NonAscendingKey peer origin)
           else keyed_runs pc j peer rest (butlast runs @ [(origin, sops @ [sop], keys @ [key])]) (Some key)
         else if length runs > 1 \<and> key_device key < origin then Inl (OriginsOutOfOrder peer)
         else keyed_runs pc j peer rest (runs @ [(key_device key, [sop], [key])]) (Some key))"

fun admit_runs ::
  "('s, 'sk, 'vk, 'e) pull_socket \<Rightarrow> device_id \<Rightarrow> bool \<Rightarrow> relay_cursor \<Rightarrow> keyed_run list \<Rightarrow> nat \<Rightarrow> 's \<Rightarrow> 's \<times> ('e + nat)" where
  "admit_runs sk peer skip cursor [] applied s = (s, Inr applied)"
| "admit_runs sk peer skip cursor ((origin, sops, keys) # rest) applied s =
     (case ps_admit_ops sk (s, \<lparr>qm_current = cursor, qm_committed = 0\<rparr>) peer sops skip True (claim_admitted sk origin keys) of
        ((s', _), Inl e) \<Rightarrow> (s', Inl e)
      | ((s', _), Inr adm) \<Rightarrow>
          (case pa_error adm of
             Some e \<Rightarrow> (s', Inl e)
           | None \<Rightarrow> admit_runs sk peer skip cursor rest (applied + pa_admitted adm) s'))"

definition apply_keyed ::
  "codec \<Rightarrow> pull_codec \<Rightarrow> ('s, 'sk, 'vk, 'e) pull_socket \<Rightarrow> device_id \<Rightarrow> bool \<Rightarrow> relay_cursor \<Rightarrow> pull_page \<Rightarrow> nat \<Rightarrow> 's \<Rightarrow> 's \<times> ('e + nat)" where
  "apply_keyed pc j sk peer skip cursor page applied s =
     (case keyed_runs pc j peer (pp_keyed page) [] None of
        Inl m \<Rightarrow> (s, Inl (ps_protocol_error sk m))
      | Inr runs \<Rightarrow> admit_runs sk peer skip cursor runs applied s)"

definition apply_backfill ::
  "codec \<Rightarrow> pull_codec \<Rightarrow> ('s, 'sk, 'vk, 'e) pull_socket \<Rightarrow> device_id \<Rightarrow> bool \<Rightarrow> relay_cursor \<Rightarrow> pull_page \<Rightarrow> 's \<Rightarrow>
   's \<times> relay_cursor \<times> ('e + nat)" where
  "apply_backfill pc j sk peer skip current page s =
     (case decode_backfill pc j peer (cur_after current) (pp_backfill page) (cur_after current) [] [] of
        Inl m \<Rightarrow> (s, current, Inl (ps_protocol_error sk m))
      | Inr (seqs, sops) \<Rightarrow>
          (case ps_admit_ops sk (s, \<lparr>qm_current = current, qm_committed = 0\<rparr>) peer sops skip True (save_admitted sk peer seqs) of
             ((s', q), Inl e) \<Rightarrow> (s', qm_current q, Inl e)
           | ((s', q), Inr adm) \<Rightarrow>
               (case pa_error adm of
                  Some e \<Rightarrow> (s', qm_current q, Inl e)
                | None \<Rightarrow>
                    let next_cursor = (qm_current q)\<lparr>cur_after := max (cur_after (qm_current q)) (pp_next_relay_seq page)\<rparr> in
                    (case ps_commit_relay_cursor sk s' peer next_cursor of
                       (s'', Inl e) \<Rightarrow> (s'', qm_current q, Inl e)
                     | (s'', Inr _) \<Rightarrow> (s'', next_cursor, Inr (pa_admitted adm))))))"

definition apply_pull_page ::
  "codec \<Rightarrow> pull_codec \<Rightarrow> ('s, 'sk, 'vk, 'e) pull_socket \<Rightarrow> device_id \<Rightarrow> relay_cursor option \<Rightarrow> pull_page \<Rightarrow> bool \<Rightarrow> 's \<Rightarrow>
   's \<times> relay_cursor option \<times> ('e + nat)" where
  "apply_pull_page pc j sk peer cursor page skip s =
     (case decode_epoch (pp_epoch page) of
        None \<Rightarrow> (s, cursor, Inl (ps_protocol_error sk InvalidPageEpoch))
      | Some epoch \<Rightarrow>
          (case (case cursor of Some cur \<Rightarrow> if cur_epoch cur = epoch then Some cur else None
                 | None \<Rightarrow> Some \<lparr>cur_epoch = epoch, cur_after = 0\<rparr>) of
             None \<Rightarrow> (s, cursor, Inl (ps_protocol_error sk (EpochChanged peer)))
           | Some current \<Rightarrow>
               (case ps_commit_relay_cursor sk s peer current of
                  (s', Inl e) \<Rightarrow> (s', cursor, Inl e)
                | (s', Inr _) \<Rightarrow>
                    (case apply_backfill pc j sk peer skip current page s' of
                       (s'', cur, Inl e) \<Rightarrow> (s'', Some cur, Inl e)
                     | (s'', cur, Inr applied) \<Rightarrow>
                         (case apply_keyed pc j sk peer skip cur page applied s'' of
                            (s''', r) \<Rightarrow> (s''', Some cur, r))))))"

section \<open>Exchanges\<close>

text \<open>What \<open>reqwest\<close> returns for one POST: nothing but an error, or a status, a declared length and a body that may break off.\<close>

record pull_reply =
  pr_status :: nat
  pr_content_length :: "nat option"
  pr_body :: "string + bytes"

record 'n pull_net =
  net_post :: "'n \<Rightarrow> bytes \<Rightarrow> 'n \<times> (string + pull_reply)"
  net_instant :: "'n \<Rightarrow> 'n \<times> nat"

definition pull_bytes :: "'n pull_net \<Rightarrow> 'n \<Rightarrow> bytes \<Rightarrow> 'n \<times> (transport_error + (nat \<times> bytes))" where
  "pull_bytes net n signed_request =
     (case net_post net n signed_request of
        (n', sent) \<Rightarrow>
          (n', and_then (map_err (\<lambda>_. THttp) sent) (\<lambda>response.
             if (case pr_content_length response of Some len \<Rightarrow> len > MAX_PULL_RESPONSE_BYTES | None \<Rightarrow> False) then Inl TWire
             else and_then (map_err (\<lambda>_. THttp) (pr_body response)) (\<lambda>bs.
               if length bs > MAX_PULL_RESPONSE_BYTES then Inl TWire else Inr (pr_status response, bs)))))"

text \<open>What the requests of one client share: libraries, the host, the network, and the peer with its pinned key.\<close>

record ('s, 'n, 'sk, 'vk, 'sg, 'e) puller =
  pu_crypto :: "('sk, 'vk, 'sg) crypto"
  pu_codec :: codec
  pu_json :: pull_codec
  pu_socket :: "('s, 'sk, 'vk, 'e) pull_socket"
  pu_net :: "'n pull_net"
  pu_peer :: device_id
  pu_sec1 :: bytes

definition source_pull ::
  "('s, 'n, 'sk, 'vk, 'sg, 'e) puller \<Rightarrow> 'n \<Rightarrow> pull_request \<Rightarrow> ('sk, 'vk) device_identity \<Rightarrow> hlc \<Rightarrow> 'n \<times> (transport_error + pull_page)" where
  "source_pull p n request identity t =
     (case sign_pull_request (pu_crypto p) (pu_codec p) (pu_json p) request identity t of
        Inl _ \<Rightarrow> (n, Inl TWire)
      | Inr signed_request \<Rightarrow>
          (case pull_bytes (pu_net p) n signed_request of
             (n', Inl e) \<Rightarrow> (n', Inl e)
           | (n', Inr (status, body)) \<Rightarrow>
               (n', if status = 404 \<or> status = 405 \<or> status = 501 then Inl (TRelayUnsupported status)
                    else if \<not> (200 \<le> status \<and> status < 300) then Inl THttp
                    else map_err (\<lambda>_. TVerify (pu_peer p) None)
                      (verify_pull_page (pu_crypto p) (pu_codec p) (pu_json p) body (pu_peer p) (pu_sec1 p)))))"

text \<open>Sign, post, and read the status; shared by the drain and the sweep.\<close>

definition exchange ::
  "('s, 'n, 'sk, 'vk, 'sg, 'e) puller \<Rightarrow> 's \<Rightarrow> 'n \<Rightarrow> pull_request \<Rightarrow> 's \<times> 'n \<times> ('e + (nat \<times> bytes))" where
  "exchange p s n request =
     (case ps_next_hlc (pu_socket p) s of
        (s', t) \<Rightarrow>
          (case sign_pull_request (pu_crypto p) (pu_codec p) (pu_json p) request (ps_local_identity (pu_socket p) s') t of
             Inl m \<Rightarrow> (s', n, Inl (ps_protocol_error (pu_socket p) (PullFailed m)))
           | Inr envelope \<Rightarrow>
               (case pull_bytes (pu_net p) n envelope of
                  (n', r) \<Rightarrow> (s', n', map_err (\<lambda>e. ps_protocol_error (pu_socket p) (PullTransport (pu_peer p) e)) r))))"

fun decode_entries :: "codec \<Rightarrow> pull_codec \<Rightarrow> device_id \<Rightarrow> string list \<Rightarrow> socket_message + signed_op list" where
  "decode_entries pc j peer [] = Inr []"
| "decode_entries pc j peer (encoded # rest) =
     and_then (decode_page_op pc j encoded peer) (\<lambda>sop.
       and_then (decode_entries pc j peer rest) (\<lambda>sops. Inr (sop # sops)))"

definition preview_request :: "device_id list \<Rightarrow> relay_cursor option \<Rightarrow> nat \<Rightarrow> int \<Rightarrow> pull_request" where
  "preview_request known relay_cursor after_seq now_ms =
     \<lparr>pq_version = PULL_VERSION, pq_coverage = inflated_claims known, pq_relay_epoch = encode_hex (cursor_epoch relay_cursor),
      pq_relay_after = cursor_after relay_cursor, pq_resume = Some (backfill_resume after_seq), pq_limit = PULL_PAGE_LIMIT_MAX,
      pq_audit = False, pq_store = None, pq_issued_at_ms = now_ms\<rparr>"

definition preview_head_window ::
  "('s, 'n, 'sk, 'vk, 'sg, 'e) puller \<Rightarrow> 's \<Rightarrow> 'n \<Rightarrow> relay_cursor option \<Rightarrow> nat \<Rightarrow> 's \<times> 'n \<times> ('e + (nat \<times> nat))" where
  "preview_head_window p s n relay_cursor after_seq =
     (let sk = pu_socket p in
      case ps_known_origins sk s of
        Inl e \<Rightarrow> (s, n, Inl e)
      | Inr known \<Rightarrow>
          (case ps_now_ms sk s of
             (s, now_ms) \<Rightarrow>
               (case ps_next_hlc sk s of
                  (s, t) \<Rightarrow>
                    (case source_pull p n (preview_request known relay_cursor after_seq now_ms) (ps_local_identity sk s) t of
                       (n, Inl e) \<Rightarrow> (s, n, Inl (ps_protocol_error sk (PullTransport (pu_peer p) e)))
                     | (n, Inr page) \<Rightarrow>
                         if pp_reset page \<or> pp_snapshot_recommended page then (s, n, Inr (0, after_seq))
                         else (case decode_entries (pu_codec p) (pu_json p) (pu_peer p) (map snd (pp_backfill page)) of
                             Inl m \<Rightarrow> (s, n, Inl (ps_protocol_error sk m))
                           | Inr sops \<Rightarrow>
                               (case ps_admit_ops sk (s, \<lparr>qm_current = RELAY_START, qm_committed = 0\<rparr>) (pu_peer p) sops False False
                                       (\<lambda>w _ _. (w, Inr ())) of
                                  ((s', _), Inl e) \<Rightarrow> (s', n, Inl e)
                                | ((s', _), Inr adm) \<Rightarrow>
                                    let admitted = pa_admitted adm in
                                    (s', n, Inr (admitted,
                                       if 0 < admitted \<and> admitted - 1 < length (pp_backfill page)
                                       then fst (pp_backfill page ! (admitted - 1)) else after_seq))))))))"

section \<open>Store sweeps\<close>

record sweep =
  sw_applied :: nat
  sw_resume :: "resume option"
  sw_last :: "(string \<times> string) option"

definition sweep_request :: "relay_cursor option \<Rightarrow> resume option \<Rightarrow> string \<Rightarrow> int \<Rightarrow> pull_request" where
  "sweep_request relay_cursor resume store now_ms =
     \<lparr>pq_version = PULL_VERSION, pq_coverage = [], pq_relay_epoch = encode_hex (cursor_epoch relay_cursor),
      pq_relay_after = cursor_after relay_cursor, pq_resume = resume, pq_limit = PULL_PAGE_LIMIT_MAX, pq_audit = True,
      pq_store = Some store, pq_issued_at_ms = now_ms\<rparr>"

definition sweep_step ::
  "('s, 'n, 'sk, 'vk, 'sg, 'e) puller \<Rightarrow> relay_cursor option \<Rightarrow> string \<Rightarrow> 's \<times> 'n \<times> sweep \<Rightarrow> ('s \<times> 'n \<times> sweep) \<times> ('e + nat) option" where
  "sweep_step p relay_cursor store = (\<lambda>(s, n, w).
     let sk = pu_socket p; fail = (\<lambda>m. Some (Inl (ps_protocol_error sk m))) in
     case ps_now_ms sk s of
       (s, now_ms) \<Rightarrow>
         (case exchange p s n (sweep_request relay_cursor (sw_resume w) store now_ms) of
            (s, n, Inl e) \<Rightarrow> ((s, n, w), Some (Inl e))
          | (s, n, Inr (status, bs)) \<Rightarrow>
              if status = 404 \<or> status = 405 \<or> status = 503 then ((s, n, w), Some (Inr (sw_applied w)))
              else if \<not> (200 \<le> status \<and> status < 300) then ((s, n, w), fail (PullHttpStatus (pu_peer p) status))
              else (case verify_pull_page (pu_crypto p) (pu_codec p) (pu_json p) bs (pu_peer p) (pu_sec1 p) of
                  Inl m \<Rightarrow> ((s, n, w), fail (PullFailed m))
                | Inr page \<Rightarrow>
                    if pp_store page \<noteq> Some store then ((s, n, w), Some (Inr (sw_applied w)))
                    else (case decode_entries (pu_codec p) (pu_json p) (pu_peer p) (pp_keyed page) of
                        Inl m \<Rightarrow> ((s, n, w), fail m)
                      | Inr sops \<Rightarrow>
                          (case ps_admit_ops sk (s, \<lparr>qm_current = RELAY_START, qm_committed = 0\<rparr>) (pu_peer p) sops True True
                                  (\<lambda>v _ _. (v, Inr ())) of
                             ((s, _), Inl e) \<Rightarrow> ((s, n, w), Some (Inl e))
                           | ((s, _), Inr adm) \<Rightarrow>
                               let w = w\<lparr>sw_applied := sw_applied w + pa_admitted adm\<rparr>;
                                   position = map_option (\<lambda>r. (rsm_origin r, rsm_after_key r)) (pp_resume page) in
                               if pa_error adm \<noteq> None \<or> pp_complete page then ((s, n, w), Some (Inr (sw_applied w)))
                               else if position = sw_last w then ((s, n, w), fail (SweepStalled (pu_peer p)))
                               else ((s, n, w\<lparr>sw_last := position, sw_resume := pp_resume page\<rparr>), None))))))"

partial_function (option) sweep_loop ::
  "('s, 'n, 'sk, 'vk, 'sg, 'e) puller \<Rightarrow> relay_cursor option \<Rightarrow> string \<Rightarrow> 's \<times> 'n \<times> sweep \<Rightarrow> (('s \<times> 'n \<times> sweep) \<times> ('e + nat)) option" where
  "sweep_loop p relay_cursor store d =
     (case sweep_step p relay_cursor store d of
        (d', None) \<Rightarrow> sweep_loop p relay_cursor store d'
      | (d', Some r) \<Rightarrow> Some (d', r))"

definition sweep_store ::
  "('s, 'n, 'sk, 'vk, 'sg, 'e) puller \<Rightarrow> relay_cursor option \<Rightarrow> string \<Rightarrow> 's \<Rightarrow> 'n \<Rightarrow> (('s \<times> 'n \<times> sweep) \<times> ('e + nat)) option" where
  "sweep_store p relay_cursor store s n = sweep_loop p relay_cursor store (s, n, \<lparr>sw_applied = 0, sw_resume = None, sw_last = None\<rparr>)"

section \<open>The drain\<close>

text \<open>The local variables of \<open>drain_pull_pages\<close>, with the caller's cursor; instants are in nanoseconds.\<close>

record drain =
  dr_cursor :: "relay_cursor option"
  dr_total :: nat
  dr_resume :: "resume option"
  dr_reset_seen :: bool
  dr_overridden :: bool
  dr_pages :: nat
  dr_stalled :: nat
  dr_last_progress :: "pull_progress option"
  dr_last_preview :: "nat option"
  dr_preview_after :: "nat option"

definition preview_due :: "'n pull_net \<Rightarrow> 'n \<Rightarrow> nat option \<Rightarrow> 'n \<times> bool" where
  "preview_due net n last_preview =
     (case last_preview of
        None \<Rightarrow> (n, True)
      | Some at \<Rightarrow> (case net_instant net n of (n', now) \<Rightarrow> (n', now - at > 10 * 10 ^ 9)))"

definition run_preview ::
  "('s, 'n, 'sk, 'vk, 'sg, 'e) puller \<Rightarrow> nat \<Rightarrow> 's \<times> 'n \<times> drain \<Rightarrow> 's \<times> 'n \<times> drain" where
  "run_preview p head_seq = (\<lambda>(s, n, d).
     case preview_head_window p s n (dr_cursor d) (preview_resume_after (dr_preview_after d) head_seq) of
       (s, n, Inl e) \<Rightarrow> (s, n, d)
     | (s, n, Inr (_, next_seq)) \<Rightarrow> (s, n, d\<lparr>dr_preview_after := Some next_seq\<rparr>))"

definition on_snapshot ::
  "('s, 'n, 'sk, 'vk, 'sg, 'e) puller \<Rightarrow> pull_page \<Rightarrow> 's \<times> 'n \<times> drain \<Rightarrow> ('s \<times> 'n \<times> drain) \<times> ('e + pull_outcome) option" where
  "on_snapshot p page = (\<lambda>(s, n, d).
     if dr_overridden d then ((s, n, d), Some (Inl (ps_protocol_error (pu_socket p) (SnapshotRepeated (pu_peer p)))))
     else
       let d = d\<lparr>dr_overridden := True\<rparr> in
       case preview_due (pu_net p) n (dr_last_preview d) of
         (n, due) \<Rightarrow>
           (case (if due \<and> pp_head_seq page > 0 then
                    (case net_instant (pu_net p) n of
                       (n, now) \<Rightarrow> run_preview p (pp_head_seq page) (s, n, d\<lparr>dr_last_preview := Some now\<rparr>))
                  else (s, n, d)) of
              (s, n, d) \<Rightarrow> ((s, n, d\<lparr>dr_resume := Some (backfill_resume (cursor_after (dr_cursor d)))\<rparr>), None)))"

definition on_reset ::
  "('s, 'n, 'sk, 'vk, 'sg, 'e) puller \<Rightarrow> pull_request \<Rightarrow> pull_page \<Rightarrow> bytes \<Rightarrow> 's \<times> 'n \<times> drain \<Rightarrow>
   ('s \<times> 'n \<times> drain) \<times> ('e + pull_outcome) option" where
  "on_reset p request page epoch = (\<lambda>(s, n, d).
     if dr_reset_seen d then ((s, n, d), Some (Inl (ps_protocol_error (pu_socket p) (ResetRepeated (pu_peer p)))))
     else
       let d = d\<lparr>dr_reset_seen := True\<rparr> in
       case persist_pull_reset (pu_socket p) s (pu_peer p) request page epoch of
         (s, Inl e) \<Rightarrow> ((s, n, d), Some (Inl e))
       | (s, Inr reset) \<Rightarrow> ((s, n, d\<lparr>dr_cursor := Some reset, dr_resume := None\<rparr>), None))"

text \<open>The end of an iteration: completion, or the next token and the check that the exchange advances.\<close>

definition after_page ::
  "('s, 'n, 'sk, 'vk, 'sg, 'e) puller \<Rightarrow> bool \<Rightarrow> pull_page \<Rightarrow> drain \<Rightarrow> drain \<times> ('e + pull_outcome) option" where
  "after_page p resumed page d =
     (if pp_complete page then
        if \<not> resumed then (d, Some (Inr (Applied (dr_total d)))) else (d\<lparr>dr_resume := None\<rparr>, None)
      else
        let d = d\<lparr>dr_resume := pp_resume page\<rparr>;
            progress = pull_progress (dr_cursor d) (dr_resume d);
            stalled = (if dr_last_progress d = Some progress then dr_stalled d + 1 else 0);
            d = d\<lparr>dr_stalled := stalled\<rparr> in
        if dr_last_progress d = Some progress \<and> stalled \<ge> PULL_NO_PROGRESS_LIMIT
        then (d, Some (Inl (ps_protocol_error (pu_socket p) (PullStalled (pu_peer p) stalled))))
        else (d\<lparr>dr_last_progress := Some progress\<rparr>, None))"

definition on_data ::
  "('s, 'n, 'sk, 'vk, 'sg, 'e) puller \<Rightarrow> bool \<Rightarrow> bool \<Rightarrow> pull_page \<Rightarrow> 's \<times> 'n \<times> drain \<Rightarrow>
   ('s \<times> 'n \<times> drain) \<times> ('e + pull_outcome) option" where
  "on_data p skip resumed page = (\<lambda>(s, n, d).
     let sk = pu_socket p in
     case apply_pull_page (pu_codec p) (pu_json p) sk (pu_peer p) (dr_cursor d) page skip s of
       (s, cursor, Inl e) \<Rightarrow> ((s, n, d\<lparr>dr_cursor := cursor\<rparr>), Some (Inl e))
     | (s, cursor, Inr applied) \<Rightarrow>
         let d = d\<lparr>dr_cursor := cursor, dr_total := dr_total d + applied, dr_pages := dr_pages d + 1\<rparr>;
             s = ps_on_page_applied sk s (pu_peer p) page (dr_pages d) (dr_total d) in
         case preview_due (pu_net p) n (dr_last_preview d) of
           (n, due) \<Rightarrow>
             (case (if due \<and> \<not> pp_complete page then
                      (case net_instant (pu_net p) n of
                         (n, now) \<Rightarrow>
                           let d = d\<lparr>dr_last_preview := Some now\<rparr> in
                           if pp_head_seq page - cursor_after (dr_cursor d) > NEWEST_FIRST_PREVIEW_GAP
                           then run_preview p (pp_head_seq page) (s, n, d) else (s, n, d))
                    else (s, n, d)) of
                (s, n, d) \<Rightarrow> (case after_page p resumed page d of (d, r) \<Rightarrow> ((s, n, d), r))))"

definition drain_request :: "coverage_vector \<Rightarrow> relay_cursor option \<Rightarrow> resume option \<Rightarrow> bool \<Rightarrow> int \<Rightarrow> pull_request" where
  "drain_request coverage cursor resume audit now_ms =
     \<lparr>pq_version = PULL_VERSION, pq_coverage = to_wire_map coverage, pq_relay_epoch = encode_hex (cursor_epoch cursor),
      pq_relay_after = cursor_after cursor, pq_resume = resume, pq_limit = PULL_PAGE_LIMIT_MAX, pq_audit = audit,
      pq_store = None, pq_issued_at_ms = now_ms\<rparr>"

definition drain_step ::
  "('s, 'n, 'sk, 'vk, 'sg, 'e) puller \<Rightarrow> bool \<Rightarrow> bool \<Rightarrow> 's \<times> 'n \<times> drain \<Rightarrow> ('s \<times> 'n \<times> drain) \<times> ('e + pull_outcome) option" where
  "drain_step p audit skip = (\<lambda>(s, n, d).
     let sk = pu_socket p; fail = (\<lambda>m. Some (Inl (ps_protocol_error sk m))) in
     case ps_local_coverage sk s of
       Inl e \<Rightarrow> ((s, n, d), Some (Inl e))
     | Inr coverage \<Rightarrow>
         (case ps_now_ms sk s of
            (s, now_ms) \<Rightarrow>
              let request = drain_request coverage (dr_cursor d) (dr_resume d) audit now_ms in
              (case exchange p s n request of
                 (s, n, Inl e) \<Rightarrow> ((s, n, d), Some (Inl e))
               | (s, n, Inr (status, bs)) \<Rightarrow>
                   if status = 404 \<or> status = 405 then ((s, n, d), Some (Inr Unsupported))
                   else if status = 503 then ((s, n, d), Some (Inr Warming))
                   else if \<not> (200 \<le> status \<and> status < 300) then ((s, n, d), fail (PullHttpStatus (pu_peer p) status))
                   else (case verify_pull_page (pu_crypto p) (pu_codec p) (pu_json p) bs (pu_peer p) (pu_sec1 p) of
                       Inl m \<Rightarrow> ((s, n, d), fail (PullFailed m))
                     | Inr page \<Rightarrow>
                         (case decode_epoch (pp_epoch page) of
                            None \<Rightarrow> ((s, n, d), fail InvalidPageEpoch)
                          | Some epoch \<Rightarrow>
                              if pp_snapshot_recommended page then on_snapshot p page (s, n, d)
                              else if pp_reset page then on_reset p request page epoch (s, n, d)
                              else on_data p skip (dr_resume d \<noteq> None) page (s, n, d))))))"

partial_function (option) drain_loop ::
  "('s, 'n, 'sk, 'vk, 'sg, 'e) puller \<Rightarrow> bool \<Rightarrow> bool \<Rightarrow> 's \<times> 'n \<times> drain \<Rightarrow> (('s \<times> 'n \<times> drain) \<times> ('e + pull_outcome)) option" where
  "drain_loop p audit skip v =
     (case drain_step p audit skip v of
        (v', None) \<Rightarrow> drain_loop p audit skip v'
      | (v', Some r) \<Rightarrow> Some (v', r))"

definition drain_start :: "relay_cursor option \<Rightarrow> drain" where
  "drain_start cursor =
     \<lparr>dr_cursor = cursor, dr_total = 0, dr_resume = None, dr_reset_seen = False, dr_overridden = False, dr_pages = 0,
      dr_stalled = 0, dr_last_progress = None, dr_last_preview = None, dr_preview_after = None\<rparr>"

definition drain_pull_pages ::
  "('s, 'n, 'sk, 'vk, 'sg, 'e) puller \<Rightarrow> relay_cursor option \<Rightarrow> bool \<Rightarrow> bool \<Rightarrow> 's \<Rightarrow> 'n \<Rightarrow>
   (('s \<times> 'n \<times> drain) \<times> ('e + pull_outcome)) option" where
  "drain_pull_pages p relay_cursor audit skip s n = drain_loop p audit skip (s, n, drain_start relay_cursor)"

section \<open>What the client relies on\<close>

text \<open>
  An admission as the trait documents it: quanta of leading ops, each followed by a call of the callback
  with what is admitted so far and how much of it may be claimed. \<open>grows s s' k\<close> says that the host moved
  from \<open>s\<close> to \<open>s'\<close> with the first \<open>k\<close> ops done.
\<close>

inductive admission ::
  "('s \<Rightarrow> 's \<Rightarrow> nat \<Rightarrow> bool) \<Rightarrow> ('s, 'e) after_quantum \<Rightarrow> 's \<times> quantum \<Rightarrow> nat \<Rightarrow> nat \<Rightarrow> 's \<times> quantum \<Rightarrow> bool"
  for grows cb w where
  admission_start: "admission grows cb w 0 0 w"
| admission_quantum: "admission grows cb w k a (s, q) \<Longrightarrow> k \<le> k' \<Longrightarrow> grows s s' k' \<Longrightarrow> a \<le> a' \<Longrightarrow> a' \<le> k' \<Longrightarrow>
    cb (s', q) k' a' = (w', Inr ()) \<Longrightarrow> admission grows cb w k' a' w'"

definition admission_ends ::
  "('s \<Rightarrow> 's \<Rightarrow> nat \<Rightarrow> bool) \<Rightarrow> ('s, 'e) after_quantum \<Rightarrow> nat \<Rightarrow> 's \<times> quantum \<Rightarrow> 's \<times> quantum \<Rightarrow> 'e + 'e pull_admission \<Rightarrow> bool" where
  "admission_ends grows cb n w w' out \<longleftrightarrow>
     (case out of
        Inl e \<Rightarrow> (\<exists>k a s q s' k'. admission grows cb w k a (s, q) \<and> k \<le> k' \<and> grows s s' k' \<and>
          (w' = (s', q) \<or> (\<exists>a'. a \<le> a' \<and> a' \<le> k' \<and> cb (s', q) k' a' = (w', Inl e))))
      | Inr adm \<Rightarrow> admission grows cb w (pa_admitted adm) (pa_claim_safe adm) w' \<and> (pa_error adm = None \<longrightarrow> pa_admitted adm = n))"

text \<open>The claim and cursor updates, as functions of what they change.\<close>

definition raise_claim :: "coverage_vector \<Rightarrow> device_id \<Rightarrow> order_key \<Rightarrow> coverage_vector" where
  "raise_claim cov origin key =
     (case map_of cov origin of
        Some existing \<Rightarrow> if key > existing then bt_insert origin key cov else cov
      | None \<Rightarrow> bt_insert origin key cov)"

definition merge_cursor :: "relay_cursor option \<Rightarrow> relay_cursor \<Rightarrow> relay_cursor" where
  "merge_cursor old cursor =
     (case old of
        Some existing \<Rightarrow> if cur_epoch existing = cur_epoch cursor then existing\<lparr>cur_after := max (cur_after existing) (cur_after cursor)\<rparr> else cursor
      | None \<Rightarrow> cursor)"

text \<open>
  The host's state as the client sees it: the ops it holds by id, its claims, its stored cursors, the ops
  whose signer it has no key for, which an admission that may skip passes over, and the sets of ops it is
  ready to take.
\<close>

record 's sink_view =
  vw_ok :: "'s \<Rightarrow> bool"
  holds :: "'s \<Rightarrow> op_id set"
  claims :: "'s \<Rightarrow> coverage_vector"
  stored :: "'s \<Rightarrow> device_id \<Rightarrow> relay_cursor option"
  unattested :: "'s \<Rightarrow> signed_op \<Rightarrow> bool"
  ready :: "'s \<Rightarrow> signed_op set \<Rightarrow> bool"

definition settles :: "'s sink_view \<Rightarrow> bool \<Rightarrow> 's \<Rightarrow> signed_op \<Rightarrow> bool" where
  "settles V skip s x \<longleftrightarrow> op_id x \<in> holds V s \<or> skip \<and> unattested V s x"

definition keeps_ops :: "'s sink_view \<Rightarrow> 's \<Rightarrow> 's \<Rightarrow> bool" where
  "keeps_ops V s s' \<longleftrightarrow> vw_ok V s' \<and> holds V s' = holds V s \<and> unattested V s' = unattested V s \<and> ready V s \<le> ready V s'"

definition keeps_all :: "'s sink_view \<Rightarrow> 's \<Rightarrow> 's \<Rightarrow> bool" where
  "keeps_all V s s' \<longleftrightarrow> keeps_ops V s s' \<and> claims V s' = claims V s \<and> stored V s' = stored V s"

definition grows :: "'s sink_view \<Rightarrow> bool \<Rightarrow> signed_op list \<Rightarrow> 's \<Rightarrow> 's \<Rightarrow> nat \<Rightarrow> bool" where
  "grows V skip sops s s' k \<longleftrightarrow> vw_ok V s' \<and> claims V s' = claims V s \<and> stored V s' = stored V s \<and> unattested V s' = unattested V s \<and>
     holds V s \<subseteq> holds V s' \<and> holds V s' \<subseteq> holds V s \<union> op_id ` set sops \<and> k \<le> length sops \<and>
     (\<forall>x \<in> set (take k sops). settles V skip s' x) \<and> (\<forall>X. ready V s X \<longrightarrow> set sops \<subseteq> X \<longrightarrow> ready V s' X)"

locale pull_sink =
  fixes sk :: "('s, 'sk, 'vk, 'e) pull_socket"
    and V :: "'s sink_view"
  assumes sink_now: "vw_ok V s \<Longrightarrow> ps_now_ms sk s = (s', t) \<Longrightarrow> keeps_all V s s'"
    and sink_hlc: "vw_ok V s \<Longrightarrow> ps_next_hlc sk s = (s', h) \<Longrightarrow> keeps_all V s s'"
    and sink_applied: "vw_ok V s \<Longrightarrow> keeps_all V s (ps_on_page_applied sk s peer page pages applied)"
    and sink_claims: "vw_ok V s \<Longrightarrow> coverage_ok (claims V s)"
    and sink_coverage: "vw_ok V s \<Longrightarrow> ps_local_coverage sk s = Inr (claims V s)"
    and sink_advance: "vw_ok V s \<Longrightarrow> key_wf key \<Longrightarrow> key_device key = origin \<Longrightarrow>
      ps_advance_local_coverage sk s origin key = (s', r) \<Longrightarrow>
      keeps_ops V s s' \<and> stored V s' = stored V s \<and> (ready V s X \<longrightarrow> r = Inr ()) \<and>
      claims V s' = (if r = Inr () then raise_claim (claims V s) origin key else claims V s)"
    and sink_save: "vw_ok V s \<Longrightarrow> ps_save_relay_cursor sk s peer cur = (s', r) \<Longrightarrow>
      keeps_ops V s s' \<and> claims V s' = claims V s \<and> (ready V s X \<longrightarrow> r = Inr ()) \<and>
      stored V s' = (if r = Inr () then (stored V s)(peer \<mapsto> merge_cursor (stored V s peer) cur) else stored V s)"
    and sink_commit: "vw_ok V s \<Longrightarrow> ps_commit_relay_cursor sk s peer cur = (s', r) \<Longrightarrow>
      keeps_ops V s s' \<and> claims V s' = claims V s \<and> (ready V s X \<longrightarrow> r = Inr ()) \<and>
      stored V s' = (if r = Inr () then (stored V s)(peer \<mapsto> merge_cursor (stored V s peer) cur) else stored V s)"
    and sink_reset: "vw_ok V s \<Longrightarrow> ps_commit_pull_reset sk s peer cur = (s', r) \<Longrightarrow>
      keeps_ops V s s' \<and> claims V s' = claims V s \<and> (ready V s X \<longrightarrow> r = Inr ()) \<and>
      stored V s' = (if r = Inr () then (stored V s)(peer \<mapsto> cur) else stored V s)"
    and sink_admit: "vw_ok V s \<Longrightarrow> ps_admit_ops sk (s, q) peer sops skip vouch cb = (w', out) \<Longrightarrow>
      admission_ends (grows V skip sops) cb (length sops) (s, q) w' out"
    and sink_ready: "vw_ok V s \<Longrightarrow> ready V s X \<Longrightarrow> set sops \<subseteq> X \<Longrightarrow>
      (\<And>s q k a. vw_ok V s \<Longrightarrow> ready V s X \<Longrightarrow> k \<le> length sops \<Longrightarrow> a \<le> k \<Longrightarrow> snd (cb (s, q) k a) = Inr ()) \<Longrightarrow>
      ps_admit_ops sk (s, q) peer sops skip vouch cb = (w', out) \<Longrightarrow>
      \<exists>adm. out = Inr adm \<and> pa_error adm = None \<and> pa_claim_safe adm = length sops"

section \<open>The pulling node keeps the contract\<close>

definition node_view :: "('sk, 'vk, 'sg) crypto \<Rightarrow> codec \<Rightarrow> ('h, 'i) clock_impl \<Rightarrow> ('s, 'o, 'e) store_impl \<Rightarrow>
   (nat \<Rightarrow> nat) \<Rightarrow> ('h, 's, 'vk) pull_node sink_view" where
  "node_view c pc ck impl unix =
     \<lparr>vw_ok = (\<lambda>node. log_ok (pn_log node) \<and> coverage_ok (pn_coverage node) \<and> bt_ok (pn_cursors node) \<and> pn_unix node = unix),
      holds = (\<lambda>node. {i. contains (pn_log node) i}),
      claims = pn_coverage,
      stored = (\<lambda>node. map_of (pn_cursors node)),
      unattested = (\<lambda>node x. key_for (pn_registry node) (origin_of x) = None),
      ready = (\<lambda>node X. clock_accepts ck \<and> (\<forall>x \<in> X. verified c pc (pn_registry node) x) \<and>
        (\<forall>log st. set (log_iter log) \<subseteq> set (log_iter (pn_log node)) \<union> X \<longrightarrow> snd (replay impl log st) = Inr ()))\<rparr>"

lemma node_view_simps [simp]:
  "vw_ok (node_view c pc ck impl unix) node \<longleftrightarrow> log_ok (pn_log node) \<and> coverage_ok (pn_coverage node) \<and> bt_ok (pn_cursors node) \<and> pn_unix node = unix"
  "holds (node_view c pc ck impl unix) node = {i. contains (pn_log node) i}"
  "claims (node_view c pc ck impl unix) node = pn_coverage node"
  "stored (node_view c pc ck impl unix) node = map_of (pn_cursors node)"
  "unattested (node_view c pc ck impl unix) node x \<longleftrightarrow> key_for (pn_registry node) (origin_of x) = None"
  "ready (node_view c pc ck impl unix) node X \<longleftrightarrow> clock_accepts ck \<and> (\<forall>x \<in> X. verified c pc (pn_registry node) x) \<and>
     (\<forall>log st. set (log_iter log) \<subseteq> set (log_iter (pn_log node)) \<union> X \<longrightarrow> snd (replay impl log st) = Inr ())"
  by (simp_all add: node_view_def)

lemma oplog_socket_simps [simp]:
  "ps_protocol_error (oplog_socket c pc ck impl identity) = SocketMessage"
  "ps_local_identity (oplog_socket c pc ck impl identity) node = identity"
  "ps_now_ms (oplog_socket c pc ck impl identity) = read_now_ms"
  "ps_next_hlc (oplog_socket c pc ck impl identity) = node_next_hlc ck"
  "ps_local_coverage (oplog_socket c pc ck impl identity) node = Inr (pn_coverage node)"
  "ps_known_origins (oplog_socket c pc ck impl identity) node = Inr (map fst (reg_entries c (pn_registry node)))"
  "ps_advance_local_coverage (oplog_socket c pc ck impl identity) node origin key = (advance_local_coverage node origin key, Inr ())"
  "ps_save_relay_cursor (oplog_socket c pc ck impl identity) node peer cur = (save_relay_cursor node peer cur, Inr ())"
  "ps_commit_relay_cursor (oplog_socket c pc ck impl identity) node peer cur = (save_relay_cursor node peer cur, Inr ())"
  "ps_commit_pull_reset (oplog_socket c pc ck impl identity) node peer cur = (reset_relay_cursor node peer cur, Inr ())"
  "ps_on_page_applied (oplog_socket c pc ck impl identity) node peer page pages applied = node"
  "ps_admit_ops (oplog_socket c pc ck impl identity) w peer sops skip vouch cb = admit_ops c pc ck impl w sops skip cb"
  by (simp_all add: oplog_socket_def)

lemma raise_claim_ok:
  assumes "coverage_ok cov" "key_wf key" "key_device key = origin"
  shows "coverage_ok (raise_claim cov origin key)"
  using assms set_bt_insert_sub [of origin key cov]
  by (auto simp: raise_claim_def coverage_ok_def bt_ok_insert split: option.split)

lemma covers_raise:
  assumes "coverage_ok cov"
  shows "covers (raise_claim cov origin key) k \<longleftrightarrow> covers cov k \<or> key_device k = origin \<and> k \<le> key"
proof -
  have "bt_ok cov" using assms by (simp add: coverage_ok_def)
  then show ?thesis
    by (auto simp: raise_claim_def covers_def map_of_bt_insert split: option.split if_splits)
qed

lemma save_relay_cursor_stored:
  assumes "bt_ok (pn_cursors node)"
  shows "map_of (pn_cursors (save_relay_cursor node peer cur)) = (map_of (pn_cursors node))(peer \<mapsto> merge_cursor (map_of (pn_cursors node) peer) cur)"
    "bt_ok (pn_cursors (save_relay_cursor node peer cur))"
  using assms by (auto simp: save_relay_cursor_def merge_cursor_def map_of_bt_insert bt_ok_insert split: option.split)

text \<open>What the admission loop does to the node: the log grows by a prefix of the ops, those without a key passed over.\<close>

definition took :: "bool \<Rightarrow> signed_op list \<Rightarrow> ('h, 's, 'vk) pull_node \<Rightarrow> ('h, 's, 'vk) pull_node \<Rightarrow> nat \<Rightarrow> bool" where
  "took skip sops node node' k \<longleftrightarrow>
     node' = node\<lparr>pn_clock := pn_clock node', pn_log := pn_log node'\<rparr> \<and> log_ok (pn_log node') \<and> k \<le> length sops \<and>
     (\<forall>i. contains (pn_log node) i \<longrightarrow> contains (pn_log node') i) \<and>
     (\<forall>i. contains (pn_log node') i \<longrightarrow> contains (pn_log node) i \<or> i \<in> op_id ` set sops) \<and>
     set (log_iter (pn_log node')) \<subseteq> set (log_iter (pn_log node)) \<union> set sops \<and>
     (\<forall>x \<in> set (take k sops). contains (pn_log node') (op_id x) \<or> skip \<and> key_for (pn_registry node) (origin_of x) = None)"

lemma took_none: "log_ok (pn_log node) \<Longrightarrow> took skip sops node (node\<lparr>pn_clock := h\<rparr>) 0"
  by (auto simp: took_def)

lemma took_skip:
  "took skip sops node node' k \<Longrightarrow> skip \<Longrightarrow> key_for (pn_registry node) (origin_of x) = None \<Longrightarrow> took skip (x # sops) node node' (Suc k)"
  by (auto simp: took_def)

lemma took_append:
  assumes "took skip sops (node\<lparr>pn_clock := h, pn_log := fst (log_append (pn_log node) x)\<rparr>) node' k" "log_ok (pn_log node)"
  shows "took skip (x # sops) node node' (Suc k)"
  using assms unfolding took_def
  by (auto simp: contains_append log_append_iter split: if_splits)

lemma relayed_loop_took:
  assumes "relayed_loop c pc ck skip sops admitted appended node = (node', admitted', appended', err)" "log_ok (pn_log node)"
  shows "\<exists>k. admitted' = admitted + k \<and> took skip sops node node' k \<and> (err = None \<longrightarrow> k = length sops)"
  using assms
proof (induction sops arbitrary: admitted appended node)
  case Nil
  then show ?case using took_none [of node skip "[]" "pn_clock node"] by auto
next
  case (Cons x sops)
  have stop: ?case if "admitted' = admitted" "node' = node\<lparr>pn_clock := pn_clock node'\<rparr>" "err \<noteq> None"
    using that took_none [OF Cons.prems(2), of skip "x # sops" "pn_clock node'"] by (intro exI [of _ 0]) simp
  show ?case
  proof (cases "key_for (pn_registry node) (origin_of x)")
    case None
    show ?thesis
    proof (cases skip)
      case True
      then have "relayed_loop c pc ck skip sops (admitted + 1) appended node = (node', admitted', appended', err)"
        using Cons.prems(1) None by (simp add: Let_def)
      from Cons.IH [OF this Cons.prems(2)] obtain k where "admitted' = admitted + 1 + k" "took skip sops node node' k"
          "err = None \<longrightarrow> k = length sops"
        by blast
      then show ?thesis using None True took_skip [of skip sops node node' k x] by (intro exI [of _ "Suc k"]) simp
    qed (use stop Cons.prems None in \<open>auto simp: Let_def\<close>)
  next
    case (Some key)
    show ?thesis
    proof (cases "verify c pc x key")
      case (Inl e)
      then show ?thesis using stop Cons.prems Some by (auto simp: Let_def)
    next
      case (Inr u)
      obtain h r where clock: "clock_update ck (pn_clock node) (body_hlc (op_body x)) (origin_of x) = (h, r)" by fastforce
      let ?node = "node\<lparr>pn_clock := h, pn_log := fst (log_append (pn_log node) x)\<rparr>"
      show ?thesis
      proof (cases r)
        case Inl
        then show ?thesis using stop Cons.prems Some \<open>verify c pc x key = Inr u\<close> clock by (auto simp: Let_def)
      next
        case (Inr t)
        then have "relayed_loop c pc ck skip sops (admitted + 1) (appended \<or> snd (log_append (pn_log node) x)) ?node =
            (node', admitted', appended', err)"
          using Cons.prems(1) Some \<open>verify c pc x key = Inr u\<close> clock by (simp add: Let_def split_beta)
        moreover have "log_ok (pn_log ?node)" using log_append_ok [OF Cons.prems(2)] by simp
        ultimately obtain k where "admitted' = admitted + 1 + k" "took skip sops ?node node' k" "err = None \<longrightarrow> k = length sops"
          using Cons.IH by blast
        then show ?thesis using took_append [OF _ Cons.prems(2)] by (intro exI [of _ "Suc k"]) simp
      qed
    qed
  qed
qed

lemma took_grows:
  assumes "took skip sops node node' k" "vw_ok (node_view c pc ck impl unix) node"
  shows "grows (node_view c pc ck impl unix) skip sops node (node'\<lparr>pn_store := st\<rparr>) k"
proof -
  let ?V = "node_view c pc ck impl unix" and ?n = "node'\<lparr>pn_store := st\<rparr>"
  have "pn_coverage node' = pn_coverage node" "pn_cursors node' = pn_cursors node" "pn_registry node' = pn_registry node" "pn_unix node' = pn_unix node"
    using assms(1) by (cases node; cases node'; simp add: took_def)+
  then have eqs: "pn_coverage ?n = pn_coverage node" "pn_cursors ?n = pn_cursors node" "pn_registry ?n = pn_registry node" "pn_unix ?n = pn_unix node"
      "pn_log ?n = pn_log node'"
    by simp_all
  note t = assms(1) [unfolded took_def]
  have more: "set (log_iter (pn_log node')) \<subseteq> set (log_iter (pn_log node)) \<union> set sops" using t by blast
  have kept: "ready ?V ?n X" if "ready ?V node X" "set sops \<subseteq> X" for X
  proof -
    have "set (log_iter (pn_log node')) \<union> X \<subseteq> set (log_iter (pn_log node)) \<union> X" using more that(2) by blast
    then show ?thesis using that(1) unfolding node_view_simps eqs by (meson subset_trans)
  qed
  show ?thesis
    unfolding grows_def
  proof (intro conjI allI impI kept; assumption?)
    show "unattested ?V ?n = unattested ?V node" unfolding fun_eq_iff node_view_simps eqs by simp
    show "holds ?V node \<subseteq> holds ?V ?n" "holds ?V ?n \<subseteq> holds ?V node \<union> op_id ` set sops"
      unfolding node_view_simps eqs using t by blast+
    show "\<forall>x \<in> set (take k sops). settles ?V skip ?n x"
      unfolding settles_def node_view_simps eqs mem_Collect_eq using t by blast
    show "vw_ok ?V ?n" using assms(2) t unfolding node_view_simps eqs by blast
    show "k \<le> length sops" using t by blast
    show "claims ?V ?n = claims ?V node" "stored ?V ?n = stored ?V node" unfolding node_view_simps eqs by (rule refl)+
  qed
qed

lemma admit_ops_calls:
  assumes "admit_ops c pc ck impl (node, q) sops skip cb = (w', out)" "log_ok (pn_log node)"
  obtains node' st k err where "took skip sops node node' k" "err = None \<longrightarrow> k = length sops"
    "(case cb (node'\<lparr>pn_store := st\<rparr>, q) k k of (v, Inl e) \<Rightarrow> (v, Inl e)
      | (v, Inr _) \<Rightarrow> (v, Inr \<lparr>pa_admitted = k, pa_claim_safe = k, pa_error = err\<rparr>)) = (w', out)"
proof -
  obtain node' k appended err where run: "relayed_loop c pc ck skip sops 0 False node = (node', k, appended, err)"
    by (rule prod_cases4)
  from relayed_loop_took [OF this assms(2)] have t: "took skip sops node node' k" "err = None \<longrightarrow> k = length sops" by auto
  obtain st r where rep: "replay impl (pn_log node') (pn_store node') = (st, r)" by fastforce
  let ?st = "if appended then st else pn_store node'"
  let ?err = "if appended \<and> r \<noteq> Inr () then Some ReplayFailed else err"
  have "admit_ops c pc ck impl (node, q) sops skip cb =
      (case cb (node'\<lparr>pn_store := ?st\<rparr>, q) k k of (v, Inl e) \<Rightarrow> (v, Inl e)
       | (v, Inr _) \<Rightarrow> (v, Inr \<lparr>pa_admitted = k, pa_claim_safe = k, pa_error = ?err\<rparr>))"
    unfolding admit_ops_def fst_conv snd_conv run prod.case
    by (cases appended; cases r) (simp_all add: rep)
  then show ?thesis using that [of node' k ?err ?st] t assms(1) by auto
qed

lemma admit_ops_ends:
  assumes "vw_ok (node_view c pc ck impl unix) node" "admit_ops c pc ck impl (node, q) sops skip cb = (w', out)"
  shows "admission_ends (grows (node_view c pc ck impl unix) skip sops) cb (length sops) (node, q) w' out"
proof -
  let ?grows = "grows (node_view c pc ck impl unix) skip sops"
  have log: "log_ok (pn_log node)" using assms(1) by simp
  obtain node' st k err where run: "took skip sops node node' k" "err = None \<longrightarrow> k = length sops"
    "(case cb (node'\<lparr>pn_store := st\<rparr>, q) k k of (v, Inl e) \<Rightarrow> (v, Inl e)
      | (v, Inr _) \<Rightarrow> (v, Inr \<lparr>pa_admitted = k, pa_claim_safe = k, pa_error = err\<rparr>)) = (w', out)"
    by (rule admit_ops_calls [OF assms(2) log])
  note grown = took_grows [OF run(1) assms(1), of st]
  note start = admission_start [of ?grows cb "(node, q)"]
  obtain v r where cb: "cb (node'\<lparr>pn_store := st\<rparr>, q) k k = (v, r)" by fastforce
  show ?thesis
  proof (cases r)
    case (Inl e)
    then have "w' = v" "out = Inl e" using run(3) cb by simp_all
    then show ?thesis unfolding admission_ends_def using start grown cb Inl by fastforce
  next
    case (Inr u)
    then have "w' = v" "out = Inr \<lparr>pa_admitted = k, pa_claim_safe = k, pa_error = err\<rparr>" using run(3) cb by simp_all
    moreover have "admission ?grows cb (node, q) k k v"
      using admission_quantum [OF start _ grown _ order_refl] cb Inr by simp
    ultimately show ?thesis unfolding admission_ends_def using run(2) by simp
  qed
qed

lemma relayed_loop_accepts:
  assumes "clock_accepts ck" "\<And>x. x \<in> set sops \<Longrightarrow> verified c pc (pn_registry node) x"
  shows "\<exists>node' k appended. relayed_loop c pc ck skip sops admitted appended0 node = (node', k, appended, None)"
  using assms(2)
proof (induction sops arbitrary: admitted appended0 node)
  case (Cons x sops)
  from Cons.prems obtain key where key: "key_for (pn_registry node) (origin_of x) = Some key" "verify c pc x key = Inr ()"
    by (auto simp: verified_def)
  obtain h t where clock: "clock_update ck (pn_clock node) (body_hlc (op_body x)) (origin_of x) = (h, Inr t)"
    using assms(1) unfolding clock_accepts_def by blast
  let ?node = "node\<lparr>pn_clock := h, pn_log := fst (log_append (pn_log node) x)\<rparr>"
  have "\<exists>node' k appended. relayed_loop c pc ck skip sops (admitted + 1) (appended0 \<or> snd (log_append (pn_log node) x)) ?node =
      (node', k, appended, None)"
    by (rule Cons.IH) (use Cons.prems in auto)
  then show ?case using key clock by (simp add: Let_def split_beta)
qed simp

lemma admit_ops_ready:
  assumes "vw_ok (node_view c pc ck impl unix) node" "ready (node_view c pc ck impl unix) node X" "set sops \<subseteq> X"
    and "\<And>s q k a. vw_ok (node_view c pc ck impl unix) s \<Longrightarrow> ready (node_view c pc ck impl unix) s X \<Longrightarrow> k \<le> length sops \<Longrightarrow> a \<le> k \<Longrightarrow>
      snd (cb (s, q) k a) = Inr ()"
    and "admit_ops c pc ck impl (node, q) sops skip cb = (w', out)"
  shows "\<exists>adm. out = Inr adm \<and> pa_error adm = None \<and> pa_claim_safe adm = length sops"
proof -
  let ?V = "node_view c pc ck impl unix"
  have good: "clock_accepts ck" "\<And>x. x \<in> set sops \<Longrightarrow> verified c pc (pn_registry node) x"
    using assms(2,3) by auto
  then obtain node' k appended where run: "relayed_loop c pc ck skip sops 0 False node = (node', k, appended, None)"
    using relayed_loop_accepts by blast
  have log: "log_ok (pn_log node)" using assms(1) by simp
  have t: "took skip sops node node' k" "k = length sops" using relayed_loop_took [OF run log] by auto
  obtain st r where rep: "replay impl (pn_log node') (pn_store node') = (st, r)" by fastforce
  have "set (log_iter (pn_log node')) \<subseteq> set (log_iter (pn_log node)) \<union> X" using t(1) assms(3) unfolding took_def by blast
  then have r: "r = Inr ()" using assms(2) rep unfolding node_view_simps by (metis snd_conv)
  let ?n = "node'\<lparr>pn_store := if appended then st else pn_store node'\<rparr>"
  have g: "grows ?V skip sops node ?n k" by (rule took_grows [OF t(1) assms(1)])
  then have "vw_ok ?V ?n" "ready ?V ?n X" "k \<le> length sops" unfolding grows_def using assms(2,3) by blast+
  then have "snd (cb (?n, q) k k) = Inr ()" by (rule assms(4)) simp
  then obtain v where cb: "cb (?n, q) k k = (v, Inr ())" by (metis prod.collapse)
  have "admit_ops c pc ck impl (node, q) sops skip cb = (v, Inr \<lparr>pa_admitted = k, pa_claim_safe = k, pa_error = None\<rparr>)"
    using cb unfolding admit_ops_def fst_conv snd_conv run prod.case by (cases appended) (simp_all add: rep r)
  then show ?thesis using assms(5) t(2) by auto
qed

lemma keeps_allI:
  assumes "pn_log node' = pn_log node" "pn_coverage node' = pn_coverage node" "pn_registry node' = pn_registry node" "pn_cursors node' = pn_cursors node"
      "pn_unix node' = pn_unix node"
    and "vw_ok (node_view c pc ck impl unix) node"
  shows "keeps_all (node_view c pc ck impl unix) node node'"
  using assms by (auto simp: keeps_all_def keeps_ops_def fun_eq_iff)

lemma keeps_opsI:
  assumes "pn_log node' = pn_log node" "pn_registry node' = pn_registry node" "vw_ok (node_view c pc ck impl unix) node'"
  shows "keeps_ops (node_view c pc ck impl unix) node node'"
  using assms by (auto simp: keeps_ops_def fun_eq_iff)

lemma advance_local_coverage_raise: "advance_local_coverage node origin key = node\<lparr>pn_coverage := raise_claim (pn_coverage node) origin key\<rparr>"
  by (simp add: advance_local_coverage_def raise_claim_def split: option.split)

interpretation puller: pull_sink "oplog_socket c pc ck impl identity" "node_view c pc ck impl unix"
  for c :: "('sk, 'vk, 'sg) crypto" and pc :: codec and ck :: "('h, 'i) clock_impl" and impl :: "('s, 'o, 'e) store_impl"
    and identity :: "('sk, 'vk) device_identity" and unix :: "nat \<Rightarrow> nat"
proof
  let ?V = "node_view c pc ck impl unix" and ?sk = "oplog_socket c pc ck impl identity"
  fix s s' :: "('h, 's, 'vk) pull_node" and t :: int and h :: hlc and peer :: device_id and page :: pull_page and pages applied :: nat
    and X key origin r cur q sops skip vouch w' out and cb :: "(('h, 's, 'vk) pull_node, socket_error) after_quantum"
  assume ok: "vw_ok ?V s"
  show "ps_now_ms ?sk s = (s', t) \<Longrightarrow> keeps_all ?V s s'"
    using ok by (intro keeps_allI) (auto simp: read_now_ms_def)
  show "ps_next_hlc ?sk s = (s', h) \<Longrightarrow> keeps_all ?V s s'"
    using ok by (intro keeps_allI) (auto simp: node_next_hlc_def split_beta)
  show "keeps_all ?V s (ps_on_page_applied ?sk s peer page pages applied)"
    using ok by (intro keeps_allI) simp_all
  show "coverage_ok (claims ?V s)" "ps_local_coverage ?sk s = Inr (claims ?V s)" using ok by simp_all
  show "keeps_ops ?V s s' \<and> stored ?V s' = stored ?V s \<and> (ready ?V s X \<longrightarrow> r = Inr ()) \<and>
      claims ?V s' = (if r = Inr () then raise_claim (claims ?V s) origin key else claims ?V s)"
    if "key_wf key" "key_device key = origin" "ps_advance_local_coverage ?sk s origin key = (s', r)"
    using that ok raise_claim_ok [of "pn_coverage s" key origin]
    by (auto simp: advance_local_coverage_raise intro!: keeps_opsI)
  show save: "keeps_ops ?V s s' \<and> claims ?V s' = claims ?V s \<and> (ready ?V s X \<longrightarrow> r = Inr ()) \<and>
      stored ?V s' = (if r = Inr () then (stored ?V s)(peer \<mapsto> merge_cursor (stored ?V s peer) cur) else stored ?V s)"
    if "ps_save_relay_cursor ?sk s peer cur = (s', r)"
    using that ok save_relay_cursor_stored [of s peer cur]
    by (auto simp: save_relay_cursor_def intro!: keeps_opsI)
  show "keeps_ops ?V s s' \<and> claims ?V s' = claims ?V s \<and> (ready ?V s X \<longrightarrow> r = Inr ()) \<and>
      stored ?V s' = (if r = Inr () then (stored ?V s)(peer \<mapsto> merge_cursor (stored ?V s peer) cur) else stored ?V s)"
    if "ps_commit_relay_cursor ?sk s peer cur = (s', r)"
    using that by (intro save) simp
  show "keeps_ops ?V s s' \<and> claims ?V s' = claims ?V s \<and> (ready ?V s X \<longrightarrow> r = Inr ()) \<and>
      stored ?V s' = (if r = Inr () then (stored ?V s)(peer \<mapsto> cur) else stored ?V s)"
    if "ps_commit_pull_reset ?sk s peer cur = (s', r)"
    using that ok by (auto simp: reset_relay_cursor_def map_of_bt_insert bt_ok_insert intro!: keeps_opsI)
  show "admission_ends (grows ?V skip sops) cb (length sops) (s, q) w' out" if "ps_admit_ops ?sk (s, q) peer sops skip vouch cb = (w', out)"
    using admit_ops_ends [OF ok] that by simp
  show "\<exists>adm. out = Inr adm \<and> pa_error adm = None \<and> pa_claim_safe adm = length sops"
    if "ready ?V s X" "set sops \<subseteq> X" "\<And>s q k a. vw_ok ?V s \<Longrightarrow> ready ?V s X \<Longrightarrow> k \<le> length sops \<Longrightarrow> a \<le> k \<Longrightarrow> snd (cb (s, q) k a) = Inr ()"
      "ps_admit_ops ?sk (s, q) peer sops skip vouch cb = (w', out)"
  proof (rule admit_ops_ready [OF ok that(1,2)])
    show "snd (cb (s, q) k a) = Inr ()" if "vw_ok ?V s" "ready ?V s X" "k \<le> length sops" "a \<le> k" for s q k a
      by (rule \<open>\<And>s q k a. vw_ok ?V s \<Longrightarrow> ready ?V s X \<Longrightarrow> k \<le> length sops \<Longrightarrow> a \<le> k \<Longrightarrow> snd (cb (s, q) k a) = Inr ()\<close> [OF that])
    show "admit_ops c pc ck impl (s, q) sops skip cb = (w', out)" using that(4) by simp
  qed
qed

section \<open>Reading a page\<close>

lemma decode_entry:
  "codec_laws pc \<Longrightarrow> pull_codec_laws j \<Longrightarrow> op_wf x \<Longrightarrow> decode_page_op pc j (entry_of j pc x) peer = Inr x"
  by (simp add: decode_page_op_def entry_of_def pull_codec_laws_def from_env_bytes)

lemma decode_entries_ops:
  assumes "codec_laws pc" "pull_codec_laws j" "\<And>x. x \<in> set xs \<Longrightarrow> op_wf x"
  shows "decode_entries pc j peer (map (entry_of j pc) xs) = Inr xs"
  using assms(3) by (induction xs) (simp_all add: decode_entry [OF assms(1,2)])

lemma decode_backfill_entries:
  assumes "codec_laws pc" "pull_codec_laws j" "sorted_wrt (<) is" "\<And>i. i \<in> set is \<Longrightarrow> prev \<le> i \<and> op_wf (arr ! i)"
  shows "decode_backfill pc j peer start (map (\<lambda>i. (Suc i, entry_of j pc (arr ! i))) is) prev seqs sops =
    Inr (seqs @ map Suc is, sops @ map ((!) arr) is)"
  using assms(3,4)
proof (induction "is" arbitrary: prev seqs sops)
  case (Cons i "is")
  have "decode_backfill pc j peer start (map (\<lambda>i. (Suc i, entry_of j pc (arr ! i))) is) (Suc i) (seqs @ [Suc i]) (sops @ [arr ! i]) =
      Inr ((seqs @ [Suc i]) @ map Suc is, (sops @ [arr ! i]) @ map ((!) arr) is)"
    by (rule Cons.IH) (use Cons.prems in auto)
  moreover have "prev \<le> i" "op_wf (arr ! i)" using Cons.prems(2) by auto
  ultimately show ?case by (simp add: decode_entry [OF assms(1,2)])
qed simp

text \<open>A run of one origin, and a page laid out in such runs.\<close>

definition run_of :: "device_id \<Rightarrow> signed_op list \<Rightarrow> keyed_run" where
  "run_of d xs = (d, xs, map order_key xs)"

lemma keyed_runs_extend:
  assumes "codec_laws pc" "pull_codec_laws j" "\<And>x. x \<in> set xs \<Longrightarrow> op_wf x \<and> origin_of x = d"
    and "sorted_wrt (\<lambda>x y. order_key x < order_key y) (pre @ xs)" "pre \<noteq> []"
  shows "keyed_runs pc j peer (map (entry_of j pc) xs @ rest) (runs @ [run_of d pre]) (Some (order_key (last pre))) =
    keyed_runs pc j peer rest (runs @ [run_of d (pre @ xs)]) (Some (order_key (last (pre @ xs))))"
  using assms(3-5)
proof (induction xs arbitrary: pre)
  case (Cons x xs)
  have x: "op_wf x" "key_device (order_key x) = d" using Cons.prems(1) by (auto simp: order_key_def)
  have "\<not> order_key x \<le> order_key (last pre)" using Cons.prems(2,3) by (auto simp: sorted_wrt_append not_le)
  then have "keyed_runs pc j peer (map (entry_of j pc) (x # xs) @ rest) (runs @ [run_of d pre]) (Some (order_key (last pre))) =
      keyed_runs pc j peer (map (entry_of j pc) xs @ rest) (runs @ [run_of d (pre @ [x])]) (Some (order_key (last (pre @ [x]))))"
    using x by (simp add: decode_entry [OF assms(1,2)] run_of_def Let_def butlast_append)
  also have "\<dots> = keyed_runs pc j peer rest (runs @ [run_of d ((pre @ [x]) @ xs)]) (Some (order_key (last ((pre @ [x]) @ xs))))"
    by (rule Cons.IH) (use Cons.prems in auto)
  finally show ?case by simp
qed simp

lemma keyed_runs_layout:
  assumes "codec_laws pc" "pull_codec_laws j" "distinct (done_ds @ ds)" "sorted_wrt (<) (tl (done_ds @ ds))"
    and "\<And>d. d \<in> set ds \<Longrightarrow> run d \<noteq> [] \<and> sorted_wrt (\<lambda>x y. order_key x < order_key y) (run d) \<and> (\<forall>x \<in> set (run d). op_wf x \<and> origin_of x = d)"
    and "map fst runs = done_ds"
  shows "keyed_runs pc j peer (map (entry_of j pc) (concat (map run ds))) runs last_key = Inr (runs @ map (\<lambda>d. run_of d (run d)) ds)"
  using assms(3-6)
proof (induction ds arbitrary: runs last_key done_ds)
  case (Cons d ds)
  obtain x xs where run: "run d = x # xs" using Cons.prems(3) [of d] by (cases "run d") auto
  have x: "op_wf x" "key_device (order_key x) = d" using Cons.prems(3) [of d] run by (auto simp: order_key_def)
  let ?rest = "map (entry_of j pc) (concat (map run ds))"
  have new: "keyed_runs pc j peer (map (entry_of j pc) (concat (map run (d # ds)))) runs last_key =
      keyed_runs pc j peer (map (entry_of j pc) xs @ ?rest) (runs @ [run_of d [x]]) (Some (order_key (last [x])))"
  proof (cases "runs = []")
    case True
    then show ?thesis using x by (simp add: run decode_entry [OF assms(1,2)] run_of_def Let_def)
  next
    case False
    obtain e sops keys where last: "last runs = (e, sops, keys)" by (rule prod_cases3)
    have e: "e = last done_ds" "done_ds \<noteq> []" using False last Cons.prems(4) by (auto simp: last_map)
    have "e \<noteq> d" using Cons.prems(1) e by auto
    moreover have "\<not> d < e" if "1 < length runs"
    proof -
      have "length done_ds = length runs" using Cons.prems(4) by auto
      then have "1 < length done_ds" using that by simp
      then obtain f fs where "done_ds = f # fs" "fs \<noteq> []" by (cases done_ds) auto
      then have "e \<in> set fs" "\<forall>y \<in> set fs. y < d" using e Cons.prems(2) by (auto simp: sorted_wrt_append)
      then show ?thesis by auto
    qed
    ultimately show ?thesis using x last False by (auto simp: run decode_entry [OF assms(1,2)] run_of_def Let_def)
  qed
  also have "\<dots> = keyed_runs pc j peer ?rest (runs @ [run_of d ([x] @ xs)]) (Some (order_key (last ([x] @ xs))))"
    by (rule keyed_runs_extend [OF assms(1,2)]) (use Cons.prems(3) [of d] run in auto)
  also have "\<dots> = Inr ((runs @ [run_of d (run d)]) @ map (\<lambda>d. run_of d (run d)) ds)"
    unfolding run append.simps by (rule Cons.IH [of "done_ds @ [d]"]) (use Cons.prems run in \<open>auto simp: run_of_def\<close>)
  finally show ?case by simp
qed simp

end
