(* ===== verification/PullDrain.thy ===== *)
theory PullDrain
  imports PullClient
begin

text \<open>
  What the pull client guarantees. Over any host that keeps the contract \<open>pull_sink\<close>: whatever happens while
  a page is applied, no cursor and no claim moves past an op that is neither held nor passed over. Over the
  in-memory node and the HTTP server of \<open>PullServer\<close>: a drain ends, with everything the server holds.
\<close>

section \<open>No gap\<close>

text \<open>
  Up to position \<open>a\<close> of the peer's arrivals, every op the claims cover is settled. This is what makes it
  safe to ask only for covered arrivals after \<open>a\<close> and for ops above the claims.
\<close>

definition no_gap :: "'s sink_view \<Rightarrow> bool \<Rightarrow> signed_op list \<Rightarrow> nat \<Rightarrow> 's \<Rightarrow> bool" where
  "no_gap V skip arrived a s \<longleftrightarrow>
     (\<forall>i < a. i < length arrived \<longrightarrow> covered (claims V s) (arrived ! i) \<longrightarrow> settles V skip s (arrived ! i))"

definition stored_safe :: "'s sink_view \<Rightarrow> bool \<Rightarrow> device_id \<Rightarrow> bytes \<Rightarrow> signed_op list \<Rightarrow> 's \<Rightarrow> bool" where
  "stored_safe V skip peer epoch arrived s \<longleftrightarrow>
     (\<forall>cur. stored V s peer = Some cur \<longrightarrow> cur_epoch cur = epoch \<longrightarrow> no_gap V skip arrived (cur_after cur) s)"

text \<open>
  How a host moves while it takes in ops of \<open>held\<close>: nothing is forgotten, and an op of \<open>held\<close> becomes covered only
  when it is settled.
\<close>

definition advances :: "'s sink_view \<Rightarrow> bool \<Rightarrow> signed_op list \<Rightarrow> 's \<Rightarrow> 's \<Rightarrow> bool" where
  "advances V skip held s s' \<longleftrightarrow> vw_ok V s' \<and> holds V s \<subseteq> holds V s' \<and> holds V s' \<subseteq> holds V s \<union> op_id ` set held \<and>
     unattested V s' = unattested V s \<and> (\<forall>k. covers (claims V s) k \<longrightarrow> covers (claims V s') k) \<and>
     (\<forall>x \<in> set held. covered (claims V s') x \<longrightarrow> covered (claims V s) x \<or> settles V skip s' x) \<and>
     (ready V s (set held) \<longrightarrow> ready V s' (set held))"

lemma advances_refl: "vw_ok V s \<Longrightarrow> advances V skip held s s"
  by (auto simp: advances_def)

lemma advances_settles: "advances V skip held s s' \<Longrightarrow> settles V skip s x \<Longrightarrow> settles V skip s' x"
  by (auto simp: advances_def settles_def)

lemma advances_trans:
  assumes "advances V skip held s s'" "advances V skip held s' s''"
  shows "advances V skip held s s''"
proof -
  note a = assms(1) [unfolded advances_def] and b = assms(2) [unfolded advances_def]
  have "covered (claims V s) x \<or> settles V skip s'' x" if "x \<in> set held" "covered (claims V s'') x" for x
    using that a b advances_settles [OF assms(2), of x] by blast
  then show ?thesis unfolding advances_def using a b by auto
qed

lemma advances_keeps: "keeps_ops V s s' \<Longrightarrow> claims V s' = claims V s \<Longrightarrow> advances V skip held s s'"
  by (auto simp: advances_def keeps_ops_def)

lemma advances_keeps_all: "keeps_all V s s' \<Longrightarrow> advances V skip held s s'"
  by (auto simp: keeps_all_def intro: advances_keeps)

lemma advances_grows:
  assumes "grows V skip' sops s s' k" "set sops \<subseteq> set held"
  shows "advances V skip held s s'"
proof -
  note g = assms(1) [unfolded grows_def]
  have "op_id ` set sops \<subseteq> op_id ` set held" using assms(2) by blast
  then have "holds V s' \<subseteq> holds V s \<union> op_id ` set held" using g by blast
  then show ?thesis unfolding advances_def using g assms(2) by simp
qed

lemma advances_no_gap:
  assumes "advances V skip held s s'" "set arrived \<subseteq> set held" "no_gap V skip arrived a s"
  shows "no_gap V skip arrived a s'"
  unfolding no_gap_def
proof (intro allI impI)
  fix i assume i: "i < a" "i < length arrived" "covered (claims V s') (arrived ! i)"
  then have "arrived ! i \<in> set held" using assms(2) by auto
  then have "covered (claims V s) (arrived ! i) \<or> settles V skip s' (arrived ! i)"
    using assms(1) i(3) unfolding advances_def by blast
  then show "settles V skip s' (arrived ! i)"
    using assms(3) i(1,2) advances_settles [OF assms(1)] unfolding no_gap_def by blast
qed

lemma advances_stored_safe:
  "advances V skip held s s' \<Longrightarrow> set arrived \<subseteq> set held \<Longrightarrow> stored V s' = stored V s \<Longrightarrow>
   stored_safe V skip peer epoch arrived s \<Longrightarrow> stored_safe V skip peer epoch arrived s'"
  by (auto simp: stored_safe_def intro: advances_no_gap)

lemma merged_safe:
  assumes "stored V s' = (stored V s)(peer \<mapsto> merge_cursor (stored V s peer) cur)" "stored_safe V skip peer epoch arrived s"
    and "no_gap V skip arrived (cur_after cur) s" "advances V skip held s s'" "set arrived \<subseteq> set held"
  shows "stored_safe V skip peer epoch arrived s'"
proof -
  have max: "no_gap V skip arrived (max a b) s" if "no_gap V skip arrived a s" "no_gap V skip arrived b s" for a b
    using that by (simp add: max_def)
  have "no_gap V skip arrived (cur_after (merge_cursor (stored V s peer) cur)) s"
    if "cur_epoch (merge_cursor (stored V s peer) cur) = epoch"
    using that assms(2,3) max by (auto simp: merge_cursor_def stored_safe_def split: option.splits if_splits)
  then show ?thesis
    using assms(1) advances_no_gap [OF assms(4,5)] by (auto simp: stored_safe_def)
qed

lemma keyed_runs_page:
  assumes "codec_laws pc" "pull_codec_laws j" "keyed_layout ks" "\<And>x. x \<in> set ks \<Longrightarrow> op_wf x"
  obtains ds run where "keyed_runs pc j peer (map (entry_of j pc) ks) [] None = Inr (map (\<lambda>d. run_of d (run d)) ds)"
    "ks = concat (map run ds)" "distinct ds"
    "\<And>d. d \<in> set ds \<Longrightarrow> run d \<noteq> [] \<and> sorted_wrt (\<lambda>x y. order_key x < order_key y) (run d) \<and> (\<forall>x \<in> set (run d). origin_of x = d)"
proof -
  obtain run ds where lay: "ks = concat (map run ds)" "distinct ds" "sorted_wrt (<) (tl ds)"
      "\<forall>d \<in> set ds. (\<forall>x \<in> set (run d). origin_of x = d) \<and> sorted_wrt (\<lambda>x y. order_key x < order_key y) (run d)"
    using assms(3) unfolding keyed_layout_def by blast
  let ?ds = "filter (\<lambda>d. run d \<noteq> []) ds"
  have ks: "ks = concat (map run ?ds)" unfolding lay(1) by (induction ds) auto
  have tl: "sorted_wrt (<) (tl xs)" if "sorted_wrt (<) xs" for xs :: "device_id list" using that by (cases xs) auto
  have sorted: "sorted_wrt (<) (tl ([] @ ?ds))" using lay(3) tl by (cases ds) (auto simp: sorted_wrt_filter)
  have dist: "distinct ([] @ ?ds)" using lay(2) by simp
  have runs: "run d \<noteq> [] \<and> sorted_wrt (\<lambda>x y. order_key x < order_key y) (run d) \<and> (\<forall>x \<in> set (run d). op_wf x \<and> origin_of x = d)"
    if "d \<in> set ?ds" for d
  proof -
    have "x \<in> set ks" if "x \<in> set (run d)" for x unfolding ks using that \<open>d \<in> set ?ds\<close> by auto
    then show ?thesis using that lay(4) assms(4) by auto
  qed
  have "keyed_runs pc j peer (map (entry_of j pc) (concat (map run ?ds))) [] None = Inr ([] @ map (\<lambda>d. run_of d (run d)) ?ds)"
    by (rule keyed_runs_layout [OF assms(1,2) dist sorted runs]) simp_all
  then have "keyed_runs pc j peer (map (entry_of j pc) ks) [] None = Inr (map (\<lambda>d. run_of d (run d)) ?ds)" using ks by simp
  then show ?thesis
  proof (rule that [OF _ ks])
    show "distinct ?ds" using lay(2) by simp
    show "run d \<noteq> [] \<and> sorted_wrt (\<lambda>x y. order_key x < order_key y) (run d) \<and> (\<forall>x \<in> set (run d). origin_of x = d)"
      if "d \<in> set ?ds" for d using runs [OF that] by blast
  qed
qed

section \<open>Channel B\<close>

text \<open>The state of an admission of the covered arrivals \<open>is\<close> after \<open>k\<close> of them, from \<open>s0\<close>.\<close>

definition chan_b ::
  "'s sink_view \<Rightarrow> bool \<Rightarrow> device_id \<Rightarrow> bytes \<Rightarrow> signed_op list \<Rightarrow> signed_op list \<Rightarrow> nat \<Rightarrow> nat list \<Rightarrow> 's \<Rightarrow> nat \<Rightarrow> 's \<times> quantum \<Rightarrow> bool" where
  "chan_b V skip peer epoch arrived held after is s0 k = (\<lambda>(s, q).
     advances V skip held s0 s \<and> claims V s = claims V s0 \<and> stored_safe V skip peer epoch arrived s \<and>
     cur_epoch (qm_current q) = epoch \<and> cur_after (qm_current q) = (if k = 0 then after else Suc (is ! (k - 1))) \<and>
     no_gap V skip arrived (cur_after (qm_current q)) s \<and> k \<le> length is)"

lemma sorted_take_le:
  assumes "sorted_wrt (<) (is :: nat list)" "i \<in> set is" "0 < k" "k \<le> length is" "i \<le> is ! (k - 1)"
  shows "i \<in> set (take k is)"
proof -
  obtain n where n: "n < length is" "is ! n = i" using assms(2) by (auto simp: in_set_conv_nth)
  have "n < k"
  proof (rule ccontr)
    assume "\<not> n < k"
    then have "k - 1 < n" using assms(3) by simp
    then have "is ! (k - 1) < is ! n" by (rule sorted_wrt_nth_less [OF assms(1) _ n(1)])
    then show False using assms(5) n(2) by simp
  qed
  then show ?thesis using n by (auto simp: in_set_conv_nth)
qed

lemma covered_prefix_no_gap:
  assumes "is = filter (\<lambda>i. covered (claims V s) (arrived ! i)) [after..<after + m]" "no_gap V skip arrived after s"
    and "\<And>x. x \<in> set (take k (map ((!) arrived) is)) \<Longrightarrow> settles V skip s x" "0 < k" "k \<le> length is"
  shows "no_gap V skip arrived (Suc (is ! (k - 1))) s"
  unfolding no_gap_def
proof (intro allI impI)
  fix i assume i: "i < Suc (is ! (k - 1))" "i < length arrived" "covered (claims V s) (arrived ! i)"
  show "settles V skip s (arrived ! i)"
  proof (cases "i < after")
    case True
    then show ?thesis using assms(2) i(2,3) by (auto simp: no_gap_def)
  next
    case False
    have "is ! (k - 1) \<in> set is" using assms(4,5) by (intro nth_mem) simp
    then have "i < after + m" using i(1) assms(1) by auto
    then have "i \<in> set is" using False i(3) assms(1) by auto
    moreover have "sorted_wrt (<) is" unfolding assms(1) by (intro sorted_wrt_filter) simp
    ultimately have "i \<in> set (take k is)" using sorted_take_le [of "is" i k] assms(4,5) i(1) by simp
    then show ?thesis by (intro assms(3)) (simp add: take_map)
  qed
qed

lemma covered_end_no_gap:
  assumes "is = filter (\<lambda>i. covered (claims V s) (arrived ! i)) [after..<after + m]"
    and "no_gap V skip arrived (if is = [] then after else Suc (is ! (length is - 1))) s"
  shows "no_gap V skip arrived (after + m) s"
  unfolding no_gap_def
proof (intro allI impI)
  fix i assume i: "i < after + m" "i < length arrived" "covered (claims V s) (arrived ! i)"
  have sorted: "sorted_wrt (<) is" unfolding assms(1) by (intro sorted_wrt_filter) simp
  have "i < (if is = [] then after else Suc (is ! (length is - 1)))"
  proof (cases "i < after")
    case False
    then have "i \<in> set is" using i(1,3) assms(1) by auto
    then obtain n where n: "n < length is" "is ! n = i" by (auto simp: in_set_conv_nth)
    then have "is \<noteq> []" "n < length is - 1 \<or> n = length is - 1" by auto
    moreover have "is ! n < is ! (length is - 1)" if "n < length is - 1"
      by (rule sorted_wrt_nth_less [OF sorted that]) (use n in simp)
    ultimately show ?thesis using n(2) by auto
  next
    case True
    have "after \<le> is ! (length is - 1)" if "is \<noteq> []"
    proof -
      have "is ! (length is - 1) \<in> set is" using that by (intro nth_mem) simp
      then show ?thesis using assms(1) by auto
    qed
    then show ?thesis using True by auto
  qed
  then show "settles V skip s (arrived ! i)" using assms(2) i(2,3) unfolding no_gap_def by blast
qed

text \<open>A cursor that is safe to resume from, in memory and as stored.\<close>

definition pull_safe :: "'s sink_view \<Rightarrow> bool \<Rightarrow> device_id \<Rightarrow> bytes \<Rightarrow> signed_op list \<Rightarrow> 's \<Rightarrow> relay_cursor \<Rightarrow> bool" where
  "pull_safe V skip peer epoch arrived s cur \<longleftrightarrow> cur_epoch cur = epoch \<and> cur_after cur \<le> length arrived \<and>
     no_gap V skip arrived (cur_after cur) s \<and> stored_safe V skip peer epoch arrived s"

lemma pull_safe_advances:
  "pull_safe V skip peer epoch arrived s cur \<Longrightarrow> advances V skip held s s' \<Longrightarrow> set arrived \<subseteq> set held \<Longrightarrow> stored V s' = stored V s \<Longrightarrow>
   pull_safe V skip peer epoch arrived s' cur"
  unfolding pull_safe_def by (blast intro: advances_no_gap advances_stored_safe)

lemma chan_b_safe:
  assumes "chan_b V skip peer epoch arrived held after is s0 k (s, q)"
    and "is = filter (\<lambda>i. covered (claims V s0) (arrived ! i)) [after..<after + m]" "after + m \<le> length arrived"
  shows "advances V skip held s0 s" "claims V s = claims V s0" "pull_safe V skip peer epoch arrived s (qm_current q)"
    "after \<le> cur_after (qm_current q)" "cur_after (qm_current q) \<le> after + m"
    "k = length is \<Longrightarrow> no_gap V skip arrived (after + m) s"
proof -
  note b = assms(1) [unfolded chan_b_def prod.case]
  show "advances V skip held s0 s" "claims V s = claims V s0" using b by blast+
  have len: "k \<le> length is" using b by blast
  have "is ! (k - 1) \<in> set is" if "k \<noteq> 0" using len that by (intro nth_mem) linarith
  then show "after \<le> cur_after (qm_current q)" and le: "cur_after (qm_current q) \<le> after + m" using b assms(2) by auto
  show "pull_safe V skip peer epoch arrived s (qm_current q)"
    unfolding pull_safe_def using b order_trans [OF le assms(3)] by blast
  show "no_gap V skip arrived (after + m) s" if "k = length is"
    by (rule covered_end_no_gap [of "is"]) (use b assms(2) that in auto)
qed

context pull_sink
begin

lemma save_admitted_step:
  assumes "chan_b V skip peer epoch arrived held after is s0 k (s, q)" "k \<le> k'" "grows V skip (map ((!) arrived) is) s s' k'"
    and "save_admitted sk peer (map Suc is) (s', q) k' a = (w', r)"
    and "is = filter (\<lambda>i. covered (claims V s0) (arrived ! i)) [after..<after + m]" "after + m \<le> length arrived" "set arrived \<subseteq> set held"
    and "no_gap V skip arrived after s0"
  shows "chan_b V skip peer epoch arrived held after is s0 k' w'"
proof -
  note b = assms(1) [unfolded chan_b_def prod.case]
  have "set (map ((!) arrived) is) \<subseteq> set held" using assms(5-7) by auto
  then have adv: "advances V skip held s s'" using advances_grows [OF assms(3)] by blast
  have adv0: "advances V skip held s0 s'" by (rule advances_trans [OF _ adv]) (use b in blast)
  have cl: "claims V s' = claims V s0" "stored V s' = stored V s" "k' \<le> length is" "vw_ok V s'"
    using assms(3) b unfolding grows_def by auto
  have safe: "stored_safe V skip peer epoch arrived s'"
    by (rule advances_stored_safe [OF adv assms(7) cl(2)]) (use b in blast)
  have after0: "no_gap V skip arrived after s'" by (rule advances_no_gap [OF adv0 assms(7,8)])
  show ?thesis
  proof (cases "k' = 0")
    case True
    then have "w' = (s', q)" "k = 0" using assms(2,4) by (auto simp: save_admitted_def)
    then show ?thesis using True b adv0 cl safe after0 by (simp add: chan_b_def)
  next
    case False
    let ?cur = "(qm_current q)\<lparr>cur_after := Suc (is ! (k' - 1))\<rparr>"
    have idx: "map Suc is ! (k' - 1) = Suc (is ! (k' - 1))" using False cl(3) by simp
    obtain s'' where w': "w' = (s'', q\<lparr>qm_current := ?cur\<rparr>)" and save: "ps_save_relay_cursor sk s' peer ?cur = (s'', r)"
      using assms(4) False by (auto simp: save_admitted_def idx [unfolded One_nat_def] Let_def split: prod.splits)
    have gap: "no_gap V skip arrived (Suc (is ! (k' - 1))) s'"
    proof (rule covered_prefix_no_gap [OF assms(5) [folded cl(1)] after0 _ _ cl(3)])
      show "settles V skip s' x" if "x \<in> set (take k' (map ((!) arrived) is))" for x
        using assms(3) that unfolding grows_def by blast
    qed (use False in simp)
    note law = sink_save [OF cl(4) save, of "{}"]
    have adv': "advances V skip held s' s''" using law by (intro advances_keeps) blast+
    have "stored_safe V skip peer epoch arrived s''"
    proof (cases "r = Inr ()")
      case True
      then have "stored V s'' = (stored V s')(peer \<mapsto> merge_cursor (stored V s' peer) ?cur)" using law by simp
      then show ?thesis by (rule merged_safe [OF _ safe _ adv' assms(7)]) (use gap in simp)
    next
      case False
      then show ?thesis using law by (intro advances_stored_safe [OF adv' assms(7) _ safe]) simp
    qed
    then show ?thesis
      using False b law cl advances_trans [OF adv0 adv'] advances_no_gap [OF adv' assms(7) gap] by (simp add: w' chan_b_def)
  qed
qed

lemma commit_safe:
  assumes "vw_ok V s" "ps_commit_relay_cursor sk s peer cur = (s', r)" "pull_safe V skip peer epoch arrived s cur" "set arrived \<subseteq> set held"
  shows "advances V skip held s s' \<and> claims V s' = claims V s \<and> pull_safe V skip peer epoch arrived s' cur \<and> (ready V s X \<longrightarrow> r = Inr ())"
proof -
  note law = sink_commit [OF assms(1,2), of X]
  have adv: "advances V skip held s s'" using law by (intro advances_keeps) blast+
  have "stored_safe V skip peer epoch arrived s'"
  proof (cases "r = Inr ()")
    case True
    then have "stored V s' = (stored V s)(peer \<mapsto> merge_cursor (stored V s peer) cur)" using law by simp
    then show ?thesis by (rule merged_safe [OF _ _ _ adv assms(4)]) (use assms(3) in \<open>simp_all add: pull_safe_def\<close>)
  next
    case False
    then show ?thesis using law assms(3) by (intro advances_stored_safe [OF adv assms(4)]) (simp_all add: pull_safe_def)
  qed
  then show ?thesis
    using adv law assms(3) advances_no_gap [OF adv assms(4)] by (simp add: pull_safe_def)
qed

lemma admission_chan_b:
  assumes "admission (grows V skip (map ((!) arrived) is)) (save_admitted sk peer (map Suc is)) (s0, q0) k a w"
    and "is = filter (\<lambda>i. covered (claims V s0) (arrived ! i)) [after..<after + m]" "after + m \<le> length arrived" "set arrived \<subseteq> set held"
    and "vw_ok V s0" "pull_safe V skip peer epoch arrived s0 (qm_current q0)" "cur_after (qm_current q0) = after"
  shows "chan_b V skip peer epoch arrived held after is s0 k w"
  using assms(1)
proof (induction rule: admission.induct)
  case admission_start
  then show ?case using assms(5-7) by (auto simp: chan_b_def pull_safe_def advances_refl)
next
  case (admission_quantum k a s q k' s' a' w')
  show ?case
    by (rule save_admitted_step [OF admission_quantum.IH admission_quantum.hyps(2,3,6) assms(2-4)])
      (use assms(6,7) in \<open>auto simp: pull_safe_def\<close>)
qed

lemma admit_backfill:
  assumes "is = filter (\<lambda>i. covered (claims V s) (arrived ! i)) [after..<after + m]" "after + m \<le> length arrived" "set arrived \<subseteq> set held"
    and "vw_ok V s" "pull_safe V skip peer epoch arrived s current" "cur_after current = after"
    and adm: "ps_admit_ops sk (s, \<lparr>qm_current = current, qm_committed = 0\<rparr>) peer (map ((!) arrived) is) skip True
      (save_admitted sk peer (map Suc is)) = ((s1, q1), out)"
  shows "advances V skip held s s1" "claims V s1 = claims V s" "pull_safe V skip peer epoch arrived s1 (qm_current q1)"
    "after \<le> cur_after (qm_current q1)" "cur_after (qm_current q1) \<le> after + m"
    "out = Inr ad \<Longrightarrow> pa_error ad = None \<Longrightarrow> no_gap V skip arrived (after + m) s1"
    "ready V s (set held) \<Longrightarrow> \<exists>ad. out = Inr ad \<and> pa_error ad = None"
proof -
  let ?sops = "map ((!) arrived) is" and ?cb = "save_admitted sk peer (map Suc is)" and ?q = "\<lparr>qm_current = current, qm_committed = 0\<rparr>"
  have sub: "set ?sops \<subseteq> set held" using assms(1-3) by auto
  have chan: "chan_b V skip peer epoch arrived held after is s k w" if "admission (grows V skip ?sops) ?cb (s, ?q) k a w" for k a w
    by (rule admission_chan_b [OF that assms(1-4)]) (use assms(5,6) in simp_all)
  note safe = chan_b_safe [OF _ assms(1,2)]
  have ends: "admission_ends (grows V skip ?sops) ?cb (length ?sops) (s, ?q) (s1, q1) out" by (rule sink_admit [OF assms(4) adm])
  have "advances V skip held s s1 \<and> claims V s1 = claims V s \<and> pull_safe V skip peer epoch arrived s1 (qm_current q1) \<and>
      after \<le> cur_after (qm_current q1) \<and> cur_after (qm_current q1) \<le> after + m"
  proof (cases out)
    case (Inl e)
    from ends obtain k a t q t' k' where k: "admission (grows V skip ?sops) ?cb (s, ?q) k a (t, q)" "k \<le> k'" "grows V skip ?sops t t' k'"
        and how: "(s1, q1) = (t', q) \<or> (\<exists>a'. ?cb (t', q) k' a' = ((s1, q1), Inl e))"
      unfolding admission_ends_def Inl sum.case by blast
    note before = chan [OF k(1)]
    show ?thesis
    proof (cases "(s1, q1) = (t', q)")
      case True
      have adv: "advances V skip held t t'" by (rule advances_grows [OF k(3) sub])
      have "claims V t' = claims V t" "stored V t' = stored V t" using k(3) unfolding grows_def by blast+
      then show ?thesis
        using True safe [OF before] advances_trans [OF _ adv] pull_safe_advances [OF _ adv assms(3)] by simp
    next
      case False
      then obtain a' where "?cb (t', q) k' a' = ((s1, q1), Inl e)" using how by blast
      from save_admitted_step [OF before k(2,3) this assms(1-3)] have "chan_b V skip peer epoch arrived held after is s k' (s1, q1)"
        using assms(5,6) by (simp add: pull_safe_def)
      from safe [OF this] show ?thesis by blast
    qed
  next
    case (Inr ad)
    from ends have "admission (grows V skip ?sops) ?cb (s, ?q) (pa_admitted ad) (pa_claim_safe ad) (s1, q1)" unfolding admission_ends_def Inr sum.case by auto
    from safe [OF chan [OF this]] show ?thesis by blast
  qed
  then show "advances V skip held s s1" "claims V s1 = claims V s" "pull_safe V skip peer epoch arrived s1 (qm_current q1)"
    "after \<le> cur_after (qm_current q1)" "cur_after (qm_current q1) \<le> after + m"
    by blast+
  show "no_gap V skip arrived (after + m) s1" if "out = Inr ad" "pa_error ad = None"
  proof -
    from ends have "admission (grows V skip ?sops) ?cb (s, ?q) (length is) (pa_claim_safe ad) (s1, q1)" using that unfolding admission_ends_def by auto
    from safe(6) [OF chan [OF this]] show ?thesis by blast
  qed
  have cb_ok: "snd (?cb (t, q) k a) = Inr ()" if "vw_ok V t" "ready V t (set held)" "k \<le> length ?sops" "a \<le> k" for t q k a
    using sink_save [OF that(1), of peer _ _ _ "set held"] that(2)
    by (auto simp: save_admitted_def Let_def split: prod.split)
  show "\<exists>ad. out = Inr ad \<and> pa_error ad = None" if "ready V s (set held)"
    using sink_ready [OF assms(4) that sub cb_ok adm] by blast
qed

lemma apply_backfill_safe:
  assumes laws: "codec_laws pc" "pull_codec_laws j" and wf: "\<And>x. x \<in> set held \<Longrightarrow> op_wf x"
    and arr: "set arrived \<subseteq> set held" "after + m \<le> length arrived"
    and page: "pp_backfill page = map (\<lambda>i. (Suc i, entry_of j pc (arrived ! i))) (filter (\<lambda>i. covered (claims V s) (arrived ! i)) [after..<after + m])"
      "pp_next_relay_seq page = after + m"
    and start: "vw_ok V s" "pull_safe V skip peer epoch arrived s current" "cur_after current = after"
    and run: "apply_backfill pc j sk peer skip current page s = (s', cur', r)"
  shows "advances V skip held s s' \<and> claims V s' = claims V s \<and> pull_safe V skip peer epoch arrived s' cur' \<and>
    after \<le> cur_after cur' \<and> (\<forall>n. r = Inr n \<longrightarrow> cur_after cur' = after + m) \<and> (ready V s (set held) \<longrightarrow> (\<exists>n. r = Inr n))"
proof -
  define "is" where "is = filter (\<lambda>i. covered (claims V s) (arrived ! i)) [after..<after + m]"
  let ?sops = "map ((!) arrived) is"
  have "decode_backfill pc j peer (cur_after current) (pp_backfill page) (cur_after current) [] [] = Inr ([] @ map Suc is, [] @ ?sops)"
    unfolding page(1) is_def [symmetric]
  proof (rule decode_backfill_entries [OF laws])
    show "sorted_wrt (<) is" unfolding is_def by (intro sorted_wrt_filter) simp
    show "cur_after current \<le> i \<and> op_wf (arrived ! i)" if "i \<in> set is" for i
      using that arr start(3) by (auto simp: is_def intro!: wf)
  qed
  then have dec: "decode_backfill pc j peer (cur_after current) (pp_backfill page) (cur_after current) [] [] = Inr (map Suc is, ?sops)"
    by simp
  obtain s1 q1 out where adm: "ps_admit_ops sk (s, \<lparr>qm_current = current, qm_committed = 0\<rparr>) peer ?sops skip True
      (save_admitted sk peer (map Suc is)) = ((s1, q1), out)" by (metis prod.collapse)
  note mid = admit_backfill [OF is_def arr(2,1) start adm]
  show ?thesis
  proof (cases "\<exists>ad. out = Inr ad \<and> pa_error ad = None")
    case False
    then have "s' = s1" "cur' = qm_current q1" "\<exists>e. r = Inl e"
      using run dec adm by (auto simp: apply_backfill_def split: sum.splits option.splits)
    then show ?thesis using mid(1-4,7) False by auto
  next
    case True
    then obtain ad where out: "out = Inr ad" "pa_error ad = None" by blast
    let ?next = "(qm_current q1)\<lparr>cur_after := max (cur_after (qm_current q1)) (pp_next_relay_seq page)\<rparr>"
    have "?next = (qm_current q1)\<lparr>cur_after := after + m\<rparr>" using mid(5) page(2) by simp
    then have next_safe: "pull_safe V skip peer epoch arrived s1 ?next" "cur_after ?next = after + m"
      using mid(3) mid(6) [OF out] arr(2) by (simp_all add: pull_safe_def)
    obtain s2 r2 where commit: "ps_commit_relay_cursor sk s1 peer ?next = (s2, r2)" by fastforce
    have ok1: "vw_ok V s1" "ready V s (set held) \<longrightarrow> ready V s1 (set held)" using mid(1) unfolding advances_def by blast+
    note law = commit_safe [OF ok1(1) commit next_safe(1) arr(1), of "set held"]
    have adv: "advances V skip held s s2" using advances_trans [OF mid(1)] law by blast
    show ?thesis
    proof (cases r2)
      case (Inl e)
      have "stored V s2 = stored V s1" using sink_commit [OF ok1(1) commit, of "set held"] Inl by simp
      then have "pull_safe V skip peer epoch arrived s2 (qm_current q1)"
        using law pull_safe_advances [OF mid(3) _ arr(1)] by blast
      then show ?thesis
        using run dec adm out commit Inl law adv mid(2,4) ok1(2) by (auto simp: apply_backfill_def Let_def)
    next
      case (Inr u)
      then have "s' = s2" "cur' = ?next" "r = Inr (pa_admitted ad)"
        using run dec adm out commit by (auto simp: apply_backfill_def Let_def)
      then show ?thesis using law adv mid(2) next_safe(2) by simp
    qed
  qed
qed

end

section \<open>Channel A\<close>

text \<open>
  The state of an admission of the run \<open>xs\<close> of origin \<open>d\<close>, from \<open>s0\<close>, with \<open>k\<close> ops done and \<open>a\<close> of them claimed.
  The run must hold every op of its origin that the claims do not cover, up to its own last one.
\<close>

definition run_closed :: "signed_op list \<Rightarrow> coverage_vector \<Rightarrow> device_id \<Rightarrow> signed_op list \<Rightarrow> bool" where
  "run_closed held cov d xs \<longleftrightarrow> sorted_wrt (\<lambda>x y. order_key x < order_key y) xs \<and> (\<forall>x \<in> set xs. op_wf x \<and> origin_of x = d) \<and> set xs \<subseteq> set held \<and>
     (\<forall>x \<in> set held. \<forall>y \<in> set xs. origin_of x = d \<and> \<not> covered cov x \<and> order_key x \<le> order_key y \<longrightarrow> x \<in> set xs)"

definition chan_a ::
  "'s sink_view \<Rightarrow> bool \<Rightarrow> signed_op list \<Rightarrow> device_id \<Rightarrow> signed_op list \<Rightarrow> 's \<Rightarrow> nat \<Rightarrow> nat \<Rightarrow> 's \<times> quantum \<Rightarrow> bool" where
  "chan_a V skip held d xs s0 k a = (\<lambda>(s, q).
     advances V skip held s0 s \<and> stored V s = stored V s0 \<and> qm_committed q = a \<and> a \<le> k \<and> k \<le> length xs \<and>
     (\<forall>x \<in> set (take k xs). settles V skip s x) \<and>
     (\<forall>key. covers (claims V s) key \<longleftrightarrow> covers (claims V s0) key \<or> 0 < a \<and> key_device key = d \<and> key \<le> order_key (xs ! (a - 1))))"

lemma key_device_order_key [simp]: "key_device (order_key x) = origin_of x"
  by (simp add: order_key_def)

lemma run_closed_take:
  assumes "run_closed held cov d xs" "x \<in> set held" "origin_of x = d" "\<not> covered cov x" "0 < a" "a \<le> length xs"
    and "order_key x \<le> order_key (xs ! (a - 1))"
  shows "x \<in> set (take a xs)"
proof -
  note run = assms(1) [unfolded run_closed_def]
  have last: "xs ! (a - 1) \<in> set (take a xs)" using assms(5,6) by (auto simp: in_set_conv_nth intro!: exI [of _ "a - 1"])
  then have "xs ! (a - 1) \<in> set xs" by (rule in_set_takeD)
  then have "x \<in> set xs" using run assms(2-4,7) by blast
  then show ?thesis using sorted_take_closed [OF _ last _ assms(7)] run by blast
qed

lemma run_last:
  assumes "run_closed held cov d xs" "x \<in> set xs"
  shows "xs \<noteq> [] \<and> order_key x \<le> order_key (xs ! (length xs - 1))"
proof -
  obtain n where n: "n < length xs" "xs ! n = x" using assms(2) [unfolded in_set_conv_nth] by blast
  have "order_key (xs ! n) \<le> order_key (xs ! (length xs - 1))"
  proof (cases "n = length xs - 1")
    case False
    then have "n < length xs - 1" using n(1) by simp
    then have "order_key (xs ! n) < order_key (xs ! (length xs - 1))"
      using sorted_wrt_nth_less [of "\<lambda>x y. order_key x < order_key y" xs] assms(1) by (simp add: run_closed_def)
    then show ?thesis by simp
  qed simp
  then show ?thesis using n by auto
qed

lemma run_closed_mono:
  assumes "run_closed held cov d xs" "\<And>k. covers cov k \<Longrightarrow> covers cov' k"
  shows "run_closed held cov' d xs"
  using assms unfolding run_closed_def by blast

context pull_sink
begin

lemma claim_admitted_step:
  assumes b: "chan_a V skip held d xs s0 k a (s, q)" and "k \<le> k'" and g: "grows V skip xs s s' k'" and "a \<le> a'" "a' \<le> k'"
    and cb: "claim_admitted sk d (map order_key xs) (s', q) k' a' = (w', r)"
    and run: "run_closed held (claims V s0) d xs"
  shows "chan_a V skip held d xs s0 k' (if r = Inr () then a' else a) w'"
proof -
  note b' = b [unfolded chan_a_def prod.case] and run' = run [unfolded run_closed_def]
  have sub: "set xs \<subseteq> set held" using run' by blast
  have "advances V skip held s0 s" using b' by blast
  then have adv: "advances V skip held s0 s'" by (rule advances_trans [OF _ advances_grows [OF g sub]])
  have st: "vw_ok V s'" "claims V s' = claims V s" "stored V s' = stored V s0" "k' \<le> length xs" "\<forall>x \<in> set (take k' xs). settles V skip s' x"
    using g b' unfolding grows_def by auto
  have old: "chan_a V skip held d xs s0 k' a (s', q)"
    unfolding chan_a_def prod.case using b' adv st assms(2) by auto
  show ?thesis
  proof (cases "a < a'")
    case False
    then have "a' = a" using assms(4) by simp
    then have "w' = (s', q)" "r = Inr ()" using cb b' by (auto simp: claim_admitted_def)
    then show ?thesis using old \<open>a' = a\<close> by simp
  next
    case True
    let ?key = "order_key (xs ! (a' - 1))"
    have idx: "map order_key xs ! (a' - 1) = ?key" "xs ! (a' - 1) \<in> set xs" using True assms(5) st(4) by auto
    then have key: "key_wf ?key" "key_device ?key = d" using run' by (auto simp: order_key_def op_wf_def key_wf_def)
    obtain s'' where law: "ps_advance_local_coverage sk s' d ?key = (s'', r)"
        and w': "w' = (s'', if r = Inr () then q\<lparr>qm_committed := a'\<rparr> else q)"
      using cb True b' idx(1) by (auto simp: claim_admitted_def split: prod.splits sum.splits)
    note laws = sink_advance [OF st(1) key law, of "set held"]
    have keeps: "vw_ok V s''" "holds V s'' = holds V s'" "unattested V s'' = unattested V s'" "ready V s' (set held) \<longrightarrow> ready V s'' (set held)"
      using laws unfolding keeps_ops_def by auto
    then have settled: "settles V skip s'' x \<longleftrightarrow> settles V skip s' x" for x by (simp add: settles_def)
    show ?thesis
    proof (cases "r = Inr ()")
      case False
      then have "advances V skip held s' s''" using laws by (intro advances_keeps) simp_all
      from advances_trans [OF adv this] show ?thesis
        using False w' laws old settled by (simp add: chan_a_def)
    next
      case ok: True
      then have raised: "claims V s'' = raise_claim (claims V s') d ?key" using laws by simp
      note cov = covers_raise [OF sink_claims [OF st(1)], of d ?key]
      have mono: "order_key (xs ! (a - 1)) \<le> ?key" if "0 < a"
      proof -
        have "order_key (xs ! (a - 1)) < order_key (xs ! (a' - 1))"
          using run' True that assms(5) st(4) by (intro sorted_wrt_nth_less [of "\<lambda>x y. order_key x < order_key y" xs]) auto
        then show ?thesis by simp
      qed
      have covers': "covers (claims V s'') key \<longleftrightarrow> covers (claims V s0) key \<or> 0 < a' \<and> key_device key = d \<and> key \<le> ?key" for key
      proof -
        have "covers (claims V s) key \<longleftrightarrow> covers (claims V s0) key \<or> 0 < a \<and> key_device key = d \<and> key \<le> order_key (xs ! (a - 1))" using b' by blast
        moreover have "key \<le> ?key" if "0 < a" "key \<le> order_key (xs ! (a - 1))" using order_trans [OF that(2) mono [OF that(1)]] .
        moreover have "0 < a'" using True by simp
        ultimately show ?thesis unfolding raised cov unfolding st(2) by blast
      qed
      have fresh: "covered (claims V s0) x \<or> settles V skip s'' x" if "x \<in> set held" "covered (claims V s'') x" for x
      proof (rule disjCI)
        assume no: "\<not> settles V skip s'' x"
        show "covered (claims V s0) x"
        proof (rule ccontr)
          assume nc: "\<not> covered (claims V s0) x"
          have newly: "origin_of x = d" "order_key x \<le> ?key" using that(2) covers' [of "order_key x"] nc by simp_all
          have "0 < a'" "a' \<le> length xs" using True assms(5) st(4) by simp_all
          then have "x \<in> set (take a' xs)" by (rule run_closed_take [OF run that(1) newly(1) nc _ _ newly(2)])
          then have "x \<in> set (take k' xs)" using set_take_subset_set_take [OF assms(5), of xs] by blast
          then show False using no st(5) settled by blast
        qed
      qed
      have "advances V skip held s0 s''"
        using adv keeps covers' fresh unfolding advances_def by auto
      then show ?thesis
        unfolding chan_a_def w' prod.case using ok laws st settled covers' assms(5) by simp
    qed
  qed
qed

lemma admission_chan_a:
  assumes "admission (grows V skip xs) (claim_admitted sk d (map order_key xs)) (s0, q0) k a w"
    and "run_closed held (claims V s0) d xs" "vw_ok V s0" "qm_committed q0 = 0"
  shows "chan_a V skip held d xs s0 k a w"
  using assms(1)
proof (induction rule: admission.induct)
  case admission_start
  then show ?case using assms(3,4) by (simp add: chan_a_def advances_refl)
next
  case (admission_quantum k a s q k' s' a' w')
  from claim_admitted_step [OF admission_quantum.IH admission_quantum.hyps(2-6) assms(2)] show ?case by simp
qed

lemma claim_admitted_ready:
  assumes "run_closed held cov d xs" "vw_ok V t" "ready V t (set held)" "k \<le> length xs" "a \<le> k"
  shows "snd (claim_admitted sk d (map order_key xs) (t, q) k a) = Inr ()"
proof (cases "a > qm_committed q")
  case True
  then have "xs ! (a - 1) \<in> set xs" using assms(4,5) by simp
  then have key: "key_wf (order_key (xs ! (a - 1)))" "key_device (order_key (xs ! (a - 1))) = d"
    using assms(1) by (auto simp: run_closed_def order_key_def op_wf_def key_wf_def)
  obtain t' r where adv: "ps_advance_local_coverage sk t d (order_key (xs ! (a - 1))) = (t', r)" by fastforce
  then have "r = Inr ()" using sink_advance [OF assms(2) key adv, of "set held"] assms(3) by blast
  moreover have "map order_key xs ! (a - 1) = order_key (xs ! (a - 1))" using True assms(4,5) by simp
  ultimately show ?thesis using True adv by (simp add: claim_admitted_def)
qed (simp add: claim_admitted_def)

text \<open>One run: whatever the outcome, only settled ops become covered; a ready host claims the whole run.\<close>

lemma admit_run:
  assumes run: "run_closed held (claims V s) d xs" and "vw_ok V s" "qm_committed q = 0"
    and adm: "ps_admit_ops sk (s, q) peer xs skip True (claim_admitted sk d (map order_key xs)) = ((s1, q1), out)"
  shows "advances V skip held s s1" "stored V s1 = stored V s"
    "ready V s (set held) \<Longrightarrow> \<exists>ad. out = Inr ad \<and> pa_error ad = None \<and> (\<forall>x \<in> set xs. covered (claims V s1) x)"
proof -
  let ?cb = "claim_admitted sk d (map order_key xs)"
  note run' = run [unfolded run_closed_def]
  have chan: "chan_a V skip held d xs s k a w" if "admission (grows V skip xs) ?cb (s, q) k a w" for k a w
    by (rule admission_chan_a [OF that run assms(2,3)])
  have ends: "admission_ends (grows V skip xs) ?cb (length xs) (s, q) (s1, q1) out" by (rule sink_admit [OF assms(2) adm])
  have "advances V skip held s s1 \<and> stored V s1 = stored V s"
  proof (cases out)
    case (Inl e)
    from ends obtain k a t q' t' k' where k: "admission (grows V skip xs) ?cb (s, q) k a (t, q')" "k \<le> k'" "grows V skip xs t t' k'"
        and how: "(s1, q1) = (t', q') \<or> (\<exists>a'. a \<le> a' \<and> a' \<le> k' \<and> ?cb (t', q') k' a' = ((s1, q1), Inl e))"
      unfolding admission_ends_def Inl sum.case by blast
    note before = chan [OF k(1)]
    show ?thesis
    proof (cases "(s1, q1) = (t', q')")
      case True
      have "advances V skip held t t'" by (rule advances_grows [OF k(3)]) (use run' in blast)
      moreover have "stored V t' = stored V t" using k(3) unfolding grows_def by blast
      ultimately show ?thesis using True before advances_trans by (auto simp: chan_a_def)
    next
      case False
      then obtain a' where a': "a \<le> a'" "a' \<le> k'" "?cb (t', q') k' a' = ((s1, q1), Inl e)" using how by blast
      from claim_admitted_step [OF before k(2,3) this run] show ?thesis by (simp add: chan_a_def)
    qed
  next
    case (Inr ad)
    from ends have "admission (grows V skip xs) ?cb (s, q) (pa_admitted ad) (pa_claim_safe ad) (s1, q1)"
      unfolding admission_ends_def Inr sum.case by blast
    from chan [OF this] show ?thesis by (simp add: chan_a_def)
  qed
  then show "advances V skip held s s1" "stored V s1 = stored V s" by blast+
  assume ready: "ready V s (set held)"
  obtain ad where ad: "out = Inr ad" "pa_error ad = None" "pa_claim_safe ad = length xs"
    using sink_ready [OF assms(2) ready _ claim_admitted_ready [OF run] adm] run' by blast
  then have "chan_a V skip held d xs s (pa_admitted ad) (length xs) (s1, q1)"
    using ends chan unfolding admission_ends_def by auto
  then have cov: "covers (claims V s1) key \<longleftrightarrow> covers (claims V s) key \<or> 0 < length xs \<and> key_device key = d \<and> key \<le> order_key (xs ! (length xs - 1))" for key
    by (simp add: chan_a_def)
  have "covered (claims V s1) x" if "x \<in> set xs" for x
    using run_last [OF run that] run' that by (auto simp: cov)
  with ad show "\<exists>ad. out = Inr ad \<and> pa_error ad = None \<and> (\<forall>x \<in> set xs. covered (claims V s1) x)" by blast
qed

lemma admit_runs_safe:
  assumes "\<And>d. d \<in> set ds \<Longrightarrow> run_closed held cov d (run d)" "\<And>k. covers cov k \<Longrightarrow> covers (claims V s) k" "vw_ok V s"
    and "admit_runs sk peer skip cur (map (\<lambda>d. run_of d (run d)) ds) applied s = (s', r)"
  shows "advances V skip held s s' \<and> stored V s' = stored V s \<and>
    (ready V s (set held) \<longrightarrow> (\<exists>n. r = Inr n) \<and> (\<forall>d \<in> set ds. \<forall>x \<in> set (run d). covered (claims V s') x))"
  using assms
proof (induction ds arbitrary: applied s)
  case Nil
  then show ?case by (auto simp: advances_refl)
next
  case (Cons d ds)
  let ?q = "\<lparr>qm_current = cur, qm_committed = 0\<rparr>"
  have closed: "run_closed held (claims V s) d (run d)" by (rule run_closed_mono [OF Cons.prems(1,2)]) simp_all
  obtain s1 q1 out where adm: "ps_admit_ops sk (s, ?q) peer (run d) skip True (claim_admitted sk d (map order_key (run d))) = ((s1, q1), out)"
    by (metis prod.collapse)
  note one = admit_run [OF closed Cons.prems(3) _ adm]
  have adv: "advances V skip held s s1" "stored V s1 = stored V s" using one by simp_all
  show ?case
  proof (cases "\<exists>ad. out = Inr ad \<and> pa_error ad = None")
    case False
    then have "s' = s1" using Cons.prems(4) adm by (auto simp: run_of_def split: sum.splits option.splits)
    then show ?thesis using adv one(3) False by auto
  next
    case True
    then obtain ad where ad: "out = Inr ad" "pa_error ad = None" by blast
    have rest: "admit_runs sk peer skip cur (map (\<lambda>d. run_of d (run d)) ds) (applied + pa_admitted ad) s1 = (s', r)"
      using Cons.prems(4) adm ad by (simp add: run_of_def)
    have ih: "advances V skip held s1 s' \<and> stored V s' = stored V s1 \<and>
        (ready V s1 (set held) \<longrightarrow> (\<exists>n. r = Inr n) \<and> (\<forall>d \<in> set ds. \<forall>x \<in> set (run d). covered (claims V s') x))"
    proof (rule Cons.IH [OF _ _ _ rest])
      show "run_closed held cov d (run d)" if "d \<in> set ds" for d using Cons.prems(1) that by simp
      show "covers (claims V s1) k" if "covers cov k" for k using Cons.prems(2) [OF that] adv(1) unfolding advances_def by blast
      show "vw_ok V s1" using adv(1) unfolding advances_def by blast
    qed
    have mono: "covers (claims V s1) k \<longrightarrow> covers (claims V s') k" for k using ih unfolding advances_def by blast
    show ?thesis
    proof (intro conjI impI)
      show "advances V skip held s s'" using advances_trans [OF adv(1)] ih by blast
      show "stored V s' = stored V s" using ih adv(2) by simp
      assume ready: "ready V s (set held)"
      then have "ready V s1 (set held)" using adv(1) unfolding advances_def by blast
      then show "\<exists>n. r = Inr n" "\<forall>d \<in> set (d # ds). \<forall>x \<in> set (run d). covered (claims V s') x"
        using ih mono one(3) [OF _ ready] by auto
    qed
  qed
qed

lemma apply_keyed_safe:
  assumes laws: "codec_laws pc" "pull_codec_laws j" and wf: "\<And>x. x \<in> set held \<Longrightarrow> op_wf x"
    and page: "pp_keyed page = map (entry_of j pc) ks" "keyed_layout ks" "\<And>x. x \<in> set ks \<Longrightarrow> x \<in> set held"
      "\<And>x y. x \<in> set held \<Longrightarrow> y \<in> set ks \<Longrightarrow> origin_of x = origin_of y \<Longrightarrow> \<not> covered cov x \<Longrightarrow> order_key x \<le> order_key y \<Longrightarrow> x \<in> set ks"
    and start: "vw_ok V s" "claims V s = cov"
    and run: "apply_keyed pc j sk peer skip cur page applied s = (s', r)"
  shows "advances V skip held s s' \<and> stored V s' = stored V s \<and>
    (ready V s (set held) \<longrightarrow> (\<exists>n. r = Inr n) \<and> (\<forall>x \<in> set ks. covered (claims V s') x))"
proof -
  have kwf: "op_wf x" if "x \<in> set ks" for x using wf page(3) that by blast
  obtain ds run where runs: "keyed_runs pc j peer (map (entry_of j pc) ks) [] None = Inr (map (\<lambda>d. run_of d (run d)) ds)"
      and ks: "ks = concat (map run ds)" "distinct ds"
      and each: "\<And>d. d \<in> set ds \<Longrightarrow> run d \<noteq> [] \<and> sorted_wrt (\<lambda>x y. order_key x < order_key y) (run d) \<and> (\<forall>x \<in> set (run d). origin_of x = d)"
    by (rule keyed_runs_page [OF laws page(2) kwf, of peer]; assumption?; blast)
  have mem: "x \<in> set ks \<longleftrightarrow> (\<exists>d \<in> set ds. x \<in> set (run d))" for x unfolding ks by simp
  have closed: "run_closed held cov d (run d)" if d: "d \<in> set ds" for d
    unfolding run_closed_def
  proof (intro conjI ballI impI)
    show "x \<in> set (run d)" if "x \<in> set held" "y \<in> set (run d)" "origin_of x = d \<and> \<not> covered cov x \<and> order_key x \<le> order_key y" for x y
    proof -
      have "y \<in> set ks" using that(2) d mem by blast
      then have "x \<in> set ks" using page(4) [OF that(1)] that(2,3) each [OF d] by auto
      then obtain e where "e \<in> set ds" "x \<in> set (run e)" unfolding mem by blast
      then show ?thesis using each [of e] that(3) by auto
    qed
  qed (use each [OF d] d kwf page(3) mem in auto)
  have "admit_runs sk peer skip cur (map (\<lambda>d. run_of d (run d)) ds) applied s = (s', r)"
    using run by (simp add: apply_keyed_def page(1) runs)
  from admit_runs_safe [OF closed _ start(1) this] show ?thesis using start(2) unfolding mem Ball_def by blast
qed

end

section \<open>Whole pages\<close>

text \<open>The cursor a page is applied at: with none, the start of the page's stream.\<close>

definition at_cursor :: "bytes \<Rightarrow> relay_cursor option \<Rightarrow> relay_cursor" where
  "at_cursor epoch cursor = (case cursor of Some cur \<Rightarrow> cur | None \<Rightarrow> \<lparr>cur_epoch = epoch, cur_after = 0\<rparr>)"

lemma decode_epoch_hex: "length epoch = 32 \<Longrightarrow> decode_epoch (encode_hex epoch) = Some epoch"
  by (simp add: decode_epoch_def)

context pull_sink
begin

lemma apply_page_safe:
  assumes laws: "codec_laws pc" "pull_codec_laws j" "\<And>x. x \<in> set held \<Longrightarrow> op_wf x" "length epoch = 32" "set arrived = set held"
    and page: "page_spec j pc held arrived epoch (claims V s) after resume ks m page"
    and start: "vw_ok V s" "pull_safe V skip peer epoch arrived s (at_cursor epoch cursor)" "cur_after (at_cursor epoch cursor) = after"
    and run: "apply_pull_page pc j sk peer cursor page skip s = (s', cursor', r)"
  shows "advances V skip held s s' \<and> pull_safe V skip peer epoch arrived s' (at_cursor epoch cursor') \<and>
    after \<le> cur_after (at_cursor epoch cursor') \<and>
    (\<forall>n. r = Inr n \<longrightarrow> cursor' = Some \<lparr>cur_epoch = epoch, cur_after = after + m\<rparr>) \<and>
    (ready V s (set held) \<longrightarrow> (\<exists>n. r = Inr n) \<and> (\<forall>x \<in> set ks. covered (claims V s') x))"
proof -
  note spec = page_specD [OF page]
  have arr: "set arrived \<subseteq> set held" using laws(5) by simp
  let ?cur = "at_cursor epoch cursor"
  have epoch: "decode_epoch (pp_epoch page) = Some epoch" unfolding spec(5) by (rule decode_epoch_hex [OF laws(4)])
  have cur: "(case cursor of Some c \<Rightarrow> if cur_epoch c = epoch then Some c else None | None \<Rightarrow> Some \<lparr>cur_epoch = epoch, cur_after = 0\<rparr>) = Some ?cur"
    using start(2) by (cases cursor) (simp_all add: at_cursor_def pull_safe_def)
  obtain s1 r1 where commit: "ps_commit_relay_cursor sk s peer ?cur = (s1, r1)" by fastforce
  note c1 = commit_safe [OF start(1) commit start(2) arr, of "set held"]
  have ok1: "vw_ok V s1" "ready V s (set held) \<longrightarrow> ready V s1 (set held)" using c1 unfolding advances_def by blast+
  show ?thesis
  proof (cases r1)
    case (Inl e)
    then have "s' = s1" "cursor' = cursor" "r = Inl e" using run commit by (auto simp: apply_pull_page_def epoch cur)
    then show ?thesis using c1 start(3) Inl by auto
  next
    case (Inr u)
    obtain s2 cur2 r2 where bf: "apply_backfill pc j sk peer skip ?cur page s1 = (s2, cur2, r2)" by (rule prod_cases3)
    have same: "claims V s1 = claims V s" using c1 by blast
    have "advances V skip held s1 s2 \<and> claims V s2 = claims V s1 \<and> pull_safe V skip peer epoch arrived s2 cur2 \<and>
        after \<le> cur_after cur2 \<and> (\<forall>n. r2 = Inr n \<longrightarrow> cur_after cur2 = after + m) \<and> (ready V s1 (set held) \<longrightarrow> (\<exists>n. r2 = Inr n))"
      by (rule apply_backfill_safe [OF laws(1,2,3) arr spec(10) _ spec(3) ok1(1) _ start(3) bf])
        (use c1 spec(2) same in simp_all)
    then have b: "advances V skip held s1 s2" "claims V s2 = claims V s" "pull_safe V skip peer epoch arrived s2 cur2" "after \<le> cur_after cur2"
        "\<And>n. r2 = Inr n \<Longrightarrow> cur2 = \<lparr>cur_epoch = epoch, cur_after = after + m\<rparr>" "ready V s1 (set held) \<Longrightarrow> \<exists>n. r2 = Inr n"
      using same by (auto simp: pull_safe_def)
    have adv: "advances V skip held s s2" using c1 advances_trans [OF _ b(1)] by blast
    show ?thesis
    proof (cases r2)
      case (Inl e)
      then have "s' = s2" "cursor' = Some cur2" "r = Inl e"
        using run commit \<open>r1 = Inr u\<close> bf by (auto simp: apply_pull_page_def epoch cur)
      then show ?thesis using b(3,4,6) Inl adv ok1(2) by (auto simp: at_cursor_def)
    next
      case (Inr n)
      have ok2: "vw_ok V s2" "ready V s1 (set held) \<longrightarrow> ready V s2 (set held)" using b(1) unfolding advances_def by blast+
      obtain s3 r3 where keyed: "apply_keyed pc j sk peer skip cur2 page n s2 = (s3, r3)" by fastforce
      have k: "advances V skip held s2 s3 \<and> stored V s3 = stored V s2 \<and>
          (ready V s2 (set held) \<longrightarrow> (\<exists>n. r3 = Inr n) \<and> (\<forall>x \<in> set ks. covered (claims V s3) x))"
        by (rule apply_keyed_safe [OF laws(1,2,3) spec(1,12,13,15) ok2(1) b(2) keyed])
      have "s' = s3" "cursor' = Some cur2" "r = r3"
        using run commit \<open>r1 = Inr u\<close> bf Inr keyed by (auto simp: apply_pull_page_def epoch cur)
      then show ?thesis
        using k b(4,5) Inr ok1(2) ok2(2) advances_trans [OF adv] pull_safe_advances [OF b(3) _ arr] by (simp add: at_cursor_def)
    qed
  qed
qed

end

end
