(* ===== verification/PullPeer.thy ===== *)
theory PullPeer
  imports PullDrain
begin

text \<open>
  A drain against an honest peer: every iteration makes progress, the drain ends, and at its end the host
  holds every op of the peer. The HTTP server of \<open>PullServer\<close>, reached over a network that delivers, is such
  a peer for the in-memory node.
\<close>

section \<open>Honest peers\<close>

text \<open>
  A peer that holds \<open>held\<close>, in arrival order \<open>arrived\<close>: it answers a current request of a drain with the page
  specified in \<open>PullServer\<close>, or with a reset when the cursor does not fit; and what a preview gets from it
  are ops it holds.
\<close>

definition honest_peer ::
  "('s, 'n, 'sk, 'vk, 'sg, 'e) puller \<Rightarrow> 's sink_view \<Rightarrow> signed_op list \<Rightarrow> signed_op list \<Rightarrow> bytes \<Rightarrow> bool" where
  "honest_peer p V held arrived epoch \<longleftrightarrow>
     (\<forall>s s' n now cov cursor resume request. vw_ok V s \<longrightarrow> ps_now_ms (pu_socket p) s = (s', now) \<longrightarrow> coverage_ok cov \<longrightarrow>
        length (cursor_epoch cursor) = 32 \<longrightarrow> request = drain_request cov cursor resume False now \<longrightarrow>
        (if pull_needs_reset (cursor_epoch cursor) (cursor_after cursor) (full_stream epoch arrived)
         then \<exists>n' bs. exchange p s' n request = (fst (ps_next_hlc (pu_socket p) s'), n', Inr (200, bs)) \<and>
           verify_pull_page (pu_crypto p) (pu_codec p) (pu_json p) bs (pu_peer p) (pu_sec1 p) = Inr (reset_pull_page (full_stream epoch arrived))
         else resume_claimed cov (resume_in Keyed request) \<longrightarrow>
           (\<forall>r. resume_in Backfill request = Some r \<longrightarrow> rsm_after_seq r = cursor_after cursor) \<longrightarrow> cursor_after cursor \<le> length arrived \<longrightarrow>
           (\<exists>n' bs page ks m. exchange p s' n request = (fst (ps_next_hlc (pu_socket p) s'), n', Inr (200, bs)) \<and>
              verify_pull_page (pu_crypto p) (pu_codec p) (pu_json p) bs (pu_peer p) (pu_sec1 p) = Inr page \<and>
              page_spec (pu_json p) (pu_codec p) held arrived epoch cov (cursor_after cursor) resume ks m page))) \<and>
     (\<forall>s s' u n n' now known cursor a t page. vw_ok V s \<longrightarrow> ps_now_ms (pu_socket p) s = (s', now) \<longrightarrow>
        length (cursor_epoch cursor) = 32 \<longrightarrow> a \<le> length arrived \<longrightarrow>
        source_pull p n (preview_request known cursor a now) (ps_local_identity (pu_socket p) u) t = (n', Inr page) \<longrightarrow>
        pp_reset page \<or> (\<forall>e \<in> set (pp_backfill page). \<exists>x \<in> set held. snd e = entry_of (pu_json p) (pu_codec p) x))"

section \<open>The preview\<close>

text \<open>A preview changes nothing a drain relies on but what is held.\<close>

definition side_step :: "'s sink_view \<Rightarrow> bool \<Rightarrow> signed_op list \<Rightarrow> 's \<Rightarrow> 's \<Rightarrow> bool" where
  "side_step V skip held s s' \<longleftrightarrow> advances V skip held s s' \<and> claims V s' = claims V s \<and> stored V s' = stored V s"

lemma side_step_keeps: "keeps_all V s s' \<Longrightarrow> side_step V skip held s s'"
  unfolding side_step_def by (simp add: advances_keeps_all) (simp add: keeps_all_def)

lemma side_step_grows: "grows V skip' sops s s' k \<Longrightarrow> set sops \<subseteq> set held \<Longrightarrow> side_step V skip held s s'"
  unfolding side_step_def by (simp add: advances_grows) (simp add: grows_def)

lemma side_step_trans: "side_step V skip held s s' \<Longrightarrow> side_step V skip held s' s'' \<Longrightarrow> side_step V skip held s s''"
  unfolding side_step_def using advances_trans by auto

lemma side_step_refl: "vw_ok V s \<Longrightarrow> side_step V skip held s s"
  by (simp add: side_step_def advances_refl)

lemma side_step_ok: "side_step V skip held s s' \<Longrightarrow> vw_ok V s'"
  by (simp add: side_step_def advances_def)

lemma preview_resume_bound: "preview_resume_after previous head_seq \<le> head_seq"
  by (simp add: preview_resume_after_def Let_def split: option.split)

lemma admission_side_step:
  assumes "admission (grows V skip' sops) (\<lambda>w _ _. (w, Inr ())) (s, q) k a w" "set sops \<subseteq> set held" "vw_ok V s"
  shows "side_step V skip held s (fst w)"
  using assms(1)
proof (induction rule: admission.induct)
  case admission_start
  then show ?case using assms(3) by (simp add: side_step_refl)
next
  case (admission_quantum k a t q k' t' a' w')
  then have "w' = (t', q)" by simp
  then show ?case
    using side_step_trans [OF admission_quantum.IH [unfolded fst_conv] side_step_grows [OF admission_quantum.hyps(3) assms(2)]] by simp
qed

context pull_sink
begin

lemma admit_silent:
  assumes "vw_ok V s" "set sops \<subseteq> set held" "ps_admit_ops sk (s, q) peer sops skip' vouch (\<lambda>w _ _. (w, Inr ())) = ((s', q'), out)"
  shows "side_step V skip held s s'"
proof -
  let ?cb = "(\<lambda>w _ _. (w, Inr ())) :: ('s, 'e) after_quantum"
  have ends: "admission_ends (grows V skip' sops) ?cb (length sops) (s, q) (s', q') out"
    by (rule sink_admit [OF assms(1,3)])
  show ?thesis
  proof (cases out)
    case (Inl e)
    from ends obtain k a t u k' where run: "admission (grows V skip' sops) ?cb (s, q) k a (t, u)" "grows V skip' sops t s' k'"
      unfolding admission_ends_def Inl sum.case by fastforce
    have "side_step V skip held s t" using admission_side_step [OF run(1) assms(2,1)] by simp
    then show ?thesis by (rule side_step_trans [OF _ side_step_grows [OF run(2) assms(2)]])
  next
    case (Inr ad)
    then show ?thesis
      using ends admission_side_step [OF _ assms(2,1)] unfolding admission_ends_def by fastforce
  qed
qed

lemma preview_side:
  assumes sock: "pu_socket p = sk" and peer: "honest_peer p V held arrived epoch"
    and laws: "codec_laws (pu_codec p)" "pull_codec_laws (pu_json p)" "\<And>x. x \<in> set held \<Longrightarrow> op_wf x"
    and start: "vw_ok V s" "length (cursor_epoch cursor) = 32" "a \<le> length arrived"
    and run: "preview_head_window p s n cursor a = (s', n', r)"
  shows "side_step V skip held s s'"
proof (cases "ps_known_origins sk s")
  case (Inl e)
  then show ?thesis using run start(1) by (simp add: preview_head_window_def sock side_step_refl)
next
  case (Inr known)
  obtain s1 now where now: "ps_now_ms sk s = (s1, now)" by fastforce
  obtain s2 t where hlc: "ps_next_hlc sk s1 = (s2, t)" by fastforce
  have k1: "side_step V skip held s s1" using sink_now [OF start(1) now] by (rule side_step_keeps)
  have "side_step V skip held s1 s2" using sink_hlc [OF side_step_ok [OF k1] hlc] by (rule side_step_keeps)
  with k1 have k2: "side_step V skip held s s2" by (rule side_step_trans)
  obtain n1 got where got: "source_pull p n (preview_request known cursor a now) (ps_local_identity sk s2) t = (n1, got)" by fastforce
  show ?thesis
  proof (cases "\<exists>page. got = Inr page \<and> \<not> pp_reset page \<and> \<not> pp_snapshot_recommended page")
    case False
    then have "s' = s2" using run by (auto simp: preview_head_window_def sock Inr now hlc got split: sum.splits if_splits)
    then show ?thesis using k2 by simp
  next
    case True
    then obtain page where page: "got = Inr page" "\<not> pp_reset page" "\<not> pp_snapshot_recommended page" by blast
    have "\<forall>e \<in> set (pp_backfill page). \<exists>x \<in> set held. snd e = entry_of (pu_json p) (pu_codec p) x"
      using peer [unfolded honest_peer_def, THEN conjunct2, rule_format, of s s1 now cursor a n known s2 t n1 page] start now got page by (auto simp: sock)
    then obtain f where f: "\<forall>e \<in> set (pp_backfill page). f e \<in> set held \<and> snd e = entry_of (pu_json p) (pu_codec p) (f e)" by metis
    then have entries: "map snd (pp_backfill page) = map (entry_of (pu_json p) (pu_codec p)) (map f (pp_backfill page))" by auto
    have dec: "decode_entries (pu_codec p) (pu_json p) (pu_peer p) (map snd (pp_backfill page)) = Inr (map f (pp_backfill page))"
      unfolding entries by (rule decode_entries_ops [OF laws(1,2)]) (use f laws(3) in auto)
    obtain s3 q3 out where adm: "ps_admit_ops sk (s2, \<lparr>qm_current = RELAY_START, qm_committed = 0\<rparr>) (pu_peer p) (map f (pp_backfill page)) False False
        (\<lambda>w _ _. (w, Inr ())) = ((s3, q3), out)" by (metis prod.collapse)
    have "s' = s3"
      using run page by (auto simp: preview_head_window_def sock Inr now hlc got dec adm Let_def split: sum.splits)
    moreover have "side_step V skip held s2 s3"
      by (rule admit_silent [OF side_step_ok [OF k2] _ adm]) (use f in auto)
    ultimately show ?thesis using side_step_trans [OF k2] by simp
  qed
qed

lemma run_preview_side:
  assumes "pu_socket p = sk" "honest_peer p V held arrived epoch" "codec_laws (pu_codec p)" "pull_codec_laws (pu_json p)"
    and "\<And>x. x \<in> set held \<Longrightarrow> op_wf x" "vw_ok V s" "length (cursor_epoch (dr_cursor d)) = 32"
    and run: "run_preview p (length arrived) (s, n, d) = (s', n', d')"
  shows "side_step V skip held s s' \<and> (\<exists>x. d' = d\<lparr>dr_preview_after := x\<rparr>)"
proof -
  obtain s1 n1 r where pre: "preview_head_window p s n (dr_cursor d) (preview_resume_after (dr_preview_after d) (length arrived)) = (s1, n1, r)"
    by (rule prod_cases3)
  have "side_step V skip held s s1" by (rule preview_side [OF assms(1-7) preview_resume_bound pre])
  moreover have "d' = d \<or> (\<exists>x. d' = d\<lparr>dr_preview_after := x\<rparr>)" "s' = s1"
    using run by (auto simp: run_preview_def pre split: sum.splits)
  moreover have "d = d\<lparr>dr_preview_after := dr_preview_after d\<rparr>" by simp
  ultimately show ?thesis by metis
qed

end

section \<open>One iteration\<close>

text \<open>
  The invariant of a drain whose cursor fits the peer's stream: the host is ready and gap free; a resume
  token repeats the cursor or a claimed op; and the last progress mark lies behind the cursor or the claims.
\<close>

definition resume_ok :: "'s sink_view \<Rightarrow> signed_op list \<Rightarrow> 's \<Rightarrow> drain \<Rightarrow> bool" where
  "resume_ok V held s d \<longleftrightarrow> (\<forall>r. dr_resume d = Some r \<longrightarrow> r = backfill_resume (cursor_after (dr_cursor d)) \<or>
     (\<exists>x \<in> set held. covered (claims V s) x \<and> r = keyed_resume (origin_of x) (Some (order_key x))))"

definition token_mark :: "resume \<Rightarrow> (nat \<times> nat \<times> string \<times> string) option" where
  "token_mark r = snd (pull_progress None (Some r))"

definition progress_ok :: "'s sink_view \<Rightarrow> signed_op list \<Rightarrow> 's \<Rightarrow> drain \<Rightarrow> bool" where
  "progress_ok V held s d \<longleftrightarrow> (\<forall>a r. dr_last_progress d = Some (a, r) \<longrightarrow> a \<le> cursor_after (dr_cursor d) \<and>
     (\<forall>x \<in> set held. r = token_mark (keyed_resume (origin_of x) (Some (order_key x))) \<longrightarrow> covered (claims V s) x))"

definition drain_inv ::
  "'s sink_view \<Rightarrow> bool \<Rightarrow> device_id \<Rightarrow> signed_op list \<Rightarrow> signed_op list \<Rightarrow> bytes \<Rightarrow> 's \<Rightarrow> drain \<Rightarrow> bool" where
  "drain_inv V skip peer held arrived epoch s d \<longleftrightarrow> vw_ok V s \<and> ready V s (set held) \<and>
     pull_safe V skip peer epoch arrived s (at_cursor epoch (dr_cursor d)) \<and> resume_ok V held s d \<and> progress_ok V held s d"

text \<open>How much of the peer is left: ops above the claims and arrivals after the cursor, and whether a token is pending.\<close>

definition drain_left :: "'s sink_view \<Rightarrow> signed_op list \<Rightarrow> signed_op list \<Rightarrow> 's \<Rightarrow> drain \<Rightarrow> nat" where
  "drain_left V held arrived s d =
     2 * (length (filter (\<lambda>x. \<not> covered (claims V s) x) held) + (length arrived - cursor_after (dr_cursor d))) +
     (if dr_resume d = None then 0 else 1)"

lemma at_cursor_after: "cur_after (at_cursor epoch cursor) = cursor_after cursor"
  by (cases cursor) (simp_all add: at_cursor_def cursor_after_def)

lemma drain_inv_side:
  assumes "drain_inv V skip peer held arrived epoch s d" "side_step V skip held s s'" "set arrived = set held"
  shows "drain_inv V skip peer held arrived epoch s' d" "drain_left V held arrived s' d = drain_left V held arrived s d"
proof -
  have "set arrived \<subseteq> set held" using assms(3) by simp
  then show "drain_inv V skip peer held arrived epoch s' d"
    using assms(1,2) pull_safe_advances [of V skip peer epoch arrived s _ held s'] side_step_ok [OF assms(2)]
    unfolding drain_inv_def side_step_def resume_ok_def progress_ok_def by (simp add: advances_def)
  show "drain_left V held arrived s' d = drain_left V held arrived s d"
    using assms(2) by (simp add: drain_left_def side_step_def)
qed

lemma uncovered_shrinks:
  assumes "\<And>k. covers cov k \<Longrightarrow> covers cov' k"
  shows "length (filter (\<lambda>x. \<not> covered cov' x) held) \<le> length (filter (\<lambda>x. \<not> covered cov x) held)"
    "x \<in> set held \<Longrightarrow> \<not> covered cov x \<Longrightarrow> covered cov' x \<Longrightarrow>
       length (filter (\<lambda>x. \<not> covered cov' x) held) < length (filter (\<lambda>x. \<not> covered cov x) held)"
  using assms by (induction held) (auto simp: less_Suc_eq_le)

lemma progress_parts:
  "pull_progress cursor (Some r) = (cursor_after cursor, token_mark r)"
  "token_mark (backfill_resume a) \<noteq> token_mark (keyed_resume d k)"
  by (simp_all add: token_mark_def pull_progress_def backfill_resume_def keyed_resume_def)

lemma keyed_token_key:
  assumes "op_wf x" "op_wf y"
    and "token_mark (keyed_resume (origin_of x) (Some (order_key x))) =
      token_mark (keyed_resume (origin_of y) (Some (order_key y)))"
  shows "order_key x = order_key y"
proof -
  have "key_wf (order_key x)" "key_wf (order_key y)" using assms(1,2) by (simp_all add: op_wf_def key_wf_def order_key_def)
  moreover have "to_wire (order_key x) = to_wire (order_key y)"
    using assms(3) by (simp add: token_mark_def pull_progress_def keyed_resume_def encode_hex_inj)
  ultimately show ?thesis by (metis from_to_wire)
qed

text \<open>An incomplete page is never taken for a stalled exchange, and leaves less to do.\<close>

lemma after_page_advances:
  assumes page: "page_spec j pc held arrived epoch (claims V s) (cursor_after (dr_cursor d)) (dr_resume d) ks m page"
    and wf: "\<And>x. x \<in> set held \<Longrightarrow> op_wf x" and before: "progress_ok V held s d"
    and mono: "\<And>k. covers (claims V s) k \<Longrightarrow> covers (claims V s') k" and claimed: "\<And>x. x \<in> set ks \<Longrightarrow> covered (claims V s') x"
    and d1: "dr_cursor d1 = Some \<lparr>cur_epoch = epoch, cur_after = cursor_after (dr_cursor d) + m\<rparr>" "dr_last_progress d1 = dr_last_progress d"
    and run: "after_page p (dr_resume d \<noteq> None) page d1 = (d2, out)"
  shows "if pp_complete page \<and> dr_resume d = None then out = Some (Inr (Applied (dr_total d1))) \<and> dr_cursor d2 = dr_cursor d1
    else out = None \<and> dr_cursor d2 = dr_cursor d1 \<and> resume_ok V held s' d2 \<and> progress_ok V held s' d2 \<and>
      dr_reset_seen d2 = dr_reset_seen d1 \<and> drain_left V held arrived s' d2 < drain_left V held arrived s d"
proof (cases "pp_resume page")
  note spec = page_specD [OF page]
  let ?a = "cursor_after (dr_cursor d)"
  have after1: "cursor_after (dr_cursor d1) = ?a + m" by (simp add: d1(1) cursor_after_def)
  note shrink = uncovered_shrinks [of "claims V s" "claims V s'", OF mono]
  {
    case None
    then have complete: "pp_complete page" by (simp add: spec(9))
    show ?thesis
    proof (cases "dr_resume d = None")
      case True
      then show ?thesis using run complete by (auto simp: after_page_def)
    next
      case False
      then have d2: "d2 = d1\<lparr>dr_resume := None\<rparr>" "out = None" using run complete by (auto simp: after_page_def)
      have "progress_ok V held s' d2"
        unfolding progress_ok_def
      proof (intro allI impI conjI ballI)
        fix a t assume "dr_last_progress d2 = Some (a, t)"
        then have old: "dr_last_progress d = Some (a, t)" by (simp add: d2(1) d1(2))
        show "a \<le> cursor_after (dr_cursor d2)" using before old after1 by (simp add: progress_ok_def d2(1) trans_le_add1)
        show "covered (claims V s') x" if "x \<in> set held" "t = token_mark (keyed_resume (origin_of x) (Some (order_key x)))" for x
          using before old that mono unfolding progress_ok_def by blast
      qed
      moreover have "drain_left V held arrived s' d2 < drain_left V held arrived s d"
        using shrink(1) [of held] False by (auto simp: drain_left_def d2(1) after1)
      ultimately show ?thesis using False d2 by (simp add: resume_ok_def)
    qed
  next
    case (Some r)
    have kind: "r = keyed_resume (origin_of (last ks)) (Some (order_key (last ks))) \<and> ks \<noteq> [] \<and> m = 0 \<or> r = backfill_resume (?a + m) \<and> 0 < m"
      by (rule spec(18) [OF Some])
    have last: "last ks \<in> set held" "\<not> covered (claims V s) (last ks)" "covered (claims V s') (last ks)" if "ks \<noteq> []"
      using that spec(13,14) claimed by (auto simp: last_in_set)
    let ?progress = "pull_progress (dr_cursor d1) (Some r)"
    have fresh: "dr_last_progress d \<noteq> Some ?progress"
    proof
      assume "dr_last_progress d = Some ?progress"
      then have "dr_last_progress d = Some (?a + m, token_mark r)" unfolding progress_parts(1) after1 .
      note old = before [unfolded progress_ok_def, rule_format, OF this]
      have m: "m = 0" using old by simp
      then have "r = keyed_resume (origin_of (last ks)) (Some (order_key (last ks)))" "ks \<noteq> []" using kind by blast+
      then show False using old last by blast
    qed
    have d2: "d2 = d1\<lparr>dr_resume := Some r, dr_stalled := 0, dr_last_progress := Some ?progress\<rparr>" "out = None"
      using run fresh Some spec(9) d1(2) by (simp_all add: after_page_def Let_def)
    have resume: "resume_ok V held s' d2"
      using kind last after1 by (auto simp: resume_ok_def d2(1))
    have "progress_ok V held s' d2"
      unfolding progress_ok_def
    proof (intro allI impI conjI ballI)
      fix a t assume t: "dr_last_progress d2 = Some (a, t)"
      then have a: "a = ?a + m" "t = token_mark r" by (simp_all add: d2(1) progress_parts(1) after1)
      show "a \<le> cursor_after (dr_cursor d2)" using a(1) after1 by (simp add: d2(1))
      show "covered (claims V s') x" if "x \<in> set held" "t = token_mark (keyed_resume (origin_of x) (Some (order_key x)))" for x
        using kind
      proof
        assume k: "r = keyed_resume (origin_of (last ks)) (Some (order_key (last ks))) \<and> ks \<noteq> [] \<and> m = 0"
        then have "order_key x = order_key (last ks)"
          using that a(2) by (intro keyed_token_key [OF wf wf]) (auto simp: last)
        then show ?thesis using last k by simp
      next
        assume "r = backfill_resume (?a + m) \<and> 0 < m"
        then show ?thesis using that(2) a(2) progress_parts(2) by metis
      qed
    qed
    moreover have "drain_left V held arrived s' d2 < drain_left V held arrived s d"
    proof -
      have "length (filter (\<lambda>x. \<not> covered (claims V s') x) held) + (length arrived - (?a + m)) <
          length (filter (\<lambda>x. \<not> covered (claims V s) x) held) + (length arrived - ?a)"
        using kind
      proof
        assume "r = keyed_resume (origin_of (last ks)) (Some (order_key (last ks))) \<and> ks \<noteq> [] \<and> m = 0"
        then show ?thesis using shrink(2) [of "last ks" held] last by simp
      next
        assume "r = backfill_resume (?a + m) \<and> 0 < m"
        then show ?thesis using shrink(1) [of held] spec(10) by linarith
      qed
      then show ?thesis by (simp add: drain_left_def d2(1) after1)
    qed
    ultimately show ?thesis using d2 resume spec(9) Some by simp
  }
qed

text \<open>Nothing is left: the cursor stands at the head, and every op of the peer is claimed and settled.\<close>

definition drained :: "'s sink_view \<Rightarrow> bool \<Rightarrow> device_id \<Rightarrow> signed_op list \<Rightarrow> signed_op list \<Rightarrow> bytes \<Rightarrow> 's \<Rightarrow> drain \<Rightarrow> bool" where
  "drained V skip peer held arrived epoch s d \<longleftrightarrow> vw_ok V s \<and> ready V s (set held) \<and>
     dr_cursor d = Some \<lparr>cur_epoch = epoch, cur_after = length arrived\<rparr> \<and> stored_safe V skip peer epoch arrived s \<and>
     (\<forall>x \<in> set held. covered (claims V s) x \<and> settles V skip s x)"

lemma drained_at_end:
  assumes "pull_safe V skip peer epoch arrived s \<lparr>cur_epoch = epoch, cur_after = length arrived\<rparr>" "set arrived = set held"
    and "vw_ok V s" "ready V s (set held)" "dr_cursor d = Some \<lparr>cur_epoch = epoch, cur_after = length arrived\<rparr>"
    and "\<And>x. x \<in> set held \<Longrightarrow> covered (claims V s) x"
  shows "drained V skip peer held arrived epoch s d"
proof -
  have "settles V skip s x" if "x \<in> set held" for x
  proof -
    have "x \<in> set arrived" using that assms(2) by simp
    then obtain i where "i < length arrived" "arrived ! i = x" unfolding in_set_conv_nth by blast
    then show ?thesis using assms(1,6) that unfolding pull_safe_def no_gap_def by auto
  qed
  then show ?thesis using assms by (simp add: drained_def pull_safe_def)
qed

lemma drain_inv_epoch: "drain_inv V skip peer held arrived epoch s d \<Longrightarrow> length epoch = 32 \<Longrightarrow> length (cursor_epoch (dr_cursor d)) = 32"
  by (auto simp: drain_inv_def pull_safe_def at_cursor_def cursor_epoch_def zero_epoch_def split: option.splits)

context pull_sink
begin

lemma preview_part:
  assumes "pu_socket p = sk" "honest_peer p V held arrived epoch" "codec_laws (pu_codec p)" "pull_codec_laws (pu_json p)"
    and "\<And>x. x \<in> set held \<Longrightarrow> op_wf x" "vw_ok V s" "length (cursor_epoch (dr_cursor d)) = 32" "pp_head_seq page = length arrived"
    and "(if due \<and> \<not> pp_complete page then
            (case net_instant (pu_net p) n of
               (n, now) \<Rightarrow> let d = d\<lparr>dr_last_preview := Some now\<rparr> in
                 if pp_head_seq page - cursor_after (dr_cursor d) > NEWEST_FIRST_PREVIEW_GAP
                 then run_preview p (pp_head_seq page) (s, n, d) else (s, n, d))
          else (s, n, d)) = (s', n', d')"
  shows "side_step V skip held s s' \<and> dr_cursor d' = dr_cursor d \<and> dr_total d' = dr_total d \<and> dr_last_progress d' = dr_last_progress d \<and>
    dr_reset_seen d' = dr_reset_seen d"
proof -
  have pre: "side_step V skip held s t \<and> (\<exists>x. e = d\<lparr>dr_last_preview := Some now, dr_preview_after := x\<rparr>)"
    if "run_preview p (length arrived) (s, n1, d\<lparr>dr_last_preview := Some now\<rparr>) = (t, n2, e)" for n1 n2 now t e
    using run_preview_side [OF assms(1-6) _ that] assms(7) by simp
  show ?thesis
    using assms(9) pre side_step_refl [OF assms(6)] unfolding assms(8) by (fastforce simp: Let_def split: if_splits prod.splits)
qed

lemma data_step:
  assumes sock: "pu_socket p = sk" and peer: "honest_peer p V held arrived epoch"
    and laws: "codec_laws (pu_codec p)" "pull_codec_laws (pu_json p)" "\<And>x. x \<in> set held \<Longrightarrow> op_wf x" "length epoch = 32" "set arrived = set held"
    and inv: "drain_inv V skip (pu_peer p) held arrived epoch s d"
    and page: "page_spec (pu_json p) (pu_codec p) held arrived epoch (claims V s) (cursor_after (dr_cursor d)) (dr_resume d) ks m page"
    and run: "on_data p skip (dr_resume d \<noteq> None) page (s, n, d) = ((s', n', d'), out)"
  shows "(\<exists>t. out = Some (Inr (Applied t))) \<and> drained V skip (pu_peer p) held arrived epoch s' d' \<or>
    out = None \<and> drain_inv V skip (pu_peer p) held arrived epoch s' d' \<and> drain_left V held arrived s' d' < drain_left V held arrived s d"
proof -
  note spec = page_specD [OF page]
  have inv': "vw_ok V s" "ready V s (set held)" "pull_safe V skip (pu_peer p) epoch arrived s (at_cursor epoch (dr_cursor d))" "progress_ok V held s d"
    using inv unfolding drain_inv_def by blast+
  obtain s1 cur1 r1 where app: "apply_pull_page (pu_codec p) (pu_json p) sk (pu_peer p) (dr_cursor d) page skip s = (s1, cur1, r1)"
    by (rule prod_cases3)
  have one: "advances V skip held s s1 \<and> pull_safe V skip (pu_peer p) epoch arrived s1 (at_cursor epoch cur1) \<and>
      cursor_after (dr_cursor d) \<le> cur_after (at_cursor epoch cur1) \<and>
      (\<forall>n. r1 = Inr n \<longrightarrow> cur1 = Some \<lparr>cur_epoch = epoch, cur_after = cursor_after (dr_cursor d) + m\<rparr>) \<and>
      (ready V s (set held) \<longrightarrow> (\<exists>n. r1 = Inr n) \<and> (\<forall>x \<in> set ks. covered (claims V s1) x))"
    by (rule apply_page_safe [OF laws page inv'(1,3) at_cursor_after app])
  then obtain k where r1: "r1 = Inr k" and cur1: "cur1 = Some \<lparr>cur_epoch = epoch, cur_after = cursor_after (dr_cursor d) + m\<rparr>"
      and ks: "\<forall>x \<in> set ks. covered (claims V s1) x" using inv'(2) by blast
  let ?d1 = "d\<lparr>dr_cursor := cur1, dr_total := dr_total d + k, dr_pages := dr_pages d + 1\<rparr>"
  let ?s2 = "ps_on_page_applied sk s1 (pu_peer p) page (dr_pages ?d1) (dr_total ?d1)"
  have ok1: "vw_ok V s1" using one unfolding advances_def by blast
  have side2: "side_step V skip held s1 ?s2" by (rule side_step_keeps [OF sink_applied [OF ok1]])
  obtain n2 due where due: "preview_due (pu_net p) n (dr_last_preview ?d1) = (n2, due)" by fastforce
  obtain s3 n3 d3 where pre: "(if due \<and> \<not> pp_complete page then
            (case net_instant (pu_net p) n2 of
               (n, now) \<Rightarrow> let d = ?d1\<lparr>dr_last_preview := Some now\<rparr> in
                 if pp_head_seq page - cursor_after (dr_cursor d) > NEWEST_FIRST_PREVIEW_GAP
                 then run_preview p (pp_head_seq page) (?s2, n, d) else (?s2, n, d))
          else (?s2, n2, ?d1)) = (s3, n3, d3)" by (rule prod_cases3)
  have ep: "length (cursor_epoch (dr_cursor ?d1)) = 32" using cur1 laws(4) by (simp add: cursor_epoch_def)
  note pp = preview_part [OF sock peer laws(1,2,3) side_step_ok [OF side2] ep spec(8) pre]
  have side3: "side_step V skip held s1 s3" using side_step_trans [OF side2] pp by blast
  obtain d4 out4 where after: "after_page p (dr_resume d \<noteq> None) page d3 = (d4, out4)" by fastforce
  have fin: "s' = s3" "d' = d4" "out = out4"
    using run unfolding on_data_def Let_def prod.case sock app r1 sum.case due pre [unfolded Let_def] after by simp_all
  have mono: "covers (claims V s3) k" if "covers (claims V s) k" for k using one side3 that unfolding advances_def side_step_def by simp
  have ks3: "covered (claims V s3) x" if "x \<in> set ks" for x using ks side3 that unfolding side_step_def by simp
  have d3: "dr_cursor d3 = Some \<lparr>cur_epoch = epoch, cur_after = cursor_after (dr_cursor d) + m\<rparr>" "dr_last_progress d3 = dr_last_progress d"
    using pp cur1 by simp_all
  note ap = after_page_advances [OF page laws(3) inv'(4) mono ks3 d3 after]
  have ok3: "vw_ok V s3" "ready V s3 (set held)" using side3 one inv'(2) unfolding side_step_def advances_def by blast+
  have "pull_safe V skip (pu_peer p) epoch arrived s3 (at_cursor epoch cur1)"
    using pull_safe_advances [of V skip "pu_peer p" epoch arrived s1 "at_cursor epoch cur1" held s3] one side3 laws(5) unfolding side_step_def by simp
  then have safe3: "pull_safe V skip (pu_peer p) epoch arrived s3 \<lparr>cur_epoch = epoch, cur_after = cursor_after (dr_cursor d) + m\<rparr>"
    unfolding cur1 at_cursor_def option.case .
  show ?thesis
  proof (cases "pp_complete page \<and> dr_resume d = None")
    case True
    then have none: "pp_resume page = None" "dr_resume d = None" by (simp_all add: spec(9))
    have cov: "covered (claims V s3) x" if "x \<in> set held" for x
      using mono ks3 spec(17) [OF none that] by blast
    have "drained V skip (pu_peer p) held arrived epoch s3 d4"
      by (rule drained_at_end [OF _ laws(5) ok3 _ cov]) (use safe3 ap True d3 spec(16) [OF none(1)] in simp_all)
    then show ?thesis using ap True fin by auto
  next
    case False
    then have "out4 = None" "dr_cursor d4 = dr_cursor d3" "resume_ok V held s3 d4" "progress_ok V held s3 d4"
        "drain_left V held arrived s3 d4 < drain_left V held arrived s d"
      using ap by (simp_all split: if_splits)
    then show ?thesis using fin ok3 safe3 d3(1) by (simp add: drain_inv_def at_cursor_def)
  qed
qed

end

section \<open>The drain ends\<close>

lemma resume_ok_claimed:
  assumes "resume_ok V held s d" "\<And>x. x \<in> set held \<Longrightarrow> op_wf x"
  shows "resume_claimed (claims V s) (resume_in Keyed (drain_request cov cursor (dr_resume d) a now))"
    "resume_in Backfill (drain_request cov cursor (dr_resume d) a now) = Some r \<Longrightarrow> rsm_after_seq r = cursor_after (dr_cursor d)"
proof -
  show "resume_claimed (claims V s) (resume_in Keyed (drain_request cov cursor (dr_resume d) a now))"
    unfolding resume_claimed_def
  proof (intro allI impI)
    fix r e k assume r: "resume_in Keyed (drain_request cov cursor (dr_resume d) a now) = Some r" "ok (from_hex (rsm_origin r)) = Some e"
      "decode_order_key (rsm_after_key r) = Some k"
    then have "dr_resume d = Some r" "rsm_phase r = Keyed" by (auto simp: resume_in_def drain_request_def split: option.splits if_splits)
    then obtain x where x: "x \<in> set held" "covered (claims V s) x" "r = keyed_resume (origin_of x) (Some (order_key x))"
      using assms(1) by (auto simp: resume_ok_def backfill_resume_def)
    have wf: "device_wf (origin_of x)" "key_wf (order_key x)" using assms(2) [OF x(1)] by (simp_all add: op_wf_def key_wf_def order_key_def)
    have "e = origin_of x" "k = order_key x"
      using r(2,3) from_hex_to_hex [OF wf(1)] decode_encode_order_key [OF wf(2)] by (simp_all add: x(3) keyed_resume_def encode_order_key_def)
    then show "\<exists>claim. map_of (claims V s) e = Some claim \<and> k \<le> claim" using x(2) by (auto simp: covers_def split: option.splits)
  qed
  show "rsm_after_seq r = cursor_after (dr_cursor d)" if "resume_in Backfill (drain_request cov cursor (dr_resume d) a now) = Some r"
  proof -
    have "dr_resume d = Some r" "rsm_phase r = Backfill" using that by (auto simp: resume_in_def drain_request_def split: option.splits if_splits)
    then show ?thesis using assms(1) by (auto simp: resume_ok_def keyed_resume_def backfill_resume_def)
  qed
qed

lemma fitting_cursor:
  assumes "pull_safe V skip peer epoch arrived s (at_cursor epoch cursor)"
  shows "\<not> pull_needs_reset (cursor_epoch cursor) (cursor_after cursor) (full_stream epoch arrived)" "cursor_after cursor \<le> length arrived"
  using assms by (auto simp: pull_safe_def at_cursor_def cursor_epoch_def cursor_after_def pull_needs_reset_def full_stream_def split: option.splits)

lemma drain_step_page:
  assumes "ps_local_coverage (pu_socket p) s = Inr cov" "ps_now_ms (pu_socket p) s = (s1, now)"
    and "exchange p s1 n (drain_request cov (dr_cursor d) (dr_resume d) audit now) = (s2, n2, Inr (200, bs))"
    and "verify_pull_page (pu_crypto p) (pu_codec p) (pu_json p) bs (pu_peer p) (pu_sec1 p) = Inr page" "decode_epoch (pp_epoch page) = Some e"
  shows "drain_step p audit skip (s, n, d) =
    (if pp_snapshot_recommended page then on_snapshot p page (s2, n2, d)
     else if pp_reset page then on_reset p (drain_request cov (dr_cursor d) (dr_resume d) audit now) page e (s2, n2, d)
     else on_data p skip (dr_resume d \<noteq> None) page (s2, n2, d))"
  using assms by (simp add: drain_step_def Let_def)

context pull_sink
begin

lemma inv_step:
  assumes sock: "pu_socket p = sk" and peer: "honest_peer p V held arrived epoch"
    and laws: "codec_laws (pu_codec p)" "pull_codec_laws (pu_json p)" "\<And>x. x \<in> set held \<Longrightarrow> op_wf x" "length epoch = 32" "set arrived = set held"
    and inv: "drain_inv V skip (pu_peer p) held arrived epoch s d"
    and run: "drain_step p False skip (s, n, d) = ((s', n', d'), out)"
  shows "(\<exists>t. out = Some (Inr (Applied t))) \<and> drained V skip (pu_peer p) held arrived epoch s' d' \<or>
    out = None \<and> drain_inv V skip (pu_peer p) held arrived epoch s' d' \<and> drain_left V held arrived s' d' < drain_left V held arrived s d"
proof -
  have inv': "vw_ok V s" "pull_safe V skip (pu_peer p) epoch arrived s (at_cursor epoch (dr_cursor d))" "resume_ok V held s d"
    using inv unfolding drain_inv_def by blast+
  obtain s1 now where now: "ps_now_ms sk s = (s1, now)" by fastforce
  let ?rq = "drain_request (claims V s) (dr_cursor d) (dr_resume d) False now" and ?s2 = "fst (ps_next_hlc sk s1)"
  note rs = resume_ok_claimed [OF inv'(3) laws(3)]
  obtain n2 bs page ks m where ex: "exchange p s1 n ?rq = (?s2, n2, Inr (200, bs))"
      "verify_pull_page (pu_crypto p) (pu_codec p) (pu_json p) bs (pu_peer p) (pu_sec1 p) = Inr page"
      "page_spec (pu_json p) (pu_codec p) held arrived epoch (claims V s) (cursor_after (dr_cursor d)) (dr_resume d) ks m page"
    using peer [unfolded honest_peer_def, THEN conjunct1, rule_format, of s s1 now "claims V s" "dr_cursor d" ?rq "dr_resume d" n]
      inv'(1) now sink_claims [OF inv'(1)] drain_inv_epoch [OF inv laws(4)] fitting_cursor [OF inv'(2)] rs
    unfolding sock by auto
  note spec = page_specD [OF ex(3)]
  have k1: "side_step V skip held s s1" by (rule side_step_keeps [OF sink_now [OF inv'(1) now]])
  have "keeps_all V s1 ?s2" using sink_hlc [OF side_step_ok [OF k1]] by (metis prod.collapse)
  then have k2: "side_step V skip held s ?s2" by (rule side_step_trans [OF k1 side_step_keeps])
  note at2 = drain_inv_side [OF inv k2 laws(5)]
  have page2: "page_spec (pu_json p) (pu_codec p) held arrived epoch (claims V ?s2) (cursor_after (dr_cursor d)) (dr_resume d) ks m page"
    using ex(3) k2 unfolding side_step_def by simp
  have ep: "decode_epoch (pp_epoch page) = Some epoch" unfolding spec(5) by (rule decode_epoch_hex [OF laws(4)])
  have "on_data p skip (dr_resume d \<noteq> None) page (?s2, n2, d) = ((s', n', d'), out)"
    using run drain_step_page [of p s "claims V s" s1 now n d False ?s2 n2 bs page epoch skip] spec(6,7) now ex(1,2) ep sink_coverage [OF inv'(1)]
    by (simp add: sock)
  from data_step [OF sock peer laws at2(1) page2 this] show ?thesis unfolding at2(2) .
qed

lemma inv_loop:
  assumes "pu_socket p = sk" "honest_peer p V held arrived epoch" "codec_laws (pu_codec p)" "pull_codec_laws (pu_json p)"
    and "\<And>x. x \<in> set held \<Longrightarrow> op_wf x" "length epoch = 32" "set arrived = set held"
    and "drain_inv V skip (pu_peer p) held arrived epoch s d"
  shows "\<exists>s' n' d' t. drain_loop p False skip (s, n, d) = Some ((s', n', d'), Inr (Applied t)) \<and>
    drained V skip (pu_peer p) held arrived epoch s' d'"
  using assms(8)
proof (induction "drain_left V held arrived s d" arbitrary: s n d rule: less_induct)
  case less
  obtain s1 n1 d1 out where step: "drain_step p False skip (s, n, d) = ((s1, n1, d1), out)" by (metis prod.collapse)
  note unfold = drain_loop.simps [of p False skip "(s, n, d)", unfolded step prod.case]
  from inv_step [OF assms(1-7) less.prems step] show ?case
  proof
    assume "(\<exists>t. out = Some (Inr (Applied t))) \<and> drained V skip (pu_peer p) held arrived epoch s1 d1"
    then show ?thesis unfolding unfold by auto
  next
    assume more: "out = None \<and> drain_inv V skip (pu_peer p) held arrived epoch s1 d1 \<and> drain_left V held arrived s1 d1 < drain_left V held arrived s d"
    then show ?thesis using less.hyps [of s1 d1 n1] unfolding unfold by simp
  qed
qed

text \<open>A cursor that does not fit is replaced by the start of the peer's stream, once.\<close>

lemma reset_step:
  assumes sock: "pu_socket p = sk" and peer: "honest_peer p V held arrived epoch" and len: "length epoch = 32" "length (cursor_epoch cursor) = 32"
    and start: "vw_ok V s" "ready V s (set held)"
    and reset: "pull_needs_reset (cursor_epoch cursor) (cursor_after cursor) (full_stream epoch arrived)"
  shows "\<exists>s' n' d'. drain_step p False skip (s, n, drain_start cursor) = ((s', n', d'), None) \<and>
    drain_inv V skip (pu_peer p) held arrived epoch s' d'"
proof -
  obtain s1 now where now: "ps_now_ms sk s = (s1, now)" by fastforce
  let ?rq = "drain_request (claims V s) cursor None False now" and ?s2 = "fst (ps_next_hlc sk s1)"
  let ?page = "reset_pull_page (full_stream epoch arrived)" and ?cur = "\<lparr>cur_epoch = epoch, cur_after = 0\<rparr>"
  obtain n2 bs where ex: "exchange p s1 n ?rq = (?s2, n2, Inr (200, bs))"
      "verify_pull_page (pu_crypto p) (pu_codec p) (pu_json p) bs (pu_peer p) (pu_sec1 p) = Inr ?page"
    using peer [unfolded honest_peer_def, THEN conjunct1, rule_format, of s s1 now "claims V s" cursor ?rq None n]
      start(1) now sink_claims [OF start(1)] len(2) reset unfolding sock by auto
  have ok1: "keeps_all V s s1" by (rule sink_now [OF start(1) now])
  then have "vw_ok V s1" by (simp add: keeps_all_def keeps_ops_def)
  then have "keeps_all V s1 ?s2" using sink_hlc by (metis prod.collapse)
  then have ok2: "vw_ok V ?s2" "ready V ?s2 (set held)" using ok1 start(2) by (auto simp: keeps_all_def keeps_ops_def le_fun_def le_bool_def)
  obtain s3 r where commit: "ps_commit_pull_reset sk ?s2 (pu_peer p) ?cur = (s3, r)" by fastforce
  note law = sink_reset [OF ok2(1) commit, of "set held"]
  have "validate_pull_reset ?rq ?page epoch = Inr ?cur"
    using reset decode_epoch_hex [OF len(2)] by (simp add: validate_pull_reset_def reset_pull_page_def full_stream_def drain_request_def)
  then have "persist_pull_reset sk ?s2 (pu_peer p) ?rq ?page epoch = (s3, Inr ?cur)"
    using commit law ok2(2) by (simp add: persist_pull_reset_def)
  then have "drain_step p False skip (s, n, drain_start cursor) =
      ((s3, n2, (drain_start cursor)\<lparr>dr_reset_seen := True, dr_cursor := Some ?cur, dr_resume := None\<rparr>), None)"
    using drain_step_page [of p s "claims V s" s1 now n "drain_start cursor" False ?s2 n2 bs ?page epoch skip] now ex sink_coverage [OF start(1)]
      decode_epoch_hex [OF len(1)]
    by (simp add: sock drain_start_def on_reset_def reset_pull_page_def full_stream_def)
  moreover have "stored V s3 = (stored V ?s2)(pu_peer p \<mapsto> ?cur)" "vw_ok V s3" "ready V s3 (set held)"
    using law ok2(2) by (auto simp: keeps_ops_def le_fun_def le_bool_def)
  ultimately show ?thesis
    by (auto simp: drain_inv_def pull_safe_def at_cursor_def no_gap_def stored_safe_def resume_ok_def progress_ok_def drain_start_def)
qed

text \<open>A stored or given cursor a drain can start from: none, or one of some stream, gap free if it is the peer's.\<close>

lemma drain_ends:
  assumes base: "pu_socket p = sk" "honest_peer p V held arrived epoch" "codec_laws (pu_codec p)" "pull_codec_laws (pu_json p)"
      "\<And>x. x \<in> set held \<Longrightarrow> op_wf x" "length epoch = 32" "set arrived = set held"
    and start: "vw_ok V s" "ready V s (set held)" "stored_safe V skip (pu_peer p) epoch arrived s"
    and cursor: "\<And>cur. cursor = Some cur \<Longrightarrow> length (cur_epoch cur) = 32 \<and> cur_epoch cur \<noteq> zero_epoch \<and>
      (cur_epoch cur = epoch \<longrightarrow> no_gap V skip arrived (cur_after cur) s)"
  shows "\<exists>s' n' d' t. drain_pull_pages p cursor False skip s n = Some ((s', n', d'), Inr (Applied t)) \<and>
    drained V skip (pu_peer p) held arrived epoch s' d'"
proof (cases "pull_needs_reset (cursor_epoch cursor) (cursor_after cursor) (full_stream epoch arrived)")
  case True
  have len: "length (cursor_epoch cursor) = 32" using cursor by (cases cursor) (simp_all add: cursor_epoch_def zero_epoch_def)
  from reset_step [OF base(1,2,6) len start(1,2) True] obtain s1 n1 d1 where
      step: "drain_step p False skip (s, n, drain_start cursor) = ((s1, n1, d1), None)" "drain_inv V skip (pu_peer p) held arrived epoch s1 d1"
    by blast
  have "drain_pull_pages p cursor False skip s n = drain_loop p False skip (s1, n1, d1)"
    unfolding drain_pull_pages_def using drain_loop.simps [of p False skip "(s, n, drain_start cursor)"] step(1) by simp
  then show ?thesis using inv_loop [OF base step(2)] by simp
next
  case False
  have "pull_safe V skip (pu_peer p) epoch arrived s (at_cursor epoch cursor)"
  proof (cases cursor)
    case None
    then show ?thesis using start(3) by (simp add: pull_safe_def at_cursor_def no_gap_def)
  next
    case (Some cur)
    then have "cur_epoch cur = epoch" "cur_after cur \<le> length arrived"
      using False cursor [OF Some] by (auto simp: pull_needs_reset_def cursor_epoch_def cursor_after_def full_stream_def)
    then show ?thesis using Some cursor [OF Some] start(3) by (simp add: pull_safe_def at_cursor_def)
  qed
  then have "drain_inv V skip (pu_peer p) held arrived epoch s (drain_start cursor)"
    using start by (simp add: drain_inv_def resume_ok_def progress_ok_def drain_start_def)
  from inv_loop [OF base this] show ?thesis unfolding drain_pull_pages_def .
qed

end

section \<open>The HTTP server as a peer\<close>

text \<open>
  A network that delivers every request to one server and every reply back; \<open>unix n\<close> and \<open>unix' n\<close> are the
  server's clock readings for the \<open>n\<close>-th event, \<open>instants n\<close> the client's monotonic clock.
\<close>

definition served_net ::
  "('sk, 'vk, 'sg) crypto \<Rightarrow> codec \<Rightarrow> pull_codec \<Rightarrow> (op_error \<Rightarrow> string) \<Rightarrow> (nat \<Rightarrow> nat) \<Rightarrow> (nat \<Rightarrow> nat) \<Rightarrow> (nat \<Rightarrow> nat) \<Rightarrow>
   ('sk, 'vk) serve_state \<Rightarrow> nat pull_net" where
  "served_net c pc j shown unix unix' instants st =
     \<lparr>net_post = (\<lambda>n body. (Suc n, Inr
        (case snd (post_pull c pc j shown (serve_handler j (unix n) (unix' n) st) st body) of
           Inl status \<Rightarrow> \<lparr>pr_status = status_code status, pr_content_length = None, pr_body = Inr []\<rparr>
         | Inr reply \<Rightarrow> \<lparr>pr_status = 200, pr_content_length = Some (length (resp_body reply)), pr_body = Inr (resp_body reply)\<rparr>))),
      net_instant = (\<lambda>n. (Suc n, instants n))\<rparr>"

text \<open>The pages a drain can get from a log are within the client's cap once sealed.\<close>

definition pages_fit :: "('sk, 'vk, 'sg) crypto \<Rightarrow> codec \<Rightarrow> pull_codec \<Rightarrow> ('sk, 'vk) device_identity \<Rightarrow> op_log \<Rightarrow> bool" where
  "pages_fit c pc j identity log \<longleftrightarrow>
     (\<forall>page t bs. page = reset_pull_page (relay_state log) \<or>
        (\<exists>claims after resume ks m. page_spec j pc (log_iter log) (arrivals log) (relay_epoch log) claims after resume ks m page) \<longrightarrow>
      seal_pull_page c pc j page identity t = Inr bs \<longrightarrow> length bs \<le> MAX_PULL_RESPONSE_BYTES)"

definition node_puller ::
  "('sk, 'vk, 'sg) crypto \<Rightarrow> codec \<Rightarrow> pull_codec \<Rightarrow> ('h, 'i) clock_impl \<Rightarrow> ('s, 'o, 'e) store_impl \<Rightarrow> 'sk \<Rightarrow> 'sk \<Rightarrow> 'n pull_net \<Rightarrow>
   (('h, 's, 'vk) pull_node, 'n, 'sk, 'vk, 'sg, socket_error) puller" where
  "node_puller c pc j ck impl skc sks net =
     \<lparr>pu_crypto = c, pu_codec = pc, pu_json = j, pu_socket = oplog_socket c pc ck impl (from_signing c skc), pu_net = net,
      pu_peer = device_id_of c (sk_verifying c sks), pu_sec1 = public_key_sec1 c (from_signing c sks)\<rparr>"

lemma node_puller_simps [simp]:
  "pu_crypto (node_puller c pc j ck impl skc sks net) = c" "pu_codec (node_puller c pc j ck impl skc sks net) = pc"
  "pu_json (node_puller c pc j ck impl skc sks net) = j" "pu_net (node_puller c pc j ck impl skc sks net) = net"
  "pu_socket (node_puller c pc j ck impl skc sks net) = oplog_socket c pc ck impl (from_signing c skc)"
  "pu_peer (node_puller c pc j ck impl skc sks net) = device_id_of c (sk_verifying c sks)"
  "pu_sec1 (node_puller c pc j ck impl skc sks net) = public_key_sec1 c (from_signing c sks)"
  by (simp_all add: node_puller_def)

context pull_source
begin

lemma preview_entries:
  assumes "inv l" "decode_epoch (pq_relay_epoch request) = Some e"
    and "\<not> pull_needs_reset e (pq_relay_after request) (full_stream (epoch l) (arrived l))"
    and "pq_store request = None" "\<not> pq_audit request" "resume_in Backfill request = Some r" "rsm_after_seq r \<le> length (arrived l)"
    and "build_pull_page j sk (state l) peer request = Inr page"
  shows "\<forall>x \<in> set (pp_backfill page). \<exists>y \<in> set (held l). snd x = entry_of j pc y"
proof -
  have limit: "0 < clamp_limit request" by (auto simp: clamp_limit_def PULL_PAGE_LIMIT_MAX_def PAGE_LIMIT_MAX_def)
  from backfill_page_raw [OF assms(1) limit, of j "full_stream (epoch l) (arrived l)" "decode_coverage request" "[]" "rsm_after_seq r"]
  obtain m token where m: "rsm_after_seq r + m \<le> length (arrived l)"
      "page = data_page (full_stream (epoch l) (arrived l)) (map (\<lambda>i. (Suc i, entry_of j pc (arrived l ! i)))
         (filter (\<lambda>i. covered (decode_coverage request) (arrived l ! i)) [rsm_after_seq r..<rsm_after_seq r + m])) [] (rsm_after_seq r + m) token None"
    using assms(7,8) unfolding page_unfold [OF assms(1-5)] assms(6) option.case by auto
  have "arrived l ! i \<in> set (held l)" if "i < rsm_after_seq r + m" for i
    using that m(1) sk_arrived [OF assms(1)] nth_mem [of i "arrived l"] by simp
  then show ?thesis unfolding m(2) data_page_def by auto
qed

end

lemma served_exchange:
  assumes laws: "sha_laws c" "sec1_laws c" "ecdsa_laws c" "codec_laws pc" "pull_codec_laws j"
    and server: "sv_identity st = from_signing c sks" "sv_log st = log_as_source pc log" "log_ok log"
      "db_try_key_for_device (sv_relay_callers st) (device_id_of c (sk_verifying c skc)) = Inr (Some (public_key_sec1 c (from_signing c skc)))"
    and request: "bt_ok (pq_coverage request)" "pq_version request = PULL_VERSION"
      "\<bar>as_i64 (unix n) - pq_issued_at_ms request\<bar> \<le> MAX_REQUEST_SKEW_MS" "decode_epoch (pq_relay_epoch request) = Some e"
  shows "\<exists>body bs page. sign_pull_request c pc j request (from_signing c skc) t = Inr body \<and>
    pull_bytes (served_net c pc j shown unix unix' instants st) n body = (Suc n, if length bs \<le> MAX_PULL_RESPONSE_BYTES then Inr (200, bs) else Inl TWire) \<and>
    verify_pull_page c pc j bs (device_id_of c (sk_verifying c sks)) (public_key_sec1 c (from_signing c sks)) = Inr page \<and>
    seal_pull_page c pc j page (from_signing c sks) (default_next_hlc (as_i64 (unix' n))) = Inr bs \<and>
    (if pull_needs_reset e (pq_relay_after request) (relay_state log) then page = reset_pull_page (relay_state log)
     else build_pull_page j (serve_socket (unix n)) st (device_id_of c (sk_verifying c skc)) request = Inr page)"
proof -
  obtain body bs page where ex: "sign_pull_request c pc j request (from_signing c skc) t = Inr body"
      "post_pull c pc j shown (serve_handler j (unix n) (unix' n) st) st body = (st, Inr (octet bs))"
      "verify_pull_page c pc j bs (device_id_of c (sk_verifying c sks)) (public_key_sec1 c (from_signing c sks)) = Inr page"
      "seal_pull_page c pc j page (from_signing c sks) (default_next_hlc (as_i64 (unix' n))) = Inr bs"
      "if pull_needs_reset e (pq_relay_after request) (relay_state log) then page = reset_pull_page (relay_state log)
       else build_pull_page j (serve_socket (unix n)) st (device_id_of c (sk_verifying c skc)) request = Inr page"
    using pull_exchange [OF laws server request, of t shown "unix' n"] by blast
  have "pull_bytes (served_net c pc j shown unix unix' instants st) n body =
      (Suc n, if length bs \<le> MAX_PULL_RESPONSE_BYTES then Inr (200, bs) else Inl TWire)"
    by (simp add: pull_bytes_def served_net_def ex(2) octet_def)
  with ex show ?thesis by blast
qed

text \<open>The served side of one exchange of a drain, and of a preview.\<close>

lemma served_drain_reply:
  assumes laws: "sha_laws c" "sec1_laws c" "ecdsa_laws c" "codec_laws pc" "pull_codec_laws j"
    and server: "sv_identity st = from_signing c sks" "sv_log st = log_as_source pc log" "log_ok log"
      "db_try_key_for_device (sv_relay_callers st) (device_id_of c (sk_verifying c skc)) = Inr (Some (public_key_sec1 c (from_signing c skc)))"
      "pages_fit c pc j (from_signing c sks) log"
    and skew: "\<bar>as_i64 (unix n) - now\<bar> \<le> MAX_REQUEST_SKEW_MS"
    and ask: "coverage_ok cov" "length (cursor_epoch cursor) = 32" "request = drain_request cov cursor resume False now"
    and can: "pull_needs_reset (cursor_epoch cursor) (cursor_after cursor) (relay_state log) \<or>
      resume_claimed cov (resume_in Keyed request) \<and> (\<forall>r. resume_in Backfill request = Some r \<longrightarrow> rsm_after_seq r = cursor_after cursor) \<and>
      cursor_after cursor \<le> length (arrivals log)"
    and p: "p = node_puller c pc j ck impl skc sks (served_net c pc j shown unix unix' instants st)"
  shows "\<exists>bs page. exchange p s n request = (fst (ps_next_hlc (pu_socket p) s), Suc n, Inr (200, bs)) \<and>
    verify_pull_page c pc j bs (pu_peer p) (pu_sec1 p) = Inr page \<and>
    (if pull_needs_reset (cursor_epoch cursor) (cursor_after cursor) (relay_state log) then page = reset_pull_page (relay_state log)
     else \<exists>ks m. page_spec j pc (log_iter log) (arrivals log) (relay_epoch log) cov (cursor_after cursor) resume ks m page)"
proof -
  let ?reset = "pull_needs_reset (cursor_epoch cursor) (cursor_after cursor) (relay_state log)"
  have rq: "bt_ok (pq_coverage request)" "pq_version request = PULL_VERSION" "\<bar>as_i64 (unix n) - pq_issued_at_ms request\<bar> \<le> MAX_REQUEST_SKEW_MS"
      "decode_epoch (pq_relay_epoch request) = Some (cursor_epoch cursor)" "decode_coverage request = cov" "pq_store request = None" "\<not> pq_audit request"
      "pq_relay_after request = cursor_after cursor" "pq_resume request = resume"
    using skew ask decode_epoch_hex [OF ask(2)] wire_map_roundtrip [OF ask(1)] by (simp_all add: drain_request_def decode_coverage_def)
  obtain s2 t where hlc: "node_next_hlc ck s = (s2, t)" by fastforce
  obtain body bs page where ex: "sign_pull_request c pc j request (from_signing c skc) t = Inr body"
      "pull_bytes (served_net c pc j shown unix unix' instants st) n body = (Suc n, if length bs \<le> MAX_PULL_RESPONSE_BYTES then Inr (200, bs) else Inl TWire)"
      "verify_pull_page c pc j bs (device_id_of c (sk_verifying c sks)) (public_key_sec1 c (from_signing c sks)) = Inr page"
      "seal_pull_page c pc j page (from_signing c sks) (default_next_hlc (as_i64 (unix' n))) = Inr bs"
      "if ?reset then page = reset_pull_page (relay_state log)
       else build_pull_page j (serve_socket (unix n)) st (device_id_of c (sk_verifying c skc)) request = Inr page"
    using served_exchange [OF laws server(1-4) rq(1,2), where unix = unix and n = n and e = "cursor_epoch cursor" and t = t and shown = shown
        and unix' = unix' and instants = instants] rq(3,4) unfolding rq(8) by blast
  have page: "if ?reset then page = reset_pull_page (relay_state log)
      else \<exists>ks m. page_spec j pc (log_iter log) (arrivals log) (relay_epoch log) cov (cursor_after cursor) resume ks m page"
  proof (cases ?reset)
    case False
    then obtain ks m page' where "build_pull_page j (serve_socket (unix n)) st (device_id_of c (sk_verifying c skc)) request = Inr page'"
        "page_spec j pc (log_iter log) (arrivals log) (relay_epoch log) cov (cursor_after cursor) resume ks m page'"
      using served_page_out [OF laws(4) server(3,2) rq(4) _ rq(6,7), of j "unix n" "device_id_of c (sk_verifying c skc)"] can rq(5,8,9) by auto
    then show ?thesis using ex(5) False by auto
  qed (use ex(5) in simp)
  then have "page = reset_pull_page (relay_state log) \<or>
      (\<exists>claims after resume ks m. page_spec j pc (log_iter log) (arrivals log) (relay_epoch log) claims after resume ks m page)"
    by (cases ?reset) (simp_all only: if_True if_False, blast+)
  then have "length bs \<le> MAX_PULL_RESPONSE_BYTES" using server(5) ex(4) unfolding pages_fit_def by blast
  then show ?thesis using ex(1-3) page by (auto simp: p exchange_def hlc)
qed

lemma served_preview_reply:
  assumes laws: "sha_laws c" "sec1_laws c" "ecdsa_laws c" "codec_laws pc" "pull_codec_laws j"
    and server: "sv_identity st = from_signing c sks" "sv_log st = log_as_source pc log" "log_ok log"
      "db_try_key_for_device (sv_relay_callers st) (device_id_of c (sk_verifying c skc)) = Inr (Some (public_key_sec1 c (from_signing c skc)))"
    and skew: "\<bar>as_i64 (unix n) - now\<bar> \<le> MAX_REQUEST_SKEW_MS"
    and ask: "length (cursor_epoch cursor) = 32" "a \<le> length (arrivals log)"
    and p: "p = node_puller c pc j ck impl skc sks (served_net c pc j shown unix unix' instants st)"
    and run: "source_pull p n (preview_request known cursor a now) (from_signing c skc) t = (n', Inr page)"
  shows "pp_reset page \<or> (\<forall>e \<in> set (pp_backfill page). \<exists>x \<in> set (log_iter log). snd e = entry_of j pc x)"
proof -
  let ?rq = "preview_request known cursor a now" and ?reset = "pull_needs_reset (cursor_epoch cursor) (cursor_after cursor) (relay_state log)"
  have rq: "bt_ok (pq_coverage ?rq)" "pq_version ?rq = PULL_VERSION" "\<bar>as_i64 (unix n) - pq_issued_at_ms ?rq\<bar> \<le> MAX_REQUEST_SKEW_MS"
      "decode_epoch (pq_relay_epoch ?rq) = Some (cursor_epoch cursor)" "pq_store ?rq = None" "\<not> pq_audit ?rq"
      "pq_relay_after ?rq = cursor_after cursor" "resume_in Backfill ?rq = Some (backfill_resume a)"
    using skew decode_epoch_hex [OF ask(1)] by (simp_all add: preview_request_def inflated_claims_def resume_in_def backfill_resume_def)
  have stream: "relay_state log = full_stream (relay_epoch log) (arrivals log)" by (simp add: relay_state_def full_stream_def)
  obtain body bs page' where ex: "sign_pull_request c pc j ?rq (from_signing c skc) t = Inr body"
      "pull_bytes (served_net c pc j shown unix unix' instants st) n body = (Suc n, if length bs \<le> MAX_PULL_RESPONSE_BYTES then Inr (200, bs) else Inl TWire)"
      "verify_pull_page c pc j bs (device_id_of c (sk_verifying c sks)) (public_key_sec1 c (from_signing c sks)) = Inr page'"
      "if ?reset then page' = reset_pull_page (relay_state log)
       else build_pull_page j (serve_socket (unix n)) st (device_id_of c (sk_verifying c skc)) ?rq = Inr page'"
    using served_exchange [OF laws server(1-4) rq(1,2), where unix = unix and n = n and e = "cursor_epoch cursor" and t = t and shown = shown
        and unix' = unix' and instants = instants] rq(3,4) unfolding rq(7) by blast
  have "page' = page" using run ex(1-3) by (simp add: p source_pull_def split: if_splits)
  show ?thesis
  proof (cases ?reset)
    case True
    then show ?thesis using ex(4) \<open>page' = page\<close> by (auto simp: reset_pull_page_def)
  next
    case False
    then show ?thesis
      using mem_log.served.preview_entries [of pc "(st, log)" ?rq "cursor_epoch cursor" "backfill_resume a" j "unix n" "device_id_of c (sk_verifying c skc)" page,
          unfolded prod.case same_log [OF server(2)]]
        laws(4) server(3) rq ask(2) ex(4) \<open>page' = page\<close> by (simp add: stream backfill_resume_def)
  qed
qed

lemma served_honest:
  assumes laws: "sha_laws c" "sec1_laws c" "ecdsa_laws c" "codec_laws pc" "pull_codec_laws j"
    and server: "sv_identity st = from_signing c sks" "sv_log st = log_as_source pc log" "log_ok log"
      "db_try_key_for_device (sv_relay_callers st) (device_id_of c (sk_verifying c skc)) = Inr (Some (public_key_sec1 c (from_signing c skc)))"
      "pages_fit c pc j (from_signing c sks) log"
    and skew: "\<And>n k. \<bar>as_i64 (unix n) - as_i64 (clock k)\<bar> \<le> MAX_REQUEST_SKEW_MS"
  shows "honest_peer (node_puller c pc j ck impl skc sks (served_net c pc j shown unix unix' instants st))
    (node_view c pc ck impl clock) (log_iter log) (arrivals log) (relay_epoch log)"
proof -
  let ?p = "node_puller c pc j ck impl skc sks (served_net c pc j shown unix unix' instants st)" and ?V = "node_view c pc ck impl clock"
  let ?sk = "oplog_socket c pc ck impl (from_signing c skc)"
  have stream: "full_stream (relay_epoch log) (arrivals log) = relay_state log" by (simp add: relay_state_def full_stream_def)
  have now: "\<bar>as_i64 (unix n) - now\<bar> \<le> MAX_REQUEST_SKEW_MS" if "vw_ok ?V s" "ps_now_ms (pu_socket ?p) s = (s', now)" for s s' now n
    using that skew by (auto simp: read_now_ms_def)
  show ?thesis
    unfolding honest_peer_def stream
  proof (intro conjI allI impI)
    fix s s' n now cov cursor resume request
    assume a: "vw_ok ?V s" "ps_now_ms (pu_socket ?p) s = (s', now)" "coverage_ok cov" "length (cursor_epoch cursor) = 32"
      "request = drain_request cov cursor resume False now"
    note reply = served_drain_reply [where unix = unix and n = n and p = ?p and s = s', OF laws server now [OF a(1,2)] a(3-5) _ refl]
    show "if pull_needs_reset (cursor_epoch cursor) (cursor_after cursor) (relay_state log)
         then \<exists>n' bs. exchange ?p s' n request = (fst (ps_next_hlc (pu_socket ?p) s'), n', Inr (200, bs)) \<and>
           verify_pull_page (pu_crypto ?p) (pu_codec ?p) (pu_json ?p) bs (pu_peer ?p) (pu_sec1 ?p) = Inr (reset_pull_page (relay_state log))
         else resume_claimed cov (resume_in Keyed request) \<longrightarrow>
           (\<forall>r. resume_in Backfill request = Some r \<longrightarrow> rsm_after_seq r = cursor_after cursor) \<longrightarrow> cursor_after cursor \<le> length (arrivals log) \<longrightarrow>
           (\<exists>n' bs page ks m. exchange ?p s' n request = (fst (ps_next_hlc (pu_socket ?p) s'), n', Inr (200, bs)) \<and>
              verify_pull_page (pu_crypto ?p) (pu_codec ?p) (pu_json ?p) bs (pu_peer ?p) (pu_sec1 ?p) = Inr page \<and>
              page_spec (pu_json ?p) (pu_codec ?p) (log_iter log) (arrivals log) (relay_epoch log) cov (cursor_after cursor) resume ks m page)"
    proof (cases "pull_needs_reset (cursor_epoch cursor) (cursor_after cursor) (relay_state log)")
      case True
      then show ?thesis using reply by (simp only: node_puller_simps simp_thms if_True) blast
    next
      case False
      then show ?thesis using reply by (simp only: node_puller_simps simp_thms if_False) blast
    qed
  next
    fix s s' u n n' now known cursor a t page
    assume b: "vw_ok ?V s" "ps_now_ms (pu_socket ?p) s = (s', now)" "length (cursor_epoch cursor) = 32" "a \<le> length (arrivals log)"
      "source_pull ?p n (preview_request known cursor a now) (ps_local_identity (pu_socket ?p) u) t = (n', Inr page)"
    have "source_pull ?p n (preview_request known cursor a now) (from_signing c skc) t = (n', Inr page)" using b(5) by simp
    from served_preview_reply [where unix = unix and n = n and p = ?p, OF laws server(1-4) now [OF b(1,2)] b(3,4) refl this]
    show "pp_reset page \<or> (\<forall>e \<in> set (pp_backfill page). \<exists>x \<in> set (log_iter log). snd e = entry_of (pu_json ?p) (pu_codec ?p) x)" by simp
  qed
qed

section \<open>A concrete deployment for the witnesses\<close>

lemma enc_lengths [simp]:
  "length (enc_nat n) = 2 * n + 1" "length (enc_str s) = 2 * length s + 1"
  by (simp_all add: enc_nat_def enc_str_def)

lemma length_enc_bool: "length (enc_bool b) \<le> 3"
  by (simp add: enc_bool_def)

lemma length_enc_many:
  assumes "\<And>x. x \<in> set xs \<Longrightarrow> length (f x) \<le> k"
  shows "length (enc_many f xs) \<le> (k + 2) * length xs + 1"
  using assms by (induction xs) (fastforce simp: enc_many_def)+

lemma length_enc_opt: "(\<And>y. x = Some y \<Longrightarrow> length (f y) \<le> k) \<Longrightarrow> length (enc_opt f x) \<le> k + 3"
  unfolding enc_opt_def using length_enc_many [of "case x of None \<Rightarrow> [] | Some y \<Rightarrow> [y]" f k] by (auto split: option.splits)

text \<open>A page of at most 8192 short entries, sealed with the witness codec, is far below the client's cap of 64 MiB.\<close>

lemma demo_page_length:
  assumes "length (pp_epoch page) = 64" "pp_floor page = 0" "pp_next_relay_seq page \<le> 10000" "pp_head_seq page \<le> 10000"
    and "\<And>name. pp_store page = Some name \<Longrightarrow> length name \<le> 64"
    and "length (pp_backfill page) + length (pp_keyed page) \<le> 8192"
    and "\<And>e. e \<in> set (pp_backfill page) \<Longrightarrow> fst e \<le> 2 \<and> length (snd e) \<le> 300" "\<And>e. e \<in> set (pp_keyed page) \<Longrightarrow> length e \<le> 300"
    and "\<And>r. pp_resume page = Some r \<Longrightarrow> rsm_after_seq r \<le> 10000 \<and> length (rsm_origin r) \<le> 64 \<and> length (rsm_after_key r) \<le> 144"
  shows "length (enc_page page) \<le> 6000000"
proof -
  have b: "length (enc_many (enc_pair enc_nat enc_str) (pp_backfill page)) \<le> (606 + 2) * length (pp_backfill page) + 1"
    by (rule length_enc_many) (use assms(7) in \<open>fastforce simp: enc_pair_def\<close>)
  have k: "length (enc_many enc_str (pp_keyed page)) \<le> (606 + 2) * length (pp_keyed page) + 1"
    by (rule length_enc_many) (use assms(8) in fastforce)
  have r: "length (enc_opt enc_resume (pp_resume page)) \<le> 20430 + 3"
  proof (rule length_enc_opt)
    fix y
    assume "pp_resume page = Some y"
    from assms(9) [OF this] show "length (enc_resume y) \<le> 20430"
      using length_enc_bool [of "rsm_phase y = Keyed"] by (simp add: enc_resume_def)
  qed
  have "length (enc_opt enc_str (pp_store page)) \<le> 129 + 3" by (rule length_enc_opt) (use assms(5) in fastforce)
  then show ?thesis
    using b k r assms(1-4,6) length_enc_bool [of "pp_reset page"] length_enc_bool [of "pp_complete page"] length_enc_bool [of "pp_snapshot_recommended page"]
    by (simp add: enc_page_def)
qed

lemma demo_sealed_length:
  assumes "seal_pull_page demo_crypto demo_codec demo_pull_codec page (from_signing demo_crypto 7) t = Inr bs"
  shows "length bs \<le> 2 * length (enc_page page) + 600"
proof -
  let ?b = "\<lparr>body_v = ENVELOPE_VERSION, body_hlc = t, body_device = device_id (from_signing demo_crypto 7), body_store = PULL_PAGE_STORE_ID,
      body_payload = enc_page page\<rparr>"
  note name = pull_store_ids(2)
  obtain sop where sop: "seal demo_crypto demo_codec ?b (from_signing demo_crypto 7) = Inr sop" "to_bytes demo_codec sop = Inr bs"
    using assms name by (auto simp: seal_pull_page_def seal_pull_def and_then_Inr demo_pull_codec_def)
  have "op_wf sop" by (rule seal_op_wf [OF demo_sha_laws demo_ecdsa_laws _ _ sop(1)]) (simp_all add: name)
  then have len: "length (op_sig sop) = 64" "length (op_id_bytes (op_id sop)) = 32" "length (as_bytes (body_device (op_body sop))) = 32"
    by (auto simp: op_wf_def device_wf_def)
  have "body_store (op_body sop) = PULL_PAGE_STORE_ID" "body_payload (op_body sop) = enc_page page"
    using sop(1) by (auto simp: seal_Inr)
  then show ?thesis
    using len sop(2) by (auto simp: to_bytes_def demo_codec_def demo_enc_body_def to_body_repr_def PULL_PAGE_STORE_ID_def)
qed

lemma demo_log_ops: "set (log_iter demo_log) \<subseteq> {demo_op 5 42 [1], demo_op 5 43 [2]}"
  using log_of_sub [of "replicate 32 1" "[demo_op 5 42 [1], demo_op 5 43 [2]]"] by (simp add: demo_log_def)

lemma demo_arrivals: "length (arrivals demo_log) \<le> 2"
proof -
  have "length (arrivals demo_log) = card (set (arrivals demo_log))"
    using distinct_card [OF distinct_arrivals [OF demo_log_facts(1)]] by simp
  also have "\<dots> \<le> card {demo_op 5 42 [1], demo_op 5 43 [2]}"
    unfolding set_arrivals [OF demo_log_facts(1)] by (rule card_mono [OF _ demo_log_ops]) simp
  also have "\<dots> \<le> 2" by (simp add: card_insert_if)
  finally show ?thesis .
qed

lemma demo_entry_length: "x \<in> set (log_iter demo_log) \<Longrightarrow> length (entry_of demo_pull_codec demo_codec x) \<le> 300"
proof -
  assume "x \<in> set (log_iter demo_log)"
  with demo_log_ops obtain h p where "x = demo_op 5 h p" "length p = 1" by fastforce
  with demo_op_bytes [of 5 h p] show ?thesis by (auto simp: entry_of_def env_bytes_def demo_pull_codec_def)
qed

lemma demo_pages_fit: "pages_fit demo_crypto demo_codec demo_pull_codec (from_signing demo_crypto 7) demo_log"
  unfolding pages_fit_def
proof (intro allI impI)
  fix page t bs
  assume page: "page = reset_pull_page (relay_state demo_log) \<or> (\<exists>claims after resume ks m.
      page_spec demo_pull_codec demo_codec (log_iter demo_log) (arrivals demo_log) (relay_epoch demo_log) claims after resume ks m page)"
    and bs: "seal_pull_page demo_crypto demo_codec demo_pull_codec page (from_signing demo_crypto 7) t = Inr bs"
  have "length (enc_page page) \<le> 6000000"
    using page
  proof (elim disjE exE)
    assume "page = reset_pull_page (relay_state demo_log)"
    then show ?thesis using demo_arrivals
      by (intro demo_page_length) (simp_all add: reset_pull_page_def relay_state_def demo_log_epoch)
  next
    fix claims after resume ks m
    assume spec: "page_spec demo_pull_codec demo_codec (log_iter demo_log) (arrivals demo_log) (relay_epoch demo_log) claims after resume ks m page"
    then obtain token where page: "page = data_page (full_stream (relay_epoch demo_log) (arrivals demo_log))
          (map (\<lambda>i. (Suc i, entry_of demo_pull_codec demo_codec (arrivals demo_log ! i))) (filter (\<lambda>i. covered claims (arrivals demo_log ! i)) [after..<after + m]))
          (map (entry_of demo_pull_codec demo_codec) ks) (after + m) token None"
      and ks: "after + m \<le> length (arrivals demo_log)" "length ks + m \<le> PULL_PAGE_LIMIT_MAX" "\<forall>x \<in> set ks. x \<in> set (log_iter demo_log)"
      and token: "\<forall>r. token = Some r \<longrightarrow> r = keyed_resume (origin_of (last ks)) (Some (order_key (last ks))) \<and> ks \<noteq> [] \<or> r = backfill_resume (after + m)"
      unfolding page_spec_def by blast
    have small: "rsm_after_seq r \<le> 10000 \<and> length (rsm_origin r) \<le> 64 \<and> length (rsm_after_key r) \<le> 144" if "token = Some r" for r
    proof -
      have "op_wf (last ks)" if "ks \<noteq> []" using ks(3) demo_log_facts(2) last_in_set [OF that] by blast
      then show ?thesis using token that ks(1) demo_arrivals
        by (auto simp: keyed_resume_def backfill_resume_def to_hex_def length_to_wire key_wf_def order_key_def op_wf_def device_wf_def)
    qed
    have filt: "length (filter P [after..<after + m]) \<le> m" for P using length_filter_le [of P "[after..<after + m]"] by simp
    have entry: "length (entry_of demo_pull_codec demo_codec (arrivals demo_log ! i)) \<le> 300" if "i < after + m" for i
      using demo_entry_length nth_mem [of i "arrivals demo_log"] that ks(1) unfolding set_arrivals [OF demo_log_facts(1)] by simp
    show ?thesis
      unfolding page using demo_arrivals ks small filt [of "\<lambda>i. covered claims (arrivals demo_log ! i)"] entry demo_entry_length
      by (intro demo_page_length) (auto simp: data_page_def full_stream_def demo_log_epoch PULL_PAGE_LIMIT_MAX_def PAGE_LIMIT_MAX_def)
  qed
  then show "length bs \<le> MAX_PULL_RESPONSE_BYTES" using demo_sealed_length [OF bs] by (simp add: MAX_PULL_RESPONSE_BYTES_def)
qed

definition demo_server :: "(byte, byte) serve_state" where
  "demo_server = ServeState_new (from_signing demo_crypto 7) (log_as_source demo_codec demo_log) demo_book"

definition demo_pull_node :: "(unit, kv_store, byte) pull_node" where
  "demo_pull_node = \<lparr>pn_clock = (), pn_registry = [(device_id_of demo_crypto 5, 5)], pn_log = log_new [], pn_store = kv_new,
     pn_coverage = [], pn_cursors = [], pn_unix = (\<lambda>_. 0), pn_reads = 0\<rparr>"

lemma demo_server_facts:
  "sv_identity demo_server = from_signing demo_crypto 7" "sv_log demo_server = log_as_source demo_codec demo_log"
  "db_try_key_for_device (sv_relay_callers demo_server) (device_id_of demo_crypto (sk_verifying demo_crypto 5)) =
     Inr (Some (public_key_sec1 demo_crypto (from_signing demo_crypto 5)))"
  "length (relay_epoch demo_log) = 32"
  using demo_book_lookup by (simp_all add: demo_server_def ServeState_new_def from_signing_def demo_log_epoch)

lemma demo_node_facts:
  "log_ok (pn_log demo_pull_node)" "coverage_ok (pn_coverage demo_pull_node)" "bt_ok (pn_cursors demo_pull_node)" "clock_accepts demo_clock"
  by (simp_all add: demo_pull_node_def log_new_ok coverage_ok_def bt_ok_def clock_accepts_def clock_update_def clock_now_def demo_clock_def)

lemma demo_log_verified:
  assumes "x \<in> set (log_iter demo_log)"
  shows "verified demo_crypto demo_codec (pn_registry demo_pull_node) x"
proof -
  have "x = demo_op 5 42 [1] \<or> x = demo_op 5 43 [2]" using assms demo_log_ops by blast
  then show ?thesis using demo_op_verifies by (auto simp: verified_def demo_pull_node_def key_for_def demo_op_body)
qed

lemma demo_log_folds:
  assumes "set (log_iter l) \<subseteq> set (log_iter (pn_log demo_pull_node)) \<union> set (log_iter demo_log)"
  shows "snd (replay (kv_impl demo_kv_codec) l store) = Inr ()"
proof -
  have "kv_from_bytes demo_kv_codec (body_payload (op_body x)) \<noteq> None" if "x \<in> set (log_iter l)" for x
  proof -
    have "log_iter (pn_log demo_pull_node) = []" by (simp add: demo_pull_node_def log_iter_def log_new_def)
    then have "x = demo_op 5 42 [1] \<or> x = demo_op 5 43 [2]" using assms that demo_log_ops by auto
    then have "body_payload (op_body x) = [1] \<or> body_payload (op_body x) = [2]" by (auto simp: demo_op_body demo_body_def)
    then show ?thesis by (auto simp: demo_kv_codec_def)
  qed
  then show ?thesis unfolding replay_def apply_ops_def by (rule kv_loop_succeeds)
qed

section \<open>Properties\<close>

text \<open>
  Up to position \<open>a\<close> of the server's arrivals, the node holds every op its claims cover; with \<open>skip\<close>, ops of
  devices it has no key for are excepted.
\<close>

definition gap_free :: "bool \<Rightarrow> op_log \<Rightarrow> ('h, 's, 'vk) pull_node \<Rightarrow> nat \<Rightarrow> bool" where
  "gap_free skip log node a \<longleftrightarrow>
     (\<forall>i < a. i < length (arrivals log) \<longrightarrow> covers (pn_coverage node) (order_key (arrivals log ! i)) \<longrightarrow>
        contains (pn_log node) (op_id (arrivals log ! i)) \<or> skip \<and> key_for (pn_registry node) (origin_of (arrivals log ! i)) = None)"

lemma no_gap_free: "no_gap (node_view c pc ck impl clock) skip (arrivals log) a node \<longleftrightarrow> gap_free skip log node a"
  by (simp add: no_gap_def gap_free_def settles_def)

lemma stored_gap_free:
  "stored_safe (node_view c pc ck impl clock) skip peer epoch (arrivals log) node \<longleftrightarrow>
     (\<forall>cur. map_of (pn_cursors node) peer = Some cur \<longrightarrow> cur_epoch cur = epoch \<longrightarrow> gap_free skip log node (cur_after cur))"
  by (simp add: stored_safe_def no_gap_free)

text \<open>
  C8: No cursor and no claim ever moves past an op that was not taken in. A node that applies the page a
  server built for its request, from a position that is gap free, is gap free afterwards at the new cursor and
  at the stored one, whatever happened on the way: an op of an unknown device, a signature that does not
  verify, a clock that rejects, a store that fails. What it held it still holds, what is new is the server's,
  and no claim is withdrawn.
\<close>

theorem pull_page_leaves_no_gap:
  assumes "codec_laws pc" "pull_codec_laws j" "log_ok log" "\<And>x. x \<in> set (log_iter log) \<Longrightarrow> op_wf x" "length (relay_epoch log) = 32"
    and "sv_log st = log_as_source pc log"
    and node: "log_ok (pn_log node)" "coverage_ok (pn_coverage node)" "bt_ok (pn_cursors node)"
    and cursor: "\<And>cur. cursor = Some cur \<Longrightarrow> cur_epoch cur = relay_epoch log \<and> cur_after cur \<le> length (arrivals log) \<and> gap_free skip log node (cur_after cur)"
    and stored: "\<And>cur. map_of (pn_cursors node) peer = Some cur \<Longrightarrow> cur_epoch cur = relay_epoch log \<Longrightarrow> gap_free skip log node (cur_after cur)"
    and page: "build_pull_page j (serve_socket unix) st client (drain_request (pn_coverage node) cursor None False now) = Inr page"
    and run: "apply_pull_page pc j (oplog_socket c pc ck impl identity) peer cursor page skip node = (node', cursor', r)"
  shows "(\<forall>cur. cursor' = Some cur \<or> map_of (pn_cursors node') peer = Some cur \<longrightarrow> cur_epoch cur = relay_epoch log \<longrightarrow>
      gap_free skip log node' (cur_after cur)) \<and>
    (\<forall>i. contains (pn_log node) i \<longrightarrow> contains (pn_log node') i) \<and>
    (\<forall>i. contains (pn_log node') i \<longrightarrow> contains (pn_log node) i \<or> i \<in> op_id ` set (log_iter log)) \<and>
    (\<forall>k. covers (pn_coverage node) k \<longrightarrow> covers (pn_coverage node') k)"
proof -
  let ?V = "node_view c pc ck impl (pn_unix node)" and ?rq = "drain_request (pn_coverage node) cursor None False now"
  have ok: "vw_ok ?V node" using node by simp
  have safe: "pull_safe ?V skip peer (relay_epoch log) (arrivals log) node (at_cursor (relay_epoch log) cursor)"
    using cursor stored by (cases cursor) (simp_all add: pull_safe_def at_cursor_def no_gap_free stored_gap_free, simp add: gap_free_def)
  have len: "length (cursor_epoch cursor) = 32" using cursor assms(5) by (cases cursor) (simp_all add: cursor_epoch_def zero_epoch_def)
  have stream: "relay_state log = full_stream (relay_epoch log) (arrivals log)" by (simp add: relay_state_def full_stream_def)
  have rq: "decode_epoch (pq_relay_epoch ?rq) = Some (cursor_epoch cursor)" "\<not> pull_needs_reset (cursor_epoch cursor) (pq_relay_after ?rq) (relay_state log)"
      "pq_store ?rq = None" "\<not> pq_audit ?rq" "resume_claimed (decode_coverage ?rq) (resume_in Keyed ?rq)" "resume_in Backfill ?rq = None"
      "pq_relay_after ?rq \<le> length (arrivals log)" "decode_coverage ?rq = claims ?V node" "pq_resume ?rq = None"
    using fitting_cursor [OF safe] decode_epoch_hex [OF len] wire_map_roundtrip [OF node(2)]
    by (simp_all add: drain_request_def resume_in_def resume_claimed_def decode_coverage_def stream)
  obtain ks m where "page_spec j pc (log_iter log) (arrivals log) (relay_epoch log) (claims ?V node) (cursor_after cursor) None ks m page"
    using served_page_out [OF assms(1,3,6) rq(1-5) _ rq(7), of j unix client] rq(6,8,9) page by (auto simp: drain_request_def)
  from puller.apply_page_safe [OF assms(1,2,4,5) set_arrivals [OF assms(3)] this ok safe at_cursor_after run]
  have out: "advances ?V skip (log_iter log) node node'" "pull_safe ?V skip peer (relay_epoch log) (arrivals log) node' (at_cursor (relay_epoch log) cursor')"
    by blast+
  show ?thesis
    using out unfolding advances_def pull_safe_def no_gap_free stored_gap_free node_view_simps by (auto simp: at_cursor_def)
qed

theorem pull_page_leaves_no_gap_witness:
  "\<exists>page node' cursor' r.
    build_pull_page demo_pull_codec (serve_socket 0) demo_server (DeviceId []) (drain_request [] None None False 0) = Inr page \<and>
    apply_pull_page demo_codec demo_pull_codec (oplog_socket demo_crypto demo_codec demo_clock (kv_impl demo_kv_codec) (from_signing demo_crypto 5))
      (device_id_of demo_crypto 7) None page False demo_pull_node = (node', cursor', r) \<and>
    (\<forall>cur. cursor' = Some cur \<longrightarrow> cur_epoch cur = relay_epoch demo_log \<longrightarrow> gap_free False demo_log node' (cur_after cur))"
proof -
  let ?rq = "drain_request [] None None False 0"
  have "decode_epoch (pq_relay_epoch ?rq) = Some zero_epoch"
    using decode_epoch_hex [of zero_epoch] by (simp add: drain_request_def cursor_epoch_def zero_epoch_def)
  then obtain page where page: "build_pull_page demo_pull_codec (serve_socket 0) demo_server (DeviceId []) ?rq = Inr page"
    using mem_log.served.page_total [of demo_codec "(demo_server, demo_log)" ?rq zero_epoch demo_pull_codec 0 "DeviceId []",
        unfolded prod.case same_log [OF demo_server_facts(2)]] demo_codec_laws demo_log_facts(1) by auto
  obtain node' cursor' r where run: "apply_pull_page demo_codec demo_pull_codec
      (oplog_socket demo_crypto demo_codec demo_clock (kv_impl demo_kv_codec) (from_signing demo_crypto 5))
      (device_id_of demo_crypto 7) None page False demo_pull_node = (node', cursor', r)" by (rule prod_cases3)
  have cov: "pn_coverage demo_pull_node = []" and cur: "pn_cursors demo_pull_node = []" by (simp_all add: demo_pull_node_def)
  from pull_page_leaves_no_gap [OF demo_codec_laws demo_pull_codec_laws demo_log_facts(1,2) demo_server_facts(4,2) demo_node_facts(1-3) _ _ _ run,
      of 0 "DeviceId []" 0] page run
  show ?thesis unfolding cov cur by auto
qed



end
