(* ===== verification/PullSweep.thy ===== *)
theory PullSweep
  imports PullPeer
begin

text \<open>
  What a pull may and may not rely on, over \<open>src/net/pull_client.rs\<close> and \<open>src/net/pull_server.rs\<close>: both sides
  agree on when a stream is reset; previews and store sweeps claim nothing, whatever the network answers; a
  sweep against a server ends, and with the whole slice of the store if the server's own part fits one page.
  Two limits of the code are stated as well: a sweep whose first page ends inside the server's own ops skips
  the origins before the server's, and an audit drain of a log that fills a page never finishes.
\<close>

section \<open>Loops\<close>

text \<open>An invariant of the iterations holds before the last one.\<close>

lemma sweep_loop_last:
  assumes "sweep_loop p cursor store x = Some res" "I x"
    and "\<And>x x'. I x \<Longrightarrow> sweep_step p cursor store x = (x', None) \<Longrightarrow> I x'"
  shows "\<exists>y. I y \<and> sweep_step p cursor store y = (fst res, Some (snd res))"
  using assms
proof (induction rule: sweep_loop.raw_induct [rotated, consumes 1])
  case (1 f p cursor store x res)
  obtain y out where step: "sweep_step p cursor store x = (y, out)" by (rule prod.exhaust)
  show ?case
  proof (cases out)
    case None
    have "f p cursor store y = Some res" using 1(2) by (simp only: step None prod.case option.case)
    moreover have "I y" by (rule 1(4) [OF 1(3)]) (simp only: step None)
    ultimately show ?thesis by (rule 1(1) [OF _ _ 1(4)])
  next
    case (Some r)
    have "res = (y, r)" using 1(2) by (simp only: step Some prod.case option.case option.inject)
    then show ?thesis using 1(3) step Some by (intro exI [of _ x]) simp
  qed
qed

lemma drain_loop_last:
  assumes "drain_loop p audit skip x = Some res" "I x"
    and "\<And>x x'. I x \<Longrightarrow> drain_step p audit skip x = (x', None) \<Longrightarrow> I x'"
  shows "\<exists>y. I y \<and> drain_step p audit skip y = (fst res, Some (snd res))"
  using assms
proof (induction rule: drain_loop.raw_induct [rotated, consumes 1])
  case (1 f p audit skip x res)
  obtain y out where step: "drain_step p audit skip x = (y, out)" by (rule prod.exhaust)
  show ?case
  proof (cases out)
    case None
    have "f p audit skip y = Some res" using 1(2) by (simp only: step None prod.case option.case)
    moreover have "I y" by (rule 1(4) [OF 1(3)]) (simp only: step None)
    ultimately show ?thesis by (rule 1(1) [OF _ _ 1(4)])
  next
    case (Some r)
    have "res = (y, r)" using 1(2) by (simp only: step Some prod.case option.case option.inject)
    then show ?thesis using 1(3) step Some by (intro exI [of _ x]) simp
  qed
qed

section \<open>Previews and sweeps claim nothing\<close>

definition quiet :: "'s sink_view \<Rightarrow> 's \<Rightarrow> 's \<Rightarrow> bool" where
  "quiet V s s' \<longleftrightarrow> vw_ok V s' \<and> holds V s \<subseteq> holds V s' \<and> claims V s' = claims V s \<and> stored V s' = stored V s \<and>
     unattested V s' = unattested V s"

lemma quiet_refl: "vw_ok V s \<Longrightarrow> quiet V s s"
  by (simp add: quiet_def)

lemma quiet_trans: "quiet V s s' \<Longrightarrow> quiet V s' s'' \<Longrightarrow> quiet V s s''"
  by (auto simp: quiet_def)

lemma quiet_ok: "quiet V s s' \<Longrightarrow> vw_ok V s'"
  by (simp add: quiet_def)

lemma quiet_side: "side_step V skip held s s' \<Longrightarrow> quiet V s s'"
  by (simp add: side_step_def advances_def quiet_def)

lemma quiet_keeps: "keeps_all V s s' \<Longrightarrow> quiet V s s'"
  by (rule quiet_side [OF side_step_keeps])

lemma quiet_no_gap: "quiet V s s' \<Longrightarrow> no_gap V skip arrived a s \<Longrightarrow> no_gap V skip arrived a s'"
  by (auto simp: quiet_def no_gap_def settles_def)

context pull_sink
begin

lemma exchange_quiet:
  assumes "pu_socket p = sk" "vw_ok V s" "exchange p s n request = (s', n', r)"
  shows "quiet V s s'"
proof -
  obtain s1 t where hlc: "ps_next_hlc sk s = (s1, t)" by (rule prod.exhaust)
  have "s' = s1" using assms(3) by (auto simp: exchange_def assms(1) hlc split: sum.splits prod.splits)
  then show ?thesis using quiet_keeps [OF sink_hlc [OF assms(2) hlc]] by simp
qed

lemma admit_quiet:
  assumes "vw_ok V s" "ps_admit_ops sk (s, q) peer sops skip vouch (\<lambda>w _ _. (w, Inr ())) = ((s', q'), out)"
  shows "quiet V s s'"
  by (rule quiet_side [OF admit_silent [OF assms(1) subset_refl assms(2)]])

lemma preview_quiet:
  assumes "pu_socket p = sk" "vw_ok V s" "preview_head_window p s n cursor a = (s', n', r)"
  shows "quiet V s s'"
proof (cases "ps_known_origins sk s")
  case (Inl e)
  then show ?thesis using assms by (simp add: preview_head_window_def quiet_refl)
next
  case (Inr known)
  obtain s1 now where now: "ps_now_ms sk s = (s1, now)" by (rule prod.exhaust)
  obtain s2 t where hlc: "ps_next_hlc sk s1 = (s2, t)" by (rule prod.exhaust)
  have k1: "quiet V s s1" by (rule quiet_keeps [OF sink_now [OF assms(2) now]])
  have k2: "quiet V s s2" by (rule quiet_trans [OF k1 quiet_keeps [OF sink_hlc [OF quiet_ok [OF k1] hlc]]])
  have "s' = s2 \<or> (\<exists>sops q' out. ps_admit_ops sk (s2, \<lparr>qm_current = RELAY_START, qm_committed = 0\<rparr>) (pu_peer p) sops False False
      (\<lambda>w _ _. (w, Inr ())) = ((s', q'), out))"
    using assms(3) by (auto simp: preview_head_window_def assms(1) Inr now hlc Let_def split: sum.splits prod.splits if_splits)
  then show ?thesis using k2 quiet_trans [OF k2 admit_quiet [OF quiet_ok [OF k2]]] by blast
qed

lemma sweep_step_quiet:
  assumes "pu_socket p = sk" "vw_ok V s" "sweep_step p cursor store (s, n, w) = ((s', n', w'), out)"
  shows "quiet V s s'"
proof -
  obtain s1 now where now: "ps_now_ms sk s = (s1, now)" by (rule prod.exhaust)
  have k1: "quiet V s s1" by (rule quiet_keeps [OF sink_now [OF assms(2) now]])
  obtain s2 n2 r where ex: "exchange p s1 n (sweep_request cursor (sw_resume w) store now) = (s2, n2, r)" by (rule prod_cases3)
  have k2: "quiet V s s2" by (rule quiet_trans [OF k1 exchange_quiet [OF assms(1) quiet_ok [OF k1] ex]])
  have "s' = s2 \<or> (\<exists>sops q' out. ps_admit_ops sk (s2, \<lparr>qm_current = RELAY_START, qm_committed = 0\<rparr>) (pu_peer p) sops True True
      (\<lambda>w _ _. (w, Inr ())) = ((s', q'), out))"
    using assms(3) by (auto simp: sweep_step_def assms(1) now ex Let_def split: sum.splits prod.splits if_splits)
  then show ?thesis using k2 quiet_trans [OF k2 admit_quiet [OF quiet_ok [OF k2]]] by blast
qed

lemma sweep_quiet:
  assumes "pu_socket p = sk" "vw_ok V s" "sweep_store p cursor store s n = Some ((s', n', w'), r)"
  shows "quiet V s s'"
proof -
  have step: "quiet V s (fst x')" if "quiet V s (fst x)" "sweep_step p cursor store x = (x', out)" for x x' out
  proof -
    obtain u m w where x: "x = (u, m, w)" by (rule prod_cases3)
    obtain u' m' w' where x': "x' = (u', m', w')" by (rule prod_cases3)
    have u: "quiet V s u" using that(1) x by simp
    show ?thesis using quiet_trans [OF u sweep_step_quiet [OF assms(1) quiet_ok [OF u] that(2) [unfolded x x']]] by (simp add: x')
  qed
  have start: "quiet V s (fst (s, n, \<lparr>sw_applied = 0, sw_resume = None, sw_last = None\<rparr>))" using assms(2) by (simp add: quiet_refl)
  obtain y where "quiet V s (fst y)" "sweep_step p cursor store y = ((s', n', w'), Some r)"
    using sweep_loop_last [where I = "\<lambda>x. quiet V s (fst x)", OF assms(3) [unfolded sweep_store_def] start] step unfolding fst_conv snd_conv by blast
  from step [OF this] show ?thesis by simp
qed

end

section \<open>The shape of a page\<close>

lemma backfill_page_shape:
  "backfill_page j sk s stream cov keyed start_seq budget = Inr page \<Longrightarrow>
   \<exists>backfill next_seq resume. page = data_page stream backfill keyed next_seq resume None"
  by (cases "ps_relay_since sk s start_seq budget") (auto simp: backfill_page_def case_prod_beta)

lemma build_page_shape:
  assumes "build_pull_page j sk s peer request = Inr page" "ps_relay_stream_state sk s = Inr stream"
  shows "\<exists>e. decode_epoch (pq_relay_epoch request) = Some e \<and>
    (if pq_store request = None \<and> pull_needs_reset e (pq_relay_after request) stream then page = reset_pull_page stream
     else \<exists>backfill keyed next_seq resume. page = data_page stream backfill keyed next_seq resume (pq_store request))"
proof -
  obtain e where e: "decode_epoch (pq_relay_epoch request) = Some e"
    using assms by (cases "decode_epoch (pq_relay_epoch request)") (simp_all add: build_pull_page_def)
  show ?thesis
  proof (cases "pq_store request = None \<and> pull_needs_reset e (pq_relay_after request) stream")
    case True
    then show ?thesis using assms e by (simp add: build_pull_page_def)
  next
    case False
    then have "\<exists>backfill keyed next_seq resume. page = data_page stream backfill keyed next_seq resume (pq_store request)"
      using assms(1) unfolding build_pull_page_def assms(2)
      by (auto simp: e Let_def and_then_Inr split: option.splits if_splits prod.splits dest!: backfill_page_shape)
    then show ?thesis using False e by auto
  qed
qed

lemma served_stream:
  assumes "codec_laws pc" "log_ok log" "sv_log st = log_as_source pc log"
  shows "ps_relay_stream_state (serve_socket unix) st = Inr (relay_state log)"
  using mem_log.served.sk_stream [of pc "(st, log)" unix, unfolded prod.case same_log [OF assms(3)]] assms(1,2)
  by (simp add: relay_state_def full_stream_def)

section \<open>Pages of one store\<close>

text \<open>
  A sweep walks the ops of one store by origin, then by key: \<open>beyond x y\<close> says that \<open>y\<close> comes after \<open>x\<close> there,
  and \<open>mark x\<close> is the token that resumes after \<open>x\<close>.
\<close>

definition store_slice :: "signed_op list \<Rightarrow> string \<Rightarrow> signed_op list" where
  "store_slice held name = filter (\<lambda>x. body_store (op_body x) = name) held"

definition beyond :: "signed_op \<Rightarrow> signed_op \<Rightarrow> bool" where
  "beyond x y \<longleftrightarrow> origin_of x < origin_of y \<or> origin_of x = origin_of y \<and> order_key x < order_key y"

definition mark :: "signed_op \<Rightarrow> resume" where
  "mark x = keyed_resume (origin_of x) (Some (order_key x))"

lemma store_slice_mem: "x \<in> set (store_slice held name) \<longleftrightarrow> x \<in> set held \<and> store_matches (Some name) x"
  by (simp add: store_slice_def store_matches_def)

lemma beyond_trans: "beyond x y \<Longrightarrow> beyond y z \<Longrightarrow> beyond x z"
  by (auto simp: beyond_def)

lemma mark_decodes:
  assumes "op_wf x"
  shows "ok (from_hex (rsm_origin (mark x))) = Some (origin_of x)" "decode_order_key (rsm_after_key (mark x)) = Some (order_key x)"
proof -
  have "device_wf (origin_of x)" "key_wf (order_key x)" using assms by (simp_all add: op_wf_def key_wf_def order_key_def)
  then show "ok (from_hex (rsm_origin (mark x))) = Some (origin_of x)" "decode_order_key (rsm_after_key (mark x)) = Some (order_key x)"
    using from_hex_to_hex decode_encode_order_key by (simp_all add: mark_def keyed_resume_def encode_order_key_def)
qed

lemma mark_position: "op_wf x \<Longrightarrow> op_wf y \<Longrightarrow> beyond x y \<Longrightarrow> (rsm_origin (mark x), rsm_after_key (mark x)) \<noteq> (rsm_origin (mark y), rsm_after_key (mark y))"
  using mark_decodes [of x] mark_decodes [of y] by (auto simp: beyond_def)

lemma sweep_after:
  assumes "op_wf x"
  shows "after_key (keyed_after [] True (Some (mark x)) (origin_of y)) y \<longleftrightarrow> (origin_of y = origin_of x \<longrightarrow> order_key x < order_key y)"
  using mark_decodes [OF assms] by (auto simp: keyed_after_def after_key_def)

lemma sweep_after_fresh: "after_key (keyed_after [] True None d) y"
  by (simp add: keyed_after_def after_key_def)

lemma drop_below:
  assumes "sorted_wrt (<) os"
  shows "drop (length (takeWhile (\<lambda>d. d < origin) os)) os = filter (\<lambda>d. \<not> d < origin) (os :: device_id list)"
  using assms
proof (induction os)
  case (Cons d os)
  show ?case
  proof (cases "d < origin")
    case False
    then have "\<forall>e \<in> set os. \<not> e < origin" using Cons.prems by auto
    then show ?thesis using False by (simp add: filter_id_conv)
  qed (use Cons in simp)
qed simp

lemma sweep_visit: "op_wf x \<Longrightarrow> keyed_visit own (Some (mark x)) (origins_of held) = filter (\<lambda>d. \<not> d < origin_of x) (origins_of held)"
  using mark_decodes [of x] by (simp add: keyed_visit_def drop_below [OF origins_of_sorted])

text \<open>A cut channel: what is not served comes later in the run of the last op, or from an origin visited later.\<close>

lemma channel_cut:
  assumes "sorted_wrt (\<lambda>x y. order_key x < order_key y) held"
    and "channel_out (wanted_ops held cov audit resume store) os n sops (Some r)"
  obtains pre d post y where "os = pre @ d # post" "origin_of y = d" "r = mark y" "y \<in> set sops" "set sops \<subseteq> set held"
    "\<And>z. z \<in> set sops \<Longrightarrow> origin_of z \<in> set (pre @ [d]) \<and> store_matches store z \<and> after_key (keyed_after cov audit resume (origin_of z)) z"
    "\<And>z. z \<in> set held \<Longrightarrow> store_matches store z \<Longrightarrow> after_key (keyed_after cov audit resume (origin_of z)) z \<Longrightarrow> origin_of z \<in> set os \<Longrightarrow>
       z \<in> set sops \<or> origin_of z = d \<and> order_key y < order_key z \<or> origin_of z \<in> set post"
proof -
  let ?w = "wanted_ops held cov audit resume store"
  from assms(2) show thesis
  proof (rule channel_out_SomeE)
    fix pre d post k
    assume out: "os = pre @ d # post" "0 < k" "k \<le> length (?w d)" "sops = concat (map ?w pre) @ take k (?w d)"
      "r = keyed_resume d (Some (order_key (?w d ! (k - 1))))"
    let ?y = "?w d ! (k - 1)"
    have y: "?y \<in> set (?w d)" "?y \<in> set (take k (?w d))"
      using out(2,3) nth_mem [of "k - 1" "take k (?w d)"] by (auto simp del: nth_mem intro: nth_mem)
    have sorted: "sorted_wrt (\<lambda>x y. order_key x < order_key y) (?w d)" using sorted_wrt_filter [OF assms(1)] by (simp add: wanted_ops_def)
    have later: "z \<in> set (take k (?w d)) \<or> order_key ?y < order_key z" if "z \<in> set (?w d)" for z
      using sorted_take_closed [OF sorted y(2) that] by (auto simp: not_le)
    show thesis
    proof (rule that [of pre d post ?y])
      show "origin_of ?y = d" using y(1) by (simp add: wanted_mem)
      then show "r = mark ?y" using out(5) by (simp add: mark_def)
      show "z \<in> set sops \<or> origin_of z = d \<and> order_key ?y < order_key z \<or> origin_of z \<in> set post"
        if "z \<in> set held" "store_matches store z" "after_key (keyed_after cov audit resume (origin_of z)) z" "origin_of z \<in> set os" for z
      proof -
        have "z \<in> set (?w (origin_of z))" using that(1-3) by (simp add: wanted_mem)
        then show ?thesis using that(4) later unfolding out(1,4) by auto
      qed
    qed (use out(1,4) y(2) in \<open>auto simp: wanted_mem dest!: in_set_takeD\<close>)
  qed
qed

lemma resumed_page:
  assumes sorted: "sorted_wrt (\<lambda>x y. order_key x < order_key y) held" and wf: "op_wf x"
    and out: "channel_out (wanted_ops held [] True (Some (mark x)) (Some name)) (keyed_visit own (Some (mark x)) (origins_of held)) n sops token"
  shows "set sops \<subseteq> set held" "z \<in> set sops \<Longrightarrow> \<not> origin_of z < origin_of x"
    "token = None \<Longrightarrow> z \<in> set (store_slice held name) \<Longrightarrow> beyond x z \<Longrightarrow> z \<in> set sops"
    "token = Some r \<Longrightarrow> \<exists>y \<in> set sops. r = mark y \<and> store_matches (Some name) y \<and> beyond x y \<and>
       (\<forall>z \<in> set (store_slice held name). beyond x z \<longrightarrow> z \<in> set sops \<or> beyond y z)"
proof -
  let ?os = "filter (\<lambda>d. \<not> d < origin_of x) (origins_of held)"
  note facts = channel_facts [OF sorted out]
  note out' = out [unfolded sweep_visit [OF wf]]
  show "set sops \<subseteq> set held" using facts(3) by blast
  have visited: "origin_of z \<in> set ?os" "after_key (keyed_after [] True (Some (mark x)) (origin_of z)) z" if "z \<in> set held" "beyond x z" for z
    using that by (auto simp: origins_of_set beyond_def sweep_after [OF wf])
  show "token = None \<Longrightarrow> z \<in> set (store_slice held name) \<Longrightarrow> beyond x z \<Longrightarrow> z \<in> set sops"
    using facts(5) visited unfolding sweep_visit [OF wf] store_slice_mem by blast
  have "\<not> origin_of z < origin_of x" if "z \<in> set sops" "token = Some r" for r z
  proof (rule channel_cut [OF sorted out' [unfolded that(2)]])
    fix pre d post y
    assume "?os = pre @ d # post" "\<And>u. u \<in> set sops \<Longrightarrow> origin_of u \<in> set (pre @ [d]) \<and> store_matches (Some name) u \<and> after_key (keyed_after [] True (Some (mark x)) (origin_of u)) u"
    then have "origin_of z \<in> set ?os" using that(1) by auto
    then show ?thesis by simp
  qed
  moreover have "\<not> origin_of z < origin_of x" if "z \<in> set sops" "token = None" for z
    using channel_out_NoneD [OF out' [unfolded that(2)]] that(1) by (auto simp: wanted_mem)
  ultimately show "z \<in> set sops \<Longrightarrow> \<not> origin_of z < origin_of x" by (cases token) auto
  show "\<exists>y \<in> set sops. r = mark y \<and> store_matches (Some name) y \<and> beyond x y \<and> (\<forall>z \<in> set (store_slice held name). beyond x z \<longrightarrow> z \<in> set sops \<or> beyond y z)"
    if tok: "token = Some r"
  proof -
    obtain pre d post y where cut: "?os = pre @ d # post" "origin_of y = d" "r = mark y" "y \<in> set sops"
        "store_matches (Some name) y" "after_key (keyed_after [] True (Some (mark x)) (origin_of y)) y"
      and rest: "\<And>z. z \<in> set held \<Longrightarrow> store_matches (Some name) z \<Longrightarrow> after_key (keyed_after [] True (Some (mark x)) (origin_of z)) z \<Longrightarrow>
          origin_of z \<in> set ?os \<Longrightarrow> z \<in> set sops \<or> origin_of z = d \<and> order_key y < order_key z \<or> origin_of z \<in> set post"
      using channel_cut [OF sorted out' [unfolded tok]] by metis
    have "d \<in> set ?os" using cut(1) by simp
    then have xy: "beyond x y" using cut(2,6) by (auto simp: beyond_def sweep_after [OF wf])
    have asc: "sorted_wrt (<) (pre @ d # post)" using sorted_wrt_filter [OF origins_of_sorted] unfolding cut(1) [symmetric] .
    have "z \<in> set sops \<or> beyond y z" if z: "z \<in> set (store_slice held name)" "beyond x z" for z
      using rest [of z] z visited [of z] asc cut(2) by (auto simp: store_slice_mem beyond_def sorted_wrt_append)
    then show ?thesis using cut(3-5) xy by blast
  qed
qed

lemma fresh_page:
  assumes sorted: "sorted_wrt (\<lambda>x y. order_key x < order_key y) held"
    and out: "channel_out (wanted_ops held [] True None (Some name)) (keyed_visit own None (origins_of held)) n sops token"
  shows "set sops \<subseteq> set held" "token = None \<Longrightarrow> z \<in> set (store_slice held name) \<Longrightarrow> z \<in> set sops"
    "token = Some r \<Longrightarrow> \<exists>y \<in> set sops. r = mark y \<and> store_matches (Some name) y \<and>
       (\<forall>z \<in> set (store_slice held name). z \<in> set sops \<or> beyond y z \<or> origin_of y = own \<and> origin_of z < own)"
proof -
  let ?os = "keyed_visit own None (origins_of held)"
  note facts = channel_facts [OF sorted out]
  show "set sops \<subseteq> set held" using facts(3) by blast
  have visited: "origin_of z \<in> set ?os" if "z \<in> set held" for z using that by (simp add: visit_fresh origins_of_set)
  show "token = None \<Longrightarrow> z \<in> set (store_slice held name) \<Longrightarrow> z \<in> set sops"
    using facts(5) visited sweep_after_fresh unfolding store_slice_mem by blast
  show "\<exists>y \<in> set sops. r = mark y \<and> store_matches (Some name) y \<and>
      (\<forall>z \<in> set (store_slice held name). z \<in> set sops \<or> beyond y z \<or> origin_of y = own \<and> origin_of z < own)" if tok: "token = Some r"
  proof -
    obtain pre d post y where cut: "?os = pre @ d # post" "origin_of y = d" "r = mark y" "y \<in> set sops" "store_matches (Some name) y"
      and rest: "\<And>z. z \<in> set held \<Longrightarrow> store_matches (Some name) z \<Longrightarrow> after_key (keyed_after [] True None (origin_of z)) z \<Longrightarrow>
          origin_of z \<in> set ?os \<Longrightarrow> z \<in> set sops \<or> origin_of z = d \<and> order_key y < order_key z \<or> origin_of z \<in> set post"
      using channel_cut [OF sorted out [unfolded tok]] by metis
    have after: "d < e \<or> d = own \<and> e < own" if "e \<in> set post" for e
    proof (cases "pre = [] \<and> d = own")
      case True
      moreover have "distinct (d # post)" using visit_order [of own None held] unfolding cut(1) by simp
      ultimately show ?thesis using that by (metis distinct.simps(2) linorder_neqE)
    next
      case False
      have "sorted_wrt (<) (pre @ d # post)" if "pre = []"
        using False that cut(1) origins_of_sorted [of held] by (auto simp: keyed_visit_def split: if_splits)
      moreover have "sorted_wrt (<) (tl pre @ d # post)" if "pre \<noteq> []"
        using visit_order [of own None held] that unfolding cut(1) by simp
      ultimately show ?thesis using that by (auto simp: sorted_wrt_append)
    qed
    have "z \<in> set sops \<or> beyond y z \<or> origin_of y = own \<and> origin_of z < own" if z: "z \<in> set (store_slice held name)" for z
      using rest [of z] z visited [of z] sweep_after_fresh after cut(2) by (auto simp: store_slice_mem beyond_def)
    then show ?thesis using cut(3-5) by blast
  qed
qed

lemma fresh_own_cut:
  assumes sorted: "sorted_wrt (\<lambda>x y. order_key x < order_key y) held"
    and out: "channel_out (wanted_ops held [] True None (Some name)) (keyed_visit own None (origins_of held)) PULL_PAGE_LIMIT_MAX sops token"
    and many: "PULL_PAGE_LIMIT_MAX \<le> length (filter (\<lambda>x. origin_of x = own) (store_slice held name))"
  shows "\<exists>y \<in> set sops. token = Some (mark y) \<and> origin_of y = own \<and> (\<forall>z \<in> set sops. origin_of z = own)"
proof -
  let ?w = "wanted_ops held [] True None (Some name)"
  have own: "?w own = filter (\<lambda>x. origin_of x = own) (store_slice held name)"
    by (auto simp: wanted_ops_def of_origin_def store_slice_def store_matches_def sweep_after_fresh intro!: filter_cong)
  have "?w own \<noteq> []" using many by (auto simp: own PULL_PAGE_LIMIT_MAX_def PAGE_LIMIT_MAX_def)
  then obtain v where "v \<in> set (?w own)" by (cases "?w own") auto
  then have os: "keyed_visit own None (origins_of held) = own # filter (\<lambda>d. d \<noteq> own) (origins_of held)"
    by (auto simp: keyed_visit_def origins_of_set wanted_mem)
  show ?thesis
  proof (cases token)
    case None
    then show ?thesis using channel_out_NoneD [of ?w] out many unfolding None os own [symmetric] by fastforce
  next
    case (Some r)
    from out [unfolded Some os] show ?thesis
    proof (rule channel_out_SomeE)
      fix pre d post k
      assume cut: "own # filter (\<lambda>d. d \<noteq> own) (origins_of held) = pre @ d # post" "0 < k" "k \<le> length (?w d)"
        "sops = concat (map ?w pre) @ take k (?w d)" "r = keyed_resume d (Some (order_key (?w d ! (k - 1))))" "length sops \<le> PULL_PAGE_LIMIT_MAX"
      have "pre = []"
      proof (rule ccontr)
        assume "pre \<noteq> []"
        then obtain pre' where "pre = own # pre'" using cut(1) by (cases pre) auto
        then have "length sops \<ge> length (?w own) + k" using cut(3,4) by simp
        then show False using many cut(2,6) by (simp add: own)
      qed
      then have d: "d = own" using cut(1) by simp
      let ?y = "?w own ! (k - 1)"
      have mem: "?y \<in> set sops"
        using cut(2-4) \<open>pre = []\<close> nth_mem [of "k - 1" "take k (?w own)"] by (simp add: d)
      moreover have "\<forall>z \<in> set sops. origin_of z = own" using cut(4) \<open>pre = []\<close> by (auto simp: d wanted_mem dest!: in_set_takeD)
      ultimately show ?thesis using cut(5) Some by (auto simp: d mark_def intro!: bexI [of _ ?y])
    qed
  qed
qed

lemma encode_rows_all:
  "used + sum_list (map (\<lambda>r. length (b64_encode j (snd r))) rows) < byte_budget \<Longrightarrow>
   \<exists>last_key'. encode_rows_loop j byte_budget rows keyed used served last_key =
     (keyed @ map (\<lambda>r. b64_encode j (snd r)) rows, used + sum_list (map (\<lambda>r. length (b64_encode j (snd r))) rows), served + length rows, last_key')"
proof (induction rows arbitrary: keyed used served last_key)
  case (Cons r rows)
  obtain key envelope where r: "r = (key, envelope)" by fastforce
  show ?case
    using Cons.prems Cons.IH [of "used + length (b64_encode j envelope)" "keyed @ [b64_encode j envelope]" "served + 1" "Some key"]
    by (simp add: r Let_def add.assoc)
qed simp

text \<open>The server's own part of a store fits one page.\<close>

definition own_fits :: "pull_codec \<Rightarrow> codec \<Rightarrow> device_id \<Rightarrow> signed_op list \<Rightarrow> bool" where
  "own_fits j pc own sops \<longleftrightarrow>
     (let own_ops = filter (\<lambda>x. origin_of x = own) sops in
      length own_ops < PULL_PAGE_LIMIT_MAX \<and> sum_list (map (\<lambda>x. length (entry_of j pc x)) own_ops) < PULL_PAGE_BYTE_BUDGET)"

context pull_source
begin

lemma own_served:
  assumes "inv l" "own_fits j pc own (store_slice (held l) name)" "\<And>x. x \<in> set (held l) \<Longrightarrow> op_wf x"
    and "build_keyed_channel j sk (state l) [] None True PULL_PAGE_LIMIT_MAX PULL_PAGE_BYTE_BUDGET (Some name) own = Inr (keyed, Some (mark y))"
    and "y \<in> set (held l)"
  shows "origin_of y \<noteq> own"
proof (cases "own \<in> set (origins_of (held l))")
  case False
  then show ?thesis using assms(5) by (auto simp: origins_of_set)
next
  case True
  let ?w = "wanted_ops (held l) [] True None (Some name)" and ?rows = "\<lambda>d n. ps_origin_since sk (state l) d (keyed_after [] True None d) (Some name) n"
  let ?rest = "filter (\<lambda>d. d \<noteq> own) (origins_of (held l))"
  have budget: "0 < PULL_PAGE_LIMIT_MAX" "0 < PULL_PAGE_BYTE_BUDGET" by (simp_all add: PULL_PAGE_LIMIT_MAX_def PAGE_LIMIT_MAX_def PULL_PAGE_BYTE_BUDGET_def)
  have own: "?w own = filter (\<lambda>x. origin_of x = own) (store_slice (held l) name)"
    by (auto simp: wanted_ops_def of_origin_def store_slice_def store_matches_def sweep_after_fresh intro!: filter_cong)
  have rows: "?rows d n = Inr (map (\<lambda>x. (order_key x, env_bytes pc x)) (take n (?w d)))" if "0 < n" for d n
    using that by (simp add: sk_origin_since [OF assms(1)] origin_page_def wanted_ops_def max_def)
  let ?own = "map (\<lambda>x. (order_key x, env_bytes pc x)) (?w own)"
  have few: "length ?own < PULL_PAGE_LIMIT_MAX" "sum_list (map (\<lambda>r. length (b64_encode j (snd r))) ?own) < PULL_PAGE_BYTE_BUDGET"
    using assms(2) by (simp_all add: own own_fits_def entry_of_def o_def Let_def)
  obtain lk where enc: "encode_origin_rows j ?own [] 0 PULL_PAGE_BYTE_BUDGET =
      (map (\<lambda>r. b64_encode j (snd r)) ?own, sum_list (map (\<lambda>r. length (b64_encode j (snd r))) ?own), length ?own, lk)"
    using encode_rows_all [of 0 j ?own PULL_PAGE_BYTE_BUDGET "[]" 0 None] few(2) by (auto simp: encode_origin_rows_def)
  have "build_keyed_channel j sk (state l) [] None True PULL_PAGE_LIMIT_MAX PULL_PAGE_BYTE_BUDGET (Some name) own =
      keyed_loop j ?rows PULL_PAGE_BYTE_BUDGET (\<lambda>_. False) (own # ?rest) [] 0 PULL_PAGE_LIMIT_MAX"
    using build_keyed_loop [OF assms(1) budget] True by (simp add: keyed_visit_def)
  also have "\<dots> = keyed_loop j ?rows PULL_PAGE_BYTE_BUDGET (\<lambda>_. False) ?rest (map (\<lambda>r. b64_encode j (snd r)) ?own)
      (sum_list (map (\<lambda>r. length (b64_encode j (snd r))) ?own)) (PULL_PAGE_LIMIT_MAX - length ?own)"
    using few rows [OF budget(1), of own] enc by simp
  finally have fold: "build_keyed_channel j sk (state l) [] None True PULL_PAGE_LIMIT_MAX PULL_PAGE_BYTE_BUDGET (Some name) own = \<dots>" .
  obtain sops token where loop: "keyed_loop j ?rows PULL_PAGE_BYTE_BUDGET (\<lambda>_. False) ?rest (map (\<lambda>r. b64_encode j (snd r)) ?own)
      (sum_list (map (\<lambda>r. length (b64_encode j (snd r))) ?own)) (PULL_PAGE_LIMIT_MAX - length ?own) = Inr (map (\<lambda>r. b64_encode j (snd r)) ?own @ map (entry_of j pc) sops, token)"
      "channel_out ?w (filter (\<lambda>d. \<not> False) ?rest) (PULL_PAGE_LIMIT_MAX - length ?own) sops token"
    using keyed_loop_out [where skip = "\<lambda>_. False" and os = ?rest and wanted = ?w and j = j, OF rows few(2)] few(1) by (meson zero_less_diff)
  have tok: "token = Some (mark y)" using assms(4) unfolding fold loop(1) by simp
  obtain y' where y': "origin_of y' \<in> set ?rest" "mark y = mark y'" "y' \<in> set (held l)"
    using channel_cut [OF sk_sorted [OF assms(1)] loop(2) [unfolded tok]] by (metis (no_types, lifting) filter_True in_set_conv_decomp subsetD)
  have "origin_of y = origin_of y'" using mark_decodes(1) [OF assms(3) [OF assms(5)]] mark_decodes(1) [OF assms(3) [OF y'(3)]] y'(2) by simp
  then show ?thesis using y'(1) by simp
qed

end

section \<open>A sweep of one store\<close>

text \<open>
  A peer that answers every request of a sweep: with the channel of the store, and on a fresh request without
  ending inside its own ops if these fit.
\<close>

definition sweep_peer ::
  "('s, 'n, 'sk, 'vk, 'sg, 'e) puller \<Rightarrow> 's sink_view \<Rightarrow> relay_cursor option \<Rightarrow> string \<Rightarrow> device_id \<Rightarrow> signed_op list \<Rightarrow> bool" where
  "sweep_peer p V cursor name own held \<longleftrightarrow>
     (\<forall>s s' n now resume. vw_ok V s \<longrightarrow> ps_now_ms (pu_socket p) s = (s', now) \<longrightarrow> (\<forall>r. resume = Some r \<longrightarrow> r \<in> mark ` set held) \<longrightarrow>
        (\<exists>n' bs page sops. exchange p s' n (sweep_request cursor resume name now) = (fst (ps_next_hlc (pu_socket p) s'), n', Inr (200, bs)) \<and>
           verify_pull_page (pu_crypto p) (pu_codec p) (pu_json p) bs (pu_peer p) (pu_sec1 p) = Inr page \<and>
           pp_store page = Some name \<and> pp_keyed page = map (entry_of (pu_json p) (pu_codec p)) sops \<and> pp_complete page = (pp_resume page = None) \<and>
           channel_out (wanted_ops held [] True resume (Some name)) (keyed_visit own resume (origins_of held)) PULL_PAGE_LIMIT_MAX sops (pp_resume page) \<and>
           (resume = None \<longrightarrow> own_fits (pu_json p) (pu_codec p) own (store_slice held name) \<longrightarrow>
              (\<forall>y \<in> set held. pp_resume page = Some (mark y) \<longrightarrow> origin_of y \<noteq> own))))"

lemma quiet_settles: "quiet V s s' \<Longrightarrow> settles V skip s x \<Longrightarrow> settles V skip s' x"
  by (auto simp: quiet_def settles_def)

lemma admission_settled:
  assumes "admission (grows V skip sops) (\<lambda>w _ _. (w, Inr ())) (s, q) k a w"
  shows "\<forall>x \<in> set (take k sops). settles V skip (fst w) x"
  using assms by cases (auto simp: grows_def)

context pull_sink
begin

lemma admit_all:
  assumes "vw_ok V s" "ready V s (set held)" "set sops \<subseteq> set held"
    and run: "ps_admit_ops sk (s, q) peer sops skip vouch (\<lambda>w _ _. (w, Inr ())) = ((s', q'), out)"
  shows "\<exists>adm. out = Inr adm \<and> pa_error adm = None" "\<forall>x \<in> set sops. settles V skip s' x" "quiet V s s'" "ready V s' (set held)"
    "holds V s' \<subseteq> holds V s \<union> op_id ` set sops"
proof -
  let ?cb = "(\<lambda>w _ _. (w, Inr ())) :: ('s, 'e) after_quantum"
  obtain adm where adm: "out = Inr adm" "pa_error adm = None"
    using sink_ready [OF assms(1-3) _ run] by auto
  have "admission (grows V skip sops) ?cb (s, q) (length sops) (pa_claim_safe adm) (s', q')"
    using sink_admit [OF assms(1) run] adm by (auto simp: admission_ends_def)
  then show "\<forall>x \<in> set sops. settles V skip s' x" using admission_settled by fastforce
  have side: "side_step V skip held s s'" by (rule admit_silent [OF assms(1,3) run])
  then show "ready V s' (set held)" using assms(2) by (simp add: side_step_def advances_def)
  show "quiet V s s'" by (rule quiet_side [OF side])
  show "holds V s' \<subseteq> holds V s \<union> op_id ` set sops"
    using admit_silent [OF assms(1) subset_refl run] by (simp add: side_step_def advances_def)
  show "\<exists>adm. out = Inr adm \<and> pa_error adm = None" using adm by blast
qed

text \<open>One iteration against such a peer: the page is taken in whole.\<close>

lemma sweep_advance:
  assumes sock: "pu_socket p = sk" and peer: "sweep_peer p V cursor name own held"
    and laws: "codec_laws (pu_codec p)" "pull_codec_laws (pu_json p)" "\<And>x. x \<in> set held \<Longrightarrow> op_wf x"
    and sorted: "sorted_wrt (\<lambda>x y. order_key x < order_key y) held"
    and start: "vw_ok V s" "ready V s (set held)" "\<And>r. sw_resume w = Some r \<Longrightarrow> r \<in> mark ` set held"
  shows "\<exists>s' n' w' out sops token.
    sweep_step p cursor name (s, n, w) = ((s', n', w'), out) \<and> quiet V s s' \<and> ready V s' (set held) \<and> (\<forall>x \<in> set sops. settles V True s' x) \<and>
    holds V s' \<subseteq> holds V s \<union> op_id ` set sops \<and>
    channel_out (wanted_ops held [] True (sw_resume w) (Some name)) (keyed_visit own (sw_resume w) (origins_of held)) PULL_PAGE_LIMIT_MAX sops token \<and>
    (sw_resume w = None \<longrightarrow> own_fits (pu_json p) (pu_codec p) own (store_slice held name) \<longrightarrow> (\<forall>y \<in> set held. token = Some (mark y) \<longrightarrow> origin_of y \<noteq> own)) \<and>
    (case token of None \<Rightarrow> \<exists>k. out = Some (Inr k)
     | Some r \<Rightarrow> sw_last w = Some (rsm_origin r, rsm_after_key r) \<or> out = None \<and> sw_resume w' = Some r \<and> sw_last w' = Some (rsm_origin r, rsm_after_key r))"
proof -
  obtain s1 now where now: "ps_now_ms sk s = (s1, now)" by (rule prod.exhaust)
  have q1: "keeps_all V s s1" by (rule sink_now [OF start(1) now])
  obtain s2 t where hlc: "ps_next_hlc sk s1 = (s2, t)" by (rule prod.exhaust)
  have q2: "keeps_all V s1 s2" using sink_hlc [OF _ hlc] q1 by (simp add: keeps_all_def keeps_ops_def)
  have ok: "quiet V s s2" "ready V s2 (set held)"
    using quiet_trans [OF quiet_keeps [OF q1] quiet_keeps [OF q2]] q1 q2 start(2) by (auto simp: keeps_all_def keeps_ops_def le_fun_def)
  obtain n2 bs page sops where ex: "exchange p s1 n (sweep_request cursor (sw_resume w) name now) = (s2, n2, Inr (200, bs))"
      "verify_pull_page (pu_crypto p) (pu_codec p) (pu_json p) bs (pu_peer p) (pu_sec1 p) = Inr page"
      "pp_store page = Some name" "pp_keyed page = map (entry_of (pu_json p) (pu_codec p)) sops" "pp_complete page = (pp_resume page = None)"
      "channel_out (wanted_ops held [] True (sw_resume w) (Some name)) (keyed_visit own (sw_resume w) (origins_of held)) PULL_PAGE_LIMIT_MAX sops (pp_resume page)"
      "sw_resume w = None \<longrightarrow> own_fits (pu_json p) (pu_codec p) own (store_slice held name) \<longrightarrow> (\<forall>y \<in> set held. pp_resume page = Some (mark y) \<longrightarrow> origin_of y \<noteq> own)"
    using peer [unfolded sweep_peer_def, rule_format, of s s1 now "sw_resume w" n] start(1,3) now hlc by (auto simp: sock)
  have sub: "set sops \<subseteq> set held" using channel_facts(3) [OF sorted ex(6)] by blast
  have dec: "decode_entries (pu_codec p) (pu_json p) (pu_peer p) (pp_keyed page) = Inr sops"
    unfolding ex(4) by (rule decode_entries_ops [OF laws(1,2)]) (use sub laws(3) in auto)
  obtain s3 q3 out where adm: "ps_admit_ops sk (s2, \<lparr>qm_current = RELAY_START, qm_committed = 0\<rparr>) (pu_peer p) sops True True (\<lambda>w _ _. (w, Inr ())) = ((s3, q3), out)"
    by (metis prod.collapse)
  note all = admit_all [OF quiet_ok [OF ok(1)] ok(2) sub adm]
  obtain ad where ad: "out = Inr ad" "pa_error ad = None" using all(1) by blast
  let ?w = "w\<lparr>sw_applied := sw_applied w + pa_admitted ad\<rparr>" and ?pos = "map_option (\<lambda>r. (rsm_origin r, rsm_after_key r)) (pp_resume page)"
  have step: "sweep_step p cursor name (s, n, w) =
      (if pp_complete page then ((s3, n2, ?w), Some (Inr (sw_applied ?w)))
       else if ?pos = sw_last w then ((s3, n2, ?w), Some (Inl (ps_protocol_error sk (SweepStalled (pu_peer p)))))
       else ((s3, n2, ?w\<lparr>sw_last := ?pos, sw_resume := pp_resume page\<rparr>), None))"
    by (simp add: sweep_step_def sock now ex(1-3) dec adm ad Let_def)
  obtain x' out' where x: "sweep_step p cursor name (s, n, w) = (x', out')" by (rule prod.exhaust)
  obtain w' where w': "x' = (s3, n2, w')" using step x by (auto split: if_splits)
  have "case pp_resume page of None \<Rightarrow> \<exists>k. out' = Some (Inr k)
      | Some r \<Rightarrow> sw_last w = Some (rsm_origin r, rsm_after_key r) \<or> out' = None \<and> sw_resume w' = Some r \<and> sw_last w' = Some (rsm_origin r, rsm_after_key r)"
    using step x w' ex(5) by (auto split: option.split if_splits)
  moreover have "holds V s2 = holds V s" using q1 q2 by (simp add: keeps_all_def keeps_ops_def)
  ultimately show ?thesis
    using x w' quiet_trans [OF ok(1) all(3)] all(2,4,5) ex(6,7)
    by (intro exI [of _ s3] exI [of _ n2] exI [of _ w'] exI [of _ out'] exI [of _ sops] exI [of _ "pp_resume page"]) simp
qed

end

lemma beyond_fewer:
  assumes "beyond x y" "y \<in> set held"
  shows "length (filter (beyond y) held) < length (filter (beyond x) held)"
proof -
  have "filter (beyond y) held = filter (beyond y) (filter (beyond x) held)"
    using beyond_trans [OF assms(1)] by (auto intro!: filter_cong)
  moreover have "\<not> beyond y y" by (simp add: beyond_def)
  ultimately show ?thesis using assms by (metis (no_types, lifting) filter_set length_filter_less mem_Collect_eq set_filter)
qed

context pull_sink
begin

lemma sweep_from:
  assumes base: "pu_socket p = sk" "sweep_peer p V cursor name own held" "codec_laws (pu_codec p)" "pull_codec_laws (pu_json p)"
      "\<And>x. x \<in> set held \<Longrightarrow> op_wf x" "sorted_wrt (\<lambda>x y. order_key x < order_key y) held"
    and "vw_ok V s" "ready V s (set held)" "x \<in> set held" "sw_resume w = Some (mark x)" "sw_last w = Some (rsm_origin (mark x), rsm_after_key (mark x))"
  shows "\<exists>s' n' w' k. sweep_loop p cursor name (s, n, w) = Some ((s', n', w'), Inr k) \<and> quiet V s s' \<and>
    (\<forall>z \<in> set (store_slice held name). beyond x z \<longrightarrow> settles V True s' z) \<and>
    holds V s' \<subseteq> holds V s \<union> op_id ` {z \<in> set held. \<not> origin_of z < origin_of x}"
  using assms(7-11)
proof (induction "length (filter (beyond x) held)" arbitrary: x s n w rule: less_induct)
  case less
  have "r \<in> mark ` set held" if "sw_resume w = Some r" for r using that less.prems(3,4) by auto
  from sweep_advance [OF base less.prems(1,2) this] obtain s1 n1 w1 out sops token where
      step: "sweep_step p cursor name (s, n, w) = ((s1, n1, w1), out)" "quiet V s s1" "ready V s1 (set held)" "\<forall>x \<in> set sops. settles V True s1 x"
        "holds V s1 \<subseteq> holds V s \<union> op_id ` set sops"
      and chan: "channel_out (wanted_ops held [] True (sw_resume w) (Some name)) (keyed_visit own (sw_resume w) (origins_of held)) PULL_PAGE_LIMIT_MAX sops token"
      and tok: "case token of None \<Rightarrow> \<exists>k. out = Some (Inr k)
        | Some r \<Rightarrow> sw_last w = Some (rsm_origin r, rsm_after_key r) \<or> out = None \<and> sw_resume w1 = Some r \<and> sw_last w1 = Some (rsm_origin r, rsm_after_key r)"
    by blast
  note page = resumed_page [OF base(6) base(5) [OF less.prems(3)] chan [unfolded less.prems(4)]]
  have new: "holds V s1 \<subseteq> holds V s \<union> op_id ` {z \<in> set held. \<not> origin_of z < origin_of x}" using step(5) page(1,2) by blast
  show ?case
  proof (cases token)
    case None
    then obtain k where "out = Some (Inr k)" using tok by auto
    then have "sweep_loop p cursor name (s, n, w) = Some ((s1, n1, w1), Inr k)" using sweep_loop.simps [of p cursor name "(s, n, w)"] step(1) by simp
    then show ?thesis using step(2,4) page(3) [OF None] new by blast
  next
    case (Some r)
    from page(4) [OF Some] obtain y where y: "y \<in> set sops" "r = mark y" "beyond x y"
        "\<And>z. z \<in> set (store_slice held name) \<Longrightarrow> beyond x z \<Longrightarrow> z \<in> set sops \<or> beyond y z" by blast
    have held: "y \<in> set held" using y(1) page(1) by blast
    have "sw_last w \<noteq> Some (rsm_origin r, rsm_after_key r)"
      using mark_position [OF base(5) [OF less.prems(3)] base(5) [OF held] y(3)] less.prems(5) y(2) by simp
    then have out: "out = None" "sw_resume w1 = Some (mark y)" "sw_last w1 = Some (rsm_origin (mark y), rsm_after_key (mark y))"
      using tok Some y(2) by auto
    from less.hyps [OF beyond_fewer [OF y(3) held] quiet_ok [OF step(2)] step(3) held out(2,3)] obtain s2 n2 w2 k where
        rest: "sweep_loop p cursor name (s1, n1, w1) = Some ((s2, n2, w2), Inr k)" "quiet V s1 s2"
          "\<forall>z \<in> set (store_slice held name). beyond y z \<longrightarrow> settles V True s2 z"
          "holds V s2 \<subseteq> holds V s1 \<union> op_id ` {z \<in> set held. \<not> origin_of z < origin_of y}" by blast
    have "sweep_loop p cursor name (s, n, w) = Some ((s2, n2, w2), Inr k)"
      using sweep_loop.simps [of p cursor name "(s, n, w)"] step(1) out(1) rest(1) by simp
    moreover have "settles V True s2 z" if "z \<in> set (store_slice held name)" "beyond x z" for z
      using y(4) [OF that] rest(3) that(1) step(4) quiet_settles [OF rest(2)] by blast
    moreover have "\<not> origin_of z < origin_of x" if "\<not> origin_of z < origin_of y" for z using y(3) that by (auto simp: beyond_def)
    then have "holds V s2 \<subseteq> holds V s \<union> op_id ` {z \<in> set held. \<not> origin_of z < origin_of x}" using rest(4) new by blast
    ultimately show ?thesis using quiet_trans [OF step(2) rest(2)] by blast
  qed
qed

lemma sweep_ends:
  assumes base: "pu_socket p = sk" "sweep_peer p V cursor name own held" "codec_laws (pu_codec p)" "pull_codec_laws (pu_json p)"
      "\<And>x. x \<in> set held \<Longrightarrow> op_wf x" "sorted_wrt (\<lambda>x y. order_key x < order_key y) held"
    and start: "vw_ok V s" "ready V s (set held)"
  shows "\<exists>s' n' w' k. sweep_store p cursor name s n = Some ((s', n', w'), Inr k) \<and> quiet V s s' \<and>
    (\<forall>z \<in> set (store_slice held name). settles V True s' z \<or> \<not> own_fits (pu_json p) (pu_codec p) own (store_slice held name) \<and> origin_of z < own) \<and>
    (PULL_PAGE_LIMIT_MAX \<le> length (filter (\<lambda>x. origin_of x = own) (store_slice held name)) \<longrightarrow>
       holds V s' \<subseteq> holds V s \<union> op_id ` {z \<in> set held. \<not> origin_of z < own})"
proof -
  let ?w = "\<lparr>sw_applied = 0, sw_resume = None, sw_last = None\<rparr>"
  have none: "sw_resume ?w = None" "sw_last ?w = None" by simp_all
  from sweep_advance [OF base start, of ?w n] obtain s1 n1 w1 out sops token where
      step: "sweep_step p cursor name (s, n, ?w) = ((s1, n1, w1), out)" "quiet V s s1" "ready V s1 (set held)" "\<forall>x \<in> set sops. settles V True s1 x"
        "holds V s1 \<subseteq> holds V s \<union> op_id ` set sops"
      and chan: "channel_out (wanted_ops held [] True None (Some name)) (keyed_visit own None (origins_of held)) PULL_PAGE_LIMIT_MAX sops token"
      and fits: "own_fits (pu_json p) (pu_codec p) own (store_slice held name) \<longrightarrow> (\<forall>y \<in> set held. token = Some (mark y) \<longrightarrow> origin_of y \<noteq> own)"
      and tok: "case token of None \<Rightarrow> \<exists>k. out = Some (Inr k)
        | Some r \<Rightarrow> out = None \<and> sw_resume w1 = Some r \<and> sw_last w1 = Some (rsm_origin r, rsm_after_key r)"
    unfolding none by (auto split: option.splits)
  note page = fresh_page [OF base(6) chan] and full = fresh_own_cut [OF base(6) chan]
  show ?thesis
  proof (cases token)
    case None
    then obtain k where "out = Some (Inr k)" using tok by auto
    then have "sweep_store p cursor name s n = Some ((s1, n1, w1), Inr k)"
      unfolding sweep_store_def using sweep_loop.simps [of p cursor name "(s, n, ?w)"] step(1) by simp
    then show ?thesis using step(2,4) page(2) [OF None] full None by blast
  next
    case (Some r)
    from page(3) [OF Some] obtain y where y: "y \<in> set sops" "r = mark y"
        "\<And>z. z \<in> set (store_slice held name) \<Longrightarrow> z \<in> set sops \<or> beyond y z \<or> origin_of y = own \<and> origin_of z < own" by blast
    have held: "y \<in> set held" using y(1) page(1) by blast
    have out: "out = None" "sw_resume w1 = Some (mark y)" "sw_last w1 = Some (rsm_origin (mark y), rsm_after_key (mark y))" using tok Some y(2) by auto
    from sweep_from [OF base quiet_ok [OF step(2)] step(3) held out(2,3), of n1] obtain s2 n2 w2 k where
        rest: "sweep_loop p cursor name (s1, n1, w1) = Some ((s2, n2, w2), Inr k)" "quiet V s1 s2"
          "\<forall>z \<in> set (store_slice held name). beyond y z \<longrightarrow> settles V True s2 z"
          "holds V s2 \<subseteq> holds V s1 \<union> op_id ` {z \<in> set held. \<not> origin_of z < origin_of y}" by blast
    have "sweep_store p cursor name s n = Some ((s2, n2, w2), Inr k)"
      unfolding sweep_store_def using sweep_loop.simps [of p cursor name "(s, n, ?w)"] step(1) out(1) rest(1) by simp
    moreover have "settles V True s2 z \<or> \<not> own_fits (pu_json p) (pu_codec p) own (store_slice held name) \<and> origin_of z < own"
      if "z \<in> set (store_slice held name)" for z
      using y(3) [OF that] rest(3) that step(4) quiet_settles [OF rest(2)] fits held Some y(2) by blast
    moreover have "holds V s2 \<subseteq> holds V s \<union> op_id ` {z \<in> set held. \<not> origin_of z < own}"
      if "PULL_PAGE_LIMIT_MAX \<le> length (filter (\<lambda>x. origin_of x = own) (store_slice held name))"
    proof -
      from full [OF that] obtain y' where y': "y' \<in> set sops" "mark y = mark y'" "origin_of y' = own" "\<forall>z \<in> set sops. origin_of z = own"
        using Some y(2) by auto
      have "origin_of y = own" using y'(4) y(1) by blast
      moreover have "op_id ` set sops \<subseteq> op_id ` {z \<in> set held. \<not> origin_of z < own}" using y'(4) page(1) by auto
      ultimately show ?thesis using rest(4) step(5) by blast
    qed
    ultimately show ?thesis using quiet_trans [OF step(2) rest(2)] by blast
  qed
qed

end

section \<open>The HTTP server as a sweep peer\<close>

context pull_source
begin

lemma store_page:
  assumes "inv l" "decode_epoch (pq_relay_epoch request) = Some e" "pq_store request = Some name"
  shows "build_pull_page j sk (state l) peer request =
    and_then (build_keyed_channel j sk (state l) (decode_coverage request) (resume_in Keyed request) (pq_audit request) (clamp_limit request)
        PULL_PAGE_BYTE_BUDGET (Some name) (ps_own_device_id sk (state l))) (\<lambda>(keyed, resume).
      Inr (data_page (full_stream (epoch l) (arrived l)) [] keyed (pq_relay_after request) resume (Some name)))"
  using assms(2,3) by (simp add: build_pull_page_def sk_stream [OF assms(1)] Let_def)

lemma sweep_page_out:
  assumes "inv l" "length (cursor_epoch cursor) = 32" "\<And>x. x \<in> set (held l) \<Longrightarrow> op_wf x" "\<And>r. resume = Some r \<Longrightarrow> r \<in> mark ` set (held l)"
    and "own = ps_own_device_id sk (state l)"
  shows "\<exists>sops token. build_pull_page j sk (state l) peer (sweep_request cursor resume name now) =
      Inr (data_page (full_stream (epoch l) (arrived l)) [] (map (entry_of j pc) sops) (cursor_after cursor) token (Some name)) \<and>
    channel_out (wanted_ops (held l) [] True resume (Some name)) (keyed_visit own resume (origins_of (held l))) PULL_PAGE_LIMIT_MAX sops token \<and>
    (resume = None \<longrightarrow> own_fits j pc own (store_slice (held l) name) \<longrightarrow> (\<forall>y \<in> set (held l). token = Some (mark y) \<longrightarrow> origin_of y \<noteq> own))"
proof -
  let ?rq = "sweep_request cursor resume name now"
  have keyed: "rsm_phase r = Keyed" if "resume = Some r" for r using assms(4) [OF that] by (auto simp: mark_def keyed_resume_def)
  have rq: "decode_epoch (pq_relay_epoch ?rq) = Some (cursor_epoch cursor)" "pq_store ?rq = Some name" "decode_coverage ?rq = []"
      "resume_in Keyed ?rq = resume" "pq_audit ?rq" "clamp_limit ?rq = PULL_PAGE_LIMIT_MAX" "pq_relay_after ?rq = cursor_after cursor"
    using decode_epoch_hex [OF assms(2)] keyed
    by (auto simp: sweep_request_def decode_coverage_def from_wire_map_def List.map_filter_def bt_collect_def resume_in_def clamp_limit_def
        PULL_PAGE_LIMIT_MAX_def PAGE_LIMIT_MAX_def split: option.split)
  have budget: "0 < PULL_PAGE_LIMIT_MAX" "0 < PULL_PAGE_BYTE_BUDGET" by (simp_all add: PULL_PAGE_LIMIT_MAX_def PAGE_LIMIT_MAX_def PULL_PAGE_BYTE_BUDGET_def)
  obtain sops token where ch: "build_keyed_channel j sk (state l) [] resume True PULL_PAGE_LIMIT_MAX PULL_PAGE_BYTE_BUDGET (Some name) own =
        Inr (map (entry_of j pc) sops, token)"
      "channel_out (wanted_ops (held l) [] True resume (Some name)) (keyed_visit own resume (origins_of (held l))) PULL_PAGE_LIMIT_MAX sops token"
    using build_keyed_out [OF assms(1) budget, of j "[]" resume True "Some name" own] by blast
  have "origin_of y \<noteq> own" if "resume = None" "own_fits j pc own (store_slice (held l) name)" "y \<in> set (held l)" "token = Some (mark y)" for y
    by (rule own_served [OF assms(1) that(2) assms(3) _ that(3)]) (use ch(1) that in simp_all)
  then show ?thesis
    unfolding store_page [OF assms(1) rq(1,2)] using ch rq(3-7) assms(5) by (intro exI [of _ sops] exI [of _ token]) simp
qed

end

text \<open>The pages of a sweep are within the client's cap once sealed.\<close>

definition sweep_pages_fit :: "('sk, 'vk, 'sg) crypto \<Rightarrow> codec \<Rightarrow> pull_codec \<Rightarrow> ('sk, 'vk) device_identity \<Rightarrow> op_log \<Rightarrow> nat \<Rightarrow> string \<Rightarrow> bool" where
  "sweep_pages_fit c pc j identity log after name \<longleftrightarrow>
     (\<forall>sops token t bs. set sops \<subseteq> set (log_iter log) \<longrightarrow> length sops \<le> PULL_PAGE_LIMIT_MAX \<longrightarrow> (\<forall>r. token = Some r \<longrightarrow> r \<in> mark ` set (log_iter log)) \<longrightarrow>
        seal_pull_page c pc j (data_page (relay_state log) [] (map (entry_of j pc) sops) after token (Some name)) identity t = Inr bs \<longrightarrow>
        length bs \<le> MAX_PULL_RESPONSE_BYTES)"

lemma served_sweep:
  assumes laws: "sha_laws c" "sec1_laws c" "ecdsa_laws c" "codec_laws pc" "pull_codec_laws j"
    and server: "sv_identity st = from_signing c sks" "sv_log st = log_as_source pc log" "log_ok log"
      "db_try_key_for_device (sv_relay_callers st) (device_id_of c (sk_verifying c skc)) = Inr (Some (public_key_sec1 c (from_signing c skc)))"
      "sweep_pages_fit c pc j (from_signing c sks) log (cursor_after cursor) name"
    and wf: "\<And>x. x \<in> set (log_iter log) \<Longrightarrow> op_wf x"
    and skew: "\<And>n k. \<bar>as_i64 (unix n) - as_i64 (clock k)\<bar> \<le> MAX_REQUEST_SKEW_MS"
    and cursor: "length (cursor_epoch cursor) = 32" "\<not> pull_needs_reset (cursor_epoch cursor) (cursor_after cursor) (relay_state log)"
    and p: "p = node_puller c pc j ck impl skc sks (served_net c pc j shown unix unix' instants st)"
  shows "sweep_peer p (node_view c pc ck impl clock) cursor name (device_id_of c (sk_verifying c sks)) (log_iter log)"
  unfolding sweep_peer_def
proof (intro allI impI)
  let ?V = "node_view c pc ck impl clock" and ?own = "device_id_of c (sk_verifying c sks)"
  fix s s' n now resume
  assume a: "vw_ok ?V s" "ps_now_ms (pu_socket p) s = (s', now)" "\<forall>r. resume = Some r \<longrightarrow> r \<in> mark ` set (log_iter log)"
  let ?rq = "sweep_request cursor resume name now"
  have rq: "bt_ok (pq_coverage ?rq)" "pq_version ?rq = PULL_VERSION" "\<bar>as_i64 (unix n) - pq_issued_at_ms ?rq\<bar> \<le> MAX_REQUEST_SKEW_MS"
      "decode_epoch (pq_relay_epoch ?rq) = Some (cursor_epoch cursor)" "pq_relay_after ?rq = cursor_after cursor"
    using skew a(1,2) decode_epoch_hex [OF cursor(1)] by (auto simp: sweep_request_def bt_ok_def read_now_ms_def p)
  obtain s2 t where hlc: "node_next_hlc ck s' = (s2, t)" by (rule prod.exhaust)
  obtain body bs page where ex: "sign_pull_request c pc j ?rq (from_signing c skc) t = Inr body"
      "pull_bytes (served_net c pc j shown unix unix' instants st) n body = (Suc n, if length bs \<le> MAX_PULL_RESPONSE_BYTES then Inr (200, bs) else Inl TWire)"
      "verify_pull_page c pc j bs ?own (public_key_sec1 c (from_signing c sks)) = Inr page"
      "seal_pull_page c pc j page (from_signing c sks) (default_next_hlc (as_i64 (unix' n))) = Inr bs"
      "build_pull_page j (serve_socket (unix n)) st (device_id_of c (sk_verifying c skc)) ?rq = Inr page"
    using served_exchange [where unix = unix and n = n and t = t and shown = shown and unix' = unix' and instants = instants,
        OF laws server(1-4) rq(1-4)] cursor(2) rq(5) by auto
  have own: "ps_own_device_id (serve_socket (unix n)) st = ?own" using server(1) by (simp add: serve_socket_def from_signing_def)
  obtain sops token where out: "page = data_page (full_stream (relay_epoch log) (arrivals log)) [] (map (entry_of j pc) sops) (cursor_after cursor) token (Some name)"
      "channel_out (wanted_ops (log_iter log) [] True resume (Some name)) (keyed_visit ?own resume (origins_of (log_iter log))) PULL_PAGE_LIMIT_MAX sops token"
      "resume = None \<longrightarrow> own_fits j pc ?own (store_slice (log_iter log) name) \<longrightarrow> (\<forall>y \<in> set (log_iter log). token = Some (mark y) \<longrightarrow> origin_of y \<noteq> ?own)"
    using mem_log.served.sweep_page_out [of pc "(st, log)" cursor resume ?own "unix n" j "device_id_of c (sk_verifying c skc)" name now,
        unfolded prod.case same_log [OF server(2)]] laws(4) server(3) cursor(1) wf a(3) own ex(5) by auto
  have stream: "relay_state log = full_stream (relay_epoch log) (arrivals log)" by (simp add: relay_state_def full_stream_def)
  note facts = channel_facts [OF mem_log.held_sorted [OF conjI [OF laws(4) server(3)]] out(2)]
  show "\<exists>n' bs page sops. exchange p s' n ?rq = (fst (ps_next_hlc (pu_socket p) s'), n', Inr (200, bs)) \<and>
           verify_pull_page (pu_crypto p) (pu_codec p) (pu_json p) bs (pu_peer p) (pu_sec1 p) = Inr page \<and>
           pp_store page = Some name \<and> pp_keyed page = map (entry_of (pu_json p) (pu_codec p)) sops \<and> pp_complete page = (pp_resume page = None) \<and>
           channel_out (wanted_ops (log_iter log) [] True resume (Some name)) (keyed_visit ?own resume (origins_of (log_iter log))) PULL_PAGE_LIMIT_MAX sops (pp_resume page) \<and>
           (resume = None \<longrightarrow> own_fits (pu_json p) (pu_codec p) ?own (store_slice (log_iter log) name) \<longrightarrow>
              (\<forall>y \<in> set (log_iter log). pp_resume page = Some (mark y) \<longrightarrow> origin_of y \<noteq> ?own))"
  proof -
    have "length bs \<le> MAX_PULL_RESPONSE_BYTES"
      using server(5) [unfolded sweep_pages_fit_def stream, rule_format, OF _ facts(2) _ ex(4) [unfolded out(1)]] facts(3,6) last_in_set
      by (fastforce simp: mark_def)
    then have "exchange p s' n ?rq = (s2, Suc n, Inr (200, bs))"
      using ex(1,2) hlc by (simp add: exchange_def p)
    then show ?thesis
      using ex(3) out hlc by (intro exI [of _ "Suc n"] exI [of _ bs] exI [of _ page] exI [of _ sops]) (simp add: p data_page_def)
  qed
qed

section \<open>A log with a page of the server's own ops\<close>

lemma demo_device: "as_bytes (device_id_of demo_crypto k) = k # replicate 31 0"
  by (simp add: device_id_of_def sec1_compressed_def demo_crypto_def pad_def numeral_nat)

lemma demo_op_id: "\<exists>rest. op_id_bytes (op_id (demo_op k h p)) = 1 # enc_list (u64_to_be_bytes h) @ 1 # k # rest"
proof -
  obtain canon where canon: "canonical_body demo_codec ((demo_body h p)\<lparr>body_device := device_id_of demo_crypto k\<rparr>) = Inr canon"
      "op_id (demo_op k h p) = content_id demo_crypto canon"
    using demo_op_seal [of h p k] by (auto simp: seal_Inr from_signing_def demo_verifying)
  have "canon = demo_enc_body (to_body_repr ((demo_body h p)\<lparr>body_device := device_id_of demo_crypto k\<rparr>))"
    using canon(1) by (simp add: canonical_body_def demo_codec_def)
  then have "\<exists>tail. canon = 1 # enc_list (u64_to_be_bytes h) @ 1 # k # tail"
    by (simp add: demo_enc_body_def to_body_repr_def demo_body_def demo_device)
  then obtain tail where "canon = (1 # enc_list (u64_to_be_bytes h) @ [1, k]) @ tail" by auto
  then show ?thesis by (simp add: canon(2) content_id_def demo_crypto_def pad_def take_Cons' numeral_nat)
qed

lemma demo_op_id_inj:
  assumes "op_id (demo_op k h p) = op_id (demo_op k' h' p')"
  shows "k = k' \<and> h = h'"
proof -
  obtain r where r: "op_id_bytes (op_id (demo_op k h p)) = 1 # enc_list (u64_to_be_bytes h) @ 1 # k # r" using demo_op_id by blast
  obtain r' where r': "op_id_bytes (op_id (demo_op k' h' p')) = 1 # enc_list (u64_to_be_bytes h') @ 1 # k' # r'" using demo_op_id by blast
  have "enc_list (u64_to_be_bytes h) @ 1 # k # r = enc_list (u64_to_be_bytes h') @ 1 # k' # r'" using assms r r' by simp
  then have "dec_list (enc_list (u64_to_be_bytes h) @ 1 # k # r) = dec_list (enc_list (u64_to_be_bytes h') @ 1 # k' # r')" by (rule arg_cong)
  then show ?thesis by (simp only: dec_enc_list prod.inject list.inject u64_be_eq_iff)
qed

text \<open>One op of device 5 and 8192 of the server, device 7.\<close>

definition demo_many :: "signed_op list" where
  "demo_many = demo_op 5 1 [1] # map (\<lambda>i. demo_op 7 (of_nat i) [1]) [0..<PULL_PAGE_LIMIT_MAX]"

definition demo_many_log :: op_log where
  "demo_many_log = log_of (replicate 32 1) demo_many"

definition demo_many_server :: "(byte, byte) serve_state" where
  "demo_many_server = ServeState_new (from_signing demo_crypto 7) (log_as_source demo_codec demo_many_log) demo_book"

definition demo_many_node :: "(unit, kv_store, byte) pull_node" where
  "demo_many_node = demo_pull_node\<lparr>pn_registry := [(device_id_of demo_crypto 5, 5), (device_id_of demo_crypto 7, 7)]\<rparr>"

lemma demo_many_mem: "x \<in> set demo_many \<Longrightarrow> \<exists>k h. x = demo_op k h [1] \<and> (k = 5 \<or> k = 7)"
  by (auto simp: demo_many_def)

lemma demo_many_ok: "log_ok demo_many_log"
  unfolding demo_many_log_def by (rule log_of_ok)

lemma demo_many_iter: "set (log_iter demo_many_log) = set demo_many"
proof
  show "set (log_iter demo_many_log) \<subseteq> set demo_many" unfolding demo_many_log_def by (rule log_of_sub)
  show "set demo_many \<subseteq> set (log_iter demo_many_log)"
  proof
    fix x
    assume x: "x \<in> set demo_many"
    then have "contains demo_many_log (op_id x)" by (simp add: demo_many_log_def log_of_ids)
    then obtain y where y: "y \<in> set (log_iter demo_many_log)" "op_id x = op_id y" using demo_many_ok by (auto simp: contains_def log_ok_def)
    then have "y \<in> set demo_many" unfolding demo_many_log_def using log_of_sub by blast
    with x y(2) demo_op_id_inj have "x = y" by (metis demo_many_mem)
    with y(1) show "x \<in> set (log_iter demo_many_log)" by simp
  qed
qed

lemma demo_many_epoch: "relay_epoch demo_many_log = replicate 32 1"
proof -
  have "relay_epoch (log_of r xs) = relay_epoch (log_new r)" for r xs
    by (induction xs rule: rev_induct) (simp_all add: log_of_Nil log_of_snoc log_append_def)
  then show ?thesis by (simp add: demo_many_log_def log_new_def)
qed

lemma demo_many_own:
  "PULL_PAGE_LIMIT_MAX \<le> length (filter (\<lambda>x. origin_of x = device_id_of demo_crypto 7) (store_slice (log_iter demo_many_log) ''kv''))"
proof -
  let ?f = "\<lambda>i. demo_op 7 (of_nat i) [1]" and ?xs = "filter (\<lambda>x. origin_of x = device_id_of demo_crypto 7) (store_slice (log_iter demo_many_log) ''kv'')"
  have "inj_on ?f {0..<PULL_PAGE_LIMIT_MAX}"
  proof (rule inj_onI)
    fix a b
    assume ab: "a \<in> {0..<PULL_PAGE_LIMIT_MAX}" "b \<in> {0..<PULL_PAGE_LIMIT_MAX}" "?f a = ?f b"
    then have "(of_nat a :: hlc) = of_nat b" using demo_op_id_inj by metis
    then show "a = b" using ab(1,2) by (simp add: word_of_nat_eq_iff take_bit_nat_eq_self PULL_PAGE_LIMIT_MAX_def PAGE_LIMIT_MAX_def)
  qed
  then have "card (?f ` {0..<PULL_PAGE_LIMIT_MAX}) = PULL_PAGE_LIMIT_MAX" by (simp add: card_image)
  moreover have "?f ` {0..<PULL_PAGE_LIMIT_MAX} \<subseteq> set ?xs"
    by (auto simp: store_slice_def demo_many_iter demo_many_def demo_op_body demo_body_def)
  ultimately have "PULL_PAGE_LIMIT_MAX \<le> card (set ?xs)" by (metis List.finite_set card_mono)
  then show ?thesis using card_length [of ?xs] by linarith
qed

lemma demo_sweep_fits:
  assumes "length (relay_epoch log) = 32" "length (arrivals log) \<le> 10000" "after \<le> 10000" "length name \<le> 64"
    and "\<And>x. x \<in> set (log_iter log) \<Longrightarrow> op_wf x \<and> length (entry_of demo_pull_codec demo_codec x) \<le> 300"
  shows "sweep_pages_fit demo_crypto demo_codec demo_pull_codec (from_signing demo_crypto 7) log after name"
  unfolding sweep_pages_fit_def
proof (intro allI impI)
  fix sops token t bs
  let ?page = "data_page (relay_state log) [] (map (entry_of demo_pull_codec demo_codec) sops) after token (Some name)"
  assume a: "set sops \<subseteq> set (log_iter log)" "length sops \<le> PULL_PAGE_LIMIT_MAX" "\<forall>r. token = Some r \<longrightarrow> r \<in> mark ` set (log_iter log)"
    "seal_pull_page demo_crypto demo_codec demo_pull_codec ?page (from_signing demo_crypto 7) t = Inr bs"
  have small: "rsm_after_seq r \<le> 10000 \<and> length (rsm_origin r) \<le> 64 \<and> length (rsm_after_key r) \<le> 144" if tok: "token = Some r" for r
  proof -
    obtain y where "r = mark y" "op_wf y" using a(3) tok assms(5) by blast
    then show ?thesis
      by (auto simp: mark_def keyed_resume_def to_hex_def length_to_wire key_wf_def order_key_def op_wf_def device_wf_def)
  qed
  have "length (enc_page ?page) \<le> 6000000"
    by (rule demo_page_length) (use assms a(1,2) small in \<open>auto simp: data_page_def relay_state_def PULL_PAGE_LIMIT_MAX_def PAGE_LIMIT_MAX_def\<close>)
  then show "length bs \<le> MAX_PULL_RESPONSE_BYTES" using demo_sealed_length [OF a(4)] by (simp add: MAX_PULL_RESPONSE_BYTES_def)
qed

lemma demo_many_arrivals: "length (arrivals demo_many_log) \<le> 10000"
proof -
  have "length (arrivals demo_many_log) = card (set (arrivals demo_many_log))"
    using distinct_card [OF distinct_arrivals [OF demo_many_ok]] by simp
  also have "\<dots> = card (set demo_many)" unfolding set_arrivals [OF demo_many_ok] demo_many_iter ..
  also have "\<dots> \<le> length demo_many" by (rule card_length)
  finally show ?thesis by (simp add: demo_many_def PULL_PAGE_LIMIT_MAX_def PAGE_LIMIT_MAX_def)
qed

lemma demo_many_op:
  assumes "x \<in> set (log_iter demo_many_log)"
  shows "op_wf x" "length (entry_of demo_pull_codec demo_codec x) \<le> 300" "verified demo_crypto demo_codec (pn_registry demo_many_node) x"
    "body_payload (op_body x) = [1]"
proof -
  obtain k h where x: "x = demo_op k h [1]" "k = 5 \<or> k = 7" using assms demo_many_mem unfolding demo_many_iter by blast
  have diff: "device_id_of demo_crypto 5 \<noteq> device_id_of demo_crypto 7" using demo_device [of 5] demo_device [of 7] by auto
  show "op_wf x" unfolding x(1) by (rule demo_op_wf)
  show "length (entry_of demo_pull_codec demo_codec x) \<le> 300"
    using demo_op_bytes [of k h "[1]"] by (auto simp: x(1) entry_of_def env_bytes_def demo_pull_codec_def)
  show "verified demo_crypto demo_codec (pn_registry demo_many_node) x"
    using x demo_op_verifies diff by (auto simp: verified_def demo_many_node_def key_for_def demo_op_body)
  show "body_payload (op_body x) = [1]" by (simp add: x(1) demo_op_body demo_body_def)
qed

lemma demo_many_server_facts:
  "sv_identity demo_many_server = from_signing demo_crypto 7" "sv_log demo_many_server = log_as_source demo_codec demo_many_log"
  "db_try_key_for_device (sv_relay_callers demo_many_server) (device_id_of demo_crypto (sk_verifying demo_crypto 5)) =
     Inr (Some (public_key_sec1 demo_crypto (from_signing demo_crypto 5)))"
  using demo_book_lookup by (simp_all add: demo_many_server_def ServeState_new_def from_signing_def)

lemma demo_many_node_facts:
  "log_ok (pn_log demo_many_node)" "coverage_ok (pn_coverage demo_many_node)" "bt_ok (pn_cursors demo_many_node)" "\<not> contains (pn_log demo_many_node) i"
  using demo_node_facts by (simp_all add: demo_many_node_def) (simp add: demo_pull_node_def contains_def log_new_def)

lemma demo_many_folds:
  assumes "set (log_iter l) \<subseteq> set (log_iter (pn_log demo_many_node)) \<union> set (log_iter demo_many_log)"
  shows "snd (replay (kv_impl demo_kv_codec) l store) = Inr ()"
proof -
  have "kv_from_bytes demo_kv_codec (body_payload (op_body x)) \<noteq> None" if "x \<in> set (log_iter l)" for x
  proof -
    have "log_iter (pn_log demo_many_node) = []" by (simp add: demo_many_node_def demo_pull_node_def log_iter_def log_new_def)
    then have "body_payload (op_body x) = [1]" using assms that demo_many_op(4) by auto
    then show ?thesis by (simp add: demo_kv_codec_def)
  qed
  then show ?thesis unfolding replay_def apply_ops_def by (rule kv_loop_succeeds)
qed

lemma demo_start: "length (cursor_epoch None) = 32" "\<not> pull_needs_reset (cursor_epoch None) (cursor_after None) (relay_state log)"
    if "relay_epoch log = replicate 32 1"
  using that by (simp_all add: cursor_epoch_def zero_epoch_def pull_needs_reset_def relay_state_def)

lemma demo_skew: "\<bar>as_i64 1000 - as_i64 (pn_unix demo_pull_node k)\<bar> \<le> MAX_REQUEST_SKEW_MS"
  by (simp add: demo_pull_node_def as_i64_def MAX_REQUEST_SKEW_MS_def)

section \<open>Properties\<close>

text \<open>
  C14: Previews and store sweeps cannot lose an op. Whatever the network answers, a preview of the peer's head
  and a sweep of one store leave the coverage claims and the stored cursors of the node as they are and keep
  every op it holds, so no later pull skips an op because of what they brought in; in particular the node
  stays gap free for every log at every position.
\<close>

theorem previews_claim_nothing:
  assumes "log_ok (pn_log node)" "coverage_ok (pn_coverage node)" "bt_ok (pn_cursors node)"
    and "pu_socket p = oplog_socket c pc ck impl identity"
    and "preview_head_window p node n cursor after = (node', n', r) \<or> sweep_store p cursor store node n = Some ((node', n', w), r')"
  shows "pn_coverage node' = pn_coverage node \<and> map_of (pn_cursors node') = map_of (pn_cursors node) \<and> log_ok (pn_log node') \<and>
    (\<forall>i. contains (pn_log node) i \<longrightarrow> contains (pn_log node') i) \<and>
    (\<forall>skip log a. gap_free skip log node a \<longrightarrow> gap_free skip log node' a)"
proof -
  let ?V = "node_view c pc ck impl (pn_unix node)"
  have ok: "vw_ok ?V node" using assms(1-3) by simp
  have q: "quiet ?V node node'"
    using assms(5) puller.preview_quiet [OF assms(4) ok] puller.sweep_quiet [OF assms(4) ok] by blast
  then have "gap_free skip log node a \<Longrightarrow> gap_free skip log node' a" for skip log a
    using quiet_no_gap [OF q, of skip "arrivals log" a] by (simp only: no_gap_free)
  then show ?thesis using q by (auto simp: quiet_def)
qed

theorem previews_claim_nothing_witness:
  "let p = node_puller demo_crypto demo_codec demo_pull_codec demo_clock (kv_impl demo_kv_codec) 5 7
         (served_net demo_crypto demo_codec demo_pull_codec (\<lambda>_. []) (\<lambda>_. 1000) (\<lambda>n. n) (\<lambda>n. n) demo_server)
   in \<exists>node' n' r. preview_head_window p demo_pull_node 0 None 0 = (node', n', r) \<and> pn_coverage node' = [] \<and>
        map_of (pn_cursors node') = (\<lambda>_. None)"
proof -
  let ?p = "node_puller demo_crypto demo_codec demo_pull_codec demo_clock (kv_impl demo_kv_codec) 5 7
      (served_net demo_crypto demo_codec demo_pull_codec (\<lambda>_. []) (\<lambda>_. 1000) (\<lambda>n. n) (\<lambda>n. n) demo_server)"
  obtain node' n' r where run: "preview_head_window ?p demo_pull_node 0 None 0 = (node', n', r)" by (rule prod_cases3)
  from previews_claim_nothing [OF demo_node_facts(1-3) node_puller_simps(5) disjI1 [OF run]] have
    "pn_coverage node' = pn_coverage demo_pull_node" "map_of (pn_cursors node') = map_of (pn_cursors demo_pull_node)" by blast+
  then show ?thesis unfolding Let_def using run by (simp add: demo_pull_node_def fun_eq_iff)
qed

text \<open>
  C15: Both sides agree on resets. For a request on the whole stream, the page the server builds is marked as
  a reset exactly when the client's validation accepts it as one; the cursor the client then adopts is the
  start of the server's stream, and the next request from there is not answered by a reset again, so a drain
  never repeats a reset against a server whose stream stays.
\<close>

theorem reset_agreement:
  assumes "codec_laws pc" "log_ok log" "sv_log st = log_as_source pc log" "length (relay_epoch log) = 32"
    and "pq_store request = None" "build_pull_page j (serve_socket unix) st peer request = Inr page"
  shows "decode_epoch (pp_epoch page) = Some (relay_epoch log) \<and>
    (pp_reset page \<longleftrightarrow> (\<exists>cur. validate_pull_reset request page (relay_epoch log) = Inr cur)) \<and>
    (\<forall>cur. validate_pull_reset request page (relay_epoch log) = Inr cur \<longrightarrow>
       cur = \<lparr>cur_epoch = relay_epoch log, cur_after = 0\<rparr> \<and>
       (\<forall>request' page'. pq_store request' = None \<longrightarrow> pq_relay_epoch request' = encode_hex (cur_epoch cur) \<longrightarrow>
          pq_relay_after request' = cur_after cur \<longrightarrow> build_pull_page j (serve_socket unix) st peer request' = Inr page' \<longrightarrow> \<not> pp_reset page'))"
proof -
  have epoch: "decode_epoch (encode_hex (relay_epoch log)) = Some (relay_epoch log)" by (rule decode_epoch_hex [OF assms(4)])
  have page: "\<exists>e. decode_epoch (pq_relay_epoch rq) = Some e \<and> (pp_reset pg \<longleftrightarrow> pull_needs_reset e (pq_relay_after rq) (relay_state log)) \<and>
      pp_epoch pg = encode_hex (relay_epoch log) \<and> (pp_reset pg \<longrightarrow> pg = reset_pull_page (relay_state log))"
    if "build_pull_page j (serve_socket unix) st peer rq = Inr pg" "pq_store rq = None" for rq pg
    using build_page_shape [OF that(1) served_stream [OF assms(1-3)]] that(2)
    by (auto simp: data_page_def reset_pull_page_def relay_state_def split: if_splits)
  from page [OF assms(6,5)] obtain e where e: "decode_epoch (pq_relay_epoch request) = Some e"
      "pp_reset page \<longleftrightarrow> pull_needs_reset e (pq_relay_after request) (relay_state log)"
      "pp_epoch page = encode_hex (relay_epoch log)" "pp_reset page \<longrightarrow> page = reset_pull_page (relay_state log)" by blast
  have state: "relay_state log = \<lparr>rs_epoch = relay_epoch log, rs_head = length (arrivals log), rs_floor = 0\<rparr>" by (simp add: relay_state_def)
  have valid: "validate_pull_reset request page (relay_epoch log) =
      (if pp_reset page then Inr \<lparr>cur_epoch = relay_epoch log, cur_after = 0\<rparr> else Inl ResetNotMarked)"
    using e by (auto simp: validate_pull_reset_def reset_pull_page_def state)
  have again: "\<not> pp_reset pg" if "build_pull_page j (serve_socket unix) st peer rq = Inr pg" "pq_store rq = None"
      "pq_relay_epoch rq = encode_hex (relay_epoch log)" "pq_relay_after rq = 0" for rq pg
    using page [OF that(1,2)] that(3,4) epoch by (simp add: pull_needs_reset_def relay_state_def)
  show ?thesis using valid again epoch e(3) by auto
qed

theorem reset_agreement_witness:
  "let request = drain_request [] (Some \<lparr>cur_epoch = replicate 32 9, cur_after = 3\<rparr>) None False 0
   in \<exists>page. build_pull_page demo_pull_codec (serve_socket 0) demo_server (DeviceId []) request = Inr page \<and>
        validate_pull_reset request page (replicate 32 1) = Inr \<lparr>cur_epoch = replicate 32 1, cur_after = 0\<rparr>"
proof -
  let ?rq = "drain_request [] (Some \<lparr>cur_epoch = replicate 32 9, cur_after = 3\<rparr>) None False 0"
  have rq: "decode_epoch (pq_relay_epoch ?rq) = Some (replicate 32 9)" "pq_store ?rq = None"
    using decode_epoch_hex [of "replicate 32 9"] by (simp_all add: drain_request_def cursor_epoch_def)
  have page: "build_pull_page demo_pull_codec (serve_socket 0) demo_server (DeviceId []) ?rq = Inr (reset_pull_page (relay_state demo_log))"
    using rq served_stream [OF demo_codec_laws demo_log_facts(1) demo_server_facts(2), of 0]
    by (simp add: build_pull_page_def pull_needs_reset_def relay_state_def demo_log_epoch zero_epoch_def)
  from reset_agreement [OF demo_codec_laws demo_log_facts(1) demo_server_facts(2,4) rq(2) page] page show ?thesis
    unfolding Let_def by (auto simp: reset_pull_page_def demo_log_epoch)
qed

text \<open>What a sweep of a served log does to the node, with no and with many ops of the server's own.\<close>

lemma node_sweep:
  assumes laws: "sha_laws c" "sec1_laws c" "ecdsa_laws c" "codec_laws pc" "pull_codec_laws j"
    and server: "sv_identity st = from_signing c sks" "sv_log st = log_as_source pc log" "log_ok log"
      "db_try_key_for_device (sv_relay_callers st) (device_id_of c (sk_verifying c skc)) = Inr (Some (public_key_sec1 c (from_signing c skc)))"
      "sweep_pages_fit c pc j (from_signing c sks) log (cursor_after cursor) name" "\<And>x. x \<in> set (log_iter log) \<Longrightarrow> op_wf x"
    and skew: "\<And>n k. \<bar>as_i64 (unix n) - as_i64 (pn_unix node k)\<bar> \<le> MAX_REQUEST_SKEW_MS"
    and cursor: "length (cursor_epoch cursor) = 32" "\<not> pull_needs_reset (cursor_epoch cursor) (cursor_after cursor) (relay_state log)"
    and node: "log_ok (pn_log node)" "coverage_ok (pn_coverage node)" "bt_ok (pn_cursors node)"
    and ready: "clock_accepts ck" "\<And>x. x \<in> set (log_iter log) \<Longrightarrow> verified c pc (pn_registry node) x"
      "\<And>l store. set (log_iter l) \<subseteq> set (log_iter (pn_log node)) \<union> set (log_iter log) \<Longrightarrow> snd (replay impl l store) = Inr ()"
    and own: "own = device_id_of c (sk_verifying c sks)"
  shows "\<exists>node' n' w k. sweep_store (node_puller c pc j ck impl skc sks (served_net c pc j shown unix unix' instants st)) cursor name node n =
      Some ((node', n', w), Inr k) \<and> pn_coverage node' = pn_coverage node \<and>
    (\<forall>x \<in> set (store_slice (log_iter log) name). contains (pn_log node') (op_id x) \<or> \<not> own_fits j pc own (store_slice (log_iter log) name) \<and> origin_of x < own) \<and>
    (PULL_PAGE_LIMIT_MAX \<le> length (filter (\<lambda>x. origin_of x = own) (store_slice (log_iter log) name)) \<longrightarrow>
       (\<forall>x \<in> set (log_iter log). origin_of x < own \<longrightarrow> contains (pn_log node') (op_id x) \<longrightarrow> contains (pn_log node) (op_id x)))"
proof -
  let ?p = "node_puller c pc j ck impl skc sks (served_net c pc j shown unix unix' instants st)"
  let ?V = "node_view c pc ck impl (pn_unix node)"
  have peer: "sweep_peer ?p ?V cursor name own (log_iter log)" unfolding own by (rule served_sweep [OF laws server skew cursor refl])
  have sorted: "sorted_wrt (\<lambda>x y. order_key x < order_key y) (log_iter log)" by (rule mem_log.held_sorted [OF conjI [OF laws(4) server(3)]])
  have start: "vw_ok ?V node" "ready ?V node (set (log_iter log))" using node ready by simp_all
  have codec: "codec_laws (pu_codec ?p)" "pull_codec_laws (pu_json ?p)" using laws(4,5) by simp_all
  from puller.sweep_ends [OF node_puller_simps(5) peer codec server(6) sorted start, of n] obtain node' n' w k where
      run: "sweep_store ?p cursor name node n = Some ((node', n', w), Inr k)" "quiet ?V node node'"
      and got: "\<forall>z \<in> set (store_slice (log_iter log) name). settles ?V True node' z \<or> \<not> own_fits j pc own (store_slice (log_iter log) name) \<and> origin_of z < own"
      and new: "PULL_PAGE_LIMIT_MAX \<le> length (filter (\<lambda>x. origin_of x = own) (store_slice (log_iter log) name)) \<Longrightarrow>
        holds ?V node' \<subseteq> holds ?V node \<union> op_id ` {z \<in> set (log_iter log). \<not> origin_of z < own}"
    unfolding node_puller_simps by blast
  have attested: "\<not> unattested ?V node' x" if "x \<in> set (store_slice (log_iter log) name)" for x
  proof -
    have "verified c pc (pn_registry node) x" using ready(2) that by (simp add: store_slice_mem)
    then have "\<not> unattested ?V node x" by (auto simp: verified_def)
    then show ?thesis using run(2) unfolding quiet_def by simp
  qed
  have inj: "inj_on op_id (set (log_iter log))" using server(3) by (simp add: log_ok_def)
  have "contains (pn_log node) (op_id x)"
    if many: "PULL_PAGE_LIMIT_MAX \<le> length (filter (\<lambda>x. origin_of x = own) (store_slice (log_iter log) name))"
      and x: "x \<in> set (log_iter log)" "origin_of x < own" "contains (pn_log node') (op_id x)" for x
    using new [OF many] x inj by (auto dest: inj_onD)
  moreover have "contains (pn_log node') (op_id x) \<or> \<not> own_fits j pc own (store_slice (log_iter log) name) \<and> origin_of x < own"
    if "x \<in> set (store_slice (log_iter log) name)" for x
    using got attested [OF that] that unfolding settles_def by auto
  ultimately show ?thesis using run unfolding quiet_def by auto
qed



text \<open>
  C36: A store sweep can end without the whole store. When the server itself signed at least a page of ops in
  the store (8192), the sweep still returns its count as if it were done, but no op of a device whose id is
  below the server's has been fetched: the first page ends inside the server's own run, which is served out
  of order, and the resumed requests start at the server's id.
\<close>

theorem store_sweep_skips:
  assumes "sha_laws c" "sec1_laws c" "ecdsa_laws c" "codec_laws pc" "pull_codec_laws j"
    and "sv_identity st = from_signing c sks" "sv_log st = log_as_source pc log" "log_ok log"
      "db_try_key_for_device (sv_relay_callers st) (device_id_of c (sk_verifying c skc)) = Inr (Some (public_key_sec1 c (from_signing c skc)))"
      "sweep_pages_fit c pc j (from_signing c sks) log (cursor_after cursor) name" "\<And>x. x \<in> set (log_iter log) \<Longrightarrow> op_wf x"
    and "\<And>n k. \<bar>as_i64 (unix n) - as_i64 (pn_unix node k)\<bar> \<le> MAX_REQUEST_SKEW_MS"
    and "length (cursor_epoch cursor) = 32" "\<not> pull_needs_reset (cursor_epoch cursor) (cursor_after cursor) (relay_state log)"
    and "log_ok (pn_log node)" "coverage_ok (pn_coverage node)" "bt_ok (pn_cursors node)"
    and "clock_accepts ck" "\<And>x. x \<in> set (log_iter log) \<Longrightarrow> verified c pc (pn_registry node) x"
      "\<And>l store. set (log_iter l) \<subseteq> set (log_iter (pn_log node)) \<union> set (log_iter log) \<Longrightarrow> snd (replay impl l store) = Inr ()"
    and "PULL_PAGE_LIMIT_MAX \<le> length (filter (\<lambda>x. origin_of x = device_id_of c (sk_verifying c sks)) (store_slice (log_iter log) name))"
  shows "\<exists>node' n' w k. sweep_store (node_puller c pc j ck impl skc sks (served_net c pc j shown unix unix' instants st)) cursor name node n =
      Some ((node', n', w), Inr k) \<and>
    (\<forall>x \<in> set (log_iter log). origin_of x < device_id_of c (sk_verifying c sks) \<longrightarrow>
       contains (pn_log node') (op_id x) \<longrightarrow> contains (pn_log node) (op_id x))"
  using node_sweep [where unix = unix and shown = shown and unix' = unix' and instants = instants and n = n, OF assms(1-20) refl] assms(21) by blast

theorem store_sweep_skips_witness:
  "let net = served_net demo_crypto demo_codec demo_pull_codec (\<lambda>_. []) (\<lambda>_. 1000) (\<lambda>n. n) (\<lambda>n. n) demo_many_server
   in \<exists>node' n' w k. sweep_store (node_puller demo_crypto demo_codec demo_pull_codec demo_clock (kv_impl demo_kv_codec) 5 7 net) None ''kv'' demo_many_node 0 =
        Some ((node', n', w), Inr k) \<and> demo_op 5 1 [1] \<in> set (log_iter demo_many_log) \<and> \<not> contains (pn_log node') (op_id (demo_op 5 1 [1]))"
proof -
  have "x \<in> set (log_iter demo_many_log) \<Longrightarrow> op_wf x \<and> length (entry_of demo_pull_codec demo_codec x) \<le> 300" for x
    using demo_many_op by blast
  from demo_sweep_fits [OF _ demo_many_arrivals _ _ this] have fit:
      "sweep_pages_fit demo_crypto demo_codec demo_pull_codec (from_signing demo_crypto 7) demo_many_log (cursor_after None) ''kv''"
    by (simp add: cursor_after_def demo_many_epoch)
  have skew: "\<bar>as_i64 1000 - as_i64 (pn_unix demo_many_node k)\<bar> \<le> MAX_REQUEST_SKEW_MS" for k
    using demo_skew by (simp add: demo_many_node_def)
  have x: "demo_op 5 1 [1] \<in> set (log_iter demo_many_log)" by (simp add: demo_many_iter demo_many_def)
  have less: "origin_of (demo_op 5 1 [1]) < device_id_of demo_crypto (sk_verifying demo_crypto 7)"
    by (simp add: demo_op_body demo_verifying less_device_id_def demo_device)
  have many: "PULL_PAGE_LIMIT_MAX \<le> length (filter (\<lambda>x. origin_of x = device_id_of demo_crypto (sk_verifying demo_crypto 7)) (store_slice (log_iter demo_many_log) ''kv''))"
    using demo_many_own by (simp only: demo_verifying)
  from store_sweep_skips [where unix = "\<lambda>_. 1000" and unix' = "\<lambda>n. n" and instants = "\<lambda>n. n" and shown = "\<lambda>_. []" and n = 0,
      OF demo_sha_laws demo_sec1_laws demo_ecdsa_laws demo_codec_laws demo_pull_codec_laws demo_many_server_facts(1,2) demo_many_ok
        demo_many_server_facts(3) fit demo_many_op(1) skew demo_start [OF demo_many_epoch] demo_many_node_facts(1-3) demo_node_facts(4)
        demo_many_op(3) demo_many_folds many]
  show ?thesis unfolding Let_def using x less demo_many_node_facts(4) by blast
qed

end
