(* ===== verification/PullAudit.thy ===== *)
theory PullAudit
  imports PullSweep
begin

text \<open>
  A drain with a peer that may answer anything (\<open>drain_pull_pages\<close> of \<open>src/net/pull_client.rs\<close>): the node stays
  well formed and keeps what it holds. With an honest server, an audit drain, whose requests ignore the
  claims, cannot finish once the log fills a page.
\<close>

section \<open>Any page keeps the host well formed\<close>

definition tame :: "'s sink_view \<Rightarrow> 's \<Rightarrow> 's \<Rightarrow> bool" where
  "tame V s s' \<longleftrightarrow> vw_ok V s' \<and> holds V s \<subseteq> holds V s'"

lemma tame_refl: "vw_ok V s \<Longrightarrow> tame V s s"
  by (simp add: tame_def)

lemma tame_trans: "tame V s s' \<Longrightarrow> tame V s' s'' \<Longrightarrow> tame V s s''"
  by (auto simp: tame_def)

lemma tame_ok: "tame V s s' \<Longrightarrow> vw_ok V s'"
  by (simp add: tame_def)

lemma tame_quiet: "quiet V s s' \<Longrightarrow> tame V s s'"
  by (simp add: quiet_def tame_def)

lemma tame_keeps_ops: "keeps_ops V s s' \<Longrightarrow> tame V s s'"
  by (simp add: keeps_ops_def tame_def)

lemma tame_grows: "grows V skip sops s s' k \<Longrightarrow> tame V s s'"
  by (simp add: grows_def tame_def)

text \<open>A callback that keeps the host well formed when it is called with counts in range.\<close>

definition tame_cb :: "'s sink_view \<Rightarrow> nat \<Rightarrow> ('s, 'e) after_quantum \<Rightarrow> bool" where
  "tame_cb V n cb \<longleftrightarrow> (\<forall>s q k a s' q' r. vw_ok V s \<longrightarrow> k \<le> n \<longrightarrow> a \<le> k \<longrightarrow> cb (s, q) k a = ((s', q'), r) \<longrightarrow> tame V s s')"

lemma admission_tame:
  assumes "admission (grows V skip sops) cb (s, q) k a w" "tame_cb V (length sops) cb" "vw_ok V s"
  shows "tame V s (fst w)"
  using assms(1)
proof (induction rule: admission.induct)
  case admission_start
  then show ?case using assms(3) by (simp add: tame_refl)
next
  case (admission_quantum k a t u k' t' a' w')
  have g: "tame V s t'" using tame_trans [OF admission_quantum.IH [unfolded fst_conv] tame_grows [OF admission_quantum.hyps(3)]] .
  have "k' \<le> length sops" using admission_quantum.hyps(3) by (simp add: grows_def)
  moreover obtain s' q' where w': "w' = (s', q')" by (rule prod.exhaust)
  ultimately have "tame V t' s'"
    using assms(2) [unfolded tame_cb_def, rule_format, OF tame_ok [OF g] _ admission_quantum.hyps(5) admission_quantum.hyps(6) [unfolded w']] by simp
  then show ?case using tame_trans [OF g] w' by simp
qed

context pull_sink
begin

lemma admit_tame:
  assumes "vw_ok V s" "tame_cb V (length sops) cb" "ps_admit_ops sk (s, q) peer sops skip vouch cb = ((s', q'), out)"
  shows "tame V s s'"
proof -
  have ends: "admission_ends (grows V skip sops) cb (length sops) (s, q) (s', q') out" by (rule sink_admit [OF assms(1,3)])
  show ?thesis
  proof (cases out)
    case (Inr ad)
    then show ?thesis using ends admission_tame [OF _ assms(2,1)] unfolding admission_ends_def by fastforce
  next
    case (Inl e)
    from ends obtain k a t u t' k' where run: "admission (grows V skip sops) cb (s, q) k a (t, u)" "grows V skip sops t t' k'"
        "(s', q') = (t', u) \<or> (\<exists>a'. a \<le> a' \<and> a' \<le> k' \<and> cb (t', u) k' a' = ((s', q'), Inl e))"
      unfolding admission_ends_def Inl sum.case by blast
    have t': "tame V s t'" using tame_trans [OF admission_tame [OF run(1) assms(2,1), unfolded fst_conv] tame_grows [OF run(2)]] .
    have k': "k' \<le> length sops" using run(2) by (simp add: grows_def)
    from run(3) show ?thesis
    proof (elim disjE exE conjE)
      fix a'
      assume "a' \<le> k'" "cb (t', u) k' a' = ((s', q'), Inl e)"
      with assms(2) [unfolded tame_cb_def, rule_format, OF tame_ok [OF t'] k'] have "tame V t' s'" by blast
      then show ?thesis by (rule tame_trans [OF t'])
    qed (use t' in simp)
  qed
qed

lemma save_admitted_tame: "tame_cb V n (save_admitted sk peer seqs)"
  unfolding tame_cb_def
proof (intro allI impI)
  fix s q k a s' q' r
  assume a: "vw_ok V s" "save_admitted sk peer seqs (s, q) k a = ((s', q'), r)"
  show "tame V s s'"
  proof (cases "0 < k")
    case True
    obtain t v where sv: "ps_save_relay_cursor sk s peer ((qm_current q)\<lparr>cur_after := seqs ! (k - 1)\<rparr>) = (t, v)" by (rule prod.exhaust)
    then have "s' = t" using a(2) True by (simp add: save_admitted_def)
    then show ?thesis using sink_save [OF a(1) sv] by (simp add: tame_keeps_ops)
  qed (use a in \<open>simp add: save_admitted_def tame_refl\<close>)
qed

lemma claim_admitted_tame:
  assumes "\<And>x. x \<in> set sops \<Longrightarrow> op_wf x \<and> origin_of x = origin"
  shows "tame_cb V (length sops) (claim_admitted sk origin (map order_key sops))"
  unfolding tame_cb_def
proof (intro allI impI)
  fix s q k a s' q' r
  assume a: "vw_ok V s" "k \<le> length sops" "a \<le> k" "claim_admitted sk origin (map order_key sops) (s, q) k a = ((s', q'), r)"
  show "tame V s s'"
  proof (cases "qm_committed q < a")
    case True
    then have "sops ! (a - 1) \<in> set sops" "map order_key sops ! (a - 1) = order_key (sops ! (a - 1))" using a(2,3) by simp_all
    then have key: "key_wf (map order_key sops ! (a - 1))" "key_device (map order_key sops ! (a - 1)) = origin"
      using assms by (auto simp: key_wf_def order_key_def op_wf_def)
    obtain t v where adv: "ps_advance_local_coverage sk s origin (map order_key sops ! (a - 1)) = (t, v)" by (rule prod.exhaust)
    then have "s' = t" using a(4) True by (cases v) (simp_all add: claim_admitted_def)
    then show ?thesis using sink_advance [OF a(1) key adv] by (simp add: tame_keeps_ops)
  qed (use a in \<open>simp add: claim_admitted_def tame_refl\<close>)
qed

end

definition run_wf :: "keyed_run \<Rightarrow> bool" where
  "run_wf = (\<lambda>(origin, sops, keys). keys = map order_key sops \<and> (\<forall>x \<in> set sops. op_wf x \<and> origin_of x = origin))"

lemma decode_page_op_wf: "codec_laws pc \<Longrightarrow> decode_page_op pc j encoded peer = Inr sop \<Longrightarrow> op_wf sop"
  by (auto simp: decode_page_op_def and_then_Inr dest: from_bytes_wf)

lemma keyed_runs_wf:
  assumes "codec_laws pc" "keyed_runs pc j peer encoded runs last_key = Inr runs'" "\<forall>run \<in> set runs. run_wf run"
  shows "\<forall>run \<in> set runs'. run_wf run"
  using assms(2,3)
proof (induction encoded arbitrary: runs last_key)
  case (Cons e encoded)
  from Cons.prems(1) obtain sop where sop: "decode_page_op pc j e peer = Inr sop" by (auto simp: and_then_Inr)
  have wf: "op_wf sop" by (rule decode_page_op_wf [OF assms(1) sop])
  show ?case
  proof (cases "runs = []")
    case True
    then show ?thesis using Cons.IH [of "[(origin_of sop, [sop], [order_key sop])]"] Cons.prems(1) wf by (simp add: sop Let_def run_wf_def)
  next
    case False
    obtain origin sops keys where l: "last runs = (origin, sops, keys)" by (rule prod_cases3)
    have lwf: "run_wf (origin, sops, keys)" using Cons.prems(2) last_in_set [OF False] l by metis
    have but: "\<forall>run \<in> set (butlast runs). run_wf run" using Cons.prems(2) by (auto dest: in_set_butlastD)
    show ?thesis
    proof (cases "origin = origin_of sop")
      case True
      have "run_wf (origin, sops @ [sop], keys @ [order_key sop])" using lwf wf True by (auto simp: run_wf_def)
      then show ?thesis
        using Cons.IH [of "butlast runs @ [(origin, sops @ [sop], keys @ [order_key sop])]"] Cons.prems(1) but False True
        by (auto simp: sop Let_def l split: if_splits)
    next
      case False2: False
      have "run_wf (origin_of sop, [sop], [order_key sop])" using wf by (simp add: run_wf_def)
      then show ?thesis
        using Cons.IH [of "runs @ [(origin_of sop, [sop], [order_key sop])]"] Cons.prems False False2
        by (auto simp: sop Let_def l split: if_splits)
    qed
  qed
qed simp

context pull_sink
begin

lemma admit_runs_tame:
  assumes "vw_ok V s" "\<forall>run \<in> set runs. run_wf run" "admit_runs sk peer skip cursor runs applied s = (s', r)"
  shows "tame V s s'"
  using assms
proof (induction runs arbitrary: s applied)
  case Nil
  then show ?case by (simp add: tame_refl)
next
  case (Cons run runs)
  obtain origin sops keys where run: "run = (origin, sops, keys)" by (rule prod_cases3)
  then have wf: "keys = map order_key sops" "\<And>x. x \<in> set sops \<Longrightarrow> op_wf x \<and> origin_of x = origin" using Cons.prems(2) by (auto simp: run_wf_def)
  obtain s1 q1 out where adm: "ps_admit_ops sk (s, \<lparr>qm_current = cursor, qm_committed = 0\<rparr>) peer sops skip True (claim_admitted sk origin keys) = ((s1, q1), out)"
    by (metis prod.collapse)
  have t: "tame V s s1" using admit_tame [OF Cons.prems(1) claim_admitted_tame [OF wf(2)] adm [unfolded wf(1)]] .
  have "s' = s1 \<or> (\<exists>a. admit_runs sk peer skip cursor runs a s1 = (s', r))"
    using Cons.prems(3) by (auto simp: run adm split: sum.splits option.splits)
  then show ?case using t tame_trans [OF t Cons.IH [OF tame_ok [OF t]]] Cons.prems(2) by auto
qed

lemma apply_keyed_tame:
  assumes "codec_laws pc" "vw_ok V s" "apply_keyed pc j sk peer skip cursor page applied s = (s', r)"
  shows "tame V s s'"
proof (cases "keyed_runs pc j peer (pp_keyed page) [] None")
  case (Inl m)
  then show ?thesis using assms by (simp add: apply_keyed_def tame_refl)
next
  case (Inr runs)
  then show ?thesis using admit_runs_tame [OF assms(2) keyed_runs_wf [OF assms(1) Inr]] assms(3) by (simp add: apply_keyed_def)
qed

lemma apply_backfill_tame:
  assumes "vw_ok V s" "apply_backfill pc j sk peer skip current page s = (s', cursor', r)"
  shows "tame V s s'"
proof (cases "decode_backfill pc j peer (cur_after current) (pp_backfill page) (cur_after current) [] []")
  case (Inl m)
  then show ?thesis using assms by (simp add: apply_backfill_def tame_refl)
next
  case (Inr dec)
  obtain seqs sops where dec: "dec = (seqs, sops)" by (rule prod.exhaust)
  obtain s1 q1 out where adm: "ps_admit_ops sk (s, \<lparr>qm_current = current, qm_committed = 0\<rparr>) peer sops skip True (save_admitted sk peer seqs) = ((s1, q1), out)"
    by (metis prod.collapse)
  have t: "tame V s s1" by (rule admit_tame [OF assms(1) save_admitted_tame adm])
  have "s' = s1 \<or> (\<exists>cur r. ps_commit_relay_cursor sk s1 peer cur = (s', r))"
    using assms(2) by (auto simp: apply_backfill_def Inr dec adm Let_def split: sum.splits option.splits prod.splits)
  then show ?thesis
  proof (elim disjE exE)
    fix cur r
    assume c: "ps_commit_relay_cursor sk s1 peer cur = (s', r)"
    then show ?thesis using tame_trans [OF t tame_keeps_ops] sink_commit [OF tame_ok [OF t] c] by blast
  qed (use t in simp)
qed

lemma apply_page_tame:
  assumes "codec_laws pc" "vw_ok V s" "apply_pull_page pc j sk peer cursor page skip s = (s', cursor', r)"
  shows "tame V s s'"
proof (cases "decode_epoch (pp_epoch page)")
  case None
  then show ?thesis using assms by (simp add: apply_pull_page_def tame_refl)
next
  case (Some epoch)
  let ?cur = "case cursor of Some cur \<Rightarrow> if cur_epoch cur = epoch then Some cur else None | None \<Rightarrow> Some \<lparr>cur_epoch = epoch, cur_after = 0\<rparr>"
  show ?thesis
  proof (cases ?cur)
    case None
    then show ?thesis using assms Some by (simp add: apply_pull_page_def tame_refl)
  next
    case cur: (Some current)
    obtain s1 r1 where c1: "ps_commit_relay_cursor sk s peer current = (s1, r1)" by (rule prod.exhaust)
    have t1: "tame V s s1" using sink_commit [OF assms(2) c1] by (simp add: tame_keeps_ops)
    obtain s2 cur2 r2 where c2: "apply_backfill pc j sk peer skip current page s1 = (s2, cur2, r2)" by (rule prod_cases3)
    have t2: "tame V s1 s2" by (rule apply_backfill_tame [OF tame_ok [OF t1] c2])
    have "s' = s1 \<or> s' = s2 \<or> (\<exists>a cur r. apply_keyed pc j sk peer skip cur page a s2 = (s', r))"
      using assms(3) Some cur by (auto simp: apply_pull_page_def c1 c2 split: sum.splits prod.splits)
    then show ?thesis using t1 tame_trans [OF t1 t2] tame_trans [OF tame_trans [OF t1 t2] apply_keyed_tame [OF assms(1) tame_ok [OF t2]]] by blast
  qed
qed

end

section \<open>A drain with any peer\<close>

lemma decode_epoch_length: "decode_epoch s = Some e \<Longrightarrow> length e = 32"
  by (auto simp: decode_epoch_def decode_fixed_hex_def split: option.splits if_splits)

lemma save_admitted_epoch: "save_admitted sk peer seqs (s, q) k a = ((s', q'), r) \<Longrightarrow> cur_epoch (qm_current q') = cur_epoch (qm_current q)"
  by (auto simp: save_admitted_def Let_def split: if_splits prod.splits)

lemma admission_epoch:
  assumes "admission grw (save_admitted sk peer seqs) (s, q) k a w"
  shows "cur_epoch (qm_current (snd w)) = cur_epoch (qm_current q)"
  using assms
proof (induction rule: admission.induct)
  case (admission_quantum k a t u k' t' a' w')
  obtain s' q' where w': "w' = (s', q')" by (rule prod.exhaust)
  show ?case using save_admitted_epoch [OF admission_quantum.hyps(6) [unfolded w']] admission_quantum.IH w' by simp
qed simp

context pull_sink
begin

lemma backfill_epoch:
  assumes "vw_ok V s" "apply_backfill pc j sk peer skip current page s = (s', cursor', r)"
  shows "cur_epoch cursor' = cur_epoch current"
proof (cases "decode_backfill pc j peer (cur_after current) (pp_backfill page) (cur_after current) [] []")
  case (Inl m)
  then show ?thesis using assms by (simp add: apply_backfill_def)
next
  case (Inr dec)
  obtain seqs sops where dec: "dec = (seqs, sops)" by (rule prod.exhaust)
  let ?q = "\<lparr>qm_current = current, qm_committed = 0\<rparr>"
  obtain s1 q1 out where adm: "ps_admit_ops sk (s, ?q) peer sops skip True (save_admitted sk peer seqs) = ((s1, q1), out)"
    by (metis prod.collapse)
  have "admission_ends (grows V skip sops) (save_admitted sk peer seqs) (length sops) (s, ?q) (s1, q1) out" by (rule sink_admit [OF assms(1) adm])
  then have "cur_epoch (qm_current q1) = cur_epoch current"
    unfolding admission_ends_def using admission_epoch [of "grows V skip sops" sk peer seqs s ?q] save_admitted_epoch
    by (cases out) (fastforce, fastforce)
  then show ?thesis
    using assms(2) by (auto simp: apply_backfill_def Inr dec adm Let_def split: sum.splits option.splits prod.splits)
qed

lemma apply_page_epoch:
  assumes "vw_ok V s" "apply_pull_page pc j sk peer cursor page skip s = (s', cursor', r)" "length (cursor_epoch cursor) = 32"
  shows "length (cursor_epoch cursor') = 32"
proof (cases "decode_epoch (pp_epoch page)")
  case None
  then show ?thesis using assms by (simp add: apply_pull_page_def)
next
  case (Some epoch)
  let ?cur = "case cursor of Some cur \<Rightarrow> if cur_epoch cur = epoch then Some cur else None | None \<Rightarrow> Some \<lparr>cur_epoch = epoch, cur_after = 0\<rparr>"
  show ?thesis
  proof (cases ?cur)
    case None
    then show ?thesis using assms Some by (simp add: apply_pull_page_def)
  next
    case cur: (Some current)
    then have epoch: "cur_epoch current = epoch" by (auto split: option.splits if_splits)
    obtain s1 r1 where c1: "ps_commit_relay_cursor sk s peer current = (s1, r1)" by (rule prod.exhaust)
    have ok: "vw_ok V s1" using sink_commit [OF assms(1) c1] by (simp add: keeps_ops_def)
    obtain s2 cur2 r2 where c2: "apply_backfill pc j sk peer skip current page s1 = (s2, cur2, r2)" by (rule prod_cases3)
    have "cursor' = cursor \<or> cursor' = Some cur2"
      using assms(2) Some cur by (auto simp: apply_pull_page_def c1 c2 split: sum.splits prod.splits)
    then show ?thesis using assms(3) backfill_epoch [OF ok c2] decode_epoch_length [OF Some] epoch by (auto simp: cursor_epoch_def)
  qed
qed

lemma reset_tame:
  assumes "vw_ok V s" "persist_pull_reset sk s peer request page epoch = (s', r)"
  shows "tame V s s'" "r = Inr reset \<Longrightarrow> cur_epoch reset = epoch"
proof -
  show "tame V s s'"
  proof (cases "validate_pull_reset request page epoch")
    case (Inl m)
    then show ?thesis using assms by (simp add: persist_pull_reset_def tame_refl)
  next
    case (Inr cur)
    obtain s1 r1 where c: "ps_commit_pull_reset sk s peer cur = (s1, r1)" by (rule prod.exhaust)
    then have "s' = s1" using assms(2) by (auto simp: persist_pull_reset_def Inr split: sum.splits)
    then show ?thesis using sink_reset [OF assms(1) c] by (simp add: tame_keeps_ops)
  qed
  show "r = Inr reset \<Longrightarrow> cur_epoch reset = epoch"
    using assms(2) by (auto simp: persist_pull_reset_def validate_pull_reset_def and_then_Inr split: sum.splits if_splits prod.splits)
qed

lemma run_preview_tame:
  assumes "pu_socket p = sk" "vw_ok V s" "run_preview p head_seq (s, n, d) = (s', n', d')"
  shows "tame V s s' \<and> dr_cursor d' = dr_cursor d"
proof -
  obtain s1 n1 r where pre: "preview_head_window p s n (dr_cursor d) (preview_resume_after (dr_preview_after d) head_seq) = (s1, n1, r)" by (rule prod_cases3)
  have "s' = s1" "dr_cursor d' = dr_cursor d" using assms(3) by (auto simp: run_preview_def pre split: sum.splits)
  then show ?thesis using tame_quiet [OF preview_quiet [OF assms(1,2) pre]] by simp
qed

end

lemma after_page_cursor: "after_page p resumed page d = (d', out) \<Longrightarrow> dr_cursor d' = dr_cursor d \<and> (\<forall>t. out = Some (Inr (Applied t)) \<longrightarrow> pp_complete page \<and> \<not> resumed)"
  by (auto simp: after_page_def Let_def split: if_splits)

context pull_sink
begin

lemma on_data_tame:
  assumes "pu_socket p = sk" "codec_laws (pu_codec p)" "vw_ok V s" "length (cursor_epoch (dr_cursor d)) = 32"
    and run: "on_data p skip resumed page (s, n, d) = ((s', n', d'), out)"
  shows "tame V s s' \<and> length (cursor_epoch (dr_cursor d')) = 32 \<and> (\<forall>t. out = Some (Inr (Applied t)) \<longrightarrow> pp_complete page \<and> \<not> resumed)"
proof -
  obtain s1 cursor r where app: "apply_pull_page (pu_codec p) (pu_json p) sk (pu_peer p) (dr_cursor d) page skip s = (s1, cursor, r)" by (rule prod_cases3)
  have t1: "tame V s s1" by (rule apply_page_tame [OF assms(2,3) app])
  have len: "length (cursor_epoch cursor) = 32" by (rule apply_page_epoch [OF assms(3) app assms(4)])
  show ?thesis
  proof (cases r)
    case (Inl e)
    then show ?thesis using run t1 len by (auto simp: on_data_def assms(1) app)
  next
    case (Inr applied)
    let ?d = "d\<lparr>dr_cursor := cursor, dr_total := dr_total d + applied, dr_pages := dr_pages d + 1\<rparr>"
    let ?s = "ps_on_page_applied sk s1 (pu_peer p) page (dr_pages ?d) (dr_total ?d)"
    have t2: "tame V s ?s" by (rule tame_trans [OF t1 tame_quiet [OF quiet_keeps [OF sink_applied [OF tame_ok [OF t1]]]]])
    obtain n1 due where due: "preview_due (pu_net p) n (dr_last_preview d) = (n1, due)" by (rule prod.exhaust)
    obtain n2 now where now: "net_instant (pu_net p) n1 = (n2, now)" by (rule prod.exhaust)
    obtain s3 n3 d3 where pre: "run_preview p (pp_head_seq page) (?s, n2, ?d\<lparr>dr_last_preview := Some now\<rparr>) = (s3, n3, d3)" by (rule prod_cases3)
    note t3 = run_preview_tame [OF assms(1) tame_ok [OF t2] pre]
    have "\<exists>d4. after_page p resumed page d4 = (d', out) \<and> (s' = ?s \<and> dr_cursor d4 = cursor \<or> s' = s3 \<and> d4 = d3)"
      using run pre by (auto simp: on_data_def assms(1) app Inr Let_def due now split: if_splits prod.splits)
    then have "\<exists>d4. after_page p resumed page d4 = (d', out) \<and> dr_cursor d4 = cursor \<and> (s' = ?s \<or> s' = s3)" using t3 by auto
    then show ?thesis using after_page_cursor len t2 tame_trans [OF t2] t3 by metis
  qed
qed

lemma on_snapshot_tame:
  assumes "pu_socket p = sk" "vw_ok V s" "length (cursor_epoch (dr_cursor d)) = 32" "on_snapshot p page (s, n, d) = ((s', n', d'), out)"
  shows "tame V s s' \<and> length (cursor_epoch (dr_cursor d')) = 32 \<and> (\<forall>t. out \<noteq> Some (Inr (Applied t)))"
proof -
  obtain n1 due where due: "preview_due (pu_net p) n (dr_last_preview d) = (n1, due)" by (rule prod.exhaust)
  obtain n2 now where now: "net_instant (pu_net p) n1 = (n2, now)" by (rule prod.exhaust)
  obtain s3 n3 d3 where pre: "run_preview p (pp_head_seq page) (s, n2, d\<lparr>dr_overridden := True, dr_last_preview := Some now\<rparr>) = (s3, n3, d3)" by (rule prod_cases3)
  note t3 = run_preview_tame [OF assms(1,2) pre]
  show ?thesis
    using assms(3,4) t3 tame_refl [OF assms(2)]
    by (auto simp: on_snapshot_def assms(1) Let_def due now pre split: if_splits prod.splits)
qed

lemma on_reset_tame:
  assumes "pu_socket p = sk" "vw_ok V s" "length (cursor_epoch (dr_cursor d)) = 32" "length epoch = 32" "on_reset p request page epoch (s, n, d) = ((s', n', d'), out)"
  shows "tame V s s' \<and> length (cursor_epoch (dr_cursor d')) = 32 \<and> (\<forall>t. out \<noteq> Some (Inr (Applied t)))"
proof -
  obtain s1 r where per: "persist_pull_reset sk s (pu_peer p) request page epoch = (s1, r)" by (rule prod.exhaust)
  note t = reset_tame [OF assms(2) per]
  show ?thesis
    using assms(3-5) t tame_refl [OF assms(2)]
    by (cases r) (auto simp: on_reset_def assms(1) Let_def per cursor_epoch_def split: if_splits)
qed

text \<open>One iteration with any peer: the host stays well formed, and only a complete page to a fresh request ends the drain with success.\<close>

lemma drain_step_tame:
  assumes "pu_socket p = sk" "codec_laws (pu_codec p)" "vw_ok V s" "length (cursor_epoch (dr_cursor d)) = 32"
    and run: "drain_step p audit skip (s, n, d) = ((s', n', d'), out)"
  shows "tame V s s' \<and> length (cursor_epoch (dr_cursor d')) = 32 \<and>
    (\<forall>t. out = Some (Inr (Applied t)) \<longrightarrow> dr_resume d = None \<and>
      (\<exists>s1 now s2 n2 status bs page. ps_now_ms sk s = (s1, now) \<and>
         exchange p s1 n (drain_request (claims V s) (dr_cursor d) None audit now) = (s2, n2, Inr (status, bs)) \<and>
         verify_pull_page (pu_crypto p) (pu_codec p) (pu_json p) bs (pu_peer p) (pu_sec1 p) = Inr page \<and> pp_complete page))"
proof -
  obtain s1 now where now: "ps_now_ms sk s = (s1, now)" by (rule prod.exhaust)
  have t1: "tame V s s1" by (rule tame_quiet [OF quiet_keeps [OF sink_now [OF assms(3) now]]])
  let ?rq = "drain_request (claims V s) (dr_cursor d) (dr_resume d) audit now"
  obtain s2 n2 r where ex: "exchange p s1 n ?rq = (s2, n2, r)" by (rule prod_cases3)
  have t2: "tame V s s2" by (rule tame_trans [OF t1 tame_quiet [OF exchange_quiet [OF assms(1) tame_ok [OF t1] ex]]])
  note ok = tame_ok [OF t2] and step = drain_step_def [of p audit skip]
  have data: "(s' = s2 \<and> d' = d \<and> (\<forall>t. out \<noteq> Some (Inr (Applied t)))) \<or>
      (\<exists>status bs page epoch. r = Inr (status, bs) \<and> verify_pull_page (pu_crypto p) (pu_codec p) (pu_json p) bs (pu_peer p) (pu_sec1 p) = Inr page \<and>
         decode_epoch (pp_epoch page) = Some epoch \<and>
         (on_snapshot p page (s2, n2, d) = ((s', n', d'), out) \<or> on_reset p ?rq page epoch (s2, n2, d) = ((s', n', d'), out) \<or>
          on_data p skip (dr_resume d \<noteq> None) page (s2, n2, d) = ((s', n', d'), out)))"
    using run by (auto simp: step assms(1) sink_coverage [OF assms(3)] now ex Let_def split: sum.splits prod.splits if_splits option.splits)
  then show ?thesis
  proof (elim disjE exE conjE)
    fix status bs page epoch
    assume "on_snapshot p page (s2, n2, d) = ((s', n', d'), out)"
    from on_snapshot_tame [OF assms(1) ok assms(4) this] show ?thesis using tame_trans [OF t2] by blast
  next
    fix status bs page epoch
    assume "decode_epoch (pp_epoch page) = Some epoch" "on_reset p ?rq page epoch (s2, n2, d) = ((s', n', d'), out)"
    from on_reset_tame [OF assms(1) ok assms(4) decode_epoch_length [OF this(1)] this(2)] show ?thesis using tame_trans [OF t2] by blast
  next
    fix status bs page epoch
    assume a: "r = Inr (status, bs)" "verify_pull_page (pu_crypto p) (pu_codec p) (pu_json p) bs (pu_peer p) (pu_sec1 p) = Inr page"
      "on_data p skip (dr_resume d \<noteq> None) page (s2, n2, d) = ((s', n', d'), out)"
    from on_data_tame [OF assms(1,2) ok assms(4) a(3)] show ?thesis using tame_trans [OF t2] now ex a(1,2) by auto
  qed (use t2 assms(4) in blast)
qed

lemma drain_tame:
  assumes "pu_socket p = sk" "codec_laws (pu_codec p)" "vw_ok V s" "length (cursor_epoch cursor) = 32"
    and "drain_pull_pages p cursor audit skip s n = Some ((s', n', d'), r)"
  shows "tame V s s' \<and> length (cursor_epoch (dr_cursor d')) = 32"
    "\<exists>s0 n0 d0. tame V s s0 \<and> length (cursor_epoch (dr_cursor d0)) = 32 \<and> drain_step p audit skip (s0, n0, d0) = ((s', n', d'), Some r)"
proof -
  let ?I = "\<lambda>(t, m, d). tame V s t \<and> length (cursor_epoch (dr_cursor d)) = 32"
  have step: "?I x'" if "?I x" "drain_step p audit skip x = (x', out)" for x x' out
  proof -
    obtain t m d where x: "x = (t, m, d)" by (rule prod_cases3)
    obtain t' m' d' where x': "x' = (t', m', d')" by (rule prod_cases3)
    have t: "tame V s t" "length (cursor_epoch (dr_cursor d)) = 32" using that(1) x by simp_all
    show ?thesis using drain_step_tame [OF assms(1,2) tame_ok [OF t(1)] t(2) that(2) [unfolded x x']] tame_trans [OF t(1)] x' by simp
  qed
  have "?I (s, n, drain_start cursor)" using assms(3,4) by (simp add: tame_refl drain_start_def)
  from drain_loop_last [where I = ?I, OF assms(5) [unfolded drain_pull_pages_def] this] step
  obtain y where y: "?I y" "drain_step p audit skip y = ((s', n', d'), Some r)" unfolding fst_conv snd_conv by blast
  from step [OF this] show "tame V s s' \<and> length (cursor_epoch (dr_cursor d')) = 32" by simp
  obtain s0 n0 d0 where "y = (s0, n0, d0)" by (rule prod_cases3)
  then show "\<exists>s0 n0 d0. tame V s s0 \<and> length (cursor_epoch (dr_cursor d0)) = 32 \<and> drain_step p audit skip (s0, n0, d0) = ((s', n', d'), Some r)"
    using y by auto
qed

end

section \<open>Audit pages\<close>

lemma key_sorted_distinct: "sorted_wrt (\<lambda>x y. order_key x < order_key y) xs \<Longrightarrow> distinct xs"
  by (induction xs) auto

context pull_source
begin

lemma audit_incomplete:
  assumes "inv l" "decode_epoch (pq_relay_epoch request) = Some e"
    and "\<not> pull_needs_reset e (pq_relay_after request) (full_stream (epoch l) (arrived l))"
    and "pq_store request = None" "pq_audit request" "pq_resume request = None" "clamp_limit request \<le> length (held l)"
    and "build_pull_page j sk (state l) peer request = Inr page"
  shows "\<not> pp_complete page"
proof -
  let ?own = "ps_own_device_id sk (state l)" and ?w = "wanted_ops (held l) (decode_coverage request) True None None"
  have budget: "0 < clamp_limit request" "0 < PULL_PAGE_BYTE_BUDGET"
    by (simp_all add: clamp_limit_def PULL_PAGE_LIMIT_MAX_def PAGE_LIMIT_MAX_def PULL_PAGE_BYTE_BUDGET_def)
  have fresh: "resume_in Keyed request = None" "resume_in Backfill request = None" using assms(6) by (simp_all add: resume_in_def)
  obtain sops token where ch: "build_keyed_channel j sk (state l) (decode_coverage request) None True (clamp_limit request) PULL_PAGE_BYTE_BUDGET None ?own =
        Inr (map (entry_of j pc) sops, token)"
      "channel_out ?w (keyed_visit ?own None (origins_of (held l))) (clamp_limit request) sops token"
    using build_keyed_out [OF assms(1) budget, of j "decode_coverage request" None True None ?own] by blast
  have "token \<noteq> None"
  proof
    assume "token = None"
    then have all: "sops = concat (map ?w (keyed_visit ?own None (origins_of (held l))))" "length sops < clamp_limit request"
      using channel_out_NoneD ch(2) by blast+
    have "x \<in> set (?w (origin_of x))" if "x \<in> set (held l)" for x
      using that by (simp add: wanted_mem keyed_after_def after_key_def store_matches_def)
    then have "set (held l) \<subseteq> set sops" unfolding all(1) by (fastforce simp: visit_fresh origins_of_set)
    then have "card (set (held l)) \<le> length sops" by (meson List.finite_set card_length card_mono order_trans)
    moreover have "distinct (held l)" using sk_sorted [OF assms(1)] by (rule key_sorted_distinct)
    ultimately show False using all(2) assms(7) by (simp add: distinct_card)
  qed
  then show ?thesis
    using assms(2-5,8) ch(1) fresh by (auto simp: build_pull_page_def sk_stream [OF assms(1)] Let_def data_page_def)
qed

end

section \<open>Properties\<close>

text \<open>
  C12: A drain keeps the node well formed whatever the peer sends. With any network and any answers (forged
  pages, wrong orders, resets, errors at any point), a drain that returns leaves the log, the coverage
  claims and the cursor table well formed, keeps every op the node held, and its cursor carries an epoch of
  32 bytes.
\<close>

theorem drain_keeps_node:
  assumes "pu_socket p = oplog_socket c pc ck impl identity" "codec_laws (pu_codec p)"
    and "log_ok (pn_log node)" "coverage_ok (pn_coverage node)" "bt_ok (pn_cursors node)" "length (cursor_epoch cursor) = 32"
    and "drain_pull_pages p cursor audit skip node n = Some ((node', n', d), r)"
  shows "log_ok (pn_log node') \<and> coverage_ok (pn_coverage node') \<and> bt_ok (pn_cursors node') \<and> length (cursor_epoch (dr_cursor d)) = 32 \<and>
    (\<forall>i. contains (pn_log node) i \<longrightarrow> contains (pn_log node') i)"
proof -
  let ?V = "node_view c pc ck impl (pn_unix node)"
  have "vw_ok ?V node" using assms(3-5) by simp
  from puller.drain_tame(1) [OF assms(1,2) this assms(6,7)] show ?thesis by (auto simp: tame_def)
qed

theorem drain_keeps_node_witness:
  "let p = node_puller demo_crypto demo_codec demo_pull_codec demo_clock (kv_impl demo_kv_codec) 5 7
         \<lparr>net_post = (\<lambda>n _. (n, Inl ''connection refused'')), net_instant = (\<lambda>n. (n, n))\<rparr>
   in \<exists>node' n' d e. drain_pull_pages p None False False demo_pull_node (0 :: nat) = Some ((node', n', d), Inl e) \<and>
        log_ok (pn_log node') \<and> coverage_ok (pn_coverage node')"
proof -
  let ?p = "node_puller demo_crypto demo_codec demo_pull_codec demo_clock (kv_impl demo_kv_codec) 5 7
      \<lparr>net_post = (\<lambda>n _. (n, Inl ''connection refused'')), net_instant = (\<lambda>n :: nat. (n, n))\<rparr>"
  have fails: "\<exists>s' e. exchange ?p s n request = (s', n, Inl e)" for s n request
    by (auto simp: exchange_def pull_bytes_def split: prod.splits sum.splits)
  obtain s1 now where now: "read_now_ms demo_pull_node = (s1, now)" by (rule prod.exhaust)
  obtain s2 e where ex: "exchange ?p s1 0 (drain_request (pn_coverage demo_pull_node) None None False now) = (s2, 0, Inl e)" using fails by blast
  have "drain_step ?p False False (demo_pull_node, 0, drain_start None) = ((s2, 0, drain_start None), Some (Inl e))"
    by (simp add: drain_step_def Let_def now drain_start_def ex)
  then have run: "drain_pull_pages ?p None False False demo_pull_node 0 = Some ((s2, 0, drain_start None), Inl e)"
    unfolding drain_pull_pages_def using drain_loop.simps [of ?p False False "(demo_pull_node, 0, drain_start None)"] by simp
  have pc: "codec_laws (pu_codec ?p)" using demo_codec_laws by simp
  have len: "length (cursor_epoch None) = 32" by (simp add: cursor_epoch_def zero_epoch_def)
  from drain_keeps_node [OF node_puller_simps(5) pc demo_node_facts(1-3) len run] show ?thesis unfolding Let_def using run by blast
qed

text \<open>
  C37: An audit drain does not finish on a log that fills a page. With an honest server whose log has at least
  a page of ops (8192), a drain with the audit flag never returns \<open>Applied\<close>: success needs a complete page in
  answer to a fresh request, a fresh audit request ignores what the node already claims, and the page it gets
  is therefore never complete, however often the node has fetched everything.
\<close>

theorem audit_drain_never_applied:
  assumes laws: "sha_laws c" "sec1_laws c" "ecdsa_laws c" "codec_laws pc" "pull_codec_laws j"
    and server: "sv_identity st = from_signing c sks" "sv_log st = log_as_source pc log" "log_ok log"
      "db_try_key_for_device (sv_relay_callers st) (device_id_of c (sk_verifying c skc)) = Inr (Some (public_key_sec1 c (from_signing c skc)))"
      "PULL_PAGE_LIMIT_MAX \<le> length (log_iter log)"
    and skew: "\<And>n k. \<bar>as_i64 (unix n) - as_i64 (pn_unix node k)\<bar> \<le> MAX_REQUEST_SKEW_MS"
    and node: "log_ok (pn_log node)" "coverage_ok (pn_coverage node)" "bt_ok (pn_cursors node)" "length (cursor_epoch cursor) = 32"
  shows "drain_pull_pages (node_puller c pc j ck impl skc sks (served_net c pc j shown unix unix' instants st)) cursor True skip node n \<noteq>
    Some (out, Inr (Applied t))"
proof
  let ?p = "node_puller c pc j ck impl skc sks (served_net c pc j shown unix unix' instants st)" and ?V = "node_view c pc ck impl (pn_unix node)"
  assume "drain_pull_pages ?p cursor True skip node n = Some (out, Inr (Applied t))"
  moreover obtain node' n' d' where out: "out = (node', n', d')" by (rule prod_cases3)
  ultimately have run: "drain_pull_pages ?p cursor True skip node n = Some ((node', n', d'), Inr (Applied t))" by simp
  have ok: "vw_ok ?V node" using node(1-3) by simp
  have pc: "codec_laws (pu_codec ?p)" using laws(4) by simp
  obtain s n0 d where s: "tame ?V node s" "length (cursor_epoch (dr_cursor d)) = 32"
      and step: "drain_step ?p True skip (s, n0, d) = ((node', n', d'), Some (Inr (Applied t)))"
    using puller.drain_tame(2) [OF node_puller_simps(5) pc ok node(4) run] by blast
  have sok: "vw_ok ?V s" by (rule tame_ok [OF s(1)])
  obtain s1 now s2 n2 status bs page where got: "read_now_ms s = (s1, now)"
      "exchange ?p s1 n0 (drain_request (pn_coverage s) (dr_cursor d) None True now) = (s2, n2, Inr (status, bs))"
      "verify_pull_page c pc j bs (device_id_of c (sk_verifying c sks)) (public_key_sec1 c (from_signing c sks)) = Inr page" "pp_complete page"
    using puller.drain_step_tame [OF node_puller_simps(5) pc sok s(2) step] by auto
  let ?rq = "drain_request (pn_coverage s) (dr_cursor d) None True now"
  have rq: "bt_ok (pq_coverage ?rq)" "pq_version ?rq = PULL_VERSION" "\<bar>as_i64 (unix n0) - pq_issued_at_ms ?rq\<bar> \<le> MAX_REQUEST_SKEW_MS"
      "decode_epoch (pq_relay_epoch ?rq) = Some (cursor_epoch (dr_cursor d))" "pq_store ?rq = None" "pq_audit ?rq" "pq_resume ?rq = None"
      "clamp_limit ?rq = PULL_PAGE_LIMIT_MAX"
    using skew got(1) sok decode_epoch_hex [OF s(2)] wire_map_roundtrip [of "pn_coverage s"]
    by (auto simp: drain_request_def read_now_ms_def clamp_limit_def PULL_PAGE_LIMIT_MAX_def PAGE_LIMIT_MAX_def)
  obtain s3 h where hlc: "node_next_hlc ck s1 = (s3, h)" by (rule prod.exhaust)
  obtain body bs' page' where ex: "sign_pull_request c pc j ?rq (from_signing c skc) h = Inr body"
      "pull_bytes (served_net c pc j shown unix unix' instants st) n0 body = (Suc n0, if length bs' \<le> MAX_PULL_RESPONSE_BYTES then Inr (200, bs') else Inl TWire)"
      "verify_pull_page c pc j bs' (device_id_of c (sk_verifying c sks)) (public_key_sec1 c (from_signing c sks)) = Inr page'"
      "if pull_needs_reset (cursor_epoch (dr_cursor d)) (pq_relay_after ?rq) (relay_state log) then page' = reset_pull_page (relay_state log)
       else build_pull_page j (serve_socket (unix n0)) st (device_id_of c (sk_verifying c skc)) ?rq = Inr page'"
    using served_exchange [where unix = unix and n = n0 and t = h and shown = shown and unix' = unix' and instants = instants,
        OF laws server(1-4) rq(1-4)] by blast
  have "bs = bs'" using got(2) ex(1,2) hlc by (auto simp: exchange_def split: if_splits)
  then have page: "page = page'" using got(3) ex(3) by simp
  have stream: "relay_state log = full_stream (relay_epoch log) (arrivals log)" by (simp add: relay_state_def full_stream_def)
  show False
  proof (cases "pull_needs_reset (cursor_epoch (dr_cursor d)) (pq_relay_after ?rq) (relay_state log)")
    case True
    then show ?thesis using ex(4) got(4) page by (simp add: reset_pull_page_def)
  next
    case False
    then have "\<not> pp_complete page'"
      using mem_log.served.audit_incomplete [of pc "(st, log)" ?rq "cursor_epoch (dr_cursor d)" j "unix n0" "device_id_of c (sk_verifying c skc)" page',
          unfolded prod.case same_log [OF server(2)]] laws(4) server(3,5) rq(4-8) ex(4) unfolding stream by simp
    then show ?thesis using got(4) page by simp
  qed
qed

theorem audit_drain_never_applied_witness:
  "let net = served_net demo_crypto demo_codec demo_pull_codec (\<lambda>_. []) (\<lambda>_. 1000) (\<lambda>n. n) (\<lambda>n. n) demo_many_server
   in \<forall>out t. drain_pull_pages (node_puller demo_crypto demo_codec demo_pull_codec demo_clock (kv_impl demo_kv_codec) 5 7 net) None True False demo_many_node 0 \<noteq>
        Some (out, Inr (Applied t))"
proof -
  have skew: "\<bar>as_i64 1000 - as_i64 (pn_unix demo_many_node k)\<bar> \<le> MAX_REQUEST_SKEW_MS" for k
    using demo_skew by (simp add: demo_many_node_def)
  have "length (filter P (filter Q xs)) \<le> length xs" for P Q and xs :: "signed_op list" by (meson length_filter_le order_trans)
  then have many: "PULL_PAGE_LIMIT_MAX \<le> length (log_iter demo_many_log)"
    using demo_many_own order_trans unfolding store_slice_def by blast
  show ?thesis
    unfolding Let_def
    using audit_drain_never_applied [where unix = "\<lambda>_. 1000", OF demo_sha_laws demo_sec1_laws demo_ecdsa_laws demo_codec_laws demo_pull_codec_laws
        demo_many_server_facts(1,2) demo_many_ok demo_many_server_facts(3) many skew demo_many_node_facts(1-3) demo_start(1) [OF demo_many_epoch]]
    by blast
qed

end
