(* ===== verification/RustStr.thy ===== *)
theory RustStr
  imports Identity "HOL-Library.Char_ord"
begin

text \<open>
  The methods of Rust's \<open>str\<close> the components use, on ASCII strings: white space is the
  ASCII white space of \<open>char::is_whitespace\<close>, lower-casing is that of ASCII letters.
\<close>

definition is_ws :: "char \<Rightarrow> bool" where
  "is_ws ch \<longleftrightarrow> ch \<in> {CHR 0x09, CHR 0x0A, CHR 0x0B, CHR 0x0C, CHR 0x0D, CHR 0x20}"

definition trim :: "string \<Rightarrow> string" where
  "trim s = rev (dropWhile is_ws (rev (dropWhile is_ws s)))"

definition trim_end_matches :: "char \<Rightarrow> string \<Rightarrow> string" where
  "trim_end_matches ch s = rev (dropWhile (\<lambda>x. x = ch) (rev s))"

function split_whitespace :: "string \<Rightarrow> string list" where
  "split_whitespace s =
     (let s = dropWhile is_ws s in
      if s = [] then [] else takeWhile (\<lambda>ch. \<not> is_ws ch) s # split_whitespace (dropWhile (\<lambda>ch. \<not> is_ws ch) s))"
  by pat_completeness auto
termination
proof (relation "measure length")
  fix s x :: string
  assume x: "x = dropWhile is_ws s" "x \<noteq> []"
  then have "\<not> is_ws (hd x)" using hd_dropWhile [of is_ws s] by simp
  then have "length (dropWhile (\<lambda>ch. \<not> is_ws ch) x) < length x"
    using x(2) by (cases x) (simp_all add: length_dropWhile_le le_imp_less_Suc)
  also have "\<dots> \<le> length s" unfolding x(1) by (rule length_dropWhile_le)
  finally show "(dropWhile (\<lambda>ch. \<not> is_ws ch) x, s) \<in> measure length" by simp
qed simp

declare split_whitespace.simps [simp del]

definition strip_prefix :: "string \<Rightarrow> string \<Rightarrow> string option" where
  "strip_prefix p s = (if take (length p) s = p then Some (drop (length p) s) else None)"

text \<open>The first piece of \<open>split\<close> at any of some characters, and \<open>rsplit_once\<close> at one.\<close>

definition first_piece :: "char list \<Rightarrow> string \<Rightarrow> string" where
  "first_piece seps s = takeWhile (\<lambda>ch. ch \<notin> set seps) s"

definition rsplit_once :: "char \<Rightarrow> string \<Rightarrow> (string \<times> string) option" where
  "rsplit_once ch s =
     (if ch \<in> set s
      then Some (rev (tl (dropWhile (\<lambda>x. x \<noteq> ch) (rev s))), rev (takeWhile (\<lambda>x. x \<noteq> ch) (rev s)))
      else None)"

fun join :: "string \<Rightarrow> string list \<Rightarrow> string" where
  "join sep [] = []"
| "join sep [w] = w"
| "join sep (w # v # ws) = w @ sep @ join sep (v # ws)"

definition is_ascii_digit :: "char \<Rightarrow> bool" where
  "is_ascii_digit ch \<longleftrightarrow> CHR ''0'' \<le> ch \<and> ch \<le> CHR ''9''"

definition is_ascii_alphanumeric :: "char \<Rightarrow> bool" where
  "is_ascii_alphanumeric ch \<longleftrightarrow>
     is_ascii_digit ch \<or> CHR ''a'' \<le> ch \<and> ch \<le> CHR ''z'' \<or> CHR ''A'' \<le> ch \<and> ch \<le> CHR ''Z''"

definition to_lowercase :: "string \<Rightarrow> string" where
  "to_lowercase = map (\<lambda>ch. if CHR ''A'' \<le> ch \<and> ch \<le> CHR ''Z'' then char_of (of_char ch + 32 :: nat) else ch)"

definition str_bytes :: "string \<Rightarrow> bytes" where
  "str_bytes s = map of_char s"

section \<open>Words\<close>

definition is_word :: "string \<Rightarrow> bool" where
  "is_word w \<longleftrightarrow> w \<noteq> [] \<and> (\<forall>ch \<in> set w. \<not> is_ws ch)"

lemma split_words: "w \<in> set (split_whitespace s) \<Longrightarrow> is_word w"
proof (induction s rule: split_whitespace.induct)
  case (1 s)
  let ?s = "dropWhile is_ws s"
  show ?case
  proof (cases "?s = []")
    case True
    then show ?thesis using 1(2) by (simp add: split_whitespace.simps [of s])
  next
    case False
    then have first: "\<not> is_ws (hd ?s)" by (rule hd_dropWhile)
    have "is_word (takeWhile (\<lambda>ch. \<not> is_ws ch) ?s)"
      using False first by (cases ?s) (auto simp: is_word_def dest: set_takeWhileD)
    moreover have "split_whitespace s = takeWhile (\<lambda>ch. \<not> is_ws ch) ?s # split_whitespace (dropWhile (\<lambda>ch. \<not> is_ws ch) ?s)"
      using False by (subst split_whitespace.simps) (simp only: Let_def if_False)
    ultimately show ?thesis using 1(1) [OF refl False] 1(2) by auto
  qed
qed

lemma split_join: "\<forall>w \<in> set ws. is_word w \<Longrightarrow> split_whitespace (join '' '' ws) = ws"
proof (induction ws rule: induct_list012)
  case 1
  then show ?case by (simp add: split_whitespace.simps)
next
  case (2 w)
  then have "dropWhile is_ws w = w" "takeWhile (\<lambda>ch. \<not> is_ws ch) w = w" "dropWhile (\<lambda>ch. \<not> is_ws ch) w = []" "w \<noteq> []"
    by (auto simp: is_word_def dropWhile_eq_self_iff)
  then have "split_whitespace w = w # split_whitespace []" by (subst split_whitespace.simps) (simp only: Let_def if_False)
  then show ?case by (simp add: split_whitespace.simps [of "[]"])
next
  case (3 w v ws)
  then have w: "is_word w" by simp
  let ?s = "w @ '' '' @ join '' '' (v # ws)"
  have drop: "dropWhile is_ws ?s = ?s" using w by (cases w) (auto simp: is_word_def)
  have take: "takeWhile (\<lambda>ch. \<not> is_ws ch) ?s = w" "dropWhile (\<lambda>ch. \<not> is_ws ch) ?s = '' '' @ join '' '' (v # ws)"
    using w by (simp_all add: takeWhile_append2 dropWhile_append2 is_word_def is_ws_def)
  have space: "split_whitespace ('' '' @ x) = split_whitespace x" for x
    by (simp add: split_whitespace.simps [of "CHR '' '' # x"] split_whitespace.simps [of x] is_ws_def)
  have "split_whitespace ?s = w # split_whitespace ('' '' @ join '' '' (v # ws))"
    using w by (subst split_whitespace.simps) (simp only: drop take Let_def if_False is_word_def append_is_Nil_conv simp_thms)
  then show ?case using 3 space by simp
qed

end
