(* ===== verification/OAuth.thy ===== *)
theory OAuth
  imports RustStr
begin

text \<open>
  The vocabulary of the OAuth 2.1 authorization server (\<open>src/oauth/mod.rs\<close>): scopes, redirect URIs, PKCE,
  the rate limiter, and the records of clients, asks and tokens. Hashing, base64, percent-encoding and the
  random source are the parameter \<open>oauth_lib\<close>. Times are seconds; a hash map is a \<open>btree\<close>.
\<close>

section \<open>Libraries and constants\<close>

record 'r oauth_lib =
  ol_sha256 :: "bytes \<Rightarrow> bytes"
  ol_b64url :: "bytes \<Rightarrow> string"
  ol_percent :: "(char \<Rightarrow> bool) \<Rightarrow> string \<Rightarrow> string"
  ol_fill_bytes :: "'r \<Rightarrow> nat \<Rightarrow> 'r \<times> bytes"

definition CODE_TTL_SECS :: nat where "CODE_TTL_SECS = 10 * 60"

definition ASK_TTL_SECS :: nat where "ASK_TTL_SECS = 15 * 60"

definition TOUCH_EVERY_SECS :: nat where "TOUCH_EVERY_SECS = 60"

definition TOKEN_TTL_SECS :: nat where "TOKEN_TTL_SECS = 30 * 24 * 60 * 60"

definition NO_EXPIRY :: nat where "NO_EXPIRY = 2 ^ 63 - 1"

definition REGISTER_LIMIT :: "nat \<times> nat" where "REGISTER_LIMIT = (10, 10 * 60)"

definition AUTHORIZE_LIMIT :: "nat \<times> nat" where "AUTHORIZE_LIMIT = (30, 10 * 60)"

section \<open>Scopes\<close>

definition FAMILIES :: "string list" where
  "FAMILIES = [''threads'', ''life-map-read'', ''life-map-write'', ''computer'', ''mail'', ''messages'', ''inference'', ''moves'']"

definition DEFAULT_SCOPE :: string where "DEFAULT_SCOPE = ''threads''"

definition family_words :: "string \<Rightarrow> string" where
  "family_words family =
     (if family = ''threads'' then ''open threads with your agents and read and post in them''
      else if family = ''life-map-read'' then ''read your Life Map''
      else if family = ''life-map-write'' then ''change your Life Map, and use your Proxy's tools''
      else if family = ''computer'' then ''control your computer and phone''
      else if family = ''mail'' then ''read and send your mail''
      else if family = ''messages'' then ''read and send your messages''
      else if family = ''inference'' then ''run your models''
      else if family = ''moves'' then ''see and resolve your Moves''
      else [])"

definition is_purpose :: "string \<Rightarrow> bool" where
  "is_purpose word \<longleftrightarrow> CHR '':'' \<in> set word \<and> strip_prefix '':'' word = None"

fun scope_words :: "string list \<Rightarrow> string list \<Rightarrow> string list \<Rightarrow> string + (string list \<times> string list)" where
  "scope_words [] families purposes = Inr (families, purposes)"
| "scope_words (word # rest) families purposes =
     (if word \<in> set FAMILIES then scope_words rest (if word \<in> set families then families else families @ [word]) purposes
      else if is_purpose word then scope_words rest families (if word \<in> set purposes then purposes else purposes @ [word])
      else Inl (word @ '' is not a scope this address has; the scopes are '' @ join '', '' FAMILIES))"

fun position :: "string \<Rightarrow> string list \<Rightarrow> nat option" where
  "position w [] = None"
| "position w (x # xs) = (if x = w then Some 0 else map_option Suc (position w xs))"

text \<open>\<open>None\<close> sorts before every \<open>Some\<close>.\<close>

definition family_rank :: "string \<Rightarrow> nat" where
  "family_rank family = (case position family FAMILIES of None \<Rightarrow> 0 | Some i \<Rightarrow> Suc i)"

definition normalize_scope :: "string option \<Rightarrow> string + string" where
  "normalize_scope requested =
     (let requested = (case requested of Some s \<Rightarrow> trim s | None \<Rightarrow> []) in
      if requested = [] then Inr DEFAULT_SCOPE
      else and_then (scope_words (split_whitespace requested) [] []) (\<lambda>(families, purposes).
        Inr (join '' '' (sort_key family_rank families @ purposes))))"

definition scope_families :: "string option \<Rightarrow> string list" where
  "scope_families scope =
     (let words = (case map_option trim scope of
                     Some s \<Rightarrow> if s = [] then [DEFAULT_SCOPE] else split_whitespace s
                   | None \<Rightarrow> [DEFAULT_SCOPE]) in
      filter (\<lambda>family. family \<in> set words) FAMILIES)"

definition scope_opens :: "string option \<Rightarrow> string \<Rightarrow> bool" where
  "scope_opens scope family \<longleftrightarrow> family \<in> set (scope_families scope)"

definition scope_is_purpose_only :: "string \<Rightarrow> bool" where
  "scope_is_purpose_only scope \<longleftrightarrow>
     (let words = split_whitespace scope in words \<noteq> [] \<and> (\<forall>word \<in> set words. word \<notin> set FAMILIES \<and> is_purpose word))"

definition expires_at_for :: "string \<Rightarrow> nat \<Rightarrow> nat" where
  "expires_at_for scope now = (if scope_is_purpose_only scope then NO_EXPIRY else now + TOKEN_TTL_SECS)"

section \<open>Redirects and PKCE\<close>

definition LOOPBACK :: "string list" where
  "LOOPBACK = [''localhost'', ''127.0.0.1'', ''[::1]'']"

definition redirect_origin :: "string \<Rightarrow> string" where
  "redirect_origin redirect_uri =
     (let rest = (case strip_prefix ''https://'' redirect_uri of Some r \<Rightarrow> r
                  | None \<Rightarrow> (case strip_prefix ''http://'' redirect_uri of Some r \<Rightarrow> r | None \<Rightarrow> redirect_uri));
          authority = first_piece ''/?#'' rest;
          authority = (case rsplit_once (CHR ''@'') authority of Some (_, host) \<Rightarrow> host | None \<Rightarrow> authority);
          host = (case rsplit_once (CHR '':'') authority of
                    Some (host, port) \<Rightarrow> if list_all is_ascii_digit port then host else authority
                  | None \<Rightarrow> authority) in
      if host \<in> set LOOPBACK then ''this machine'' else to_lowercase host)"

definition redirect_uri_is_allowed :: "string \<Rightarrow> bool" where
  "redirect_uri_is_allowed uri =
     (if CHR ''#'' \<in> set uri \<or> list_ex is_ws uri then False
      else case strip_prefix ''https://'' uri of
        Some rest \<Rightarrow> (case rest of ch # _ \<Rightarrow> ch \<noteq> CHR ''/'' | [] \<Rightarrow> False)
      | None \<Rightarrow>
          (case strip_prefix ''http://'' uri of
             None \<Rightarrow> False
           | Some rest \<Rightarrow>
               let authority = first_piece ''/?'' rest;
                   host = (case rsplit_once (CHR '':'') authority of
                             Some (host, port) \<Rightarrow> if list_all is_ascii_digit port then host else authority
                           | None \<Rightarrow> authority) in
               host \<in> set LOOPBACK))"

definition code_challenge_is_well_formed :: "string \<Rightarrow> bool" where
  "code_challenge_is_well_formed challenge \<longleftrightarrow>
     43 \<le> length challenge \<and> length challenge \<le> 128 \<and>
     list_all (\<lambda>ch. is_ascii_alphanumeric ch \<or> ch \<in> set ''-._~'') challenge"

definition pkce_matches :: "'r oauth_lib \<Rightarrow> string \<Rightarrow> string \<Rightarrow> bool" where
  "pkce_matches L verifier challenge \<longleftrightarrow>
     code_challenge_is_well_formed verifier \<and> ol_b64url L (ol_sha256 L (str_bytes verifier)) = challenge"

definition hash_token :: "'r oauth_lib \<Rightarrow> string \<Rightarrow> string" where
  "hash_token L bearer = encode_hex (ol_sha256 L (str_bytes bearer))"

definition random_hex :: "'r oauth_lib \<Rightarrow> nat \<Rightarrow> 'r \<Rightarrow> 'r \<times> string" where
  "random_hex L n rng = (case ol_fill_bytes L rng n of (rng', bs) \<Rightarrow> (rng', encode_hex bs))"

definition QUERY_VALUE :: "char \<Rightarrow> bool" where
  "QUERY_VALUE ch \<longleftrightarrow> \<not> (is_ascii_alphanumeric ch \<or> ch \<in> set ''-._~'')"

fun redirect_loop :: "'r oauth_lib \<Rightarrow> char \<Rightarrow> (string \<times> string) list \<Rightarrow> string \<Rightarrow> string" where
  "redirect_loop L separator [] url = url"
| "redirect_loop L separator ((name, value) # params) url =
     (if value = [] then redirect_loop L separator params url
      else redirect_loop L (CHR ''&'') params (url @ [separator] @ name @ ''='' @ ol_percent L QUERY_VALUE value))"

definition redirect_with :: "'r oauth_lib \<Rightarrow> string \<Rightarrow> (string \<times> string) list \<Rightarrow> string" where
  "redirect_with L redirect_uri params =
     redirect_loop L (if CHR ''?'' \<in> set redirect_uri then CHR ''&'' else CHR ''?'') params redirect_uri"

section \<open>The rate limiter\<close>

record limiter =
  lim_per :: nat
  lim_window_secs :: nat
  lim_windows :: "(string, nat \<times> nat) btree"

definition Limiter_new :: "nat \<Rightarrow> nat \<Rightarrow> limiter" where
  "Limiter_new per window_secs = \<lparr>lim_per = per, lim_window_secs = window_secs, lim_windows = []\<rparr>"

definition allow :: "string \<Rightarrow> nat \<Rightarrow> limiter \<Rightarrow> limiter \<times> bool" where
  "allow source now l =
     (let windows = (if length (lim_windows l) \<ge> 4096
                     then filter (\<lambda>(_, started, _). now - started < lim_window_secs l) (lim_windows l) else lim_windows l);
          (started, count) = (case map_of windows source of Some w \<Rightarrow> w | None \<Rightarrow> (now, 0));
          (started, count) = (if now - started \<ge> lim_window_secs l then (now, 0) else (started, count)) in
      if count \<ge> lim_per l then (l\<lparr>lim_windows := bt_insert source (started, count) windows\<rparr>, False)
      else (l\<lparr>lim_windows := bt_insert source (started, count + 1) windows\<rparr>, True))"

section \<open>Records\<close>

record oauth_client =
  cl_id :: string
  cl_name :: string
  cl_redirect_uris :: "string list"
  cl_registered_at :: nat

record oauth_ask =
  ak_id :: string
  ak_client_id :: string
  ak_client_name :: string
  ak_issuer :: string
  ak_redirect_uri :: string
  ak_scope :: "string option"
  ak_state :: "string option"
  ak_code_challenge :: string
  ak_asked_at :: nat
  ak_code :: "string option"
  ak_code_issued_at :: "nat option"
  ak_code_used :: bool

datatype answer = Pending | Approved | Denied

record oauth_token =
  tk_id :: string
  tk_client_id :: string
  tk_client_name :: string
  tk_hash :: string
  tk_scope :: "string option"
  tk_issued_at :: nat
  tk_expires_at :: nat
  tk_last_used_at :: "nat option"
  tk_revoked_at :: "nat option"

definition is_live :: "oauth_token \<Rightarrow> bool" where
  "is_live t \<longleftrightarrow> tk_revoked_at t = None"

definition is_live_at :: "nat \<Rightarrow> oauth_token \<Rightarrow> bool" where
  "is_live_at now t \<longleftrightarrow> is_live t \<and> now < tk_expires_at t"

definition runs_out :: "oauth_token \<Rightarrow> bool" where
  "runs_out t \<longleftrightarrow> tk_expires_at t \<noteq> NO_EXPIRY"

definition token_families :: "oauth_token \<Rightarrow> string list" where
  "token_families t = scope_families (tk_scope t)"

definition token_opens :: "oauth_token \<Rightarrow> string \<Rightarrow> bool" where
  "token_opens t family = scope_opens (tk_scope t) family"

datatype oauth_error = OStore string | OConsent string

section \<open>Lemmas on scopes\<close>

lemma scope_words_Inr:
  assumes "scope_words words families purposes = Inr (fs, ps)" "distinct families" "set families \<subseteq> set FAMILIES" "distinct purposes"
    "\<forall>w \<in> set purposes. w \<notin> set FAMILIES \<and> is_purpose w"
  shows "distinct fs \<and> set fs = set families \<union> (set words \<inter> set FAMILIES) \<and> distinct ps \<and>
    set ps = set purposes \<union> (set words - set FAMILIES) \<and> (\<forall>w \<in> set ps. w \<notin> set FAMILIES \<and> is_purpose w)"
  using assms
proof (induction words arbitrary: families purposes)
  case Nil
  then have "fs = families" "ps = purposes" by simp_all
  then show ?case using Nil.prems(2-5) by simp
next
  case (Cons word rest)
  show ?case
  proof (cases "word \<in> set FAMILIES")
    case True
    let ?f = "if word \<in> set families then families else families @ [word]"
    have "scope_words rest ?f purposes = Inr (fs, ps)" using Cons.prems(1) True by (simp only: scope_words.simps if_True)
    moreover have f: "distinct ?f" "set ?f \<subseteq> set FAMILIES" and eq: "set ?f = insert word (set families)"
      using Cons.prems(2,3) True by (simp_all add: insert_absorb)
    ultimately have ih: "distinct fs \<and> set fs = set ?f \<union> (set rest \<inter> set FAMILIES) \<and> distinct ps \<and>
        set ps = set purposes \<union> (set rest - set FAMILIES) \<and> (\<forall>w \<in> set ps. w \<notin> set FAMILIES \<and> is_purpose w)"
      by (intro Cons.IH [OF _ _ _ Cons.prems(4,5)])
    have sets: "set families \<union> (set (word # rest) \<inter> set FAMILIES) = set ?f \<union> (set rest \<inter> set FAMILIES)"
      "set (word # rest) - set FAMILIES = set rest - set FAMILIES"
      unfolding eq list.set using True by blast+
    show ?thesis unfolding sets by (rule ih)
  next
    case False
    then have purpose: "is_purpose word" using Cons.prems(1) by (simp split: if_splits)
    let ?p = "if word \<in> set purposes then purposes else purposes @ [word]"
    have "scope_words rest families ?p = Inr (fs, ps)" using Cons.prems(1) False purpose by (simp only: scope_words.simps if_True if_False)
    moreover have "distinct ?p" "\<forall>w \<in> set ?p. w \<notin> set FAMILIES \<and> is_purpose w" and eq: "set ?p = insert word (set purposes)"
      using Cons.prems(4,5) False purpose by (simp_all add: insert_absorb)
    ultimately have ih: "distinct fs \<and> set fs = set families \<union> (set rest \<inter> set FAMILIES) \<and> distinct ps \<and>
        set ps = set ?p \<union> (set rest - set FAMILIES) \<and> (\<forall>w \<in> set ps. w \<notin> set FAMILIES \<and> is_purpose w)"
      by (intro Cons.IH [OF _ Cons.prems(2,3)])
    have sets: "set purposes \<union> (set (word # rest) - set FAMILIES) = set ?p \<union> (set rest - set FAMILIES)"
      "set (word # rest) \<inter> set FAMILIES = set rest \<inter> set FAMILIES"
      unfolding eq list.set using False by blast+
    show ?thesis unfolding sets by (rule ih)
  qed
qed

lemma scope_words_Inl: "(\<exists>e. scope_words words families purposes = Inl e) \<longleftrightarrow> (\<exists>w \<in> set words. w \<notin> set FAMILIES \<and> \<not> is_purpose w)"
  by (induction words arbitrary: families purposes) (simp_all split: if_split)

lemma scope_words_append:
  assumes "set fs \<subseteq> set FAMILIES" "distinct (families @ fs)" "\<forall>w \<in> set ps. w \<notin> set FAMILIES \<and> is_purpose w" "distinct (purposes @ ps)"
  shows "scope_words (fs @ ps) families purposes = Inr (families @ fs, purposes @ ps)"
  using assms
proof (induction fs arbitrary: families)
  case Nil
  then show ?case
  proof (induction ps arbitrary: purposes)
    case (Cons w ps)
    then show ?case using Cons.IH [of "purposes @ [w]"] by auto
  qed simp
next
  case (Cons f fs)
  then show ?case using Cons.IH [of "families @ [f]"] by auto
qed

lemma families_words: "\<forall>w \<in> set FAMILIES. is_word w"
  by (simp add: FAMILIES_def is_word_def is_ws_def)

lemma family_rank_inj: "inj_on family_rank (set FAMILIES)"
  by (simp add: FAMILIES_def inj_on_def family_rank_def)

lemma families_sorted: "sorted (map family_rank FAMILIES)" "distinct FAMILIES"
  by (simp_all add: FAMILIES_def family_rank_def)

lemma sort_families:
  assumes "distinct fs" "set fs \<subseteq> set FAMILIES"
  shows "sort_key family_rank fs = filter (\<lambda>f. f \<in> set fs) FAMILIES"
proof -
  let ?gs = "filter (\<lambda>f. f \<in> set fs) FAMILIES"
  have inj: "inj_on family_rank (set fs)" by (rule inj_on_subset [OF family_rank_inj assms(2)])
  have "sorted (map family_rank ?gs)" using families_sorted(1) by (rule sorted_filter)
  moreover have "set ?gs = set fs" "distinct ?gs" using assms(2) families_sorted(2) by auto
  ultimately show ?thesis using assms(1) inj
    by (intro map_sorted_distinct_set_unique [of family_rank]) (simp_all add: distinct_map inj_on_subset)
qed

lemma join_ends:
  assumes "\<forall>w \<in> set ws. is_word w" "ws \<noteq> []"
  shows "join '' '' ws \<noteq> [] \<and> \<not> is_ws (hd (join '' '' ws)) \<and> \<not> is_ws (last (join '' '' ws))"
  using assms
proof (induction ws rule: induct_list012)
  case (2 w)
  then show ?case by (simp add: is_word_def)
next
  case (3 w v ws)
  then show ?case by (auto simp: is_word_def hd_append last_append)
qed simp

lemma trim_ends: "s = [] \<or> \<not> is_ws (hd s) \<and> \<not> is_ws (last s) \<Longrightarrow> trim s = s"
proof -
  assume "s = [] \<or> \<not> is_ws (hd s) \<and> \<not> is_ws (last s)"
  then have "dropWhile is_ws s = s" "dropWhile is_ws (rev s) = rev s"
    by (auto simp: dropWhile_eq_self_iff hd_rev)
  then show ?thesis by (simp add: trim_def)
qed

lemma trim_join: "\<forall>w \<in> set ws. is_word w \<Longrightarrow> trim (join '' '' ws) = join '' '' ws"
  using join_ends [of ws] by (cases "ws = []") (simp_all add: trim_ends)

text \<open>The words a request names: those of its scope, or the default.\<close>

definition asked_words :: "string option \<Rightarrow> string list" where
  "asked_words requested =
     (case requested of None \<Rightarrow> [DEFAULT_SCOPE] | Some s \<Rightarrow> if trim s = [] then [DEFAULT_SCOPE] else split_whitespace (trim s))"

lemma asked_are_words: "\<forall>w \<in> set (asked_words requested). is_word w" "asked_words requested \<noteq> []"
proof -
  have default: "is_word DEFAULT_SCOPE" by (simp add: DEFAULT_SCOPE_def is_word_def is_ws_def)
  show "\<forall>w \<in> set (asked_words requested). is_word w"
    by (auto simp: asked_words_def default split_words split: option.splits)
  have "split_whitespace (trim s) \<noteq> []" if some: "trim s \<noteq> []" for s
  proof -
    have "dropWhile is_ws (trim s) \<noteq> []"
    proof
      assume "dropWhile is_ws (trim s) = []"
      then have all: "\<forall>ch \<in> set (trim s). is_ws ch" by simp
      have "\<not> is_ws (last (trim s))"
        using some hd_dropWhile [of is_ws "rev (dropWhile is_ws s)"] by (simp add: trim_def last_rev)
      then show False using all some by simp
    qed
    then show ?thesis by (simp add: split_whitespace.simps [of "trim s"] Let_def)
  qed
  then show "asked_words requested \<noteq> []" by (simp add: asked_words_def split: option.split)
qed

lemma asked_of_join: "\<forall>w \<in> set ws. is_word w \<Longrightarrow> ws \<noteq> [] \<Longrightarrow> asked_words (Some (join '' '' ws)) = ws"
  using join_ends [of ws] by (simp add: asked_words_def trim_join split_join)

lemma scope_families_asked: "scope_families requested = filter (\<lambda>f. f \<in> set (asked_words requested)) FAMILIES"
  by (simp add: scope_families_def asked_words_def Let_def split: option.split)

lemma normalize_scope_asked:
  "normalize_scope requested = and_then (scope_words (asked_words requested) [] []) (\<lambda>(families, purposes).
     Inr (join '' '' (sort_key family_rank families @ purposes)))"
proof -
  have "and_then (scope_words [DEFAULT_SCOPE] [] []) (\<lambda>(families, purposes).
     Inr (join '' '' (sort_key family_rank families @ purposes))) = Inr DEFAULT_SCOPE"
    by (simp add: DEFAULT_SCOPE_def FAMILIES_def)
  then show ?thesis by (simp add: normalize_scope_def asked_words_def Let_def split: option.split)
qed

lemma normalize_scope_Inl:
  "(\<exists>e. normalize_scope requested = Inl e) \<longleftrightarrow> (\<exists>w \<in> set (asked_words requested). w \<notin> set FAMILIES \<and> \<not> is_purpose w)"
  unfolding scope_words_Inl [symmetric, of "asked_words requested" "[]" "[]"] normalize_scope_asked
  by (cases "scope_words (asked_words requested) [] []") auto

lemma normalize_scope_Inr:
  assumes "normalize_scope requested = Inr scope"
  obtains ps where "scope = join '' '' (scope_families requested @ ps)" "distinct ps"
    "set ps = set (asked_words requested) - set FAMILIES" "\<forall>w \<in> set ps. w \<notin> set FAMILIES \<and> is_purpose w"
proof -
  obtain fs ps where words: "scope_words (asked_words requested) [] [] = Inr (fs, ps)"
    and scope: "scope = join '' '' (sort_key family_rank fs @ ps)"
    using assms unfolding normalize_scope_asked by (cases "scope_words (asked_words requested) [] []") auto
  have facts: "distinct fs \<and> set fs = set [] \<union> (set (asked_words requested) \<inter> set FAMILIES) \<and> distinct ps \<and>
    set ps = set [] \<union> (set (asked_words requested) - set FAMILIES) \<and> (\<forall>w \<in> set ps. w \<notin> set FAMILIES \<and> is_purpose w)"
    by (rule scope_words_Inr [OF words]) simp_all
  then have "sort_key family_rank fs = filter (\<lambda>f. f \<in> set fs) FAMILIES" by (intro sort_families) auto
  also have "\<dots> = scope_families requested" using facts by (auto simp: scope_families_asked intro: filter_cong)
  finally show ?thesis using that scope facts by simp
qed

section \<open>Lemmas on the limiter\<close>

text \<open>The limiter over a sequence of events, and the times at which it let one source through.\<close>

fun allow_all :: "limiter \<Rightarrow> (string \<times> nat) list \<Rightarrow> limiter" where
  "allow_all l [] = l"
| "allow_all l ((source, now) # evs) = allow_all (fst (allow source now l)) evs"

fun let_through :: "string \<Rightarrow> limiter \<Rightarrow> (string \<times> nat) list \<Rightarrow> nat list" where
  "let_through s l [] = []"
| "let_through s l ((source, now) # evs) =
     (if source = s \<and> snd (allow source now l) then [now] else []) @ let_through s (fst (allow source now l)) evs"

definition within_span :: "nat \<Rightarrow> nat \<Rightarrow> nat list \<Rightarrow> nat" where
  "within_span t w ts = length (filter (\<lambda>x. t \<le> x \<and> x < t + w) ts)"

text \<open>
  The times of one source fall into windows, newest first, each with its start and at most \<open>per\<close> events;
  a window starts when the one before is over.
\<close>

fun windowed :: "nat \<Rightarrow> nat \<Rightarrow> (nat \<times> nat list) list \<Rightarrow> bool" where
  "windowed per w [] = True"
| "windowed per w ((st, es) # bs) \<longleftrightarrow>
     st \<in> set es \<and> length es \<le> per \<and> (\<forall>e \<in> set es. st \<le> e \<and> e < st + w) \<and>
     (case bs of [] \<Rightarrow> True | (st', _) # _ \<Rightarrow> st' + w \<le> st) \<and> windowed per w bs"

definition events_of :: "(nat \<times> nat list) list \<Rightarrow> nat list" where
  "events_of bs = concat (map snd bs)"

lemma within_span_simps [simp]:
  "within_span t w [] = 0" "within_span t w (xs @ ys) = within_span t w xs + within_span t w ys"
  "within_span t w (rev xs) = within_span t w xs"
  by (simp_all add: within_span_def rev_filter [symmetric])

lemma within_span_none: "(\<forall>x \<in> set xs. x < t \<or> t + w \<le> x) \<Longrightarrow> within_span t w xs = 0"
  by (auto simp: within_span_def filter_empty_conv)

lemma within_span_some: "within_span t w xs \<le> length xs"
  by (simp add: within_span_def)

lemma within_span_less: "x \<in> set xs \<Longrightarrow> x < t \<Longrightarrow> within_span t w xs < length xs"
  unfolding within_span_def by (rule length_filter_less [of x]) auto

lemma older_events: "windowed per w ((st, es) # bs) \<Longrightarrow> \<forall>e \<in> set (events_of bs). e < st"
proof (induction bs arbitrary: st es)
  case (Cons b bs)
  obtain st' es' where b: "b = (st', es')" by (cases b)
  have "st' + w \<le> st" "windowed per w ((st', es') # bs)" using Cons.prems unfolding b by simp_all
  moreover have "\<forall>e \<in> set (events_of bs). e < st'" by (rule Cons.IH [OF calculation(2)])
  ultimately show ?case unfolding b by (fastforce simp: events_of_def)
qed (simp add: events_of_def)

lemma span_before:
  assumes "windowed per w ((st, es) # bs)" "st < t"
  shows "within_span t w (events_of ((st, es) # bs)) \<le> per - 1"
proof -
  have "within_span t w (events_of bs) = 0"
    using older_events [OF assms(1)] assms(2) by (intro within_span_none) fastforce
  moreover have "within_span t w es < length es" "length es \<le> per"
    using assms by (auto intro: within_span_less)
  ultimately show ?thesis by (simp add: events_of_def)
qed

lemma span_bound: "windowed per w bs \<Longrightarrow> within_span t w (events_of bs) \<le> 2 * per - 1"
proof (induction bs)
  case (Cons b bs)
  obtain st es where b: "b = (st, es)" by (cases b)
  have wb: "windowed per w ((st, es) # bs)" using Cons.prems unfolding b .
  then have es: "length es \<le> per" "st \<in> set es" "\<forall>e \<in> set es. st \<le> e \<and> e < st + w" and tail: "windowed per w bs" by simp_all
  have split: "within_span t w (events_of (b # bs)) = within_span t w es + within_span t w (events_of bs)"
    by (simp add: b events_of_def)
  consider "st < t" | "t \<le> st" "st < t + w" | "t + w \<le> st" by linarith
  then show ?case
  proof cases
    case 1
    show ?thesis using span_before [OF wb 1] unfolding b by simp
  next
    case 2
    have "within_span t w (events_of bs) \<le> per - 1"
    proof (cases bs)
      case (Cons b' bs')
      obtain st' es' where b': "b' = (st', es')" by (cases b')
      have "st' < t" using wb 2(2) by (simp add: Cons b')
      moreover have "windowed per w ((st', es') # bs')" using tail unfolding Cons b' .
      ultimately show ?thesis unfolding Cons b' by (intro span_before)
    qed (simp add: events_of_def)
    moreover have "0 < per" using es(1,2) by (cases es) auto
    ultimately show ?thesis using split es(1) within_span_some [of t w es] by simp
  next
    case 3
    then have "within_span t w es = 0" using es(3) by (intro within_span_none) fastforce
    then show ?thesis using split Cons.IH [OF tail] by simp
  qed
qed (simp add: events_of_def)

text \<open>What the limiter's table records of one source, with the last time it was asked.\<close>

definition tracks :: "string \<Rightarrow> nat \<Rightarrow> nat \<Rightarrow> limiter \<Rightarrow> nat \<Rightarrow> (nat \<times> nat list) list \<Rightarrow> bool" where
  "tracks s per w l now bs \<longleftrightarrow>
     lim_per l = per \<and> lim_window_secs l = w \<and> bt_ok (lim_windows l) \<and> windowed per w bs \<and>
     (case map_of (lim_windows l) s of
        None \<Rightarrow> bs = [] \<or> fst (hd bs) + w \<le> now
      | Some (st, count) \<Rightarrow> bs \<noteq> [] \<and> fst (hd bs) = st \<and> st \<le> now \<and> length (snd (hd bs)) = count)"

definition kept_windows :: "nat \<Rightarrow> limiter \<Rightarrow> (string, nat \<times> nat) btree" where
  "kept_windows now l =
     (if length (lim_windows l) \<ge> 4096
      then filter (\<lambda>(_, started, _). now - started < lim_window_secs l) (lim_windows l) else lim_windows l)"

lemma kept_ok: "bt_ok (lim_windows l) \<Longrightarrow> bt_ok (kept_windows now l)"
  by (simp add: kept_windows_def bt_ok_filter)

lemma tracks_kept:
  assumes "tracks s per w l t bs" "t \<le> now"
  shows "tracks s per w (l\<lparr>lim_windows := kept_windows now l\<rparr>) now bs"
proof -
  let ?w = "lim_windows l"
  have ok: "bt_ok ?w" using assms(1) by (simp add: tracks_def)
  show ?thesis
  proof (cases "map_of (kept_windows now l) s")
    case None
    then have "bs = [] \<or> fst (hd bs) + w \<le> now"
    proof (cases "map_of ?w s")
      case (Some v)
      obtain st count where v: "v = (st, count)" by (cases v)
      have st: "bs \<noteq> []" "fst (hd bs) = st" "st \<le> t" using assms(1) Some v by (simp_all add: tracks_def)
      have "(s, st, count) \<in> set ?w" using Some v bt_ok_map_of [OF ok] by simp
      moreover have "(s, st, count) \<notin> set (kept_windows now l)"
        using None bt_ok_map_of [OF kept_ok [OF ok], of now s "(st, count)"] by simp
      ultimately have "\<not> now - st < lim_window_secs l" by (auto simp: kept_windows_def split: if_splits)
      then show ?thesis using st assms by (simp add: tracks_def)
    qed (use assms in \<open>auto simp: tracks_def\<close>)
    then show ?thesis using assms None kept_ok [OF ok] by (simp add: tracks_def)
  next
    case (Some v)
    then have "(s, v) \<in> set ?w"
      using bt_ok_map_of [OF kept_ok [OF ok], of now s v] by (auto simp: kept_windows_def split: if_splits)
    then have "map_of ?w s = Some v" using bt_ok_map_of [OF ok] by simp
    then show ?thesis using assms Some kept_ok [OF ok] by (cases v) (simp add: tracks_def)
  qed
qed

text \<open>The entry an event at \<open>now\<close> finds, once an old window is replaced.\<close>

definition current_window :: "string \<Rightarrow> nat \<Rightarrow> limiter \<Rightarrow> nat \<times> nat" where
  "current_window s now l =
     (case map_of (kept_windows now l) s of
        Some (st, count) \<Rightarrow> if now - st \<ge> lim_window_secs l then (now, 0) else (st, count)
      | None \<Rightarrow> (now, 0))"

lemma allow_current:
  "allow s now l =
     (case current_window s now l of (st, count) \<Rightarrow>
        if count \<ge> lim_per l then (l\<lparr>lim_windows := bt_insert s (st, count) (kept_windows now l)\<rparr>, False)
        else (l\<lparr>lim_windows := bt_insert s (st, count + 1) (kept_windows now l)\<rparr>, True))"
  by (simp add: allow_def current_window_def kept_windows_def Let_def split: option.split prod.split)

lemma current_window_cases:
  assumes "tracks s per w l t bs" "t \<le> now"
  shows "current_window s now l = (now, 0) \<and> (bs = [] \<or> fst (hd bs) + w \<le> now) \<or>
    (\<exists>st es bs'. bs = (st, es) # bs' \<and> current_window s now l = (st, length es) \<and> st \<le> now \<and> now < st + w)"
proof -
  have k: "tracks s per w (l\<lparr>lim_windows := kept_windows now l\<rparr>) now bs" by (rule tracks_kept [OF assms])
  have w: "lim_window_secs l = w" using assms(1) by (simp add: tracks_def)
  show ?thesis
  proof (cases "map_of (kept_windows now l) s")
    case None
    then show ?thesis using k by (simp add: tracks_def current_window_def)
  next
    case (Some v)
    obtain st count where v: "v = (st, count)" by (cases v)
    obtain es bs' where bs: "bs = (st, es) # bs'" "st \<le> now" "length es = count"
      using k Some v by (cases bs) (auto simp: tracks_def)
    show ?thesis
    proof (cases "now - st \<ge> w")
      case True
      then show ?thesis using Some v bs w by (intro disjI1) (auto simp: current_window_def)
    next
      case False
      then show ?thesis using Some v bs w by (intro disjI2) (auto simp: current_window_def)
    qed
  qed
qed

lemma tracks_other:
  assumes "tracks s per w l t bs" "t \<le> now" "source \<noteq> s"
  shows "tracks s per w (fst (allow source now l)) now bs"
  using tracks_kept [OF assms(1,2)] assms(3)
  by (auto simp: allow_current tracks_def map_of_bt_insert bt_ok_insert split: prod.split)

lemma tracks_allowed:
  assumes "tracks s per w l t bs" "t \<le> now" "snd (allow s now l)" "0 < w"
  shows "\<exists>bs'. tracks s per w (fst (allow s now l)) now bs' \<and> events_of bs' = now # events_of bs"
proof -
  have k: "tracks s per w (l\<lparr>lim_windows := kept_windows now l\<rparr>) now bs" by (rule tracks_kept [OF assms(1,2)])
  obtain st count where cur: "current_window s now l = (st, count)" by (cases "current_window s now l")
  have count: "count < per" using assms(1,3) by (auto simp: allow_current cur tracks_def split: if_splits)
  have l': "fst (allow s now l) = l\<lparr>lim_windows := bt_insert s (st, count + 1) (kept_windows now l)\<rparr>"
    using assms(1) count by (simp add: allow_current cur tracks_def)
  consider "st = now" "count = 0" "bs = [] \<or> fst (hd bs) + w \<le> now"
    | es bs' where "bs = (st, es) # bs'" "count = length es" "st \<le> now" "now < st + w"
    using current_window_cases [OF assms(1,2)] cur by auto
  then show ?thesis
  proof cases
    case 1
    then have "windowed per w ((now, [now]) # bs)"
      using k count assms(4) by (cases bs) (auto simp: tracks_def)
    then have "tracks s per w (fst (allow s now l)) now ((now, [now]) # bs)"
      using k 1 unfolding l' by (simp add: tracks_def map_of_bt_insert bt_ok_insert)
    then show ?thesis by (intro exI [of _ "(now, [now]) # bs"]) (simp add: events_of_def)
  next
    case 2
    then have "windowed per w ((st, now # es) # bs')" using k count by (simp add: tracks_def)
    then have "tracks s per w (fst (allow s now l)) now ((st, now # es) # bs')"
      using k 2 unfolding l' by (simp add: tracks_def map_of_bt_insert bt_ok_insert)
    then show ?thesis using 2 by (intro exI [of _ "(st, now # es) # bs'"]) (simp add: events_of_def)
  qed
qed

lemma tracks_refused:
  assumes "tracks s per w l t bs" "t \<le> now" "\<not> snd (allow s now l)" "0 < per"
  shows "tracks s per w (fst (allow s now l)) now bs" "per \<le> length (filter (\<lambda>x. now < x + w) (events_of bs))"
proof -
  have k: "tracks s per w (l\<lparr>lim_windows := kept_windows now l\<rparr>) now bs" by (rule tracks_kept [OF assms(1,2)])
  obtain st count where cur: "current_window s now l = (st, count)" by (cases "current_window s now l")
  have count: "per \<le> count" using assms(1,3) by (auto simp: allow_current cur tracks_def split: if_splits)
  have l': "fst (allow s now l) = l\<lparr>lim_windows := bt_insert s (st, count) (kept_windows now l)\<rparr>"
    using assms(1) count by (simp add: allow_current cur tracks_def)
  obtain es bs' where bs: "bs = (st, es) # bs'" "count = length es" "st \<le> now" "now < st + w"
    using current_window_cases [OF assms(1,2)] cur count assms(4) by auto
  show "tracks s per w (fst (allow s now l)) now bs"
    using k bs unfolding l' by (simp add: tracks_def map_of_bt_insert bt_ok_insert)
  have "\<forall>e \<in> set es. st \<le> e" using k bs(1) by (simp add: tracks_def)
  then have "filter (\<lambda>x. now < x + w) es = es" using bs(4) by (intro filter_True) fastforce
  then show "per \<le> length (filter (\<lambda>x. now < x + w) (events_of bs))" using count bs by (simp add: events_of_def)
qed

lemma tracks_run:
  assumes "tracks s per w l t bs" "sorted (t # map snd evs)" "0 < per" "0 < w"
  shows "\<exists>bs'. tracks s per w (allow_all l evs) (last (t # map snd evs)) bs' \<and>
    events_of bs' = rev (let_through s l evs) @ events_of bs"
  using assms(1,2)
proof (induction evs arbitrary: l t bs)
  case (Cons ev evs)
  obtain source now where ev: "ev = (source, now)" by (cases ev)
  have le: "t \<le> now" and sorted: "sorted (now # map snd evs)" using Cons.prems(2) unfolding ev by auto
  obtain bs1 where bs1: "tracks s per w (fst (allow source now l)) now bs1"
    "events_of bs1 = (if source = s \<and> snd (allow source now l) then [now] else []) @ events_of bs"
  proof (cases "source = s")
    case True
    show ?thesis
    proof (cases "snd (allow s now l)")
      case allowed: True
      show ?thesis using tracks_allowed [OF Cons.prems(1) le allowed assms(4)] that True allowed by auto
    next
      case False
      show ?thesis using tracks_refused(1) [OF Cons.prems(1) le False assms(3)] that True False by simp
    qed
  next
    case False
    show ?thesis using tracks_other [OF Cons.prems(1) le False] that False by simp
  qed
  obtain bs2 where bs2: "tracks s per w (allow_all (fst (allow source now l)) evs) (last (now # map snd evs)) bs2"
    "events_of bs2 = rev (let_through s (fst (allow source now l)) evs) @ events_of bs1"
    using Cons.IH [OF bs1(1) sorted] by auto
  have "events_of bs2 = rev (let_through s l (ev # evs)) @ events_of bs" by (simp add: bs2(2) bs1(2) ev)
  moreover have "tracks s per w (allow_all l (ev # evs)) (last (t # map snd (ev # evs))) bs2" using bs2(1) by (simp add: ev)
  ultimately show ?case by blast
qed auto

lemma tracks_new: "tracks s per w (Limiter_new per w) 0 []"
  by (simp add: tracks_def Limiter_new_def)

lemma let_through_append: "let_through s l (xs @ ys) = let_through s l xs @ let_through s (allow_all l xs) ys"
  by (induction s l xs rule: let_through.induct) simp_all

lemma allow_all_append: "allow_all l (xs @ ys) = allow_all (allow_all l xs) ys"
  by (induction l xs rule: allow_all.induct) simp_all

text \<open>Events of one source within its window, while the limit is not reached.\<close>

lemma burst:
  assumes "now - st < w" "count + n \<le> per"
  shows "let_through s \<lparr>lim_per = per, lim_window_secs = w, lim_windows = [(s, st, count)]\<rparr> (replicate n (s, now)) = replicate n now \<and>
    allow_all \<lparr>lim_per = per, lim_window_secs = w, lim_windows = [(s, st, count)]\<rparr> (replicate n (s, now)) =
      \<lparr>lim_per = per, lim_window_secs = w, lim_windows = [(s, st, count + n)]\<rparr>"
  using assms by (induction n arbitrary: count) (simp_all add: allow_def)

text \<open>One event opens a window, the rest come at its end, and the next window is filled at once.\<close>

definition burst_events :: "string \<Rightarrow> nat \<Rightarrow> nat \<Rightarrow> (string \<times> nat) list" where
  "burst_events s per w = (s, 0) # replicate (per - 1) (s, w - 1) @ (s, w) # replicate (per - 1) (s, w)"

lemma burst_let_through:
  assumes "0 < per" "0 < w"
  shows "let_through s (Limiter_new per w) (burst_events s per w) = 0 # replicate (per - 1) (w - 1) @ replicate per w"
proof -
  let ?l = "\<lambda>st count. \<lparr>lim_per = per, lim_window_secs = w, lim_windows = [(s, st, count)]\<rparr>"
  have first: "allow s 0 (Limiter_new per w) = (?l 0 1, True)"
    using assms by (simp add: allow_def Limiter_new_def)
  have second: "allow s w (?l 0 per) = (?l w 1, True)" using assms by (simp add: allow_def)
  have "let_through s (?l 0 1) (replicate (per - 1) (s, w - 1)) = replicate (per - 1) (w - 1) \<and>
      allow_all (?l 0 1) (replicate (per - 1) (s, w - 1)) = ?l 0 (1 + (per - 1))"
    using assms by (intro burst) simp_all
  moreover have "let_through s (?l w 1) (replicate (per - 1) (s, w)) = replicate (per - 1) w"
    using assms burst [of w w w 1 "per - 1" per s] by simp
  moreover have "replicate per w = w # replicate (per - 1) w" using assms(1) by (cases per) simp_all
  ultimately show ?thesis
    using assms(1) by (simp add: burst_events_def let_through_append first second)
qed

section \<open>Properties\<close>

text \<open>
  C33: A requested scope is refused exactly when one of its words is neither a path family nor a purpose. The
  scope stored otherwise has exactly the requested words, each once, opens exactly the families requested,
  is its own normal form, and gives a token without expiry exactly when no family was requested. A request
  without a scope asks for the default.
\<close>

theorem scope_normalisation_exact:
  "case normalize_scope requested of
     Inl e \<Rightarrow> \<exists>w \<in> set (asked_words requested). w \<notin> set FAMILIES \<and> \<not> is_purpose w
   | Inr scope \<Rightarrow>
       (\<forall>w \<in> set (asked_words requested). w \<in> set FAMILIES \<or> is_purpose w) \<and>
       set (split_whitespace scope) = set (asked_words requested) \<and> distinct (split_whitespace scope) \<and>
       scope_families (Some scope) = scope_families requested \<and>
       normalize_scope (Some scope) = Inr scope \<and>
       expires_at_for scope now = (if scope_families requested = [] then NO_EXPIRY else now + TOKEN_TTL_SECS)"
proof (cases "normalize_scope requested")
  case (Inl e)
  then show ?thesis using normalize_scope_Inl [of requested] by auto
next
  case (Inr scope)
  obtain ps where scope: "scope = join '' '' (scope_families requested @ ps)" and ps: "distinct ps"
    "set ps = set (asked_words requested) - set FAMILIES" "\<forall>w \<in> set ps. w \<notin> set FAMILIES \<and> is_purpose w"
    by (rule normalize_scope_Inr [OF Inr])
  let ?fs = "scope_families requested"
  have fs: "set ?fs = set (asked_words requested) \<inter> set FAMILIES" "distinct ?fs"
    using families_sorted(2) by (auto simp: scope_families_asked)
  then have words: "set (?fs @ ps) = set (asked_words requested)" using ps(2) by auto
  then have ok: "\<forall>w \<in> set (?fs @ ps). is_word w" "?fs @ ps \<noteq> []"
    using asked_are_words [of requested] by (simp, metis set_empty)
  have split: "split_whitespace scope = ?fs @ ps" unfolding scope by (rule split_join [OF ok(1)])
  have asked: "asked_words (Some scope) = ?fs @ ps" unfolding scope by (rule asked_of_join [OF ok])
  have "\<forall>w \<in> set (asked_words requested). w \<in> set FAMILIES \<or> is_purpose w"
    using normalize_scope_Inl [of requested] Inr by auto
  moreover have "distinct (?fs @ ps)" using fs ps by auto
  moreover have again: "scope_families (Some scope) = ?fs"
    unfolding scope_families_asked [of "Some scope"] asked words by (simp add: scope_families_asked)
  moreover have "normalize_scope (Some scope) = Inr scope"
  proof -
    have "scope_words (?fs @ ps) [] [] = Inr ([] @ ?fs, [] @ ps)"
      using fs ps by (intro scope_words_append) auto
    moreover have "sort_key family_rank ?fs = filter (\<lambda>f. f \<in> set ?fs) FAMILIES" using fs by (intro sort_families) auto
    moreover have "\<dots> = ?fs" unfolding fs(1) by (auto simp: scope_families_asked intro: filter_cong)
    ultimately show ?thesis unfolding normalize_scope_asked asked by (simp add: scope [symmetric])
  qed
  moreover have "scope_is_purpose_only scope \<longleftrightarrow> ?fs = []"
    using ok(2) ps(3) fs(1) unfolding scope_is_purpose_only_def Let_def split by (cases ?fs) auto
  ultimately show ?thesis using Inr words by (simp add: split expires_at_for_def)
qed

theorem scope_normalisation_exact_witness:
  "normalize_scope (Some '' mail threads  mail '') = Inr ''threads mail'' \<and>
   list_all (\<lambda>w. w \<in> set FAMILIES \<or> is_purpose w) (asked_words (Some '' mail threads  mail '')) \<and>
   scope_families (Some ''threads mail'') = [''threads'', ''mail''] \<and>
   normalize_scope (Some ''threads mail'') = Inr ''threads mail'' \<and>
   expires_at_for ''threads mail'' 5 = 5 + TOKEN_TTL_SECS"
proof -
  have n: "normalize_scope (Some '' mail threads  mail '') = Inr ''threads mail''" by code_simp
  have f: "scope_families (Some '' mail threads  mail '') = [''threads'', ''mail'']" by code_simp
  show ?thesis using scope_normalisation_exact [of "Some '' mail threads  mail ''" 5] unfolding n f by (simp add: list_all_iff)
qed

text \<open>
  C30: Whatever the sequence of events, with times that do not go back, a limiter of \<open>per\<close> events in a window of
  \<open>w\<close> seconds lets through at most \<open>2 * per - 1\<close> events of one source in any span of \<open>w\<close> seconds, and some
  sequence reaches that number; an event is refused only if \<open>per\<close> events of its source were let through in
  the last \<open>w\<close> seconds.
\<close>

theorem limiter_window:
  assumes "0 < per" "1 < w"
  shows "(\<forall>evs t. sorted (map snd evs) \<longrightarrow> within_span t w (let_through s (Limiter_new per w) evs) \<le> 2 * per - 1) \<and>
    (\<exists>evs t. sorted (map snd evs) \<and> within_span t w (let_through s (Limiter_new per w) evs) = 2 * per - 1) \<and>
    (\<forall>evs now. sorted (map snd (evs @ [(s, now)])) \<longrightarrow> \<not> snd (allow s now (allow_all (Limiter_new per w) evs)) \<longrightarrow>
       per \<le> length (filter (\<lambda>x. now < x + w) (let_through s (Limiter_new per w) evs)))"
proof (intro conjI allI impI)
  fix evs :: "(string \<times> nat) list" and t
  assume "sorted (map snd evs)"
  then obtain bs where "tracks s per w (allow_all (Limiter_new per w) evs) (last (0 # map snd evs)) bs"
    "events_of bs = rev (let_through s (Limiter_new per w) evs) @ events_of []"
    using tracks_run [OF tracks_new, of evs per w s] assms by auto
  then show "within_span t w (let_through s (Limiter_new per w) evs) \<le> 2 * per - 1"
    using span_bound [of per w bs t] by (simp add: tracks_def events_of_def)
next
  have "within_span 1 w (0 # replicate (per - 1) (w - 1) @ replicate per w) = 2 * per - 1"
    using assms by (auto simp: within_span_def filter_replicate)
  moreover have "sorted (map snd (burst_events s per w))" using assms by (auto simp: burst_events_def sorted_append)
  ultimately show "\<exists>evs t. sorted (map snd evs) \<and> within_span t w (let_through s (Limiter_new per w) evs) = 2 * per - 1"
    using burst_let_through [of per w s] assms by (intro exI [of _ "burst_events s per w"] exI [of _ 1]) simp
next
  fix evs :: "(string \<times> nat) list" and now
  assume sorted: "sorted (map snd (evs @ [(s, now)]))" and refused: "\<not> snd (allow s now (allow_all (Limiter_new per w) evs))"
  obtain bs where bs: "tracks s per w (allow_all (Limiter_new per w) evs) (last (0 # map snd evs)) bs"
    "events_of bs = rev (let_through s (Limiter_new per w) evs) @ events_of []"
    using tracks_run [OF tracks_new, of evs per w s] sorted assms by (auto simp: sorted_append)
  have "last (0 # map snd evs) \<le> now" using sorted by (auto simp: sorted_append last_map)
  then have "per \<le> length (filter (\<lambda>x. now < x + w) (events_of bs))"
    using tracks_refused(2) [OF bs(1) _ refused assms(1)] by simp
  then show "per \<le> length (filter (\<lambda>x. now < x + w) (let_through s (Limiter_new per w) evs))"
    unfolding bs(2) by (simp add: events_of_def rev_filter [symmetric])
qed

theorem limiter_window_witness:
  "\<exists>evs t. sorted (map snd evs) \<and>
     within_span t 600 (let_through ''10.0.0.1'' (Limiter_new (fst REGISTER_LIMIT) 600) evs) = 19"
  using limiter_window [of 10 600 "''10.0.0.1''"] by (simp add: REGISTER_LIMIT_def)

end
