(* ===== verification/OAuthStore.thy ===== *)
theory OAuthStore
  imports OAuth
begin

text \<open>
  The two seams of the authorization server (\<open>src/oauth/store.rs\<close>): the traits \<open>Store\<close> and \<open>Consent\<close> as
  records of their methods over an explicit state, the in-memory store, and the consent that always answers
  the same. The contract of a store is a locale over the three maps it keeps, interpreted on the in-memory
  store. A hash map is a \<open>btree\<close>: where the code takes the first match in the map's own order, the model
  takes the first in key order, and the contract only says that the one taken is a match.
\<close>

section \<open>The traits\<close>

record 's oauth_store =
  so_put_client :: "oauth_client \<Rightarrow> 's \<Rightarrow> 's \<times> (oauth_error + unit)"
  so_client :: "string \<Rightarrow> 's \<Rightarrow> 's \<times> (oauth_error + oauth_client option)"
  so_put_ask :: "oauth_ask \<Rightarrow> 's \<Rightarrow> 's \<times> (oauth_error + unit)"
  so_ask :: "string \<Rightarrow> 's \<Rightarrow> 's \<times> (oauth_error + oauth_ask option)"
  so_mint_code :: "string \<Rightarrow> string \<Rightarrow> nat \<Rightarrow> 's \<Rightarrow> 's \<times> (oauth_error + oauth_ask option)"
  so_redeem_code :: "string \<Rightarrow> 's \<Rightarrow> 's \<times> (oauth_error + oauth_ask option)"
  so_put_token :: "oauth_token \<Rightarrow> 's \<Rightarrow> 's \<times> (oauth_error + unit)"
  so_revoke_token :: "string \<Rightarrow> nat \<Rightarrow> 's \<Rightarrow> 's \<times> (oauth_error + bool)"
  so_touch_token :: "string \<Rightarrow> nat \<Rightarrow> 's \<Rightarrow> 's \<times> (oauth_error + unit)"
  so_token :: "string \<Rightarrow> 's \<Rightarrow> 's \<times> (oauth_error + oauth_token option)"
  so_token_by_hash :: "string \<Rightarrow> 's \<Rightarrow> 's \<times> (oauth_error + oauth_token option)"
  so_live_tokens :: "nat \<Rightarrow> 's \<Rightarrow> 's \<times> (oauth_error + oauth_token list)"

record 'c consent =
  cn_ask :: "oauth_ask \<Rightarrow> 'c \<Rightarrow> 'c \<times> (oauth_error + unit)"
  cn_answer :: "oauth_ask \<Rightarrow> 'c \<Rightarrow> 'c \<times> (oauth_error + answer)"

section \<open>The in-memory store\<close>

record memory_store =
  ms_clients :: "(string, oauth_client) btree"
  ms_asks :: "(string, oauth_ask) btree"
  ms_tokens :: "(string, oauth_token) btree"

definition MemoryStore_new :: memory_store where
  "MemoryStore_new = \<lparr>ms_clients = [], ms_asks = [], ms_tokens = []\<rparr>"

definition ms_put_client :: "oauth_client \<Rightarrow> memory_store \<Rightarrow> memory_store \<times> (oauth_error + unit)" where
  "ms_put_client client s = (s\<lparr>ms_clients := bt_insert (cl_id client) client (ms_clients s)\<rparr>, Inr ())"

definition ms_client :: "string \<Rightarrow> memory_store \<Rightarrow> memory_store \<times> (oauth_error + oauth_client option)" where
  "ms_client i s = (s, Inr (map_of (ms_clients s) i))"

definition ms_put_ask :: "oauth_ask \<Rightarrow> memory_store \<Rightarrow> memory_store \<times> (oauth_error + unit)" where
  "ms_put_ask ask s = (s\<lparr>ms_asks := bt_insert (ak_id ask) ask (ms_asks s)\<rparr>, Inr ())"

definition ms_ask :: "string \<Rightarrow> memory_store \<Rightarrow> memory_store \<times> (oauth_error + oauth_ask option)" where
  "ms_ask i s = (s, Inr (map_of (ms_asks s) i))"

definition ms_mint_code :: "string \<Rightarrow> string \<Rightarrow> nat \<Rightarrow> memory_store \<Rightarrow> memory_store \<times> (oauth_error + oauth_ask option)" where
  "ms_mint_code i code now s =
     (case map_of (ms_asks s) i of
        None \<Rightarrow> (s, Inr None)
      | Some ask \<Rightarrow>
          let ask = (if ak_code ask = None then ask\<lparr>ak_code := Some code, ak_code_issued_at := Some now\<rparr> else ask) in
          (s\<lparr>ms_asks := bt_insert i ask (ms_asks s)\<rparr>, Inr (Some ask)))"

definition ms_redeem_code :: "string \<Rightarrow> memory_store \<Rightarrow> memory_store \<times> (oauth_error + oauth_ask option)" where
  "ms_redeem_code code s =
     (case List.find (\<lambda>(_, ask). \<not> ak_code_used ask \<and> ak_code ask = Some code) (ms_asks s) of
        None \<Rightarrow> (s, Inr None)
      | Some (i, ask) \<Rightarrow>
          let ask = ask\<lparr>ak_code_used := True\<rparr> in
          (s\<lparr>ms_asks := bt_insert i ask (ms_asks s)\<rparr>, Inr (Some ask)))"

definition ms_put_token :: "oauth_token \<Rightarrow> memory_store \<Rightarrow> memory_store \<times> (oauth_error + unit)" where
  "ms_put_token token s =
     (if map_of (ms_tokens s) (tk_id token) \<noteq> None
      then (s, Inl (OStore (''token '' @ tk_id token @ '' is already held'')))
      else (s\<lparr>ms_tokens := bt_insert (tk_id token) token (ms_tokens s)\<rparr>, Inr ()))"

definition ms_revoke_token :: "string \<Rightarrow> nat \<Rightarrow> memory_store \<Rightarrow> memory_store \<times> (oauth_error + bool)" where
  "ms_revoke_token i now s =
     (case map_of (ms_tokens s) i of
        None \<Rightarrow> (s, Inr False)
      | Some held \<Rightarrow>
          let held = (if tk_revoked_at held = None then held\<lparr>tk_revoked_at := Some now\<rparr> else held) in
          (s\<lparr>ms_tokens := bt_insert i held (ms_tokens s)\<rparr>, Inr True))"

definition ms_touch_token :: "string \<Rightarrow> nat \<Rightarrow> memory_store \<Rightarrow> memory_store \<times> (oauth_error + unit)" where
  "ms_touch_token i used_at s =
     (case map_of (ms_tokens s) i of
        None \<Rightarrow> (s, Inr ())
      | Some held \<Rightarrow>
          (if is_live held then s\<lparr>ms_tokens := bt_insert i (held\<lparr>tk_last_used_at := Some used_at\<rparr>) (ms_tokens s)\<rparr> else s,
           Inr ()))"

definition ms_token :: "string \<Rightarrow> memory_store \<Rightarrow> memory_store \<times> (oauth_error + oauth_token option)" where
  "ms_token i s = (s, Inr (map_of (ms_tokens s) i))"

definition ms_token_by_hash :: "string \<Rightarrow> memory_store \<Rightarrow> memory_store \<times> (oauth_error + oauth_token option)" where
  "ms_token_by_hash h s = (s, Inr (List.find (\<lambda>token. tk_hash token = h) (bt_values (ms_tokens s))))"

text \<open>The sort by issue time, then id: two stable sorts, the last one on the first key.\<close>

definition ms_live_tokens :: "nat \<Rightarrow> memory_store \<Rightarrow> memory_store \<times> (oauth_error + oauth_token list)" where
  "ms_live_tokens now s =
     (s, Inr (sort_key tk_issued_at (sort_key tk_id (filter (is_live_at now) (bt_values (ms_tokens s))))))"

definition memory_impl :: "memory_store oauth_store" where
  "memory_impl =
     \<lparr>so_put_client = ms_put_client, so_client = ms_client, so_put_ask = ms_put_ask, so_ask = ms_ask,
      so_mint_code = ms_mint_code, so_redeem_code = ms_redeem_code, so_put_token = ms_put_token,
      so_revoke_token = ms_revoke_token, so_touch_token = ms_touch_token, so_token = ms_token,
      so_token_by_hash = ms_token_by_hash, so_live_tokens = ms_live_tokens\<rparr>"

definition Always :: "answer consent" where
  "Always = \<lparr>cn_ask = (\<lambda>_ c. (c, Inr ())), cn_answer = (\<lambda>_ c. (c, Inr c))\<rparr>"

section \<open>The contract of a store\<close>

text \<open>
  The three maps a store keeps. An operation that fails leaves them as they are.
\<close>

locale oauth_store_contract =
  fixes S :: "'s oauth_store"
    and store_ok :: "'s \<Rightarrow> bool"
    and clients :: "'s \<Rightarrow> string \<Rightarrow> oauth_client option"
    and asks :: "'s \<Rightarrow> string \<Rightarrow> oauth_ask option"
    and tokens :: "'s \<Rightarrow> string \<Rightarrow> oauth_token option"
  assumes put_client: "store_ok s \<Longrightarrow> so_put_client S c s = (s', r) \<Longrightarrow>
      store_ok s' \<and> asks s' = asks s \<and> tokens s' = tokens s \<and>
      clients s' = (case r of Inl e \<Rightarrow> clients s | Inr _ \<Rightarrow> (clients s)(cl_id c \<mapsto> c))"
    and client: "store_ok s \<Longrightarrow> so_client S i s = (s', rc) \<Longrightarrow>
      store_ok s' \<and> clients s' = clients s \<and> asks s' = asks s \<and> tokens s' = tokens s \<and>
      (case rc of Inl e \<Rightarrow> True | Inr c \<Rightarrow> c = clients s i)"
    and put_ask: "store_ok s \<Longrightarrow> so_put_ask S a s = (s', r) \<Longrightarrow>
      store_ok s' \<and> clients s' = clients s \<and> tokens s' = tokens s \<and>
      asks s' = (case r of Inl e \<Rightarrow> asks s | Inr _ \<Rightarrow> (asks s)(ak_id a \<mapsto> a))"
    and ask: "store_ok s \<Longrightarrow> so_ask S i s = (s', ra) \<Longrightarrow>
      store_ok s' \<and> clients s' = clients s \<and> asks s' = asks s \<and> tokens s' = tokens s \<and>
      (case ra of Inl e \<Rightarrow> True | Inr a \<Rightarrow> a = asks s i)"
    and mint_code: "store_ok s \<Longrightarrow> so_mint_code S i code now s = (s', ra) \<Longrightarrow>
      store_ok s' \<and> clients s' = clients s \<and> tokens s' = tokens s \<and>
      (case ra of Inl e \<Rightarrow> asks s' = asks s
       | Inr None \<Rightarrow> asks s i = None \<and> asks s' = asks s
       | Inr (Some a) \<Rightarrow> (\<exists>held. asks s i = Some held \<and> asks s' = (asks s)(i \<mapsto> a) \<and>
           a = (if ak_code held = None then held\<lparr>ak_code := Some code, ak_code_issued_at := Some now\<rparr> else held)))"
    and redeem_code: "store_ok s \<Longrightarrow> so_redeem_code S code s = (s', ra) \<Longrightarrow>
      store_ok s' \<and> clients s' = clients s \<and> tokens s' = tokens s \<and>
      (case ra of Inl e \<Rightarrow> asks s' = asks s
       | Inr None \<Rightarrow> asks s' = asks s \<and> \<not> (\<exists>i held. asks s i = Some held \<and> \<not> ak_code_used held \<and> ak_code held = Some code)
       | Inr (Some a) \<Rightarrow> (\<exists>i held. asks s i = Some held \<and> \<not> ak_code_used held \<and> ak_code held = Some code \<and>
           a = held\<lparr>ak_code_used := True\<rparr> \<and> asks s' = (asks s)(i \<mapsto> a)))"
    and put_token: "store_ok s \<Longrightarrow> so_put_token S t s = (s', r) \<Longrightarrow>
      store_ok s' \<and> clients s' = clients s \<and> asks s' = asks s \<and>
      (case r of Inl e \<Rightarrow> tokens s' = tokens s
       | Inr _ \<Rightarrow> tokens s (tk_id t) = None \<and> tokens s' = (tokens s)(tk_id t \<mapsto> t))"
    and revoke_token: "store_ok s \<Longrightarrow> so_revoke_token S i now s = (s', rb) \<Longrightarrow>
      store_ok s' \<and> clients s' = clients s \<and> asks s' = asks s \<and>
      (case rb of Inl e \<Rightarrow> tokens s' = tokens s
       | Inr b \<Rightarrow> b = (tokens s i \<noteq> None) \<and>
           tokens s' = (case tokens s i of None \<Rightarrow> tokens s
             | Some t \<Rightarrow> (tokens s)(i \<mapsto> (if is_live t then t\<lparr>tk_revoked_at := Some now\<rparr> else t))))"
    and touch_token: "store_ok s \<Longrightarrow> so_touch_token S i now s = (s', r) \<Longrightarrow>
      store_ok s' \<and> clients s' = clients s \<and> asks s' = asks s \<and>
      (case r of Inl e \<Rightarrow> tokens s' = tokens s
       | Inr _ \<Rightarrow> tokens s' = (case tokens s i of None \<Rightarrow> tokens s
             | Some t \<Rightarrow> if is_live t then (tokens s)(i \<mapsto> t\<lparr>tk_last_used_at := Some now\<rparr>) else tokens s))"
    and token_by_hash: "store_ok s \<Longrightarrow> so_token_by_hash S h s = (s', rt) \<Longrightarrow>
      store_ok s' \<and> clients s' = clients s \<and> asks s' = asks s \<and> tokens s' = tokens s \<and>
      (case rt of Inl e \<Rightarrow> True | Inr None \<Rightarrow> \<not> (\<exists>i t. tokens s i = Some t \<and> tk_hash t = h)
       | Inr (Some t) \<Rightarrow> tk_hash t = h \<and> (\<exists>i. tokens s i = Some t))"
    and finite_asks: "store_ok s \<Longrightarrow> finite (dom (asks s))"
    and filed: "store_ok s \<Longrightarrow> clients s i = Some c \<Longrightarrow> cl_id c = i"
      "store_ok s \<Longrightarrow> asks s i = Some a \<Longrightarrow> ak_id a = i" "store_ok s \<Longrightarrow> tokens s i = Some t \<Longrightarrow> tk_id t = i"

section \<open>The in-memory store meets the contract\<close>

text \<open>Every value is filed under its own id.\<close>

definition filed_under :: "('v \<Rightarrow> 'k) \<Rightarrow> ('k, 'v) btree \<Rightarrow> bool" where
  "filed_under f t \<longleftrightarrow> (\<forall>(i, x) \<in> set t. f x = i)"

lemma filed_insert: "filed_under f t \<Longrightarrow> f y = k \<Longrightarrow> filed_under f (bt_insert k y t)"
  unfolding filed_under_def using set_bt_insert_sub [of k y t] by blast

lemma filed_map_of: "filed_under f t \<Longrightarrow> map_of t i = Some x \<Longrightarrow> f x = i"
  by (auto simp: filed_under_def dest!: map_of_SomeD)

definition memory_ok :: "memory_store \<Rightarrow> bool" where
  "memory_ok s \<longleftrightarrow> bt_ok (ms_clients s) \<and> bt_ok (ms_asks s) \<and> bt_ok (ms_tokens s) \<and>
     filed_under cl_id (ms_clients s) \<and> filed_under ak_id (ms_asks s) \<and> filed_under tk_id (ms_tokens s)"

lemma memory_filed:
  assumes "memory_ok s"
  shows "map_of (ms_clients s) i = Some c \<Longrightarrow> cl_id c = i" "map_of (ms_asks s) i = Some a \<Longrightarrow> ak_id a = i"
    "map_of (ms_tokens s) i = Some t \<Longrightarrow> tk_id t = i"
  using assms by (auto simp: memory_ok_def intro: filed_map_of)

lemmas memory_simps = map_of_bt_insert bt_ok_insert filed_insert

lemma find_value:
  assumes "bt_ok t"
  shows "List.find P (bt_values t) = Some x \<Longrightarrow> P x \<and> (\<exists>i. map_of t i = Some x)"
    "List.find P (bt_values t) = None \<Longrightarrow> \<not> (\<exists>i x. map_of t i = Some x \<and> P x)"
proof -
  assume "List.find P (bt_values t) = Some x"
  then have "P x" "x \<in> set (bt_values t)" by (auto simp: find_Some_iff)
  then show "P x \<and> (\<exists>i. map_of t i = Some x)" using bt_ok_map_of [OF assms] by fastforce
next
  assume "List.find P (bt_values t) = None"
  then show "\<not> (\<exists>i x. map_of t i = Some x \<and> P x)" by (force simp: find_None_iff dest: map_of_SomeD)
qed

lemma find_entry:
  assumes "bt_ok t"
  shows "List.find (\<lambda>(_, x). P x) t = Some (i, x) \<Longrightarrow> P x \<and> map_of t i = Some x"
    "List.find (\<lambda>(_, x). P x) t = None \<Longrightarrow> \<not> (\<exists>i x. map_of t i = Some x \<and> P x)"
proof -
  assume "List.find (\<lambda>(_, x). P x) t = Some (i, x)"
  then have "P x" "(i, x) \<in> set t" by (auto simp: find_Some_iff in_set_conv_nth)
  then show "P x \<and> map_of t i = Some x" using bt_ok_map_of [OF assms] by simp
next
  assume "List.find (\<lambda>(_, x). P x) t = None"
  then show "\<not> (\<exists>i x. map_of t i = Some x \<and> P x)" by (auto simp: find_None_iff dest!: map_of_SomeD)
qed

interpretation memory: oauth_store_contract memory_impl memory_ok "\<lambda>s. map_of (ms_clients s)" "\<lambda>s. map_of (ms_asks s)"
  "\<lambda>s. map_of (ms_tokens s)"
proof (unfold_locales, goal_cases)
  case (1 s c s' r)
  then show ?case by (auto simp: memory_impl_def ms_put_client_def memory_ok_def memory_simps)
next
  case (2 s i s' r)
  then show ?case by (auto simp: memory_impl_def ms_client_def)
next
  case (3 s a s' r)
  then show ?case by (auto simp: memory_impl_def ms_put_ask_def memory_ok_def memory_simps)
next
  case (4 s i s' r)
  then show ?case by (auto simp: memory_impl_def ms_ask_def)
next
  case (5 s i code now s' r)
  show ?case
  proof (cases "map_of (ms_asks s) i")
    case (Some held)
    then show ?thesis using 5 memory_filed(2) [OF 5(1) Some]
      by (auto simp: memory_impl_def ms_mint_code_def memory_ok_def memory_simps Let_def intro!: exI [of _ held])
  qed (use 5 in \<open>auto simp: memory_impl_def ms_mint_code_def\<close>)
next
  case (6 s code s' r)
  have ok: "bt_ok (ms_asks s)" using 6(1) by (simp add: memory_ok_def)
  let ?P = "\<lambda>ask. \<not> ak_code_used ask \<and> ak_code ask = Some code"
  show ?case
  proof (cases "List.find (\<lambda>(_, ask). ?P ask) (ms_asks s)")
    case None
    then show ?thesis using 6 find_entry(2) [OF ok, of ?P] by (auto simp: memory_impl_def ms_redeem_code_def)
  next
    case (Some e)
    obtain i held where e: "e = (i, held)" by (cases e)
    have held: "?P held" "map_of (ms_asks s) i = Some held" using find_entry(1) [OF ok, of ?P] Some e by auto
    let ?a = "held\<lparr>ak_code_used := True\<rparr>"
    have r: "s' = s\<lparr>ms_asks := bt_insert i ?a (ms_asks s)\<rparr>" "r = Inr (Some ?a)"
      using 6(2) Some e by (simp_all add: memory_impl_def ms_redeem_code_def Let_def)
    have "memory_ok s'" using 6(1) memory_filed(2) [OF 6(1) held(2)] by (auto simp: r memory_ok_def memory_simps)
    then show ?thesis using held ok by (auto simp: r memory_simps intro!: exI [of _ i])
  qed
next
  case (7 s t s' r)
  then show ?case by (auto simp: memory_impl_def ms_put_token_def memory_ok_def memory_simps split: if_splits)
next
  case (8 s i now s' r)
  show ?case
  proof (cases "map_of (ms_tokens s) i")
    case (Some held)
    then show ?thesis using 8 memory_filed(3) [OF 8(1) Some]
      by (auto simp: memory_impl_def ms_revoke_token_def is_live_def memory_ok_def memory_simps Let_def)
  qed (use 8 in \<open>auto simp: memory_impl_def ms_revoke_token_def\<close>)
next
  case (9 s i now s' r)
  show ?case
  proof (cases "map_of (ms_tokens s) i")
    case (Some held)
    then show ?thesis using 9 memory_filed(3) [OF 9(1) Some]
      by (auto simp: memory_impl_def ms_touch_token_def memory_ok_def memory_simps)
  qed (use 9 in \<open>auto simp: memory_impl_def ms_touch_token_def\<close>)
next
  case (10 s h s' r)
  have ok: "bt_ok (ms_tokens s)" using 10(1) by (simp add: memory_ok_def)
  have r: "s' = s" "r = Inr (List.find (\<lambda>token. tk_hash token = h) (bt_values (ms_tokens s)))"
    using 10(2) by (auto simp: memory_impl_def ms_token_by_hash_def)
  show ?case
  proof (cases "List.find (\<lambda>token. tk_hash token = h) (bt_values (ms_tokens s))")
    case None
    then show ?thesis using 10(1) find_value(2) [OF ok None] by (simp add: r)
  next
    case (Some t)
    then show ?thesis using 10(1) find_value(1) [OF ok Some] by (simp add: r)
  qed
next
  case (11 s)
  show ?case by (rule finite_dom_map_of)
next
  case (12 s i c)
  then show ?case by (intro memory_filed)
next
  case (13 s i a)
  then show ?case by (intro memory_filed)
next
  case (14 s i t)
  then show ?case by (intro memory_filed)
qed

lemma live_tokens_listed:
  assumes "memory_ok s" "so_live_tokens memory_impl now s = (s', r)"
  shows "s' = s \<and> (\<exists>ts. r = Inr ts \<and> sorted (map tk_issued_at ts) \<and> distinct ts \<and>
    (\<forall>t. t \<in> set ts \<longleftrightarrow> (\<exists>i. map_of (ms_tokens s) i = Some t) \<and> is_live_at now t))"
proof -
  have ok: "bt_ok (ms_tokens s)" "\<forall>(i, t) \<in> set (ms_tokens s). tk_id t = i" using assms(1) by (simp_all add: memory_ok_def filed_under_def)
  have ids: "map tk_id (bt_values (ms_tokens s)) = bt_keys (ms_tokens s)" using ok(2) by auto
  have "distinct (bt_values (ms_tokens s))" using bt_ok_distinct [OF ok(1)] unfolding ids [symmetric] by (simp only: distinct_map)
  moreover have "t \<in> set (bt_values (ms_tokens s)) \<longleftrightarrow> (\<exists>i. map_of (ms_tokens s) i = Some t)" for t
    unfolding bt_ok_map_of [OF ok(1)] by force
  ultimately show ?thesis using assms(2) by (auto simp: memory_impl_def ms_live_tokens_def)
qed

end
