(* ===== verification/OAuthServer.thy ===== *)
theory OAuthServer
  imports OAuthStore
begin

text \<open>
  The authorization server (\<open>src/oauth/server.rs\<close>): its wire types, the metadata it publishes and its
  operations over a \<open>Store\<close>, a \<open>Consent\<close> and the two rate limiters. The operating system's random source
  is part of the state. An operation returns the next state and a nested result: the outer error is a
  failing seam, the inner one a refusal sent to the client.
\<close>

section \<open>Wire types\<close>

record registration =
  rg_client_name :: "string option"
  rg_redirect_uris :: "string list"

record registered =
  rd_client_id :: string
  rd_client_name :: string
  rd_redirect_uris :: "string list"
  rd_client_id_issued_at :: nat
  rd_token_endpoint_auth_method :: string
  rd_grant_types :: "string list"
  rd_response_types :: "string list"

definition Registered_from :: "oauth_client \<Rightarrow> registered" where
  "Registered_from client =
     \<lparr>rd_client_id = cl_id client, rd_client_name = cl_name client, rd_redirect_uris = cl_redirect_uris client,
      rd_client_id_issued_at = cl_registered_at client, rd_token_endpoint_auth_method = ''none'',
      rd_grant_types = [''authorization_code''], rd_response_types = [''code'']\<rparr>"

record registration_refusal =
  rr_error :: string
  rr_error_description :: string

record authorize_request =
  az_response_type :: "string option"
  az_client_id :: "string option"
  az_redirect_uri :: "string option"
  az_scope :: "string option"
  az_state :: "string option"
  az_code_challenge :: "string option"
  az_code_challenge_method :: "string option"

datatype refusal = Page nat string | Redirect string

datatype progress_status = Waiting | PRedirect string | PDenied string | Gone

record token_request =
  tr_grant_type :: "string option"
  tr_code :: "string option"
  tr_redirect_uri :: "string option"
  tr_client_id :: "string option"
  tr_code_verifier :: "string option"

record issued =
  is_access_token :: string
  is_token_type :: string
  is_expires_in :: "nat option"
  is_scope :: string

record token_refusal =
  tf_error :: string
  tf_error_description :: string

definition TokenRefusal_new :: "string \<Rightarrow> string \<Rightarrow> token_refusal" where
  "TokenRefusal_new error description = \<lparr>tf_error = error, tf_error_description = description\<rparr>"

definition TokenRefusal_status :: "token_refusal \<Rightarrow> nat" where
  "TokenRefusal_status r = (if tf_error r = ''invalid_client'' then 401 else 400)"

section \<open>Metadata\<close>

record server_meta =
  sm_issuer :: string
  sm_authorization_endpoint :: string
  sm_token_endpoint :: string
  sm_registration_endpoint :: string
  sm_revocation_endpoint :: string
  sm_response_types_supported :: "string list"
  sm_grant_types_supported :: "string list"
  sm_code_challenge_methods_supported :: "string list"
  sm_token_endpoint_auth_methods_supported :: "string list"
  sm_revocation_endpoint_auth_methods_supported :: "string list"
  sm_scopes_supported :: "string list"

record resource_meta =
  rm_resource :: string
  rm_authorization_servers :: "string list"
  rm_bearer_methods_supported :: "string list"
  rm_scopes_supported :: "string list"

definition server_metadata :: "string \<Rightarrow> server_meta" where
  "server_metadata issuer =
     (let issuer = trim_end_matches (CHR ''/'') issuer in
      \<lparr>sm_issuer = issuer,
       sm_authorization_endpoint = issuer @ ''/oauth/authorize'',
       sm_token_endpoint = issuer @ ''/oauth/token'',
       sm_registration_endpoint = issuer @ ''/oauth/register'',
       sm_revocation_endpoint = issuer @ ''/oauth/revoke'',
       sm_response_types_supported = [''code''],
       sm_grant_types_supported = [''authorization_code''],
       sm_code_challenge_methods_supported = [''S256''],
       sm_token_endpoint_auth_methods_supported = [''none''],
       sm_revocation_endpoint_auth_methods_supported = [''none''],
       sm_scopes_supported = FAMILIES\<rparr>)"

definition resource_metadata :: "string \<Rightarrow> resource_meta" where
  "resource_metadata issuer =
     (let issuer = trim_end_matches (CHR ''/'') issuer in
      \<lparr>rm_resource = issuer, rm_authorization_servers = [issuer], rm_bearer_methods_supported = [''header''],
       rm_scopes_supported = FAMILIES\<rparr>)"

definition www_authenticate :: "string \<Rightarrow> string option \<Rightarrow> string" where
  "www_authenticate issuer scope =
     (let issuer = trim_end_matches (CHR ''/'') issuer;
          value = ''Bearer resource_metadata='' @ [CHR 0x22] @ issuer @ ''/.well-known/oauth-protected-resource'' @ [CHR 0x22] in
      case scope of
        Some scope \<Rightarrow> if scope = [] then value else value @ '', scope='' @ [CHR 0x22] @ scope @ [CHR 0x22]
      | None \<Rightarrow> value)"

definition insufficient_scope :: "string \<Rightarrow> string \<Rightarrow> string" where
  "insufficient_scope issuer scope =
     (let issuer = trim_end_matches (CHR ''/'') issuer in
      ''Bearer error='' @ [CHR 0x22] @ ''insufficient_scope'' @ [CHR 0x22] @ '', scope='' @ [CHR 0x22] @ scope @ [CHR 0x22] @
      '', resource_metadata='' @ [CHR 0x22] @ issuer @ ''/.well-known/oauth-protected-resource'' @ [CHR 0x22])"

section \<open>The server\<close>

record ('s, 'c, 'r) oauth_server =
  sv_store :: 's
  sv_consent :: 'c
  sv_registers :: limiter
  sv_asks :: limiter
  sv_rng :: 'r

definition Server_new :: "'s \<Rightarrow> 'c \<Rightarrow> 'r \<Rightarrow> ('s, 'c, 'r) oauth_server" where
  "Server_new store consent rng =
     \<lparr>sv_store = store, sv_consent = consent,
      sv_registers = Limiter_new (fst REGISTER_LIMIT) (snd REGISTER_LIMIT),
      sv_asks = Limiter_new (fst AUTHORIZE_LIMIT) (snd AUTHORIZE_LIMIT), sv_rng = rng\<rparr>"

text \<open>A call of a seam, and the \<open>?\<close> operator over the state.\<close>

definition on_store :: "('s \<Rightarrow> 's \<times> 'a) \<Rightarrow> ('s, 'c, 'r) oauth_server \<Rightarrow> ('s, 'c, 'r) oauth_server \<times> 'a" where
  "on_store f sv = (case f (sv_store sv) of (s, r) \<Rightarrow> (sv\<lparr>sv_store := s\<rparr>, r))"

definition on_consent :: "('c \<Rightarrow> 'c \<times> 'a) \<Rightarrow> ('s, 'c, 'r) oauth_server \<Rightarrow> ('s, 'c, 'r) oauth_server \<times> 'a" where
  "on_consent f sv = (case f (sv_consent sv) of (c, r) \<Rightarrow> (sv\<lparr>sv_consent := c\<rparr>, r))"

definition draw :: "'r oauth_lib \<Rightarrow> nat \<Rightarrow> ('s, 'c, 'r) oauth_server \<Rightarrow> ('s, 'c, 'r) oauth_server \<times> string" where
  "draw L n sv = (case random_hex L n (sv_rng sv) of (rng, x) \<Rightarrow> (sv\<lparr>sv_rng := rng\<rparr>, x))"

fun then_do :: "'v \<times> ('e + 'a) \<Rightarrow> ('a \<Rightarrow> 'v \<Rightarrow> 'v \<times> ('e + 'b)) \<Rightarrow> 'v \<times> ('e + 'b)" where
  "then_do (sv, Inl e) f = (sv, Inl e)"
| "then_do (sv, Inr a) f = f a sv"

definition nonempty :: "string option \<Rightarrow> string option" where
  "nonempty x = (case map_option trim x of Some s \<Rightarrow> if s = [] then None else Some s | None \<Rightarrow> None)"

definition may_register :: "string \<Rightarrow> nat \<Rightarrow> ('s, 'c, 'r) oauth_server \<Rightarrow> ('s, 'c, 'r) oauth_server \<times> bool" where
  "may_register source now sv = (case allow source now (sv_registers sv) of (l, b) \<Rightarrow> (sv\<lparr>sv_registers := l\<rparr>, b))"

definition may_ask :: "string \<Rightarrow> nat \<Rightarrow> ('s, 'c, 'r) oauth_server \<Rightarrow> ('s, 'c, 'r) oauth_server \<times> bool" where
  "may_ask source now sv = (case allow source now (sv_asks sv) of (l, b) \<Rightarrow> (sv\<lparr>sv_asks := l\<rparr>, b))"

definition register :: "'r oauth_lib \<Rightarrow> 's oauth_store \<Rightarrow> registration \<Rightarrow> nat \<Rightarrow> ('s, 'c, 'r) oauth_server
    \<Rightarrow> ('s, 'c, 'r) oauth_server \<times> (oauth_error + registration_refusal + oauth_client)" where
  "register L S registration now sv =
     (case nonempty (rg_client_name registration) of
        None \<Rightarrow> (sv, Inr (Inl \<lparr>rr_error = ''invalid_client_metadata'', rr_error_description =
          ''client_name is required: the person is asked whether to let it in by that name''\<rparr>))
      | Some name \<Rightarrow>
          if length name > 80
          then (sv, Inr (Inl \<lparr>rr_error = ''invalid_client_metadata'', rr_error_description =
            ''client_name is at most 80 characters''\<rparr>))
          else if rg_redirect_uris registration = []
          then (sv, Inr (Inl \<lparr>rr_error = ''invalid_redirect_uri'', rr_error_description = ''redirect_uris is required''\<rparr>))
          else case List.find (\<lambda>uri. \<not> redirect_uri_is_allowed uri) (rg_redirect_uris registration) of
            Some uri \<Rightarrow> (sv, Inr (Inl \<lparr>rr_error = ''invalid_redirect_uri'', rr_error_description =
              uri @ '' is not an https URL or an http URL on the loopback, or it has a fragment''\<rparr>))
          | None \<Rightarrow>
              let (sv, i) = draw L 16 sv;
                  client = \<lparr>cl_id = i, cl_name = name, cl_redirect_uris = rg_redirect_uris registration, cl_registered_at = now\<rparr> in
              then_do (on_store (so_put_client S client) sv) (\<lambda>_ sv. (sv, Inr (Inr client))))"

definition page :: "string \<Rightarrow> oauth_error + refusal + oauth_ask" where
  "page message = Inr (Inl (Page 400 message))"

definition refuse :: "'r oauth_lib \<Rightarrow> string \<Rightarrow> string option \<Rightarrow> string \<Rightarrow> string \<Rightarrow> string \<Rightarrow> oauth_error + refusal + oauth_ask" where
  "refuse L redirect_uri state issuer error description =
     Inr (Inl (Redirect (redirect_with L redirect_uri
       [(''error'', error), (''error_description'', description), (''state'', case state of Some s \<Rightarrow> s | None \<Rightarrow> []), (''iss'', issuer)])))"

text \<open>The part of \<open>authorize\<close> after the client and its redirect URI are known.\<close>

definition authorize_client :: "'r oauth_lib \<Rightarrow> 's oauth_store \<Rightarrow> 'c consent \<Rightarrow> authorize_request \<Rightarrow> string \<Rightarrow> nat
    \<Rightarrow> oauth_client \<Rightarrow> string \<Rightarrow> ('s, 'c, 'r) oauth_server \<Rightarrow> ('s, 'c, 'r) oauth_server \<times> (oauth_error + refusal + oauth_ask)" where
  "authorize_client L S C request issuer now client redirect_uri sv =
     (let refuse = refuse L redirect_uri (az_state request) issuer in
      if map_option trim (az_response_type request) \<noteq> Some ''code''
      then (sv, refuse ''unsupported_response_type'' ''Only response_type=code is supported.'')
      else if (case map_option trim (az_code_challenge_method request) of Some m \<Rightarrow> m | None \<Rightarrow> ''S256'') \<noteq> ''S256''
      then (sv, refuse ''invalid_request'' ''Only code_challenge_method=S256 is supported.'')
      else case map_option trim (az_code_challenge request) of
        None \<Rightarrow> (sv, refuse ''invalid_request'' ''PKCE is required: send a code_challenge of 43 to 128 unreserved characters.'')
      | Some code_challenge \<Rightarrow>
          if \<not> code_challenge_is_well_formed code_challenge
          then (sv, refuse ''invalid_request'' ''PKCE is required: send a code_challenge of 43 to 128 unreserved characters.'')
          else case normalize_scope (az_scope request) of
            Inl why \<Rightarrow> (sv, refuse ''invalid_scope'' why)
          | Inr scope \<Rightarrow>
              let (sv, i) = draw L 16 sv;
                  ask = \<lparr>ak_id = i, ak_client_id = cl_id client, ak_client_name = cl_name client, ak_issuer = issuer,
                         ak_redirect_uri = redirect_uri, ak_scope = Some scope,
                         ak_state = (case az_state request of Some s \<Rightarrow> if s = [] then None else Some s | None \<Rightarrow> None),
                         ak_code_challenge = code_challenge, ak_asked_at = now, ak_code = None,
                         ak_code_issued_at = None, ak_code_used = False\<rparr> in
              then_do (on_store (so_put_ask S ask) sv) (\<lambda>_ sv.
              then_do (on_consent (cn_ask C ask) sv) (\<lambda>_ sv. (sv, Inr (Inr ask)))))"

definition authorize :: "'r oauth_lib \<Rightarrow> 's oauth_store \<Rightarrow> 'c consent \<Rightarrow> authorize_request \<Rightarrow> string \<Rightarrow> nat
    \<Rightarrow> ('s, 'c, 'r) oauth_server \<Rightarrow> ('s, 'c, 'r) oauth_server \<times> (oauth_error + refusal + oauth_ask)" where
  "authorize L S C request issuer now sv =
     (let issuer = trim_end_matches (CHR ''/'') issuer in
      case nonempty (az_client_id request) of
        None \<Rightarrow> (sv, page ''The request names no client_id.'')
      | Some client_id \<Rightarrow>
          then_do (on_store (so_client S client_id) sv) (\<lambda>found sv.
          case found of
            None \<Rightarrow> (sv, page ''No client with that client_id has registered here.'')
          | Some client \<Rightarrow>
              (case nonempty (az_redirect_uri request) of
                 None \<Rightarrow> (sv, page ''The request names no redirect_uri.'')
               | Some redirect_uri \<Rightarrow>
                   if redirect_uri \<notin> set (cl_redirect_uris client)
                   then (sv, page ''The redirect_uri is not one the client registered.'')
                   else authorize_client L S C request issuer now client redirect_uri sv)))"

definition code_is_fresh :: "oauth_ask \<Rightarrow> nat \<Rightarrow> bool" where
  "code_is_fresh ask now \<longleftrightarrow> (case ak_code_issued_at ask of Some issued \<Rightarrow> now - issued \<le> CODE_TTL_SECS | None \<Rightarrow> False)"

definition approved_redirect :: "'r oauth_lib \<Rightarrow> oauth_ask \<Rightarrow> string \<Rightarrow> string" where
  "approved_redirect L ask code =
     redirect_with L (ak_redirect_uri ask)
       [(''code'', code), (''state'', case ak_state ask of Some s \<Rightarrow> s | None \<Rightarrow> []), (''iss'', ak_issuer ask), (''client_id'', ak_client_id ask)]"

definition progress :: "'r oauth_lib \<Rightarrow> 's oauth_store \<Rightarrow> 'c consent \<Rightarrow> string \<Rightarrow> nat
    \<Rightarrow> ('s, 'c, 'r) oauth_server \<Rightarrow> ('s, 'c, 'r) oauth_server \<times> (oauth_error + progress_status)" where
  "progress L S C ask_id now sv =
     then_do (on_store (so_ask S ask_id) sv) (\<lambda>found sv.
     case found of
       None \<Rightarrow> (sv, Inr Gone)
     | Some ask \<Rightarrow>
         if ak_code_used ask then (sv, Inr Gone)
         else (case ak_code ask of
           Some code \<Rightarrow> (sv, Inr (if code_is_fresh ask now then PRedirect (approved_redirect L ask code) else Gone))
         | None \<Rightarrow>
             if now - ak_asked_at ask > ASK_TTL_SECS then (sv, Inr Gone)
             else then_do (on_consent (cn_answer C ask) sv) (\<lambda>answer sv.
               case answer of
                 Pending \<Rightarrow> (sv, Inr Waiting)
               | Denied \<Rightarrow> (sv, Inr (PDenied (redirect_with L (ak_redirect_uri ask)
                   [(''error'', ''access_denied''), (''error_description'', ''The person did not let the client in.''),
                    (''state'', case ak_state ask of Some s \<Rightarrow> s | None \<Rightarrow> []), (''iss'', ak_issuer ask)])))
               | Approved \<Rightarrow>
                   let (sv, code) = draw L 24 sv in
                   then_do (on_store (so_mint_code S (ak_id ask) code now) sv) (\<lambda>minted sv.
                   case minted of
                     None \<Rightarrow> (sv, Inr Gone)
                   | Some ask \<Rightarrow>
                       (sv, Inr (case ak_code ask of
                          Some code \<Rightarrow> if code_is_fresh ask now then PRedirect (approved_redirect L ask code) else Gone
                        | None \<Rightarrow> Gone))))))"

definition grant :: "'r oauth_lib \<Rightarrow> 's oauth_store \<Rightarrow> oauth_ask \<Rightarrow> nat
    \<Rightarrow> ('s, 'c, 'r) oauth_server \<Rightarrow> ('s, 'c, 'r) oauth_server \<times> (oauth_error + token_refusal + issued)" where
  "grant L S ask now sv =
     (let (sv, secret) = draw L 32 sv;
          scope = (case ak_scope ask of Some s \<Rightarrow> s | None \<Rightarrow> DEFAULT_SCOPE);
          (sv, i) = draw L 16 sv;
          token = \<lparr>tk_id = i, tk_client_id = ak_client_id ask, tk_client_name = ak_client_name ask,
                   tk_hash = hash_token L secret, tk_scope = Some scope, tk_issued_at = now,
                   tk_expires_at = expires_at_for scope now, tk_last_used_at = None, tk_revoked_at = None\<rparr> in
      then_do (on_store (so_put_token S token) sv) (\<lambda>_ sv.
        (sv, Inr (Inr \<lparr>is_access_token = secret, is_token_type = ''Bearer'',
                       is_expires_in = (if runs_out token then Some TOKEN_TTL_SECS else None), is_scope = scope\<rparr>))))"

definition token :: "'r oauth_lib \<Rightarrow> 's oauth_store \<Rightarrow> token_request \<Rightarrow> nat
    \<Rightarrow> ('s, 'c, 'r) oauth_server \<Rightarrow> ('s, 'c, 'r) oauth_server \<times> (oauth_error + token_refusal + issued)" where
  "token L S request now sv =
     (if map_option trim (tr_grant_type request) \<noteq> Some ''authorization_code''
      then (sv, Inr (Inl (TokenRefusal_new ''unsupported_grant_type'' ''Only grant_type=authorization_code is supported.'')))
      else case nonempty (tr_code request) of
        None \<Rightarrow> (sv, Inr (Inl (TokenRefusal_new ''invalid_request'' ''code is required.'')))
      | Some code \<Rightarrow>
          (case nonempty (tr_code_verifier request) of
             None \<Rightarrow> (sv, Inr (Inl (TokenRefusal_new ''invalid_request'' ''code_verifier is required.'')))
           | Some verifier \<Rightarrow>
               then_do (on_store (so_redeem_code S code) sv) (\<lambda>found sv.
               case found of
                 None \<Rightarrow> (sv, Inr (Inl (TokenRefusal_new ''invalid_grant''
                   ''The code is not one this server issued, or it was already redeemed.'')))
               | Some ask \<Rightarrow>
                   if \<not> code_is_fresh ask now
                   then (sv, Inr (Inl (TokenRefusal_new ''invalid_grant'' ''The code is older than ten minutes.'')))
                   else if map_option trim (tr_client_id request) \<noteq> Some (ak_client_id ask)
                   then (sv, Inr (Inl (TokenRefusal_new ''invalid_client'' ''The client_id is not the one that asked.'')))
                   else if map_option trim (tr_redirect_uri request) \<noteq> Some (ak_redirect_uri ask)
                   then (sv, Inr (Inl (TokenRefusal_new ''invalid_grant'' ''The redirect_uri is not the one the ask was made with.'')))
                   else if \<not> pkce_matches L verifier (ak_code_challenge ask)
                   then (sv, Inr (Inl (TokenRefusal_new ''invalid_grant'' ''The code_verifier does not match the code_challenge.'')))
                   else grant L S ask now sv)))"

definition revoke :: "'r oauth_lib \<Rightarrow> 's oauth_store \<Rightarrow> string \<Rightarrow> nat
    \<Rightarrow> ('s, 'c, 'r) oauth_server \<Rightarrow> ('s, 'c, 'r) oauth_server \<times> (oauth_error + unit)" where
  "revoke L S bearer now sv =
     then_do (on_store (so_token_by_hash S (hash_token L (trim bearer))) sv) (\<lambda>found sv.
     case found of
       Some held \<Rightarrow> then_do (on_store (so_revoke_token S (tk_id held) now) sv) (\<lambda>_ sv. (sv, Inr ()))
     | None \<Rightarrow> (sv, Inr ()))"

definition oauth_admit :: "'r oauth_lib \<Rightarrow> 's oauth_store \<Rightarrow> string \<Rightarrow> nat
    \<Rightarrow> ('s, 'c, 'r) oauth_server \<Rightarrow> ('s, 'c, 'r) oauth_server \<times> (oauth_error + oauth_token option)" where
  "oauth_admit L S bearer now sv =
     (let bearer = trim bearer in
      if bearer = [] then (sv, Inr None)
      else then_do (on_store (so_token_by_hash S (hash_token L bearer)) sv) (\<lambda>found sv.
        case found of
          None \<Rightarrow> (sv, Inr None)
        | Some held \<Rightarrow>
            if \<not> is_live_at now held then (sv, Inr None)
            else if (case tk_last_used_at held of None \<Rightarrow> True | Some used \<Rightarrow> now - used \<ge> TOUCH_EVERY_SECS)
            then (let held = held\<lparr>tk_last_used_at := Some now\<rparr> in
                  then_do (on_store (so_touch_token S (tk_id held) now) sv) (\<lambda>_ sv. (sv, Inr (Some held))))
            else (sv, Inr (Some held))))"

end
