(* ===== verification/OAuthEffects.thy ===== *)
theory OAuthEffects
  imports OAuthServer
begin

text \<open>
  What each operation of the authorization server does to the three maps of its store, proved once over the
  contract of a store.
\<close>

section \<open>Running one call\<close>

lemma on_store_eq: "on_store f sv = (sv', r) \<longleftrightarrow> (\<exists>s. f (sv_store sv) = (s, r) \<and> sv' = sv\<lparr>sv_store := s\<rparr>)"
  by (auto simp: on_store_def split: prod.splits)

lemma on_consent_eq: "on_consent f sv = (sv', r) \<longleftrightarrow> (\<exists>c. f (sv_consent sv) = (c, r) \<and> sv' = sv\<lparr>sv_consent := c\<rparr>)"
  by (auto simp: on_consent_def split: prod.splits)

lemma draw_eq: "draw L n sv = (sv', x) \<longleftrightarrow> x = snd (random_hex L n (sv_rng sv)) \<and> sv' = sv\<lparr>sv_rng := fst (random_hex L n (sv_rng sv))\<rparr>"
  by (auto simp: draw_def split: prod.splits)

lemma then_do_eq:
  "then_do p f = (sv', r) \<longleftrightarrow> (\<exists>e. p = (sv', Inl e) \<and> r = Inl e) \<or> (\<exists>sv1 a. p = (sv1, Inr a) \<and> f a sv1 = (sv', r))"
  by (cases p; cases "snd p") auto

lemma redirect_loop_prefix: "\<exists>more. redirect_loop L separator params url = url @ more"
  by (induction L separator params url rule: redirect_loop.induct) auto

lemma redirect_with_prefix: "\<exists>more. redirect_with L uri params = uri @ more"
  unfolding redirect_with_def by (rule redirect_loop_prefix)

section \<open>Effects\<close>

text \<open>The ask a request of a client opens.\<close>

definition fresh_ask :: "authorize_request \<Rightarrow> nat \<Rightarrow> oauth_client \<Rightarrow> oauth_ask \<Rightarrow> bool" where
  "fresh_ask request now client a \<longleftrightarrow>
     nonempty (az_client_id request) = Some (cl_id client) \<and> ak_client_id a = cl_id client \<and> ak_client_name a = cl_name client \<and>
     nonempty (az_redirect_uri request) = Some (ak_redirect_uri a) \<and> ak_redirect_uri a \<in> set (cl_redirect_uris client) \<and>
     map_option trim (az_response_type request) = Some ''code'' \<and>
     map_option trim (az_code_challenge request) = Some (ak_code_challenge a) \<and> code_challenge_is_well_formed (ak_code_challenge a) \<and>
     (\<exists>scope. normalize_scope (az_scope request) = Inr scope \<and> ak_scope a = Some scope) \<and>
     ak_asked_at a = now \<and> ak_code a = None \<and> ak_code_issued_at a = None \<and> \<not> ak_code_used a"

text \<open>The token a redeemed ask gives.\<close>

definition fresh_token :: "'r oauth_lib \<Rightarrow> oauth_ask \<Rightarrow> nat \<Rightarrow> issued \<Rightarrow> oauth_token \<Rightarrow> bool" where
  "fresh_token L a now i t \<longleftrightarrow>
     tk_client_id t = ak_client_id a \<and> tk_client_name t = ak_client_name a \<and> tk_hash t = hash_token L (is_access_token i) \<and>
     is_scope i = (case ak_scope a of Some s \<Rightarrow> s | None \<Rightarrow> DEFAULT_SCOPE) \<and> tk_scope t = Some (is_scope i) \<and>
     tk_issued_at t = now \<and> tk_expires_at t = expires_at_for (is_scope i) now \<and> is_live t"

text \<open>What the code exchange asks of the ask a code stands for.\<close>

definition redeemable :: "'r oauth_lib \<Rightarrow> token_request \<Rightarrow> nat \<Rightarrow> oauth_ask \<Rightarrow> bool" where
  "redeemable L request now a \<longleftrightarrow>
     code_is_fresh a now \<and> map_option trim (tr_client_id request) = Some (ak_client_id a) \<and>
     map_option trim (tr_redirect_uri request) = Some (ak_redirect_uri a) \<and>
     (\<exists>verifier. nonempty (tr_code_verifier request) = Some verifier \<and> pkce_matches L verifier (ak_code_challenge a))"

context oauth_store_contract
begin

lemma register_effect:
  assumes ok: "store_ok (sv_store sv)" and run: "register L S registration now sv = (sv', r)"
  shows "store_ok (sv_store sv') \<and> asks (sv_store sv') = asks (sv_store sv) \<and> tokens (sv_store sv') = tokens (sv_store sv) \<and>
    (clients (sv_store sv') = clients (sv_store sv) \<or>
     (\<exists>c. r = Inr (Inr c) \<and> clients (sv_store sv') = (clients (sv_store sv))(cl_id c \<mapsto> c) \<and>
       cl_redirect_uris c = rg_redirect_uris registration \<and> list_all redirect_uri_is_allowed (cl_redirect_uris c)))"
proof -
  have allowed: "list_all redirect_uri_is_allowed us" if none: "List.find (\<lambda>uri. \<not> redirect_uri_is_allowed uri) us = None" for us
    using none by (auto simp: find_None_iff list_all_iff)
  have put: "store_ok s' \<and> asks s' = asks (sv_store sv) \<and> tokens s' = tokens (sv_store sv) \<and>
      clients s' = (case q of Inl e \<Rightarrow> clients (sv_store sv) | Inr _ \<Rightarrow> (clients (sv_store sv))(cl_id c \<mapsto> c))"
    if call: "so_put_client S c (sv_store sv) = (s', q)" for c s' q
    by (rule put_client [OF ok call])
  show ?thesis using run ok unfolding register_def
    by (auto simp: then_do_eq on_store_eq draw_eq Let_def allowed dest!: put split: option.splits if_splits prod.splits)
qed

end

lemma authorize_client_cases:
  assumes run: "authorize_client L S C request issuer now client redirect_uri sv = (sv', r)"
    and known: "nonempty (az_client_id request) = Some (cl_id client)" "nonempty (az_redirect_uri request) = Some redirect_uri"
      "redirect_uri \<in> set (cl_redirect_uris client)"
  obtains error description where "sv' = sv" "r = refuse L redirect_uri (az_state request) issuer error description"
  | a where "fresh_ask request now client a"
    "then_do (on_store (so_put_ask S a) (fst (draw L 16 sv))) (\<lambda>_ sv.
       then_do (on_consent (cn_ask C a) sv) (\<lambda>_ sv. (sv, Inr (Inr a)))) = (sv', r)"
proof (cases "map_option trim (az_response_type request) = Some ''code'' \<and>
    (case map_option trim (az_code_challenge_method request) of Some m \<Rightarrow> m | None \<Rightarrow> ''S256'') = ''S256''")
  case False
  then show ?thesis using run that(1) unfolding authorize_client_def Let_def by (auto split: if_splits)
next
  case True
  show ?thesis
  proof (cases "map_option trim (az_code_challenge request)")
    case None
    then show ?thesis using run that(1) True unfolding authorize_client_def Let_def by auto
  next
    case (Some challenge)
    show ?thesis
    proof (cases "code_challenge_is_well_formed challenge")
      case False
      then show ?thesis using run that(1) True Some unfolding authorize_client_def Let_def by auto
    next
      case wf: True
      show ?thesis
      proof (cases "normalize_scope (az_scope request)")
        case (Inl why)
        then show ?thesis using run that(1) True Some wf unfolding authorize_client_def Let_def by auto
      next
        case (Inr scope)
        obtain sv1 i where d: "draw L 16 sv = (sv1, i)" by (cases "draw L 16 sv")
        let ?a = "\<lparr>ak_id = i, ak_client_id = cl_id client, ak_client_name = cl_name client, ak_issuer = issuer,
                         ak_redirect_uri = redirect_uri, ak_scope = Some scope,
                         ak_state = (case az_state request of Some s \<Rightarrow> if s = [] then None else Some s | None \<Rightarrow> None),
                         ak_code_challenge = challenge, ak_asked_at = now, ak_code = None,
                         ak_code_issued_at = None, ak_code_used = False\<rparr>"
        have "fresh_ask request now client ?a" using known True Some wf Inr by (simp add: fresh_ask_def)
        moreover have "then_do (on_store (so_put_ask S ?a) (fst (draw L 16 sv))) (\<lambda>_ sv.
            then_do (on_consent (cn_ask C ?a) sv) (\<lambda>_ sv. (sv, Inr (Inr ?a)))) = (sv', r)"
          using run by (simp only: authorize_client_def Let_def True [THEN conjunct1] True [THEN conjunct2] Some wf Inr d
            option.simps sum.simps prod.case fst_conv simp_thms if_False if_True)
        ultimately show ?thesis by (rule that(2))
      qed
    qed
  qed
qed

context oauth_store_contract
begin

lemma authorize_client_effect:
  assumes ok: "store_ok (sv_store sv)" and run: "authorize_client L S C request issuer now client redirect_uri sv = (sv', r)"
    and known: "nonempty (az_client_id request) = Some (cl_id client)" "nonempty (az_redirect_uri request) = Some redirect_uri"
      "redirect_uri \<in> set (cl_redirect_uris client)"
  shows "store_ok (sv_store sv') \<and> clients (sv_store sv') = clients (sv_store sv) \<and> tokens (sv_store sv') = tokens (sv_store sv) \<and>
    (asks (sv_store sv') = asks (sv_store sv) \<or>
     (\<exists>a. fresh_ask request now client a \<and> asks (sv_store sv') = (asks (sv_store sv))(ak_id a \<mapsto> a))) \<and>
    (\<forall>url. r = Inr (Inl (Redirect url)) \<longrightarrow> (\<exists>params. url = redirect_with L redirect_uri params))"
proof -
  have put: "store_ok s' \<and> clients s' = clients (sv_store sv) \<and> tokens s' = tokens (sv_store sv) \<and>
      asks s' = (case q of Inl e \<Rightarrow> asks (sv_store sv) | Inr _ \<Rightarrow> (asks (sv_store sv))(ak_id a \<mapsto> a))"
    if call: "so_put_ask S a (sv_store sv) = (s', q)" for a s' q
    by (rule put_ask [OF ok call])
  have drawn: "sv_store (fst (draw L 16 sv)) = sv_store sv" by (simp add: draw_def split: prod.split)
  from run known show ?thesis
  proof (cases rule: authorize_client_cases)
    case (1 error description)
    then show ?thesis using ok by (auto simp: refuse_def)
  next
    case (2 a)
    obtain s1 q where call: "so_put_ask S a (sv_store sv) = (s1, q)" by (cases "so_put_ask S a (sv_store sv)")
    show ?thesis using 2 put [OF call]
      by (cases q) (auto simp: then_do_eq on_store_eq on_consent_eq drawn call)
  qed
qed

lemma authorize_effect:
  assumes ok: "store_ok (sv_store sv)" and run: "authorize L S C request issuer now sv = (sv', r)"
  shows "store_ok (sv_store sv') \<and> clients (sv_store sv') = clients (sv_store sv) \<and> tokens (sv_store sv') = tokens (sv_store sv) \<and>
    (asks (sv_store sv') = asks (sv_store sv) \<or>
     (\<exists>client a. clients (sv_store sv) (cl_id client) = Some client \<and> fresh_ask request now client a \<and>
       asks (sv_store sv') = (asks (sv_store sv))(ak_id a \<mapsto> a))) \<and>
    (\<forall>url. r = Inr (Inl (Redirect url)) \<longrightarrow>
       (\<exists>client uri params. clients (sv_store sv) (cl_id client) = Some client \<and> uri \<in> set (cl_redirect_uris client) \<and>
         url = redirect_with L uri params))"
proof (cases "nonempty (az_client_id request)")
  case None
  then show ?thesis using ok run by (auto simp: authorize_def page_def Let_def)
next
  case (Some i)
  obtain s1 q where call: "so_client S i (sv_store sv) = (s1, q)" by (cases "so_client S i (sv_store sv)")
  have same: "store_ok s1 \<and> clients s1 = clients (sv_store sv) \<and> asks s1 = asks (sv_store sv) \<and> tokens s1 = tokens (sv_store sv) \<and>
      (case q of Inl e \<Rightarrow> True | Inr c \<Rightarrow> c = clients (sv_store sv) i)"
    by (rule client [OF ok call])
  let ?sv = "sv\<lparr>sv_store := s1\<rparr>"
  have on: "on_store (so_client S i) sv = (?sv, q)" using call by (auto simp: on_store_eq)
  show ?thesis
  proof (cases "\<exists>client uri. q = Inr (Some client) \<and> nonempty (az_redirect_uri request) = Some uri \<and> uri \<in> set (cl_redirect_uris client)")
    case True
    then obtain client uri where q: "q = Inr (Some client)" and uri: "nonempty (az_redirect_uri request) = Some uri"
      "uri \<in> set (cl_redirect_uris client)" by blast
    have held: "clients (sv_store sv) i = Some client" using same by (simp add: q)
    have i: "cl_id client = i" by (rule filed(1) [OF ok held])
    have "authorize_client L S C request (trim_end_matches (CHR ''/'') issuer) now client uri ?sv = (sv', r)"
      using run by (simp add: authorize_def Let_def Some on q uri)
    then have "store_ok (sv_store sv') \<and> clients (sv_store sv') = clients (sv_store ?sv) \<and> tokens (sv_store sv') = tokens (sv_store ?sv) \<and>
      (asks (sv_store sv') = asks (sv_store ?sv) \<or>
       (\<exists>a. fresh_ask request now client a \<and> asks (sv_store sv') = (asks (sv_store ?sv))(ak_id a \<mapsto> a))) \<and>
      (\<forall>url. r = Inr (Inl (Redirect url)) \<longrightarrow> (\<exists>params. url = redirect_with L uri params))"
      using same Some uri by (intro authorize_client_effect) (auto simp: i)
    moreover have "clients (sv_store sv) (cl_id client) = Some client" using held i by simp
    ultimately show ?thesis using same uri(2) by (simp, blast)
  next
    case False
    then have "sv' = ?sv \<and> (\<forall>url. r \<noteq> Inr (Inl (Redirect url)))"
      using run by (cases q) (auto simp: authorize_def Let_def Some on page_def split: option.splits if_splits)
    then show ?thesis using same by auto
  qed
qed

end

text \<open>A poll mints a code only for an unanswered ask in time that the person approves.\<close>

definition poll_reply :: "'r oauth_lib \<Rightarrow> nat \<Rightarrow> oauth_ask option \<Rightarrow> ('s, 'c, 'r) oauth_server
    \<Rightarrow> ('s, 'c, 'r) oauth_server \<times> (oauth_error + progress_status)" where
  "poll_reply L now minted sv =
     (case minted of None \<Rightarrow> (sv, Inr Gone)
      | Some ask \<Rightarrow> (sv, Inr (case ak_code ask of
          Some code \<Rightarrow> if code_is_fresh ask now then PRedirect (approved_redirect L ask code) else Gone
        | None \<Rightarrow> Gone)))"

lemma progress_cases:
  assumes run: "progress L S C i now sv = (sv', r)" and call: "so_ask S i (sv_store sv) = (s1, q)"
  obtains "sv_store sv' = s1" "\<forall>url. r = Inr (PRedirect url) \<or> r = Inr (PDenied url) \<longrightarrow>
      (\<exists>a params. q = Inr (Some a) \<and> url = redirect_with L (ak_redirect_uri a) params)"
  | a c where "q = Inr (Some a)" "\<not> ak_code_used a" "ak_code a = None" "now - ak_asked_at a \<le> ASK_TTL_SECS"
    "cn_answer C a (sv_consent sv) = (c, Inr Approved)"
    "then_do (on_store (so_mint_code S (ak_id a) (snd (random_hex L 24 (sv_rng sv))) now)
        (sv\<lparr>sv_store := s1, sv_consent := c, sv_rng := fst (random_hex L 24 (sv_rng sv))\<rparr>)) (poll_reply L now) = (sv', r)"
proof -
  let ?sv = "sv\<lparr>sv_store := s1\<rparr>"
  have on: "on_store (so_ask S i) sv = (?sv, q)" using call by (auto simp: on_store_eq)
  note run = run [unfolded progress_def on]
  show ?thesis
  proof (cases "\<exists>a. q = Inr (Some a) \<and> \<not> ak_code_used a \<and> ak_code a = None \<and> now - ak_asked_at a \<le> ASK_TTL_SECS")
    case False
    then have "sv' = ?sv \<and> (\<forall>url. r \<noteq> Inr (PDenied url) \<and> (r = Inr (PRedirect url) \<longrightarrow>
        (\<exists>a code. q = Inr (Some a) \<and> url = approved_redirect L a code)))"
      using run by (cases q) (auto split: option.splits if_splits)
    then show ?thesis using that(1) unfolding approved_redirect_def by auto
  next
    case True
    then obtain a where q: "q = Inr (Some a)" and a: "\<not> ak_code_used a" "ak_code a = None" "now - ak_asked_at a \<le> ASK_TTL_SECS" by blast
    have ttl: "\<not> ASK_TTL_SECS < now - ak_asked_at a" using a(3) by simp
    obtain c p where answer: "cn_answer C a (sv_consent sv) = (c, p)" by (cases "cn_answer C a (sv_consent sv)")
    let ?sv1 = "?sv\<lparr>sv_consent := c\<rparr>"
    have oc: "on_consent (cn_answer C a) ?sv = (?sv1, p)" using answer by (simp add: on_consent_eq)
    have idle: thesis if stay: "sv' = ?sv1" and "\<forall>url. r \<noteq> Inr (PRedirect url)"
      "\<forall>url. r = Inr (PDenied url) \<longrightarrow> (\<exists>params. url = redirect_with L (ak_redirect_uri a) params)"
      using that by (intro \<open>\<lbrakk>_; _\<rbrakk> \<Longrightarrow> thesis\<close>) (auto simp: q)
    show ?thesis
    proof (cases p)
      case (Inl e)
      then show ?thesis using run by (intro idle) (auto simp: q a(1,2) ttl oc)
    next
      case (Inr answer')
      show ?thesis
      proof (cases answer')
        case Pending
        then show ?thesis using run by (intro idle) (auto simp: q a(1,2) ttl oc Inr)
      next
        case Denied
        then show ?thesis using run by (intro idle) (auto simp: q a(1,2) ttl oc Inr)
      next
        case Approved
        have d: "draw L 24 ?sv1 = (?sv1\<lparr>sv_rng := fst (random_hex L 24 (sv_rng sv))\<rparr>, snd (random_hex L 24 (sv_rng sv)))"
          by (simp add: draw_eq)
        have "then_do (on_store (so_mint_code S (ak_id a) (snd (random_hex L 24 (sv_rng sv))) now)
          (?sv1\<lparr>sv_rng := fst (random_hex L 24 (sv_rng sv))\<rparr>)) (poll_reply L now) = (sv', r)"
          using run by (simp add: q a(1,2) ttl oc Inr Approved d poll_reply_def [abs_def] Let_def)
        then show ?thesis using that(2) [OF q a, of c] answer Inr Approved by simp
      qed
    qed
  qed
qed

context oauth_store_contract
begin

lemma progress_effect:
  assumes ok: "store_ok (sv_store sv)" and run: "progress L S C i now sv = (sv', r)"
  shows "store_ok (sv_store sv') \<and> clients (sv_store sv') = clients (sv_store sv) \<and> tokens (sv_store sv') = tokens (sv_store sv) \<and>
    (asks (sv_store sv') = asks (sv_store sv) \<or>
     (\<exists>a url. snd (so_ask S i (sv_store sv)) = Inr (Some a) \<and> asks (sv_store sv) i = Some a \<and> \<not> ak_code_used a \<and> ak_code a = None \<and> now - ak_asked_at a \<le> ASK_TTL_SECS \<and>
       snd (cn_answer C a (sv_consent sv)) = Inr Approved \<and> r = Inr (PRedirect url) \<and>
       asks (sv_store sv') = (asks (sv_store sv))(i \<mapsto>
         a\<lparr>ak_code := Some (snd (random_hex L 24 (sv_rng sv))), ak_code_issued_at := Some now\<rparr>))) \<and>
    (\<forall>url. r = Inr (PRedirect url) \<or> r = Inr (PDenied url) \<longrightarrow>
       (\<exists>a params. asks (sv_store sv) i = Some a \<and> url = redirect_with L (ak_redirect_uri a) params))"
proof -
  obtain s1 q where call: "so_ask S i (sv_store sv) = (s1, q)" by (cases "so_ask S i (sv_store sv)")
  have same: "store_ok s1 \<and> clients s1 = clients (sv_store sv) \<and> asks s1 = asks (sv_store sv) \<and> tokens s1 = tokens (sv_store sv) \<and>
      (case q of Inl e \<Rightarrow> True | Inr a \<Rightarrow> a = asks (sv_store sv) i)"
    by (rule ask [OF ok call])
  from run call show ?thesis
  proof (cases rule: progress_cases)
    case 1
    moreover have "asks (sv_store sv) i = Some a" if got: "q = Inr (Some a)" for a using same by (simp add: got)
    ultimately show ?thesis using same by (intro conjI) (simp_all, blast)
  next
    case (2 a c)
    note q = 2(1) and a = 2(2-4) and answer = 2(5)
    have held: "asks (sv_store sv) i = Some a" using same by (simp add: q)
    have i: "ak_id a = i" by (rule filed(2) [OF ok held])
    let ?code = "snd (random_hex L 24 (sv_rng sv))"
    let ?sv1 = "sv\<lparr>sv_store := s1, sv_consent := c, sv_rng := fst (random_hex L 24 (sv_rng sv))\<rparr>"
    obtain s2 p where mint: "so_mint_code S i ?code now s1 = (s2, p)" by (cases "so_mint_code S i ?code now s1")
    have step: "then_do (?sv1\<lparr>sv_store := s2\<rparr>, p) (poll_reply L now) = (sv', r)"
      using 2(6) mint unfolding i by (simp add: on_store_def)
    have minted: "store_ok s2 \<and> clients s2 = clients s1 \<and> tokens s2 = tokens s1 \<and>
      (case p of Inl e \<Rightarrow> asks s2 = asks s1 | Inr None \<Rightarrow> asks s1 i = None \<and> asks s2 = asks s1
       | Inr (Some b) \<Rightarrow> (\<exists>held. asks s1 i = Some held \<and> asks s2 = (asks s1)(i \<mapsto> b) \<and>
           b = (if ak_code held = None then held\<lparr>ak_code := Some ?code, ak_code_issued_at := Some now\<rparr> else held)))"
      by (rule mint_code [OF _ mint]) (use same in simp)
    show ?thesis
    proof (cases p)
      case (Inl e)
      then show ?thesis using step minted same by auto
    next
      case (Inr m)
      obtain b where m: "m = Some b" using minted same held Inr by (cases m) auto
      have b: "b = a\<lparr>ak_code := Some ?code, ak_code_issued_at := Some now\<rparr>" "asks s2 = (asks (sv_store sv))(i \<mapsto> b)"
        using minted same held a(2) by (simp_all add: Inr m)
      have res: "sv_store sv' = s2" "r = Inr (PRedirect (approved_redirect L b ?code))"
        using step by (auto simp: Inr m b code_is_fresh_def poll_reply_def)
      have uri: "ak_redirect_uri b = ak_redirect_uri a" by (simp add: b(1))
      have red: "\<exists>params. approved_redirect L b ?code = redirect_with L (ak_redirect_uri a) params"
        unfolding approved_redirect_def uri by blast
      show ?thesis using same minted held a answer b red call q by (auto simp: res)
    qed
  qed
qed

lemma grant_effect:
  assumes ok: "store_ok (sv_store sv)" and run: "grant L S a now sv = (sv', r)"
  shows "store_ok (sv_store sv') \<and> clients (sv_store sv') = clients (sv_store sv) \<and> asks (sv_store sv') = asks (sv_store sv) \<and>
    ((\<forall>iss. r \<noteq> Inr (Inr iss)) \<and> tokens (sv_store sv') = tokens (sv_store sv) \<or>
     (\<exists>iss t. r = Inr (Inr iss) \<and> fresh_token L a now iss t \<and> tokens (sv_store sv) (tk_id t) = None \<and>
       tokens (sv_store sv') = (tokens (sv_store sv))(tk_id t \<mapsto> t)))"
proof -
  obtain sv1 secret where d1: "draw L 32 sv = (sv1, secret)" by (cases "draw L 32 sv")
  obtain sv2 i where d2: "draw L 16 sv1 = (sv2, i)" by (cases "draw L 16 sv1")
  have store: "sv_store sv2 = sv_store sv" using d1 d2 by (simp add: draw_eq)
  define scope where "scope = (case ak_scope a of Some s \<Rightarrow> s | None \<Rightarrow> DEFAULT_SCOPE)"
  define t where "t = \<lparr>tk_id = i, tk_client_id = ak_client_id a, tk_client_name = ak_client_name a,
                   tk_hash = hash_token L secret, tk_scope = Some scope, tk_issued_at = now,
                   tk_expires_at = expires_at_for scope now, tk_last_used_at = None, tk_revoked_at = None\<rparr>"
  let ?iss = "\<lparr>is_access_token = secret, is_token_type = ''Bearer'',
                       is_expires_in = (if runs_out t then Some TOKEN_TTL_SECS else None), is_scope = scope\<rparr>"
  obtain s' q where call: "so_put_token S t (sv_store sv) = (s', q)" by (cases "so_put_token S t (sv_store sv)")
  have put: "store_ok s' \<and> clients s' = clients (sv_store sv) \<and> asks s' = asks (sv_store sv) \<and>
      (case q of Inl e \<Rightarrow> tokens s' = tokens (sv_store sv)
       | Inr _ \<Rightarrow> tokens (sv_store sv) (tk_id t) = None \<and> tokens s' = (tokens (sv_store sv))(tk_id t \<mapsto> t))"
    by (rule put_token [OF ok call])
  have step: "then_do (sv2\<lparr>sv_store := s'\<rparr>, q) (\<lambda>_ sv. (sv, Inr (Inr ?iss))) = (sv', r)"
    using run call by (simp add: grant_def d1 d2 Let_def scope_def [symmetric] t_def [symmetric] on_store_def store)
  have fresh: "fresh_token L a now ?iss t" by (simp add: fresh_token_def t_def scope_def is_live_def)
  show ?thesis
  proof (cases q)
    case (Inl e)
    then show ?thesis using step put by auto
  next
    case (Inr u)
    then have "sv_store sv' = s'" "r = Inr (Inr ?iss)" using step by auto
    then show ?thesis using Inr put fresh by auto
  qed
qed

lemma token_effect:
  assumes ok: "store_ok (sv_store sv)" and run: "token L S request now sv = (sv', r)"
  shows "store_ok (sv_store sv') \<and> clients (sv_store sv') = clients (sv_store sv) \<and>
    (asks (sv_store sv') = asks (sv_store sv) \<and> tokens (sv_store sv') = tokens (sv_store sv) \<and> (\<forall>iss. r \<noteq> Inr (Inr iss)) \<or>
     (\<exists>i a code. nonempty (tr_code request) = Some code \<and> asks (sv_store sv) i = Some a \<and> \<not> ak_code_used a \<and> ak_code a = Some code \<and>
       asks (sv_store sv') = (asks (sv_store sv))(i \<mapsto> a\<lparr>ak_code_used := True\<rparr>) \<and>
       (tokens (sv_store sv') = tokens (sv_store sv) \<and> (\<forall>iss. r \<noteq> Inr (Inr iss)) \<or>
        (\<exists>iss t. r = Inr (Inr iss) \<and> redeemable L request now a \<and> fresh_token L a now iss t \<and>
          tokens (sv_store sv) (tk_id t) = None \<and> tokens (sv_store sv') = (tokens (sv_store sv))(tk_id t \<mapsto> t)))))"
proof (cases "map_option trim (tr_grant_type request) = Some ''authorization_code'' \<and>
    nonempty (tr_code request) \<noteq> None \<and> nonempty (tr_code_verifier request) \<noteq> None")
  case False
  then have "sv' = sv \<and> (\<forall>iss. r \<noteq> Inr (Inr iss))"
    using run unfolding token_def by (simp split: if_splits option.splits) auto
  then show ?thesis using ok by simp
next
  case True
  then obtain code verifier where given: "nonempty (tr_code request) = Some code" "nonempty (tr_code_verifier request) = Some verifier"
    by auto
  obtain s1 q where call: "so_redeem_code S code (sv_store sv) = (s1, q)" by (cases "so_redeem_code S code (sv_store sv)")
  have redeem: "store_ok s1 \<and> clients s1 = clients (sv_store sv) \<and> tokens s1 = tokens (sv_store sv) \<and>
      (case q of Inl e \<Rightarrow> asks s1 = asks (sv_store sv)
       | Inr None \<Rightarrow> asks s1 = asks (sv_store sv) \<and>
           \<not> (\<exists>i held. asks (sv_store sv) i = Some held \<and> \<not> ak_code_used held \<and> ak_code held = Some code)
       | Inr (Some a) \<Rightarrow> (\<exists>i held. asks (sv_store sv) i = Some held \<and> \<not> ak_code_used held \<and> ak_code held = Some code \<and>
           a = held\<lparr>ak_code_used := True\<rparr> \<and> asks s1 = (asks (sv_store sv))(i \<mapsto> a)))"
    by (rule redeem_code [OF ok call])
  let ?sv = "sv\<lparr>sv_store := s1\<rparr>"
  have on: "on_store (so_redeem_code S code) sv = (?sv, q)" using call by (simp add: on_store_def)
  note run = run [unfolded token_def given option.case on, simplified True [THEN conjunct1] simp_thms if_False]
  show ?thesis
  proof (cases "\<exists>a. q = Inr (Some a)")
    case False
    then have "sv' = ?sv \<and> (\<forall>iss. r \<noteq> Inr (Inr iss)) \<and> asks s1 = asks (sv_store sv)"
      using run redeem by (cases q) (auto split: option.splits)
    then show ?thesis using redeem by simp
  next
    case True
    then obtain b where q: "q = Inr (Some b)" by blast
    obtain i a where a: "asks (sv_store sv) i = Some a" "\<not> ak_code_used a" "ak_code a = Some code"
      and b: "b = a\<lparr>ak_code_used := True\<rparr>" and s1: "asks s1 = (asks (sv_store sv))(i \<mapsto> b)"
      using redeem by (auto simp: q)
    have fresh: "fresh_token L b now = fresh_token L a now" "redeemable L request now b = redeemable L request now a"
      by (simp_all add: b fresh_token_def [abs_def] redeemable_def code_is_fresh_def)
    have after: "store_ok (sv_store sv') \<and> clients (sv_store sv') = clients s1 \<and> asks (sv_store sv') = asks s1 \<and>
      ((\<forall>iss. r \<noteq> Inr (Inr iss)) \<and> tokens (sv_store sv') = tokens s1 \<or>
       (\<exists>iss t. r = Inr (Inr iss) \<and> redeemable L request now b \<and> fresh_token L b now iss t \<and> tokens s1 (tk_id t) = None \<and>
         tokens (sv_store sv') = (tokens s1)(tk_id t \<mapsto> t)))"
    proof (cases "redeemable L request now b")
      case True
      have "grant L S b now ?sv = (sv', r)" using run True by (auto simp: q redeemable_def given)
      then show ?thesis using grant_effect [of ?sv L b now sv' r] redeem True by simp
    next
      case False
      then have "sv' = ?sv \<and> (\<forall>iss. r \<noteq> Inr (Inr iss))" using run by (auto simp: q redeemable_def given split: if_splits)
      then show ?thesis using redeem by simp
    qed
    have same: "clients s1 = clients (sv_store sv)" "tokens s1 = tokens (sv_store sv)" using redeem by simp_all
    note after = after [unfolded fresh s1 same]
    have tail: "tokens (sv_store sv') = tokens (sv_store sv) \<and> (\<forall>iss. r \<noteq> Inr (Inr iss)) \<or>
        (\<exists>iss t. r = Inr (Inr iss) \<and> redeemable L request now a \<and> fresh_token L a now iss t \<and>
          tokens (sv_store sv) (tk_id t) = None \<and> tokens (sv_store sv') = (tokens (sv_store sv))(tk_id t \<mapsto> t))"
      using after by argo
    have "asks (sv_store sv') = (asks (sv_store sv))(i \<mapsto> a\<lparr>ak_code_used := True\<rparr>)" using after b by simp
    note body = given(1) a this tail
    show ?thesis
      by (rule conjI [OF _ conjI [OF _ disjI2]], use after in simp, use after in simp,
        rule exI [of _ i], rule exI [of _ a], rule exI [of _ code], intro conjI; rule body)
  qed
qed

lemma lookup_effect:
  assumes ok: "store_ok (sv_store sv)" and call: "so_token_by_hash S h (sv_store sv) = (s1, q)"
  shows "on_store (so_token_by_hash S h) sv = (sv\<lparr>sv_store := s1\<rparr>, q)" "store_ok s1" "clients s1 = clients (sv_store sv)"
    "asks s1 = asks (sv_store sv)" "tokens s1 = tokens (sv_store sv)"
    "q = Inr (Some t) \<Longrightarrow> tk_hash t = h \<and> tokens (sv_store sv) (tk_id t) = Some t"
    "q = Inr None \<Longrightarrow> tokens (sv_store sv) i = Some t \<Longrightarrow> tk_hash t \<noteq> h"
proof -
  have found: "store_ok s1 \<and> clients s1 = clients (sv_store sv) \<and> asks s1 = asks (sv_store sv) \<and> tokens s1 = tokens (sv_store sv) \<and>
      (case q of Inl e \<Rightarrow> True | Inr None \<Rightarrow> \<not> (\<exists>i t. tokens (sv_store sv) i = Some t \<and> tk_hash t = h)
       | Inr (Some t) \<Rightarrow> tk_hash t = h \<and> (\<exists>i. tokens (sv_store sv) i = Some t))"
    by (rule token_by_hash [OF ok call])
  show "on_store (so_token_by_hash S h) sv = (sv\<lparr>sv_store := s1\<rparr>, q)" using call by (simp add: on_store_def)
  show "store_ok s1" "clients s1 = clients (sv_store sv)" "asks s1 = asks (sv_store sv)" "tokens s1 = tokens (sv_store sv)"
    using found by simp_all
  show "tk_hash t = h \<and> tokens (sv_store sv) (tk_id t) = Some t" if some: "q = Inr (Some t)"
  proof -
    obtain i where "tk_hash t = h" "tokens (sv_store sv) i = Some t" using found by (auto simp: some)
    then show ?thesis using filed(3) [OF ok] by simp
  qed
  show "tk_hash t \<noteq> h" if "q = Inr None" "tokens (sv_store sv) i = Some t" using found that by auto
qed

lemma revoke_effect:
  assumes ok: "store_ok (sv_store sv)" and run: "revoke L S bearer now sv = (sv', r)"
  shows "store_ok (sv_store sv') \<and> clients (sv_store sv') = clients (sv_store sv) \<and> asks (sv_store sv') = asks (sv_store sv) \<and>
    (tokens (sv_store sv') = tokens (sv_store sv) \<and>
       (r = Inr () \<longrightarrow> snd (so_token_by_hash S (hash_token L (trim bearer)) (sv_store sv)) = Inr None) \<or>
     (\<exists>t. snd (so_token_by_hash S (hash_token L (trim bearer)) (sv_store sv)) = Inr (Some t) \<and>
       tokens (sv_store sv) (tk_id t) = Some t \<and>
       tokens (sv_store sv') = (tokens (sv_store sv))(tk_id t \<mapsto> (if is_live t then t\<lparr>tk_revoked_at := Some now\<rparr> else t))))"
proof -
  let ?h = "hash_token L (trim bearer)"
  obtain s1 q where call: "so_token_by_hash S ?h (sv_store sv) = (s1, q)" by (cases "so_token_by_hash S ?h (sv_store sv)")
  note found = lookup_effect [OF ok call]
  show ?thesis
  proof (cases "\<exists>t. q = Inr (Some t)")
    case False
    then have "sv' = sv\<lparr>sv_store := s1\<rparr> \<and> (r = Inr () \<longrightarrow> q = Inr None)"
      using run unfolding revoke_def found(1) by (cases q) (auto split: option.splits)
    then show ?thesis using found(2-5) call by simp
  next
    case True
    then obtain t where q: "q = Inr (Some t)" by blast
    have held: "tokens (sv_store sv) (tk_id t) = Some t" using found(6) [OF q] by simp
    obtain s2 p where revoke: "so_revoke_token S (tk_id t) now s1 = (s2, p)" by (cases "so_revoke_token S (tk_id t) now s1")
    have revoked: "store_ok s2 \<and> clients s2 = clients s1 \<and> asks s2 = asks s1 \<and>
      (case p of Inl e \<Rightarrow> tokens s2 = tokens s1
       | Inr b \<Rightarrow> b = (tokens s1 (tk_id t) \<noteq> None) \<and>
           tokens s2 = (case tokens s1 (tk_id t) of None \<Rightarrow> tokens s1
             | Some t' \<Rightarrow> (tokens s1)(tk_id t \<mapsto> (if is_live t' then t'\<lparr>tk_revoked_at := Some now\<rparr> else t'))))"
      by (rule revoke_token [OF found(2) revoke])
    have "then_do (sv\<lparr>sv_store := s2\<rparr>, p) (\<lambda>_ sv. (sv, Inr ())) = (sv', r)"
      using run revoke unfolding revoke_def found(1) by (simp add: q on_store_def)
    then have res: "sv_store sv' = s2" "p = Inl e \<Longrightarrow> r = Inl e" for e by (cases p; auto)+
    show ?thesis
    proof (cases p)
      case (Inl e)
      then show ?thesis using revoked found(3-5) res by simp
    next
      case (Inr b)
      then show ?thesis using revoked found(3-5) held call by (simp add: res(1) q)
    qed
  qed
qed

lemma admit_effect:
  assumes ok: "store_ok (sv_store sv)" and run: "oauth_admit L S bearer now sv = (sv', r)"
  shows "store_ok (sv_store sv') \<and> clients (sv_store sv') = clients (sv_store sv) \<and> asks (sv_store sv') = asks (sv_store sv) \<and>
    (tokens (sv_store sv') = tokens (sv_store sv) \<or>
     (\<exists>i t. tokens (sv_store sv) i = Some t \<and> is_live t \<and>
       tokens (sv_store sv') = (tokens (sv_store sv))(i \<mapsto> t\<lparr>tk_last_used_at := Some now\<rparr>))) \<and>
    (\<forall>t. r = Inr (Some t) \<longrightarrow> (\<exists>t0. tokens (sv_store sv) (tk_id t) = Some t0 \<and> t = t0\<lparr>tk_last_used_at := tk_last_used_at t\<rparr> \<and>
       tk_hash t0 = hash_token L (trim bearer) \<and> is_live_at now t0))"
proof (cases "trim bearer = []")
  case True
  then show ?thesis using ok run by (auto simp: oauth_admit_def)
next
  case False
  let ?h = "hash_token L (trim bearer)"
  obtain s1 q where call: "so_token_by_hash S ?h (sv_store sv) = (s1, q)" by (cases "so_token_by_hash S ?h (sv_store sv)")
  note found = lookup_effect [OF ok call]
  note run = run [unfolded oauth_admit_def Let_def found(1)]
  let ?old = "\<lambda>t. case tk_last_used_at t of None \<Rightarrow> True | Some used \<Rightarrow> now - used \<ge> TOUCH_EVERY_SECS"
  show ?thesis
  proof (cases "\<exists>t. q = Inr (Some t) \<and> is_live_at now t")
    case False
    then have "sv' = sv\<lparr>sv_store := s1\<rparr> \<and> (\<forall>t. r \<noteq> Inr (Some t))"
      using run \<open>trim bearer \<noteq> []\<close> by (cases q) (auto split: option.splits if_splits)
    then show ?thesis using found(2-5) by simp
  next
    case True
    then obtain t where q: "q = Inr (Some t)" and live: "is_live_at now t" by blast
    have held: "tokens (sv_store sv) (tk_id t) = Some t" "tk_hash t = ?h" using found(6) [OF q] by simp_all
    show ?thesis
    proof (cases "?old t")
      case False
      then have "sv' = sv\<lparr>sv_store := s1\<rparr>" "r = Inr (Some t)" using run \<open>trim bearer \<noteq> []\<close> live by (auto simp: q)
      then show ?thesis using found(2-5) held live by simp
    next
      case old: True
      let ?t = "t\<lparr>tk_last_used_at := Some now\<rparr>"
      obtain s2 p where touch: "so_touch_token S (tk_id t) now s1 = (s2, p)" by (cases "so_touch_token S (tk_id t) now s1")
      have touched: "store_ok s2 \<and> clients s2 = clients s1 \<and> asks s2 = asks s1 \<and>
        (case p of Inl e \<Rightarrow> tokens s2 = tokens s1
         | Inr _ \<Rightarrow> tokens s2 = (case tokens s1 (tk_id t) of None \<Rightarrow> tokens s1
             | Some t' \<Rightarrow> if is_live t' then (tokens s1)(tk_id t \<mapsto> t'\<lparr>tk_last_used_at := Some now\<rparr>) else tokens s1))"
        by (rule touch_token [OF found(2) touch])
      have step: "then_do (sv\<lparr>sv_store := s2\<rparr>, p) (\<lambda>_ sv. (sv, Inr (Some ?t))) = (sv', r)"
        using run \<open>trim bearer \<noteq> []\<close> live old touch by (simp add: q on_store_def)
      show ?thesis
      proof (cases p)
        case (Inl e)
        then show ?thesis using step touched found(3-5) by auto
      next
        case (Inr u)
        then have res: "sv_store sv' = s2" "r = Inr (Some ?t)" using step by auto
        have "is_live t" using live by (simp add: is_live_at_def)
        then have "tokens s2 = (tokens (sv_store sv))(tk_id t \<mapsto> ?t)" using touched held found(5) by (simp add: Inr)
        then show ?thesis using touched found(3,4) held live \<open>is_live t\<close> by (auto simp: res)
      qed
    qed
  qed
qed

end

end
