(* ===== verification/OAuthTrace.thy ===== *)
theory OAuthTrace
  imports OAuthEffects
begin

text \<open>
  Histories of the authorization server: a step relation with one rule per operation, each labelled with the
  request and the reply, and what a reachable state says of the past. The invariants are proved over the
  contract of a store and used for the in-memory store.
\<close>

section \<open>Histories\<close>

datatype oauth_event =
    ERegister registration nat "oauth_error + registration_refusal + oauth_client"
  | EAuthorize authorize_request string nat "oauth_error + refusal + oauth_ask"
  | EProgress string nat "oauth_error + progress_status"
  | EToken token_request nat "oauth_error + token_refusal + issued"
  | ERevoke string nat "oauth_error + unit"
  | EAdmit string nat "oauth_error + oauth_token option"
  | EMayRegister string nat bool
  | EMayAsk string nat bool

inductive oauth_step :: "'r oauth_lib \<Rightarrow> 's oauth_store \<Rightarrow> 'c consent
    \<Rightarrow> ('s, 'c, 'r) oauth_server \<Rightarrow> oauth_event \<Rightarrow> ('s, 'c, 'r) oauth_server \<Rightarrow> bool"
  for L :: "'r oauth_lib" and S :: "'s oauth_store" and C :: "'c consent" where
  registering: "register L S registration now sv = (sv', r) \<Longrightarrow> oauth_step L S C sv (ERegister registration now r) sv'"
| authorizing: "authorize L S C request issuer now sv = (sv', r) \<Longrightarrow> oauth_step L S C sv (EAuthorize request issuer now r) sv'"
| polling: "progress L S C i now sv = (sv', p) \<Longrightarrow> oauth_step L S C sv (EProgress i now p) sv'"
| exchanging: "token L S exchange now sv = (sv', q) \<Longrightarrow> oauth_step L S C sv (EToken exchange now q) sv'"
| revoking: "revoke L S bearer now sv = (sv', u) \<Longrightarrow> oauth_step L S C sv (ERevoke bearer now u) sv'"
| admitting: "oauth_admit L S bearer now sv = (sv', t) \<Longrightarrow> oauth_step L S C sv (EAdmit bearer now t) sv'"
| register_limiting: "may_register source now sv = (sv', b) \<Longrightarrow> oauth_step L S C sv (EMayRegister source now b) sv'"
| ask_limiting: "may_ask source now sv = (sv', b) \<Longrightarrow> oauth_step L S C sv (EMayAsk source now b) sv'"

text \<open>The past of a state, newest first: each event with the state it found.\<close>

type_synonym ('s, 'c, 'r) oauth_history = "(('s, 'c, 'r) oauth_server \<times> oauth_event) list"

inductive oauth_trace :: "'r oauth_lib \<Rightarrow> 's oauth_store \<Rightarrow> 'c consent \<Rightarrow> ('s, 'c, 'r) oauth_server
    \<Rightarrow> ('s, 'c, 'r) oauth_history \<Rightarrow> ('s, 'c, 'r) oauth_server \<Rightarrow> bool"
  for L :: "'r oauth_lib" and S :: "'s oauth_store" and C :: "'c consent" and sv0 :: "('s, 'c, 'r) oauth_server" where
  started: "oauth_trace L S C sv0 [] sv0"
| extended: "oauth_trace L S C sv0 tr sv \<Longrightarrow> oauth_step L S C sv ev sv' \<Longrightarrow> oauth_trace L S C sv0 ((sv, ev) # tr) sv'"

definition registered_in :: "('s, 'c, 'r) oauth_history \<Rightarrow> oauth_client \<Rightarrow> bool" where
  "registered_in tr c \<longleftrightarrow> (\<exists>pre registration t. (pre, ERegister registration t (Inr (Inr c))) \<in> set tr \<and>
     cl_redirect_uris c = rg_redirect_uris registration \<and> list_all redirect_uri_is_allowed (cl_redirect_uris c))"

text \<open>A registered client made a request that opened this ask.\<close>

definition asked_in :: "('s, 'c, 'r) oauth_history \<Rightarrow> oauth_client \<Rightarrow> authorize_request \<Rightarrow> oauth_ask \<Rightarrow> bool" where
  "asked_in tr client request a \<longleftrightarrow> (\<exists>newer pre issuer t r older.
     tr = newer @ (pre, EAuthorize request issuer t r) # older \<and> registered_in older client \<and> fresh_ask request t client a)"

text \<open>A poll after that found the person's approval of the ask, in time, and drew the code.\<close>

definition approved_in :: "'r oauth_lib \<Rightarrow> 'c consent \<Rightarrow> ('s, 'c, 'r) oauth_history \<Rightarrow> oauth_client \<Rightarrow> authorize_request
    \<Rightarrow> oauth_ask \<Rightarrow> string \<Rightarrow> nat \<Rightarrow> bool" where
  "approved_in L C tr client request a code t \<longleftrightarrow> (\<exists>newer pre url older.
     tr = newer @ (pre, EProgress (ak_id a) t (Inr (PRedirect url))) # older \<and> asked_in older client request a \<and>
     snd (cn_answer C a (sv_consent pre)) = Inr Approved \<and> code = snd (random_hex L 24 (sv_rng pre)) \<and>
     t - ak_asked_at a \<le> ASK_TTL_SECS)"

fun revokes :: "'r oauth_lib \<Rightarrow> 's oauth_store \<Rightarrow> string \<Rightarrow> ('s, 'c, 'r) oauth_server \<times> oauth_event \<Rightarrow> bool" where
  "revokes L S i (pre, ERevoke bearer t (Inr _)) =
     (case snd (so_token_by_hash S (hash_token L (trim bearer)) (sv_store pre)) of Inr (Some held) \<Rightarrow> tk_id held = i | _ \<Rightarrow> False)"
| "revokes L S i _ = False"

text \<open>A code exchange granted this token, and while it is live nothing revoked it since.\<close>

definition granted_in :: "'r oauth_lib \<Rightarrow> 's oauth_store \<Rightarrow> ('s, 'c, 'r) oauth_history \<Rightarrow> oauth_token \<Rightarrow> bool" where
  "granted_in L S tr tok \<longleftrightarrow> (\<exists>newer pre request t i older.
     tr = newer @ (pre, EToken request t (Inr (Inr i))) # older \<and>
     tk_hash tok = hash_token L (is_access_token i) \<and> tk_scope tok = Some (is_scope i) \<and>
     map_option trim (tr_client_id request) = Some (tk_client_id tok) \<and> tk_issued_at tok = t \<and>
     tk_expires_at tok = expires_at_for (is_scope i) t \<and> (is_live tok \<longrightarrow> list_all (\<lambda>e. \<not> revokes L S (tk_id tok) e) newer))"

fun mints :: "'r oauth_lib \<Rightarrow> 's oauth_store \<Rightarrow> string \<Rightarrow> ('s, 'c, 'r) oauth_server \<times> oauth_event \<Rightarrow> bool" where
  "mints L S code (pre, EProgress i t (Inr (PRedirect url))) \<longleftrightarrow>
     (case snd (so_ask S i (sv_store pre)) of Inr (Some a) \<Rightarrow> ak_code a = None | _ \<Rightarrow> False) \<and>
     snd (random_hex L 24 (sv_rng pre)) = code"
| "mints L S code _ = False"

fun grants :: "string \<Rightarrow> ('s, 'c, 'r) oauth_server \<times> oauth_event \<Rightarrow> bool" where
  "grants code (pre, EToken request t (Inr (Inr i))) \<longleftrightarrow> nonempty (tr_code request) = Some code"
| "grants code _ = False"

fun sends_to :: "oauth_event \<Rightarrow> string option" where
  "sends_to (EAuthorize request issuer t (Inr (Inl (Redirect url)))) = Some url"
| "sends_to (EProgress i t (Inr (PRedirect url))) = Some url"
| "sends_to (EProgress i t (Inr (PDenied url))) = Some url"
| "sends_to _ = None"

section \<open>The past only grows\<close>

lemma registered_grows: "registered_in tr c \<Longrightarrow> registered_in (newer @ tr) c"
  by (auto simp: registered_in_def)

lemma asked_grows: "asked_in tr client request a \<Longrightarrow> asked_in (newer @ tr) client request a"
  unfolding asked_in_def by (metis append.assoc)

lemma approved_grows: "approved_in L C tr client request a code t \<Longrightarrow> approved_in L C (newer @ tr) client request a code t"
  unfolding approved_in_def by (metis append.assoc)

lemmas grows = registered_grows [of _ _ "[e]" for e, simplified] asked_grows [of _ _ _ _ "[e]" for e, simplified]
  approved_grows [of _ _ _ _ _ _ _ _ "[e]" for e, simplified]

lemma asked_registered: "asked_in tr client request a \<Longrightarrow> registered_in tr client"
  by (auto simp: asked_in_def registered_in_def) blast

lemma asked_fresh: "asked_in tr client request a \<Longrightarrow> \<exists>t. fresh_ask request t client a"
  by (auto simp: asked_in_def)

lemma approved_asked: "approved_in L C tr client request a code t \<Longrightarrow> asked_in tr client request a"
proof -
  assume "approved_in L C tr client request a code t"
  then obtain newer pre url older where tr: "tr = newer @ (pre, EProgress (ak_id a) t (Inr (PRedirect url))) # older"
    and asked: "asked_in older client request a" unfolding approved_in_def by blast
  have "asked_in ((newer @ [(pre, EProgress (ak_id a) t (Inr (PRedirect url)))]) @ older) client request a" by (rule asked_grows [OF asked])
  then show ?thesis by (simp add: tr)
qed

lemma granted_grows:
  assumes "granted_in L S tr tok" "is_live tok' \<Longrightarrow> is_live tok \<and> \<not> revokes L S (tk_id tok) e"
    "tk_id tok' = tk_id tok" "tk_hash tok' = tk_hash tok" "tk_scope tok' = tk_scope tok" "tk_client_id tok' = tk_client_id tok"
    "tk_issued_at tok' = tk_issued_at tok" "tk_expires_at tok' = tk_expires_at tok"
  shows "granted_in L S (e # tr) tok'"
proof -
  obtain newer pre request t i older where tr: "tr = newer @ (pre, EToken request t (Inr (Inr i))) # older"
    "tk_hash tok = hash_token L (is_access_token i)" "tk_scope tok = Some (is_scope i)"
    "map_option trim (tr_client_id request) = Some (tk_client_id tok)" "tk_issued_at tok = t"
    "tk_expires_at tok = expires_at_for (is_scope i) t" "is_live tok \<longrightarrow> list_all (\<lambda>e. \<not> revokes L S (tk_id tok) e) newer"
    using assms(1) unfolding granted_in_def by blast
  then have "e # tr = (e # newer) @ (pre, EToken request t (Inr (Inr i))) # older"
    "is_live tok' \<longrightarrow> list_all (\<lambda>e. \<not> revokes L S (tk_id tok') e) (e # newer)" using assms(2,3) by auto
  then show ?thesis using tr(2-6) assms(4-8) unfolding granted_in_def by metis
qed

section \<open>What a state says of its past\<close>

text \<open>A stored ask is as it was asked, or has the code of its approval.\<close>

definition ask_past :: "'r oauth_lib \<Rightarrow> 'c consent \<Rightarrow> ('s, 'c, 'r) oauth_history \<Rightarrow> oauth_ask \<Rightarrow> bool" where
  "ask_past L C tr a \<longleftrightarrow> (\<exists>client request. asked_in tr client request a) \<or>
     (\<exists>client request a0 code t used. approved_in L C tr client request a0 code t \<and>
        a = a0\<lparr>ak_code := Some code, ak_code_issued_at := Some t, ak_code_used := used\<rparr>)"

lemma ask_past_grows: "ask_past L C tr a \<Longrightarrow> ask_past L C (e # tr) a"
  unfolding ask_past_def by (metis grows(2,3))

lemma ask_past_code:
  assumes "ask_past L C tr a" "ak_code a = Some code"
  obtains client request a0 t used where "approved_in L C tr client request a0 code t"
    "a = a0\<lparr>ak_code := Some code, ak_code_issued_at := Some t, ak_code_used := used\<rparr>"
proof -
  have "\<not> asked_in tr client request a" for client request
    using asked_fresh [of tr client request a] assms(2) by (auto simp: fresh_ask_def)
  then show ?thesis using assms that unfolding ask_past_def by auto
qed

lemma ask_past_no_code:
  assumes "ask_past L C tr a" "ak_code a = None"
  obtains client request where "asked_in tr client request a"
  using assms that unfolding ask_past_def by auto

lemma ask_past_uri:
  assumes "ask_past L C tr a"
  shows "\<exists>client. registered_in tr client \<and> ak_redirect_uri a \<in> set (cl_redirect_uris client)"
proof -
  have asked: "\<exists>client. registered_in tr client \<and> ak_redirect_uri b \<in> set (cl_redirect_uris client)"
    if "asked_in tr client request b" for client request b
    using asked_registered [OF that] asked_fresh [OF that] by (auto simp: fresh_ask_def)
  from assms show ?thesis unfolding ask_past_def
  proof (elim disjE exE conjE)
    fix client request
    assume "asked_in tr client request a"
    then show ?thesis by (rule asked)
  next
    fix client request a0 code t used
    assume "approved_in L C tr client request a0 code t" and a: "a = a0\<lparr>ak_code := Some code, ak_code_issued_at := Some t, ak_code_used := used\<rparr>"
    then have "\<exists>client. registered_in tr client \<and> ak_redirect_uri a0 \<in> set (cl_redirect_uris client)" by (intro asked [OF approved_asked])
    then show ?thesis by (simp add: a)
  qed
qed

definition past_ok :: "'r oauth_lib \<Rightarrow> 's oauth_store \<Rightarrow> 'c consent \<Rightarrow> (string \<Rightarrow> oauth_client option) \<Rightarrow> (string \<Rightarrow> oauth_ask option)
    \<Rightarrow> (string \<Rightarrow> oauth_token option) \<Rightarrow> ('s, 'c, 'r) oauth_history \<Rightarrow> bool" where
  "past_ok L S C cs as ts tr \<longleftrightarrow> (\<forall>i c. cs i = Some c \<longrightarrow> registered_in tr c) \<and> (\<forall>i a. as i = Some a \<longrightarrow> ask_past L C tr a) \<and>
     (\<forall>i t. ts i = Some t \<longrightarrow> granted_in L S tr t \<and> tk_id t = i)"

lemma past_okI:
  assumes "past_ok L S C cs as ts tr"
    "\<And>i c. cs' i = Some c \<Longrightarrow> cs i = Some c \<or> registered_in (e # tr) c"
    "\<And>i a. as' i = Some a \<Longrightarrow> as i = Some a \<or> ask_past L C (e # tr) a"
    "\<And>i t. ts' i = Some t \<Longrightarrow> (\<exists>t0. ts i = Some t0 \<and> (\<forall>b. granted_in L S b t0 \<longrightarrow> granted_in L S (e # b) t)) \<and> tk_id t = i \<or>
       granted_in L S (e # tr) t \<and> tk_id t = i"
  shows "past_ok L S C cs' as' ts' (e # tr)"
  using assms unfolding past_ok_def by (meson grows(1) ask_past_grows)

lemma granted_same: "\<not> revokes L S (tk_id t) e \<Longrightarrow> granted_in L S b t \<Longrightarrow> granted_in L S (e # b) t"
  by (erule granted_grows) simp_all

lemma registered_now:
  "cl_redirect_uris c = rg_redirect_uris registration \<Longrightarrow> list_all redirect_uri_is_allowed (cl_redirect_uris c) \<Longrightarrow>
   registered_in ((sv, ERegister registration now (Inr (Inr c))) # tr) c"
  unfolding registered_in_def by (intro exI conjI) (rule list.set_intros(1))

context oauth_store_contract
begin

abbreviation past :: "'r oauth_lib \<Rightarrow> 'c consent \<Rightarrow> ('s, 'c, 'r) oauth_history \<Rightarrow> ('s, 'c, 'r) oauth_server \<Rightarrow> bool" where
  "past L C tr sv \<equiv> past_ok L S C (clients (sv_store sv)) (asks (sv_store sv)) (tokens (sv_store sv)) tr"

lemma past_same_tokens:
  assumes "past L C tr sv" "\<And>i. \<not> revokes L S i e" "tokens (sv_store sv) i = Some t"
  shows "(\<exists>t0. tokens (sv_store sv) i = Some t0 \<and> (\<forall>b. granted_in L S b t0 \<longrightarrow> granted_in L S (e # b) t)) \<and> tk_id t = i \<or>
    granted_in L S (e # tr) t \<and> tk_id t = i"
  using assms granted_same [of L S t e] by (auto simp: past_ok_def)

lemma past_register:
  assumes "store_ok (sv_store sv)" "past L C tr sv" "register L S registration now sv = (sv', r)"
  shows "store_ok (sv_store sv') \<and> past L C ((sv, ERegister registration now r) # tr) sv'"
proof -
  note effect = register_effect [OF assms(1,3)]
  have "past L C ((sv, ERegister registration now r) # tr) sv'"
  proof (rule past_okI [OF assms(2)])
    fix i c
    assume c: "clients (sv_store sv') i = Some c"
    from effect consider "clients (sv_store sv') = clients (sv_store sv)"
      | d where "r = Inr (Inr d)" "clients (sv_store sv') = (clients (sv_store sv))(cl_id d \<mapsto> d)"
        "cl_redirect_uris d = rg_redirect_uris registration" "list_all redirect_uri_is_allowed (cl_redirect_uris d)" by blast
    then show "clients (sv_store sv) i = Some c \<or> registered_in ((sv, ERegister registration now r) # tr) c"
    proof cases
      case (2 d)
      have "registered_in ((sv, ERegister registration now r) # tr) d" unfolding 2(1) by (rule registered_now [OF 2(3,4)])
      then show ?thesis using c 2(2) by (auto split: if_splits)
    qed (use c in simp)
  qed (use effect past_same_tokens [OF assms(2)] in auto)
  then show ?thesis using effect by blast
qed

lemma past_authorize:
  assumes "store_ok (sv_store sv)" "past L C tr sv" "authorize L S C request issuer now sv = (sv', r)"
  shows "store_ok (sv_store sv') \<and> past L C ((sv, EAuthorize request issuer now r) # tr) sv'"
proof -
  note effect = authorize_effect [OF assms(1,3)]
  let ?e = "(sv, EAuthorize request issuer now r)"
  have "past L C (?e # tr) sv'"
  proof (rule past_okI [OF assms(2)])
    fix i a
    assume a: "asks (sv_store sv') i = Some a"
    from effect consider "asks (sv_store sv') = asks (sv_store sv)"
      | client b where "clients (sv_store sv) (cl_id client) = Some client" "fresh_ask request now client b"
        "asks (sv_store sv') = (asks (sv_store sv))(ak_id b \<mapsto> b)" by blast
    then show "asks (sv_store sv) i = Some a \<or> ask_past L C (?e # tr) a"
    proof cases
      case (2 client b)
      have "registered_in tr client" using assms(2) 2(1) by (auto simp: past_ok_def)
      then have "asked_in (?e # tr) client request b" using 2(2) unfolding asked_in_def by blast
      then show ?thesis using a 2(3) by (auto simp: ask_past_def split: if_splits)
    qed (use a in simp)
  qed (use effect past_same_tokens [OF assms(2)] in auto)
  then show ?thesis using effect by blast
qed

lemma past_progress:
  assumes "store_ok (sv_store sv)" "past L C tr sv" "progress L S C i now sv = (sv', r)"
  shows "store_ok (sv_store sv') \<and> past L C ((sv, EProgress i now r) # tr) sv'"
proof -
  note effect = progress_effect [OF assms(1,3)]
  let ?e = "(sv, EProgress i now r)"
  have "past L C (?e # tr) sv'"
  proof (rule past_okI [OF assms(2)])
    fix j a
    assume a: "asks (sv_store sv') j = Some a"
    from effect consider "asks (sv_store sv') = asks (sv_store sv)"
      | b url where "asks (sv_store sv) i = Some b" "\<not> ak_code_used b" "ak_code b = None" "now - ak_asked_at b \<le> ASK_TTL_SECS"
       "snd (cn_answer C b (sv_consent sv)) = Inr Approved" "r = Inr (PRedirect url)"
       "asks (sv_store sv') = (asks (sv_store sv))(i \<mapsto>
         b\<lparr>ak_code := Some (snd (random_hex L 24 (sv_rng sv))), ak_code_issued_at := Some now\<rparr>)" by blast
    then show "asks (sv_store sv) j = Some a \<or> ask_past L C (?e # tr) a"
    proof cases
      case (2 b url)
      let ?code = "snd (random_hex L 24 (sv_rng sv))"
      have "ask_past L C tr b" using assms(2) 2(1) by (auto simp: past_ok_def)
      then obtain client request where "asked_in tr client request b" using 2(3) by (rule ask_past_no_code)
      moreover have "ak_id b = i" by (rule filed(2) [OF assms(1) 2(1)])
      ultimately have "approved_in L C (?e # tr) client request b ?code now"
        using 2(4,5,6) unfolding approved_in_def by (metis append_Nil)
      moreover have "b\<lparr>ak_code := Some ?code, ak_code_issued_at := Some now\<rparr> =
          b\<lparr>ak_code := Some ?code, ak_code_issued_at := Some now, ak_code_used := False\<rparr>" using 2(2) by (cases b) simp
      ultimately have "ask_past L C (?e # tr) (b\<lparr>ak_code := Some ?code, ak_code_issued_at := Some now\<rparr>)"
        unfolding ask_past_def by metis
      then show ?thesis using a 2(7) by (auto split: if_splits)
    qed (use a in simp)
  qed (use effect past_same_tokens [OF assms(2)] in auto)
  then show ?thesis using effect by blast
qed

lemma past_token:
  assumes "store_ok (sv_store sv)" "past L C tr sv" "token L S request now sv = (sv', r)"
  shows "store_ok (sv_store sv') \<and> past L C ((sv, EToken request now r) # tr) sv'"
proof -
  note effect = token_effect [OF assms(1,3)]
  let ?e = "(sv, EToken request now r)"
  have ok: "store_ok (sv_store sv')" and same: "clients (sv_store sv') = clients (sv_store sv)" using effect by auto
  have old: "(\<exists>t0. tokens (sv_store sv) i = Some t0 \<and> (\<forall>b. granted_in L S b t0 \<longrightarrow> granted_in L S (?e # b) t)) \<and> tk_id t = i \<or>
      granted_in L S (?e # tr) t \<and> tk_id t = i" if "tokens (sv_store sv) i = Some t" for i t
    by (rule past_same_tokens [OF assms(2) _ that]) simp
  from effect consider "asks (sv_store sv') = asks (sv_store sv)" "tokens (sv_store sv') = tokens (sv_store sv)"
    | i a code where "asks (sv_store sv) i = Some a" "ak_code a = Some code"
       "asks (sv_store sv') = (asks (sv_store sv))(i \<mapsto> a\<lparr>ak_code_used := True\<rparr>)"
       "tokens (sv_store sv') = tokens (sv_store sv) \<or>
        (\<exists>iss t. r = Inr (Inr iss) \<and> redeemable L request now a \<and> fresh_token L a now iss t \<and>
          tokens (sv_store sv) (tk_id t) = None \<and> tokens (sv_store sv') = (tokens (sv_store sv))(tk_id t \<mapsto> t))" by blast
  then have "past L C (?e # tr) sv'"
  proof cases
    case 1
    show ?thesis by (rule past_okI [OF assms(2)]) (use same 1 old in auto)
  next
    case (2 i a code)
    have "ask_past L C tr a" using assms(2) 2(1) by (auto simp: past_ok_def)
    then obtain client req a0 t used where approved: "approved_in L C tr client req a0 code t"
      "a = a0\<lparr>ak_code := Some code, ak_code_issued_at := Some t, ak_code_used := used\<rparr>" using 2(2) by (rule ask_past_code)
    then have "a\<lparr>ak_code_used := True\<rparr> = a0\<lparr>ak_code := Some code, ak_code_issued_at := Some t, ak_code_used := True\<rparr>" by simp
    moreover have "approved_in L C (?e # tr) client req a0 code t" by (rule grows(3) [OF approved(1)])
    ultimately have asked: "ask_past L C (?e # tr) (a\<lparr>ak_code_used := True\<rparr>)" unfolding ask_past_def by metis
    show ?thesis
    proof (rule past_okI [OF assms(2)])
      fix j b
      assume "asks (sv_store sv') j = Some b"
      then show "asks (sv_store sv) j = Some b \<or> ask_past L C (?e # tr) b" using asked 2(3) by (auto split: if_splits)
    next
      fix j t
      assume t: "tokens (sv_store sv') j = Some t"
      from 2(4) consider "tokens (sv_store sv) j = Some t"
        | iss where "r = Inr (Inr iss)" "redeemable L request now a" "fresh_token L a now iss t" "j = tk_id t"
        using t by (auto split: if_splits)
      then show "(\<exists>t0. tokens (sv_store sv) j = Some t0 \<and> (\<forall>b. granted_in L S b t0 \<longrightarrow> granted_in L S (?e # b) t)) \<and> tk_id t = j \<or>
          granted_in L S (?e # tr) t \<and> tk_id t = j"
      proof cases
        case 1
        then show ?thesis by (rule old)
      next
        case (2 iss)
        have "granted_in L S ([] @ (sv, EToken request now (Inr (Inr iss))) # tr) t"
          unfolding granted_in_def
          by (rule exI [of _ "[]"], rule exI [of _ sv], rule exI [of _ request], rule exI [of _ now], rule exI [of _ iss], rule exI [of _ tr])
            (use 2 in \<open>auto simp: redeemable_def fresh_token_def\<close>)
        then show ?thesis using 2 by simp
      qed
    qed (use same in auto)
  qed
  then show ?thesis using ok by blast
qed

lemma past_revoke:
  assumes "store_ok (sv_store sv)" "past L C tr sv" "revoke L S bearer now sv = (sv', r)"
  shows "store_ok (sv_store sv') \<and> past L C ((sv, ERevoke bearer now r) # tr) sv'"
proof -
  note effect = revoke_effect [OF assms(1,3)]
  let ?e = "(sv, ERevoke bearer now r)"
  let ?found = "snd (so_token_by_hash S (hash_token L (trim bearer)) (sv_store sv))"
  have hits: "revokes L S i ?e \<longleftrightarrow> r = Inr () \<and> (\<exists>t. ?found = Inr (Some t) \<and> tk_id t = i)" for i
    by (cases r) (auto split: sum.splits option.splits)
  have "past L C (?e # tr) sv'"
  proof (rule past_okI [OF assms(2)])
    fix i t
    assume t: "tokens (sv_store sv') i = Some t"
    from effect consider "tokens (sv_store sv') = tokens (sv_store sv)" "r = Inr () \<longrightarrow> ?found = Inr None"
      | h where "?found = Inr (Some h)" "tokens (sv_store sv) (tk_id h) = Some h"
        "tokens (sv_store sv') = (tokens (sv_store sv))(tk_id h \<mapsto> (if is_live h then h\<lparr>tk_revoked_at := Some now\<rparr> else h))" by blast
    then show "(\<exists>t0. tokens (sv_store sv) i = Some t0 \<and> (\<forall>b. granted_in L S b t0 \<longrightarrow> granted_in L S (?e # b) t)) \<and> tk_id t = i \<or>
        granted_in L S (?e # tr) t \<and> tk_id t = i"
    proof cases
      case 1
      have "\<not> revokes L S j ?e" for j unfolding hits using 1(2) by auto
      then show ?thesis using t 1(1) by (intro past_same_tokens [OF assms(2)]) simp_all
    next
      case (2 h)
      show ?thesis
      proof (cases "i = tk_id h")
        case True
        then have t': "t = (if is_live h then h\<lparr>tk_revoked_at := Some now\<rparr> else h)" using t 2(3) by simp
        then have "granted_in L S b h \<longrightarrow> granted_in L S (?e # b) t" for b by (auto intro!: granted_grows [of L S b h] simp: is_live_def)
        moreover have "tk_id t = i" using t' True by simp
        ultimately show ?thesis using True 2(2) by (intro disjI1 conjI exI [of _ h]) auto
      next
        case False
        then have held: "tokens (sv_store sv) i = Some t" using t 2(3) by simp
        have i: "tk_id t = i" by (rule filed(3) [OF assms(1) held])
        have "\<not> revokes L S (tk_id t) ?e" unfolding hits i using 2(1) False by auto
        then show ?thesis using held i granted_same [of L S t ?e] by blast
      qed
    qed
  qed (use effect in auto)
  then show ?thesis using effect by blast
qed

lemma past_admit:
  assumes "store_ok (sv_store sv)" "past L C tr sv" "oauth_admit L S bearer now sv = (sv', r)"
  shows "store_ok (sv_store sv') \<and> past L C ((sv, EAdmit bearer now r) # tr) sv'"
proof -
  note effect = admit_effect [OF assms(1,3)]
  let ?e = "(sv, EAdmit bearer now r)"
  have "past L C (?e # tr) sv'"
  proof (rule past_okI [OF assms(2)])
    fix i t
    assume t: "tokens (sv_store sv') i = Some t"
    from effect consider "tokens (sv_store sv) i = Some t"
      | h where "tokens (sv_store sv) i = Some h" "is_live h" "t = h\<lparr>tk_last_used_at := Some now\<rparr>"
      using t by (auto split: if_splits)
    then show "(\<exists>t0. tokens (sv_store sv) i = Some t0 \<and> (\<forall>b. granted_in L S b t0 \<longrightarrow> granted_in L S (?e # b) t)) \<and> tk_id t = i \<or>
        granted_in L S (?e # tr) t \<and> tk_id t = i"
    proof cases
      case 1
      then show ?thesis by (intro past_same_tokens [OF assms(2)]) simp_all
    next
      case (2 h)
      have "granted_in L S b h \<longrightarrow> granted_in L S (?e # b) t" for b
        unfolding 2(3) by (auto intro!: granted_grows [of L S b h] simp: is_live_def)
      moreover have "tk_id t = i" using filed(3) [OF assms(1) 2(1)] by (simp add: 2(3))
      ultimately show ?thesis using 2(1) by blast
    qed
  qed (use effect in auto)
  then show ?thesis using effect by blast
qed

lemma past_step:
  assumes ok: "store_ok (sv_store sv)" and past: "past L C tr sv" and step: "oauth_step L S C sv ev sv'"
  shows "store_ok (sv_store sv') \<and> past L C ((sv, ev) # tr) sv'"
  using step
proof cases
  case (registering registration now r)
  then show ?thesis using past_register [OF ok past] by simp
next
  case (authorizing request issuer now r)
  then show ?thesis using past_authorize [OF ok past] by simp
next
  case (polling i now p)
  then show ?thesis using past_progress [OF ok past] by simp
next
  case (exchanging exchange now q)
  then show ?thesis using past_token [OF ok past] by simp
next
  case (revoking bearer now u)
  then show ?thesis using past_revoke [OF ok past] by simp
next
  case (admitting bearer now t)
  then show ?thesis using past_admit [OF ok past] by simp
next
  case (register_limiting source now b)
  then have "sv_store sv' = sv_store sv" by (auto simp: may_register_def split: prod.splits)
  then show ?thesis using ok past_okI [OF past, of _ "(sv, ev)"] past_same_tokens [OF past, of "(sv, ev)"] register_limiting by simp
next
  case (ask_limiting source now b)
  then have "sv_store sv' = sv_store sv" by (auto simp: may_ask_def split: prod.splits)
  then show ?thesis using ok past_okI [OF past, of _ "(sv, ev)"] past_same_tokens [OF past, of "(sv, ev)"] ask_limiting by simp
qed

lemma past_trace:
  assumes "oauth_trace L S C sv0 tr sv" "store_ok (sv_store sv0)" "past L C [] sv0"
  shows "store_ok (sv_store sv) \<and> past L C tr sv"
  using assms(1) by induction (use assms(2,3) past_step in blast)+

end

end
