(* ===== verification/OAuthProps.thy ===== *)
theory OAuthProps
  imports OAuthTrace
begin

text \<open>
  What the authorization server guarantees over every history of its in-memory store: where it sends a
  browser, what a grant goes back to, how often a code is good, and which bearers it admits.
\<close>

section \<open>Redirects\<close>

lemma rsplit_once_Some:
  "rsplit_once ch s = Some (a, b) \<Longrightarrow> s = a @ [ch] @ b \<and> ch \<notin> set b"
proof -
  assume split: "rsplit_once ch s = Some (a, b)"
  let ?d = "dropWhile (\<lambda>x. x \<noteq> ch) (rev s)"
  have ch: "ch \<in> set s" and ab: "a = rev (tl ?d)" "b = rev (takeWhile (\<lambda>x. x \<noteq> ch) (rev s))"
    using split by (auto simp: rsplit_once_def split: if_splits)
  have d: "?d \<noteq> []" using ch by (auto simp: dropWhile_eq_Nil_conv)
  then have "hd ?d = ch" using hd_dropWhile [OF d] by simp
  then have "?d = ch # tl ?d" using d by (cases ?d) auto
  then have "rev s = takeWhile (\<lambda>x. x \<noteq> ch) (rev s) @ ch # tl ?d" by (metis takeWhile_dropWhile_id)
  then have "s = rev (takeWhile (\<lambda>x. x \<noteq> ch) (rev s) @ ch # tl ?d)" by (metis rev_rev_ident)
  then have "s = a @ [ch] @ b" unfolding ab by simp
  moreover have "ch \<notin> set b" unfolding ab using set_takeWhileD by fastforce
  ultimately show ?thesis by simp
qed

lemma rsplit_once_None: "rsplit_once ch s = None \<longleftrightarrow> ch \<notin> set s"
  by (simp add: rsplit_once_def)

lemma strip_prefix_Some: "strip_prefix p s = Some r \<longleftrightarrow> s = p @ r"
  unfolding strip_prefix_def by (metis append_eq_conv_conj append_take_drop_id option.distinct(1) option.inject)

lemma allowed_origin:
  assumes "redirect_uri_is_allowed uri"
  shows "(\<exists>rest. uri = ''https://'' @ rest) \<or> redirect_origin uri = ''this machine''"
proof (cases "strip_prefix ''https://'' uri")
  case (Some rest)
  then have "uri = ''https://'' @ rest" by (simp only: strip_prefix_Some)
  then show ?thesis by blast
next
  case None
  then obtain rest where rest: "strip_prefix ''http://'' uri = Some rest"
    using assms by (auto simp: redirect_uri_is_allowed_def split: if_splits option.splits)
  have hash: "CHR ''#'' \<notin> set uri" using assms by (auto simp: redirect_uri_is_allowed_def split: if_splits)
  then have "CHR ''#'' \<notin> set rest" using rest by (auto simp: strip_prefix_def split: if_splits dest: in_set_dropD)
  then have piece: "first_piece ''/?#'' rest = first_piece ''/?'' rest"
    unfolding first_piece_def by (intro takeWhile_cong) auto
  define authority where "authority = first_piece ''/?'' rest"
  define host where "host = (case rsplit_once (CHR '':'') authority of
      Some (host, port) \<Rightarrow> if list_all is_ascii_digit port then host else authority | None \<Rightarrow> authority)"
  have loopback: "host \<in> set LOOPBACK"
    using assms hash unfolding redirect_uri_is_allowed_def None rest Let_def host_def authority_def by (simp split: if_splits)
  have at: "CHR ''@'' \<notin> set authority"
  proof -
    have no: "CHR ''@'' \<notin> set host" using loopback by (auto simp: LOOPBACK_def)
    show ?thesis
    proof (cases "rsplit_once (CHR '':'') authority")
      case (Some p)
      obtain h port where p: "p = (h, port)" by (cases p)
      have "authority = h @ '':'' @ port" using rsplit_once_Some [OF Some [unfolded p]] by simp
      moreover have "CHR ''@'' \<notin> set port" if "list_all is_ascii_digit port" using that by (auto simp: list_all_iff is_ascii_digit_def less_eq_char_def)
      ultimately show ?thesis using no unfolding host_def Some p by (auto split: if_splits)
    qed (use no host_def in simp)
  qed
  have "redirect_origin uri = (if host \<in> set LOOPBACK then ''this machine'' else to_lowercase host)"
    unfolding redirect_origin_def None rest Let_def option.case piece authority_def [symmetric] rsplit_once_None [THEN iffD2, OF at] host_def [symmetric] by simp
  then show ?thesis using loopback by simp
qed

section \<open>Counting codes\<close>

definition unused :: "string \<Rightarrow> (string \<Rightarrow> oauth_ask option) \<Rightarrow> string set" where
  "unused code as = {i. \<exists>a. as i = Some a \<and> ak_code a = Some code \<and> \<not> ak_code_used a}"

definition tally :: "('e \<Rightarrow> bool) \<Rightarrow> 'e list \<Rightarrow> nat" where
  "tally P es = length (filter P es)"

lemma tally_Cons [simp]: "tally P [] = 0" "tally P (e # es) = (if P e then 1 else 0) + tally P es"
  by (simp_all add: tally_def)

lemma unused_update:
  "unused code (as(i \<mapsto> a)) = (if ak_code a = Some code \<and> \<not> ak_code_used a then insert i (unused code as) else unused code as - {i})"
  by (auto simp: unused_def)

lemma finite_unused: "finite (dom as) \<Longrightarrow> finite (unused code as)"
  by (rule finite_subset [of _ "dom as"]) (auto simp: unused_def)

context oauth_store_contract
begin

lemma redirects_step:
  assumes "store_ok (sv_store sv)" "past_ok L S C (clients (sv_store sv)) (asks (sv_store sv)) (tokens (sv_store sv)) tr"
    "oauth_step L S C sv ev sv'" "sends_to ev = Some url"
  shows "\<exists>client uri params. registered_in tr client \<and> uri \<in> set (cl_redirect_uris client) \<and> url = redirect_with L uri params"
  using assms(3)
proof cases
  case (authorizing request issuer now r)
  have "r = Inr (Inl (Redirect url))" using assms(4) unfolding authorizing(1) by (cases rule: sends_to.cases [of ev]) (auto simp: authorizing(1))
  then obtain client uri params where "clients (sv_store sv) (cl_id client) = Some client" "uri \<in> set (cl_redirect_uris client)"
    "url = redirect_with L uri params" using authorize_effect [OF assms(1) authorizing(2)] by blast
  then show ?thesis using assms(2) unfolding past_ok_def by blast
next
  case (polling i now p)
  have "p = Inr (PRedirect url) \<or> p = Inr (PDenied url)" using assms(4) unfolding polling(1) by (cases rule: sends_to.cases [of ev]) (auto simp: polling(1))
  then obtain a params where a: "asks (sv_store sv) i = Some a" "url = redirect_with L (ak_redirect_uri a) params"
    using progress_effect [OF assms(1) polling(2)] by blast
  have "ask_past L C tr a" using assms(2) a(1) unfolding past_ok_def by blast
  then show ?thesis using ask_past_uri [of L C tr a] a(2) by blast
qed (use assms(4) in auto)

lemma redirects_trace:
  assumes "oauth_trace L S C sv0 tr sv" "store_ok (sv_store sv0)" "past_ok L S C (clients (sv_store sv0)) (asks (sv_store sv0)) (tokens (sv_store sv0)) []"
    "(pre, ev) \<in> set tr" "sends_to ev = Some url"
  shows "\<exists>client uri params. registered_in tr client \<and> uri \<in> set (cl_redirect_uris client) \<and> url = redirect_with L uri params"
  using assms(1,4)
proof induction
  case (extended tr sv ev' sv')
  have state: "store_ok (sv_store sv) \<and> past_ok L S C (clients (sv_store sv)) (asks (sv_store sv)) (tokens (sv_store sv)) tr"
    by (rule past_trace [OF extended.hyps(1) assms(2,3)])
  have "\<exists>client uri params. registered_in tr client \<and> uri \<in> set (cl_redirect_uris client) \<and> url = redirect_with L uri params"
  proof (cases "(pre, ev) \<in> set tr")
    case False
    then have "oauth_step L S C sv ev sv'" using extended by auto
    then show ?thesis using state assms(5) by (intro redirects_step [of sv L C tr ev sv' url]) simp_all
  qed (rule extended.IH)
  then show ?case by (metis grows(1))
qed simp

lemma codes_step:
  assumes ok: "store_ok (sv_store sv)" and step: "oauth_step L S C sv ev sv'"
  shows "card (unused code (asks (sv_store sv'))) + (if grants code (sv, ev) then 1 else 0) \<le>
    card (unused code (asks (sv_store sv))) + (if mints L S code (sv, ev) then 1 else 0)"
proof -
  let ?as = "asks (sv_store sv)" and ?bs = "asks (sv_store sv')"
  have fin: "finite (unused code ?as)" by (rule finite_unused [OF finite_asks [OF ok]])
  have less: "card (unused code ?as - {i}) \<le> card (unused code ?as)" for i by (rule card_mono [OF fin]) auto
  show ?thesis using step
  proof cases
    case (authorizing request issuer now r)
    have "?bs = ?as \<or> (\<exists>client a. fresh_ask request now client a \<and> ?bs = ?as(ak_id a \<mapsto> a))"
      using authorize_effect [OF ok authorizing(2)] by blast
    then have "?bs = ?as \<or> (\<exists>i. unused code ?bs = unused code ?as - {i})"
      by (auto simp: unused_update fresh_ask_def)
    then show ?thesis using less by (auto simp: authorizing(1))
  next
    case (polling i now p)
    have "?bs = ?as \<or> (\<exists>a url. snd (so_ask S i (sv_store sv)) = Inr (Some a) \<and> ak_code a = None \<and> p = Inr (PRedirect url) \<and>
        ?bs = ?as(i \<mapsto> a\<lparr>ak_code := Some (snd (random_hex L 24 (sv_rng sv))), ak_code_issued_at := Some now\<rparr>))"
      using progress_effect [OF ok polling(2)] by blast
    then show ?thesis
    proof (elim disjE exE conjE)
      fix a url
      assume found: "snd (so_ask S i (sv_store sv)) = Inr (Some a)" "ak_code a = None" "p = Inr (PRedirect url)"
        and bs: "?bs = ?as(i \<mapsto> a\<lparr>ak_code := Some (snd (random_hex L 24 (sv_rng sv))), ak_code_issued_at := Some now\<rparr>)"
      show ?thesis
      proof (cases "snd (random_hex L 24 (sv_rng sv)) = code")
        case True
        then have "mints L S code (sv, ev)" using found by (simp add: polling(1))
        moreover have "card (unused code ?bs) \<le> card (insert i (unused code ?as))"
          unfolding bs unused_update by (rule card_mono) (use fin in auto)
        moreover have "card (insert i (unused code ?as)) \<le> Suc (card (unused code ?as))" using fin by (simp add: card_insert_if)
        ultimately show ?thesis by (simp add: polling(1))
      next
        case False
        then have "unused code ?bs = unused code ?as - {i}" unfolding bs unused_update by simp
        then show ?thesis using less [of i] by (simp add: polling(1))
      qed
    qed (simp add: polling(1))
  next
    case (exchanging request now q)
    from token_effect [OF ok exchanging(2)] consider "?bs = ?as" "\<forall>iss. q \<noteq> Inr (Inr iss)"
      | i a c where "nonempty (tr_code request) = Some c" "?as i = Some a" "\<not> ak_code_used a" "ak_code a = Some c"
        "?bs = ?as(i \<mapsto> a\<lparr>ak_code_used := True\<rparr>)" by blast
    then show ?thesis
    proof cases
      case 1
      then have "\<not> grants code (sv, ev)" unfolding exchanging(1) by (cases q; cases "projr q") auto
      then show ?thesis using 1(1) by (simp add: exchanging(1))
    next
      case (2 i a c)
      have bs: "unused code ?bs = unused code ?as - {i}" unfolding 2(5) unused_update by simp
      show ?thesis
      proof (cases "c = code")
        case True
        then have "i \<in> unused code ?as" using 2(2-4) by (auto simp: unused_def)
        then have "Suc (card (unused code ?bs)) = card (unused code ?as)" unfolding bs using fin by (metis card_Suc_Diff1)
        then show ?thesis by (simp add: exchanging(1))
      next
        case False
        then have "\<not> grants code (sv, ev)" unfolding exchanging(1) using 2(1) by (cases q; cases "projr q") auto
        then show ?thesis using less [of i] by (simp add: bs exchanging(1))
      qed
    qed
  next
    case (registering registration now r)
    then show ?thesis using register_effect [OF ok registering(2)] by simp
  next
    case (revoking bearer now u)
    then show ?thesis using revoke_effect [OF ok revoking(2)] by (cases u) simp_all
  next
    case (admitting bearer now t)
    then show ?thesis using admit_effect [OF ok admitting(2)] by simp
  qed (auto simp: may_register_def may_ask_def split: prod.splits)
qed

lemma codes_trace:
  assumes "oauth_trace L S C sv0 tr sv" "store_ok (sv_store sv0)" "past_ok L S C (clients (sv_store sv0)) (asks (sv_store sv0)) (tokens (sv_store sv0)) []"
    "unused code (asks (sv_store sv0)) = {}"
  shows "card (unused code (asks (sv_store sv))) + tally (grants code) tr \<le> tally (mints L S code) tr"
  using assms(1)
proof induction
  case started
  then show ?case using assms(4) by simp
next
  case (extended tr sv ev sv')
  have "store_ok (sv_store sv)" using past_trace [OF extended.hyps(1) assms(2,3)] by blast
  then show ?case using codes_step [OF _ extended.hyps(2), of code] extended.IH by fastforce
qed

end

section \<open>An example history\<close>

text \<open>
  Libraries for examples: the digest and the encodings keep their input, and the random source counts. One
  client registers, asks and polls; the person approves; the code is exchanged.
\<close>

definition demo_lib :: "nat oauth_lib" where
  "demo_lib = \<lparr>ol_sha256 = (\<lambda>x. x), ol_b64url = map (\<lambda>b. char_of (unat b)), ol_percent = (\<lambda>_ s. s),
     ol_fill_bytes = (\<lambda>r n. (Suc r, replicate n (of_nat r)))\<rparr>"

abbreviation demo_start :: "(memory_store, answer, nat) oauth_server" where
  "demo_start \<equiv> Server_new MemoryStore_new Approved 0"

definition demo_registration :: registration where
  "demo_registration = \<lparr>rg_client_name = Some ''App'', rg_redirect_uris = [''https://app.example/cb'']\<rparr>"

definition demo_hex :: "nat \<Rightarrow> nat \<Rightarrow> string" where
  "demo_hex n r = encode_hex (replicate n (of_nat r))"

definition demo_authorize :: authorize_request where
  "demo_authorize = \<lparr>az_response_type = Some ''code'', az_client_id = Some (demo_hex 16 0),
     az_redirect_uri = Some ''https://app.example/cb'', az_scope = Some ''mail threads'', az_state = Some ''s'',
     az_code_challenge = Some (replicate 43 (CHR ''a'')), az_code_challenge_method = None\<rparr>"

definition demo_exchange :: token_request where
  "demo_exchange = \<lparr>tr_grant_type = Some ''authorization_code'', tr_code = Some (demo_hex 24 2),
     tr_redirect_uri = Some ''https://app.example/cb'', tr_client_id = Some (demo_hex 16 0),
     tr_code_verifier = Some (replicate 43 (CHR ''a''))\<rparr>"

definition demo_register_call where
  "demo_register_call = register demo_lib memory_impl demo_registration 0 demo_start"

definition demo_authorize_call where
  "demo_authorize_call = authorize demo_lib memory_impl Always demo_authorize ''https://me.proxy.ing/'' 10 (fst demo_register_call)"

definition demo_progress_call where
  "demo_progress_call = progress demo_lib memory_impl Always (demo_hex 16 1) 20 (fst demo_authorize_call)"

definition demo_token_call where
  "demo_token_call = token demo_lib memory_impl demo_exchange 30 (fst demo_progress_call)"

definition demo_history :: "(memory_store, answer, nat) oauth_history" where
  "demo_history =
     [(fst demo_authorize_call, EProgress (demo_hex 16 1) 20 (snd demo_progress_call)),
      (fst demo_register_call, EAuthorize demo_authorize ''https://me.proxy.ing/'' 10 (snd demo_authorize_call)),
      (demo_start, ERegister demo_registration 0 (snd demo_register_call))]"

lemma demo_trace: "oauth_trace demo_lib memory_impl Always demo_start demo_history (fst demo_progress_call)"
  unfolding demo_history_def
  by (intro oauth_trace.intros oauth_step.intros)
    (simp_all add: demo_register_call_def demo_authorize_call_def demo_progress_call_def)

definition demo_client :: oauth_client where
  "demo_client = \<lparr>cl_id = demo_hex 16 0, cl_name = ''App'', cl_redirect_uris = [''https://app.example/cb''], cl_registered_at = 0\<rparr>"

definition demo_ask :: oauth_ask where
  "demo_ask = \<lparr>ak_id = demo_hex 16 1, ak_client_id = demo_hex 16 0, ak_client_name = ''App'', ak_issuer = ''https://me.proxy.ing'',
     ak_redirect_uri = ''https://app.example/cb'', ak_scope = Some ''threads mail'', ak_state = Some ''s'',
     ak_code_challenge = replicate 43 (CHR ''a''), ak_asked_at = 10, ak_code = None, ak_code_issued_at = None, ak_code_used = False\<rparr>"

definition demo_issued :: issued where
  "demo_issued = \<lparr>is_access_token = demo_hex 32 3, is_token_type = ''Bearer'', is_expires_in = Some TOKEN_TTL_SECS, is_scope = ''threads mail''\<rparr>"

lemma demo_draw: "random_hex demo_lib n r = (Suc r, demo_hex n r)"
  by (simp add: random_hex_def demo_lib_def demo_hex_def)

lemma demo_strings:
  "nonempty (Some ''App'') = Some ''App''" "nonempty (Some (demo_hex 16 0)) = Some (demo_hex 16 0)"
  "nonempty (Some (demo_hex 24 2)) = Some (demo_hex 24 2)" "trim (demo_hex 16 0) = demo_hex 16 0"
  "nonempty (Some ''https://app.example/cb'') = Some ''https://app.example/cb''" "trim ''https://app.example/cb'' = ''https://app.example/cb''"
  "trim ''code'' = ''code''" "trim ''authorization_code'' = ''authorization_code''"
  "trim (replicate 43 (CHR ''a'')) = replicate 43 (CHR ''a'')" "nonempty (Some (replicate 43 (CHR ''a''))) = Some (replicate 43 (CHR ''a''))"
  "redirect_uri_is_allowed ''https://app.example/cb''" "normalize_scope (Some ''mail threads'') = Inr ''threads mail''"
  "code_challenge_is_well_formed (replicate 43 (CHR ''a''))" "pkce_matches demo_lib (replicate 43 (CHR ''a'')) (replicate 43 (CHR ''a''))"
  "trim (demo_hex 32 3) = demo_hex 32 3" "demo_hex 32 3 \<noteq> []"
  "trim_end_matches (CHR ''/'') ''https://me.proxy.ing/'' = ''https://me.proxy.ing''" "scope_is_purpose_only ''threads mail'' = False"
  by code_simp+

lemmas demo_calls = then_do.simps on_store_def on_consent_def draw_def demo_draw demo_strings memory_impl_def Always_def Let_def

lemma demo_register: "demo_register_call = (demo_start\<lparr>sv_store := MemoryStore_new\<lparr>ms_clients := [(demo_hex 16 0, demo_client)]\<rparr>, sv_rng := 1\<rparr>, Inr (Inr demo_client))"
  unfolding demo_register_call_def register_def demo_registration_def
  by (simp add: demo_calls ms_put_client_def Server_new_def MemoryStore_new_def demo_client_def)

lemma demo_authorized: "demo_authorize_call = (demo_start\<lparr>sv_store := MemoryStore_new\<lparr>ms_clients := [(demo_hex 16 0, demo_client)],
    ms_asks := [(demo_hex 16 1, demo_ask)]\<rparr>, sv_rng := 2\<rparr>, Inr (Inr demo_ask))"
  unfolding demo_authorize_call_def demo_register authorize_def demo_authorize_def authorize_client_def
  by (simp add: demo_calls ms_client_def ms_put_ask_def Server_new_def MemoryStore_new_def demo_client_def demo_ask_def)

lemma demo_progressed: "demo_progress_call = (demo_start\<lparr>sv_store := MemoryStore_new\<lparr>ms_clients := [(demo_hex 16 0, demo_client)],
    ms_asks := [(demo_hex 16 1, demo_ask\<lparr>ak_code := Some (demo_hex 24 2), ak_code_issued_at := Some 20\<rparr>)]\<rparr>, sv_rng := 3\<rparr>,
    Inr (PRedirect (approved_redirect demo_lib demo_ask (demo_hex 24 2))))"
  unfolding demo_progress_call_def demo_authorized progress_def
  by (simp add: demo_calls ms_ask_def ms_mint_code_def Server_new_def MemoryStore_new_def demo_ask_def code_is_fresh_def ASK_TTL_SECS_def approved_redirect_def)

definition demo_bearer :: oauth_token where
  "demo_bearer = \<lparr>tk_id = demo_hex 16 4, tk_client_id = demo_hex 16 0, tk_client_name = ''App'', tk_hash = hash_token demo_lib (demo_hex 32 3),
     tk_scope = Some ''threads mail'', tk_issued_at = 30, tk_expires_at = 30 + TOKEN_TTL_SECS, tk_last_used_at = None, tk_revoked_at = None\<rparr>"

lemma demo_tokened: "demo_token_call = (demo_start\<lparr>sv_store := MemoryStore_new\<lparr>ms_clients := [(demo_hex 16 0, demo_client)],
    ms_asks := [(demo_hex 16 1, demo_ask\<lparr>ak_code := Some (demo_hex 24 2), ak_code_issued_at := Some 20, ak_code_used := True\<rparr>)],
    ms_tokens := [(demo_hex 16 4, demo_bearer)]\<rparr>, sv_rng := 5\<rparr>, Inr (Inr demo_issued))"
  unfolding demo_token_call_def demo_progressed token_def demo_exchange_def grant_def
  by (simp add: demo_calls ms_redeem_code_def ms_put_token_def Server_new_def MemoryStore_new_def demo_ask_def code_is_fresh_def CODE_TTL_SECS_def
    demo_issued_def demo_bearer_def runs_out_def expires_at_for_def NO_EXPIRY_def TOKEN_TTL_SECS_def)

lemma demo_token: "token demo_lib memory_impl demo_exchange 30 (fst demo_progress_call) = (fst demo_token_call, Inr (Inr demo_issued))"
  using demo_tokened by (simp add: demo_token_call_def)

lemma demo_admit:
  "oauth_admit demo_lib memory_impl (demo_hex 32 3) 40 (fst demo_token_call) =
    (fst (oauth_admit demo_lib memory_impl (demo_hex 32 3) 40 (fst demo_token_call)), Inr (Some (demo_bearer\<lparr>tk_last_used_at := Some 40\<rparr>)))"
  unfolding demo_tokened oauth_admit_def
  by (simp add: demo_calls ms_token_by_hash_def ms_touch_token_def demo_bearer_def is_live_at_def is_live_def Server_new_def MemoryStore_new_def TOKEN_TTL_SECS_def)

lemma demo_trace_token:
  "oauth_trace demo_lib memory_impl Always demo_start
     ((fst demo_progress_call, EToken demo_exchange 30 (Inr (Inr demo_issued))) # demo_history) (fst demo_token_call)"
  by (rule oauth_trace.extended [OF demo_trace oauth_step.exchanging [OF demo_token]])

lemma start_ok:
  "memory_ok (sv_store (Server_new MemoryStore_new c rng))"
  "past_ok L memory_impl C (map_of (ms_clients (sv_store (Server_new MemoryStore_new c rng))))
     (map_of (ms_asks (sv_store (Server_new MemoryStore_new c rng)))) (map_of (ms_tokens (sv_store (Server_new MemoryStore_new c rng)))) []"
  "unused code (map_of (ms_asks (sv_store (Server_new MemoryStore_new c rng)))) = {}"
  by (simp_all add: Server_new_def MemoryStore_new_def memory_ok_def past_ok_def filed_under_def unused_def)

section \<open>Properties\<close>

text \<open>
  C16: Over every history of the server, a token is granted only for the code of an ask that a registered client
  opened with this redirect URI and a PKCE challenge, and that the person approved when the client polled, no
  later than the ask's lifetime; the exchange comes within the code's lifetime, names the same client and
  redirect URI, and has the verifier of the challenge; the token's scope is the normal form of the one asked for.
\<close>

theorem token_grant_authentic:
  assumes "oauth_trace L memory_impl C (Server_new MemoryStore_new c rng) tr sv"
    and "token L memory_impl request now sv = (sv', Inr (Inr iss))"
  shows "\<exists>client asked a code t verifier.
    registered_in tr client \<and> approved_in L C tr client asked a code t \<and>
    nonempty (tr_code request) = Some code \<and> now - t \<le> CODE_TTL_SECS \<and>
    map_option trim (tr_client_id request) = Some (cl_id client) \<and>
    map_option trim (tr_redirect_uri request) = nonempty (az_redirect_uri asked) \<and>
    nonempty (tr_code_verifier request) = Some verifier \<and>
    map_option trim (az_code_challenge asked) = Some (ol_b64url L (ol_sha256 L (str_bytes verifier))) \<and>
    normalize_scope (az_scope asked) = Inr (is_scope iss)"
proof -
  have state: "memory_ok (sv_store sv)" "past_ok L memory_impl C (map_of (ms_clients (sv_store sv))) (map_of (ms_asks (sv_store sv))) (map_of (ms_tokens (sv_store sv))) tr"
    using memory.past_trace [OF assms(1) start_ok(1,2)] by simp_all
  obtain i a code t where a: "nonempty (tr_code request) = Some code" "map_of (ms_asks (sv_store sv)) i = Some a" "ak_code a = Some code"
    "redeemable L request now a" "fresh_token L a now iss t"
    using memory.token_effect [OF state(1) assms(2)] by blast
  have "ask_past L C tr a" using state(2) a(2) unfolding past_ok_def by blast
  then obtain client asked a0 t0 used where approved: "approved_in L C tr client asked a0 code t0"
    and a0: "a = a0\<lparr>ak_code := Some code, ak_code_issued_at := Some t0, ak_code_used := used\<rparr>" using a(3) by (rule ask_past_code)
  have asked: "asked_in tr client asked a0" by (rule approved_asked [OF approved])
  obtain t1 where fresh: "fresh_ask asked t1 client a0" using asked_fresh [OF asked] by blast
  obtain verifier where v: "nonempty (tr_code_verifier request) = Some verifier" "pkce_matches L verifier (ak_code_challenge a)"
    using a(4) unfolding redeemable_def by blast
  have "now - t0 \<le> CODE_TTL_SECS" using a(4) by (simp add: redeemable_def code_is_fresh_def a0)
  moreover have "map_option trim (tr_client_id request) = Some (cl_id client)" "map_option trim (tr_redirect_uri request) = nonempty (az_redirect_uri asked)"
    using a(4) fresh unfolding redeemable_def fresh_ask_def a0 by simp_all
  moreover have "map_option trim (az_code_challenge asked) = Some (ol_b64url L (ol_sha256 L (str_bytes verifier)))"
    using v(2) fresh unfolding pkce_matches_def fresh_ask_def a0 by simp
  moreover have "normalize_scope (az_scope asked) = Inr (is_scope iss)"
    using a(5) fresh unfolding fresh_token_def fresh_ask_def a0 by auto
  ultimately show ?thesis using asked_registered [OF asked] approved a(1) v(1) by blast
qed

theorem token_grant_authentic_witness:
  "\<exists>client asked a code t. registered_in demo_history client \<and> approved_in demo_lib Always demo_history client asked a code t \<and>
    nonempty (tr_code demo_exchange) = Some code \<and> 30 - t \<le> CODE_TTL_SECS \<and>
    normalize_scope (az_scope asked) = Inr ''threads mail''"
  using token_grant_authentic [OF demo_trace demo_token] unfolding demo_issued_def issued.select_convs by blast

text \<open>
  C18: Over every history of the server, a code is exchanged for a token at most as often as a poll drew it: an
  authorization code is good once, and a code that fails an exchange is spent as well.
\<close>

theorem code_redeemed_once:
  assumes "oauth_trace L memory_impl C (Server_new MemoryStore_new c rng) tr sv"
  shows "tally (grants code) tr \<le> tally (mints L memory_impl code) tr \<and>
    (tally (grants code) tr = tally (mints L memory_impl code) tr \<longrightarrow>
       (\<forall>request now sv' iss. nonempty (tr_code request) = Some code \<longrightarrow> token L memory_impl request now sv \<noteq> (sv', Inr (Inr iss))))"
proof -
  have count: "card (unused code (map_of (ms_asks (sv_store sv)))) + tally (grants code) tr \<le> tally (mints L memory_impl code) tr"
    by (rule memory.codes_trace [OF assms start_ok])
  have ok: "memory_ok (sv_store sv)" using memory.past_trace [OF assms start_ok(1,2)] by simp
  have "token L memory_impl request now sv \<noteq> (sv', Inr (Inr iss))"
    if all: "tally (grants code) tr = tally (mints L memory_impl code) tr" and req: "nonempty (tr_code request) = Some code" for request now sv' iss
  proof
    assume run: "token L memory_impl request now sv = (sv', Inr (Inr iss))"
    have "finite (unused code (map_of (ms_asks (sv_store sv))))" by (rule finite_unused [OF finite_dom_map_of])
    then have "unused code (map_of (ms_asks (sv_store sv))) = {}" using count all by simp
    then show False using memory.token_effect [OF ok run] req by (auto simp: unused_def)
  qed
  then show ?thesis using count by simp
qed

theorem code_redeemed_once_witness:
  "tally (grants (demo_hex 24 2)) ((fst demo_progress_call, EToken demo_exchange 30 (Inr (Inr demo_issued))) # demo_history) = 1 \<and>
   1 \<le> tally (mints demo_lib memory_impl (demo_hex 24 2))
     ((fst demo_progress_call, EToken demo_exchange 30 (Inr (Inr demo_issued))) # demo_history)"
proof -
  have "tally (grants (demo_hex 24 2)) ((fst demo_progress_call, EToken demo_exchange 30 (Inr (Inr demo_issued))) # demo_history) = 1"
    by (simp add: demo_history_def demo_exchange_def demo_strings)
  then show ?thesis using code_redeemed_once [OF demo_trace_token, of "demo_hex 24 2"] by simp
qed

text \<open>
  C17: Over every history of the server, a bearer is admitted only if a code exchange before granted a token with
  the same digest, the token belongs to the client of that exchange and opens exactly the families of its
  scope, it has not run out, and no revocation since then found it.
\<close>

theorem admitted_token_granted:
  assumes "oauth_trace L memory_impl C (Server_new MemoryStore_new c rng) tr sv"
    and "oauth_admit L memory_impl bearer now sv = (sv', Inr (Some tok))"
  shows "\<exists>newer pre request t iss older. tr = newer @ (pre, EToken request t (Inr (Inr iss))) # older \<and>
    hash_token L (is_access_token iss) = hash_token L (trim bearer) \<and>
    map_option trim (tr_client_id request) = Some (tk_client_id tok) \<and> token_families tok = scope_families (Some (is_scope iss)) \<and>
    now < expires_at_for (is_scope iss) t \<and> list_all (\<lambda>e. \<not> revokes L memory_impl (tk_id tok) e) newer"
proof -
  have state: "memory_ok (sv_store sv)" "past_ok L memory_impl C (map_of (ms_clients (sv_store sv))) (map_of (ms_asks (sv_store sv))) (map_of (ms_tokens (sv_store sv))) tr"
    using memory.past_trace [OF assms(1) start_ok(1,2)] by simp_all
  obtain t0 where t0: "map_of (ms_tokens (sv_store sv)) (tk_id tok) = Some t0" "tok = t0\<lparr>tk_last_used_at := tk_last_used_at tok\<rparr>"
    "tk_hash t0 = hash_token L (trim bearer)" "is_live_at now t0"
    using memory.admit_effect [OF state(1) assms(2)] by blast
  have same: "tk_id tok = tk_id t0" "tk_client_id tok = tk_client_id t0" "tk_scope tok = tk_scope t0"
    by (subst t0(2), simp)+
  have "granted_in L memory_impl tr t0" using state(2) t0(1) unfolding past_ok_def by blast
  then obtain newer pre request t iss older where "tr = newer @ (pre, EToken request t (Inr (Inr iss))) # older"
     "tk_hash t0 = hash_token L (is_access_token iss)" "tk_scope t0 = Some (is_scope iss)"
     "map_option trim (tr_client_id request) = Some (tk_client_id t0)"
     "tk_expires_at t0 = expires_at_for (is_scope iss) t" "is_live t0 \<longrightarrow> list_all (\<lambda>e. \<not> revokes L memory_impl (tk_id t0) e) newer"
    unfolding granted_in_def by blast
  then show ?thesis using t0(3,4) unfolding same is_live_at_def token_families_def by metis
qed

theorem admitted_token_granted_witness:
  "\<exists>newer pre request t iss older. (fst demo_progress_call, EToken demo_exchange 30 (Inr (Inr demo_issued))) # demo_history =
      newer @ (pre, EToken request t (Inr (Inr iss))) # older \<and>
    hash_token demo_lib (is_access_token iss) = hash_token demo_lib (demo_hex 32 3) \<and> 40 < expires_at_for (is_scope iss) t"
  using admitted_token_granted [OF demo_trace_token demo_admit] unfolding demo_strings by blast

text \<open>
  C19: Over every history of the server, a reply sends the browser only to a URI that a client registered, with
  query parameters appended: an \<open>https\<close> URI, or one whose origin is the person's own machine.
\<close>

theorem redirects_registered:
  assumes "oauth_trace L memory_impl C (Server_new MemoryStore_new c rng) tr sv"
    and "(pre, ev) \<in> set tr" and "sends_to ev = Some url"
  shows "\<exists>client uri params more. registered_in tr client \<and> uri \<in> set (cl_redirect_uris client) \<and>
    url = redirect_with L uri params \<and> url = uri @ more \<and>
    ((\<exists>rest. uri = ''https://'' @ rest) \<or> redirect_origin uri = ''this machine'')"
proof -
  obtain client uri params where c: "registered_in tr client" "uri \<in> set (cl_redirect_uris client)" "url = redirect_with L uri params"
    using memory.redirects_trace [OF assms(1) start_ok(1,2) assms(2,3)] by blast
  have "redirect_uri_is_allowed uri" using c(1,2) by (auto simp: registered_in_def list_all_iff)
  then have "(\<exists>rest. uri = ''https://'' @ rest) \<or> redirect_origin uri = ''this machine''" by (rule allowed_origin)
  moreover obtain more where "url = uri @ more" using redirect_with_prefix [of L uri params] c(3) by blast
  ultimately show ?thesis using c by blast
qed

theorem redirects_registered_witness:
  "\<exists>client uri params. registered_in demo_history client \<and> uri \<in> set (cl_redirect_uris client) \<and>
    approved_redirect demo_lib demo_ask (demo_hex 24 2) = redirect_with demo_lib uri params"
proof -
  let ?e = "(fst demo_authorize_call, EProgress (demo_hex 16 1) 20 (snd demo_progress_call))"
  have "?e \<in> set demo_history" by (simp add: demo_history_def)
  moreover have "sends_to (EProgress (demo_hex 16 1) 20 (snd demo_progress_call)) = Some (approved_redirect demo_lib demo_ask (demo_hex 24 2))"
    by (simp add: demo_progressed)
  ultimately show ?thesis using redirects_registered [OF demo_trace] by blast
qed

end
