(* ===== verification/SqliteLog.thy ===== *)
theory SqliteLog
  imports PullSocket "HOL-Library.Product_Lexorder"
begin

text \<open>
  The SQLite op-log (\<open>src/sqlite/oplog.rs\<close>, \<open>oplog_heads.rs\<close>, \<open>oplog_queries.rs\<close>, \<open>log_source.rs\<close>). A table is the
  list of its rows or, where the statements address it by its key, a map; a statement is what it does to the
  tables. The primary keys are those the statements name: \<open>op_id\<close> of \<open>oplog\<close>, the row coordinates of \<open>oplog_heads\<close>,
  the peer of a cursor. The sequence number of a new arrival and the time are the database's choice and
  arguments of \<open>sq_append\<close>. An HLC is stored as a signed 64-bit integer, blobs compare byte by byte. A statement
  that fails for the disk or a lock ends the caller's transaction, which restores the tables, and is not modelled;
  a value that does not convert, and a missing origin index, are errors of the call.
\<close>

section \<open>Tables\<close>

text \<open>\<open>SqliteError\<close>; the last two carry a message of the pull protocol.\<close>

datatype sqlite_error =
    InvalidArgument string
  | SqlOther string
  | InvalidArgumentPull socket_message
  | OtherPull socket_message

record oplog_row =
  or_op_id :: bytes
  or_hlc :: int
  or_device :: bytes
  or_store :: string
  or_payload :: bytes
  or_envelope :: bytes
  or_table :: string
  or_row_pk :: string
  or_origin :: int
  or_applied :: bool

record arrival_row =
  ar_seq :: int
  ar_op_id :: bytes
  ar_arrived_at :: int

record head_row =
  hr_hlc :: int
  hr_device :: bytes
  hr_op_id :: bytes
  hr_payload :: bytes
  hr_origin_device :: "bytes option"

record relay_cursor_state =
  rc_epoch :: bytes
  rc_seq :: nat

record relay_cursor_row =
  rcr_version :: nat
  rcr_epoch :: bytes
  rcr_seq :: int

record device_row =
  dv_device_id :: string
  dv_trusted :: bool
  dv_public_key :: "bytes option"
  dv_last_seen_at :: string

record vouch_row =
  vo_device_id :: string
  vo_vouched :: string
  vo_voucher :: string
  vo_public_key :: bytes
  vo_updated_at :: string

record oplog_db =
  sq_oplog :: "oplog_row list"
  sq_arrivals :: "arrival_row list"
  sq_heads :: "string \<times> string \<times> string \<Rightarrow> head_row option"
  sq_stream_epoch :: bytes
  sq_compacted_through :: int
  sq_relay_cursors :: "bytes \<Rightarrow> relay_cursor_row option"
  sq_cursors :: "bytes \<Rightarrow> bytes option"
  sq_coverage :: "(bytes, bytes) btree"
  sq_acks :: "bytes \<Rightarrow> (bytes \<times> int) option"
  sq_config :: "string \<Rightarrow> string option"
  sq_indexes :: "string set"
  sq_devices :: "device_row list"
  sq_vouches :: "vouch_row list"
  sq_retirements :: "string list"
  sq_pending_edges :: "bytes list"
  sq_callback_fires :: "(bytes \<times> bool) list"
  sq_projection_queue :: "bytes list"
  sq_replay_queue :: "(bytes \<times> string) list"
  sq_verified_ops :: "bytes list"

section \<open>Values\<close>

definition hlc_as_i64 :: "hlc \<Rightarrow> int" where
  "hlc_as_i64 h = sint h"

definition i64_try_from :: "string \<Rightarrow> nat \<Rightarrow> sqlite_error + int" where
  "i64_try_from message n = (if n < 2 ^ 63 then Inr (int n) else Inl (InvalidArgument message))"

definition u64_try_from :: "string \<Rightarrow> int \<Rightarrow> sqlite_error + nat" where
  "u64_try_from message v = (if v < 0 then Inl (SqlOther message) else Inr (nat v))"

text \<open>\<open>LIMIT\<close>: a negative limit is none.\<close>

definition sql_limit :: "int \<Rightarrow> 'a list \<Rightarrow> 'a list" where
  "sql_limit n xs = (if n < 0 then xs else take (nat n) xs)"

definition row_key :: "oplog_row \<Rightarrow> int \<times> bytes \<times> bytes" where
  "row_key r = (or_hlc r, or_device r, or_op_id r)"

definition head_key :: "head_row \<Rightarrow> int \<times> bytes \<times> bytes" where
  "head_key h = (hr_hlc h, hr_device h, hr_op_id h)"

definition op_key :: "signed_op \<Rightarrow> int \<times> bytes \<times> bytes" where
  "op_key sop = (hlc_as_i64 (body_hlc (op_body sop)), as_bytes (body_device (op_body sop)), op_id_bytes (op_id sop))"

definition cursor_key :: "order_key \<Rightarrow> int \<times> bytes \<times> bytes" where
  "cursor_key k = (hlc_as_i64 (key_hlc k), as_bytes (key_device k), op_id_bytes (key_op_id k))"

definition order_key_from_row :: "int \<times> bytes \<times> bytes \<Rightarrow> sqlite_error + order_key" where
  "order_key_from_row k =
     (case k of (h, d, i) \<Rightarrow>
        if length d \<noteq> 32 then Inl (SqlOther ''device id'')
        else if length i \<noteq> 32 then Inl (SqlOther ''op id'')
        else Inr (OrderKey (word_of_int h) (DeviceId d) (OpId i)))"

text \<open>\<open>ORDER BY hlc DESC, device_id DESC, op_id DESC LIMIT 1\<close>, and its ascending counterpart.\<close>

definition newest_row :: "oplog_row list \<Rightarrow> oplog_row option" where
  "newest_row rows = (if rows = [] then None else Some (last (sort_key row_key rows)))"

definition oldest_row :: "oplog_row list \<Rightarrow> oplog_row option" where
  "oldest_row rows = (if rows = [] then None else Some (hd (sort_key row_key rows)))"

definition applied_rows :: "string \<Rightarrow> string \<Rightarrow> string \<Rightarrow> oplog_db \<Rightarrow> oplog_row list" where
  "applied_rows store table row_pk db =
     filter (\<lambda>r. or_store r = store \<and> or_table r = table \<and> or_row_pk r = row_pk \<and> or_applied r) (sq_oplog db)"

definition resolved_payload :: "codec \<Rightarrow> bytes \<Rightarrow> bytes \<Rightarrow> bytes" where
  "resolved_payload pc payload envelope =
     (if payload \<noteq> [] then payload
      else case from_bytes pc envelope of Inr sop \<Rightarrow> body_payload (op_body sop) | Inl _ \<Rightarrow> [])"

section \<open>Heads\<close>

definition upsert_head :: "signed_op \<Rightarrow> string \<Rightarrow> string \<Rightarrow> oplog_db \<Rightarrow> oplog_db" where
  "upsert_head sop table row_pk db =
     (let k = (body_store (op_body sop), table, row_pk);
          device = as_bytes (body_device (op_body sop));
          fresh = \<lparr>hr_hlc = hlc_as_i64 (body_hlc (op_body sop)), hr_device = device, hr_op_id = op_id_bytes (op_id sop),
                   hr_payload = body_payload (op_body sop), hr_origin_device = Some device\<rparr>;
          h = (case sq_heads db k of
                 None \<Rightarrow> fresh
               | Some h \<Rightarrow> if op_key sop > head_key h then fresh\<lparr>hr_origin_device := hr_origin_device h\<rparr> else h);
          h = (if list_ex (\<lambda>r. row_key r < op_key sop) (applied_rows (body_store (op_body sop)) table row_pk db) then h
               else h\<lparr>hr_origin_device := Some device\<rparr>) in
      db\<lparr>sq_heads := (sq_heads db)(k \<mapsto> h)\<rparr>)"

definition demote_head :: "codec \<Rightarrow> op_id \<Rightarrow> oplog_db \<Rightarrow> oplog_db" where
  "demote_head pc i db =
     (case List.find (\<lambda>r. or_op_id r = op_id_bytes i) (sq_oplog db) of
        None \<Rightarrow> db
      | Some r \<Rightarrow>
          let k = (or_store r, or_table r, or_row_pk r) in
          case sq_heads db k of
            None \<Rightarrow> db
          | Some h \<Rightarrow>
              if hr_op_id h \<noteq> op_id_bytes i then db
              else case newest_row (applied_rows (or_store r) (or_table r) (or_row_pk r) db) of
                Some w \<Rightarrow> db\<lparr>sq_heads := (sq_heads db)(k \<mapsto>
                  h\<lparr>hr_hlc := or_hlc w, hr_device := or_device w, hr_op_id := or_op_id w,
                     hr_payload := resolved_payload pc (or_payload w) (or_envelope w)\<rparr>)\<rparr>
              | None \<Rightarrow> db\<lparr>sq_heads := (sq_heads db)(k := None)\<rparr>)"

definition rebuild_head :: "codec \<Rightarrow> string \<Rightarrow> string \<Rightarrow> string \<Rightarrow> oplog_db \<Rightarrow> oplog_db" where
  "rebuild_head pc store table row_pk db =
     (let rows = applied_rows store table row_pk db in
      case newest_row rows of
        Some w \<Rightarrow> db\<lparr>sq_heads := (sq_heads db)((store, table, row_pk) \<mapsto>
          \<lparr>hr_hlc = or_hlc w, hr_device = or_device w, hr_op_id = or_op_id w,
           hr_payload = resolved_payload pc (or_payload w) (or_envelope w),
           hr_origin_device = map_option or_device (oldest_row rows)\<rparr>)\<rparr>
      | None \<Rightarrow> db\<lparr>sq_heads := (sq_heads db)((store, table, row_pk) := None)\<rparr>)"

section \<open>Appending\<close>

definition sq_advance_local_coverage :: "device_id \<Rightarrow> order_key \<Rightarrow> oplog_db \<Rightarrow> oplog_db" where
  "sq_advance_local_coverage origin key db =
     (case map_of (sq_coverage db) (as_bytes origin) of
        Some held \<Rightarrow> if held < to_wire key then db\<lparr>sq_coverage := bt_insert (as_bytes origin) (to_wire key) (sq_coverage db)\<rparr> else db
      | None \<Rightarrow> db\<lparr>sq_coverage := bt_insert (as_bytes origin) (to_wire key) (sq_coverage db)\<rparr>)"

definition note_own_op :: "signed_op \<Rightarrow> oplog_db \<Rightarrow> oplog_db" where
  "note_own_op sop db = sq_advance_local_coverage (body_device (op_body sop))
     (OrderKey (body_hlc (op_body sop)) (body_device (op_body sop)) (op_id sop)) db"

definition ORIGIN_LOCAL :: int where "ORIGIN_LOCAL = 1"

definition ORIGIN_REMOTE :: int where "ORIGIN_REMOTE = 0"

text \<open>\<open>COALESCE(MAX(x), 0)\<close>.\<close>

fun coalesce_max :: "int list \<Rightarrow> int" where
  "coalesce_max [] = 0"
| "coalesce_max (x # xs) = foldl max x xs"

definition last_arrival :: "oplog_db \<Rightarrow> int" where
  "last_arrival db = coalesce_max (map ar_seq (sq_arrivals db))"

definition sq_append :: "codec \<Rightarrow> int \<Rightarrow> int \<Rightarrow> signed_op \<Rightarrow> string \<Rightarrow> string \<Rightarrow> int \<Rightarrow> oplog_db \<Rightarrow> oplog_db \<times> (sqlite_error + bool)" where
  "sq_append pc sq now sop table row_pk origin db =
     (case to_bytes pc sop of
        Inl _ \<Rightarrow> (db, Inl (SqlOther ''encode op envelope''))
      | Inr envelope \<Rightarrow>
          if list_ex (\<lambda>r. or_op_id r = op_id_bytes (op_id sop)) (sq_oplog db) then (db, Inr False)
          else
            let row = \<lparr>or_op_id = op_id_bytes (op_id sop), or_hlc = hlc_as_i64 (body_hlc (op_body sop)),
                       or_device = as_bytes (body_device (op_body sop)), or_store = body_store (op_body sop),
                       or_payload = [], or_envelope = envelope, or_table = table, or_row_pk = row_pk,
                       or_origin = origin, or_applied = True\<rparr>;
                arrival = \<lparr>ar_seq = sq, ar_op_id = op_id_bytes (op_id sop), ar_arrived_at = now\<rparr>;
                db = db\<lparr>sq_oplog := sq_oplog db @ [row]\<rparr>;
                db = db\<lparr>sq_arrivals := sq_arrivals db @ [arrival]\<rparr>;
                db = upsert_head sop table row_pk db;
                db = (if origin = ORIGIN_LOCAL then note_own_op sop db else db) in
            (db, Inr True))"

section \<open>The relay stream\<close>

definition sq_relay_stream_state :: "oplog_db \<Rightarrow> sqlite_error + relay_stream_state" where
  "sq_relay_stream_state db =
     (if length (sq_stream_epoch db) \<noteq> 32 then Inl (SqlOther ''relay stream state'')
      else and_then (u64_try_from ''relay stream state'' (last_arrival db)) (\<lambda>head.
        and_then (u64_try_from ''relay stream state'' (sq_compacted_through db)) (\<lambda>floor.
          Inr \<lparr>rs_epoch = sq_stream_epoch db, rs_head = head, rs_floor = floor\<rparr>)))"

text \<open>The join of arrivals with the log after a position, in arrival order.\<close>

definition arrivals_after :: "int \<Rightarrow> oplog_db \<Rightarrow> (int \<times> bytes) list" where
  "arrivals_after after db =
     concat (map (\<lambda>a. map (\<lambda>r. (ar_seq a, or_envelope r)) (filter (\<lambda>r. or_op_id r = ar_op_id a) (sq_oplog db)))
       (sort_key ar_seq (filter (\<lambda>a. ar_seq a > after) (sq_arrivals db))))"

definition sq_relay_since_with_envelopes :: "codec \<Rightarrow> oplog_db \<Rightarrow> nat \<Rightarrow> nat \<Rightarrow> sqlite_error + (nat \<times> signed_op \<times> bytes) list" where
  "sq_relay_since_with_envelopes pc db after limit =
     and_then (i64_try_from ''relay cursor exceeds SQLite range'' after) (\<lambda>after.
     and_then (i64_try_from ''relay page limit exceeds SQLite range'' limit) (\<lambda>limit.
       try_map (\<lambda>(sq, envelope).
         and_then (u64_try_from ''relay sequence is negative'' sq) (\<lambda>sq.
         and_then (map_err (\<lambda>_. SqlOther ''relay envelope decode'') (from_bytes pc envelope)) (\<lambda>sop.
           Inr (sq, sop, envelope))))
         (sql_limit limit (arrivals_after after db))))"

definition sq_relay_since :: "codec \<Rightarrow> oplog_db \<Rightarrow> nat \<Rightarrow> nat \<Rightarrow> sqlite_error + (nat \<times> signed_op) list" where
  "sq_relay_since pc db after limit =
     and_then (sq_relay_since_with_envelopes pc db after limit) (\<lambda>es. Inr (map (\<lambda>(sq, sop, _). (sq, sop)) es))"

definition RELAY_PAGE_MAX_BYTES :: nat where "RELAY_PAGE_MAX_BYTES = 4 * 1024 * 1024"

fun relay_page_loop :: "(nat \<times> signed_op \<times> bytes) list \<Rightarrow> nat \<Rightarrow> relay_log_entry list \<Rightarrow> relay_log_entry list" where
  "relay_page_loop [] used entries = entries"
| "relay_page_loop ((sq, sop, envelope) # rest) used entries =
     (if entries \<noteq> [] \<and> used + length envelope > RELAY_PAGE_MAX_BYTES then entries
      else relay_page_loop rest (used + length envelope) (entries @ [\<lparr>entry_seq = sq, entry_op = sop\<rparr>]))"

definition relay_state_conn :: "oplog_db \<Rightarrow> sqlite_error + relay_stream_state option" where
  "relay_state_conn db = and_then (sq_relay_stream_state db) (\<lambda>state. Inr (Some state))"

definition relay_page_conn :: "codec \<Rightarrow> oplog_db \<Rightarrow> nat \<Rightarrow> nat \<Rightarrow> sqlite_error + relay_log_page option" where
  "relay_page_conn pc db after limit =
     and_then (sq_relay_stream_state db) (\<lambda>state.
     and_then (sq_relay_since_with_envelopes pc db after limit) (\<lambda>es.
       Inr (Some \<lparr>page_state = state, page_entries = relay_page_loop es 0 []\<rparr>)))"

definition load_relay_cursor :: "device_id \<Rightarrow> oplog_db \<Rightarrow> sqlite_error + relay_cursor_state option" where
  "load_relay_cursor peer db =
     (case sq_relay_cursors db (as_bytes peer) of
        None \<Rightarrow> Inr None
      | Some r \<Rightarrow>
          if rcr_version r \<noteq> 2 then Inr None
          else if length (rcr_epoch r) \<noteq> 32 then Inl (SqlOther ''load relay cursor'')
          else and_then (u64_try_from ''load relay cursor'' (rcr_seq r)) (\<lambda>sq.
            Inr (Some \<lparr>rc_epoch = rcr_epoch r, rc_seq = sq\<rparr>)))"

definition sq_reset_relay_cursor :: "device_id \<Rightarrow> bytes \<Rightarrow> nat \<Rightarrow> oplog_db \<Rightarrow> oplog_db" where
  "sq_reset_relay_cursor peer epoch sq db = db\<lparr>sq_relay_cursors := (sq_relay_cursors db)(as_bytes peer \<mapsto>
     \<lparr>rcr_version = 2, rcr_epoch = epoch, rcr_seq = as_i64 sq\<rparr>)\<rparr>"

definition sq_save_relay_cursor :: "device_id \<Rightarrow> relay_cursor_state \<Rightarrow> oplog_db \<Rightarrow> oplog_db \<times> (sqlite_error + unit)" where
  "sq_save_relay_cursor peer cursor db =
     (case i64_try_from ''relay cursor exceeds SQLite range'' (rc_seq cursor) of
        Inl e \<Rightarrow> (db, Inl e)
      | Inr sq \<Rightarrow>
          let sq = (case sq_relay_cursors db (as_bytes peer) of
                      Some r \<Rightarrow> if rcr_epoch r = rc_epoch cursor then max (rcr_seq r) sq else sq
                    | None \<Rightarrow> sq) in
          (db\<lparr>sq_relay_cursors := (sq_relay_cursors db)(as_bytes peer \<mapsto>
             \<lparr>rcr_version = 2, rcr_epoch = rc_epoch cursor, rcr_seq = sq\<rparr>)\<rparr>, Inr ()))"

definition rotate_relay_stream_epoch :: "bytes \<Rightarrow> oplog_db \<Rightarrow> oplog_db" where
  "rotate_relay_stream_epoch random db = db\<lparr>sq_stream_epoch := random, sq_compacted_through := 0\<rparr>"

section \<open>Reading in key order\<close>

definition ORIGIN_INDEX_NAME :: string where "ORIGIN_INDEX_NAME = ''idx_oplog_origin''"

text \<open>The lower bound of \<open>origin_since\<close>: without one, -1 stands below every stored clock value.\<close>

definition sq_origin_since ::
  "oplog_db \<Rightarrow> device_id \<Rightarrow> order_key option \<Rightarrow> string option \<Rightarrow> nat \<Rightarrow> sqlite_error + (order_key \<times> bytes) list" where
  "sq_origin_since db origin after store limit =
     (if store = None \<and> ORIGIN_INDEX_NAME \<notin> sq_indexes db then Inl (SqlOther ''origin since prepare'') else
      let (after_hlc, after_op_id) = (case after of Some key \<Rightarrow> (hlc_as_i64 (key_hlc key), op_id_bytes (key_op_id key)) | None \<Rightarrow> (-1, []));
          rows = (case store of
            Some store \<Rightarrow> filter (\<lambda>r. or_store r = store \<and> or_device r = as_bytes origin \<and>
              row_key r > (after_hlc, as_bytes origin, after_op_id)) (sq_oplog db)
          | None \<Rightarrow> filter (\<lambda>r. or_device r = as_bytes origin \<and> (or_hlc r, or_op_id r) > (after_hlc, after_op_id)) (sq_oplog db));
          rows = sql_limit (as_i64 limit) (sort_key row_key rows) in
      Inr (map (\<lambda>r. (OrderKey (word_of_int (or_hlc r)) origin (OpId (or_op_id r)), or_envelope r))
        (filter (\<lambda>r. length (or_op_id r) = 32) rows)))"

definition newest_applied_in_store :: "string \<Rightarrow> string \<Rightarrow> string \<Rightarrow> op_id \<Rightarrow> oplog_db \<Rightarrow> sqlite_error + order_key option" where
  "newest_applied_in_store store table row_pk exclude db =
     and_then (case sq_heads db (store, table, row_pk) of
         None \<Rightarrow> Inr None
       | Some h \<Rightarrow> and_then (order_key_from_row (head_key h)) (\<lambda>key. Inr (Some key))) (\<lambda>found.
       case found of
         Some key \<Rightarrow>
           if key_op_id key \<noteq> exclude then Inr (Some key)
           else (case newest_row (filter (\<lambda>r. or_op_id r \<noteq> op_id_bytes exclude) (applied_rows store table row_pk db)) of
               None \<Rightarrow> Inr None
             | Some r \<Rightarrow> and_then (order_key_from_row (row_key r)) (\<lambda>key. Inr (Some key)))
       | None \<Rightarrow>
           (case newest_row (filter (\<lambda>r. or_op_id r \<noteq> op_id_bytes exclude) (applied_rows store table row_pk db)) of
              None \<Rightarrow> Inr None
            | Some r \<Rightarrow> and_then (order_key_from_row (row_key r)) (\<lambda>key. Inr (Some key))))"

definition newest_applied :: "string \<Rightarrow> string \<Rightarrow> op_id \<Rightarrow> oplog_db \<Rightarrow> sqlite_error + order_key option" where
  "newest_applied table row_pk exclude db = newest_applied_in_store ''proxydb'' table row_pk exclude db"

definition newest_op_in_store :: "codec \<Rightarrow> string \<Rightarrow> string \<Rightarrow> string \<Rightarrow> op_id \<Rightarrow> oplog_db \<Rightarrow> sqlite_error + (order_key \<times> bytes) option" where
  "newest_op_in_store pc store table row_pk exclude db =
     (let scan = (case newest_row (filter (\<lambda>r. or_op_id r \<noteq> op_id_bytes exclude) (applied_rows store table row_pk db)) of
               None \<Rightarrow> Inr None
             | Some r \<Rightarrow> and_then (order_key_from_row (row_key r)) (\<lambda>key.
                 Inr (Some (key, resolved_payload pc (or_payload r) (or_envelope r))))) in
      case sq_heads db (store, table, row_pk) of
        None \<Rightarrow> scan
      | Some h \<Rightarrow> and_then (order_key_from_row (head_key h)) (\<lambda>key.
          if key_op_id key \<noteq> exclude then Inr (Some (key, hr_payload h)) else scan))"

definition newest_ops_in_store :: "string \<Rightarrow> string \<Rightarrow> string list \<Rightarrow> oplog_db \<Rightarrow> string \<Rightarrow> bytes option" where
  "newest_ops_in_store store table row_pks db row_pk =
     (if row_pk \<in> set row_pks then map_option hr_payload (sq_heads db (store, table, row_pk)) else None)"

definition origin_device :: "string \<Rightarrow> string \<Rightarrow> string \<Rightarrow> oplog_db \<Rightarrow> sqlite_error + device_id option" where
  "origin_device store table row_pk db =
     (case Option.bind (sq_heads db (store, table, row_pk)) hr_origin_device of
        Some device \<Rightarrow>
          if length device = 32 then Inr (Some (DeviceId device))
          else (case oldest_row (applied_rows store table row_pk db) of
              None \<Rightarrow> Inr None
            | Some r \<Rightarrow> if length (or_device r) = 32 then Inr (Some (DeviceId (or_device r))) else Inl (SqlOther ''oplog origin_device''))
      | None \<Rightarrow>
          (case oldest_row (applied_rows store table row_pk db) of
             None \<Rightarrow> Inr None
           | Some r \<Rightarrow> if length (or_device r) = 32 then Inr (Some (DeviceId (or_device r))) else Inl (SqlOther ''oplog origin_device'')))"

definition ops_for_row_asc :: "codec \<Rightarrow> string \<Rightarrow> string \<Rightarrow> string \<Rightarrow> oplog_db \<Rightarrow> (op_id \<times> bytes) list" where
  "ops_for_row_asc pc store table row_pk db =
     map (\<lambda>r. (OpId (or_op_id r), resolved_payload pc (or_payload r) (or_envelope r)))
       (filter (\<lambda>r. length (or_op_id r) = 32) (sort_key row_key (applied_rows store table row_pk db)))"

definition load_op :: "codec \<Rightarrow> op_id \<Rightarrow> oplog_db \<Rightarrow> sqlite_error + signed_op option" where
  "load_op pc i db =
     (case List.find (\<lambda>r. or_op_id r = op_id_bytes i) (sq_oplog db) of
        None \<Rightarrow> Inr None
      | Some r \<Rightarrow> and_then (map_err (\<lambda>_. SqlOther ''oplog load_op decode'') (from_bytes pc (or_envelope r))) (\<lambda>sop. Inr (Some sop)))"

definition sq_contains :: "op_id \<Rightarrow> oplog_db \<Rightarrow> bool" where
  "sq_contains i db = list_ex (\<lambda>r. or_op_id r = op_id_bytes i) (sq_oplog db)"

definition sq_head :: "oplog_db \<Rightarrow> sqlite_error + order_key option" where
  "sq_head db =
     (case newest_row (sq_oplog db) of
        None \<Rightarrow> Inr None
      | Some r \<Rightarrow> and_then (order_key_from_row (row_key r)) (\<lambda>key. Inr (Some key)))"

definition head_in_store :: "string \<Rightarrow> oplog_db \<Rightarrow> sqlite_error + order_key option" where
  "head_in_store store db =
     (case newest_row (filter (\<lambda>r. or_store r = store) (sq_oplog db)) of
        None \<Rightarrow> Inr None
      | Some r \<Rightarrow> and_then (order_key_from_row (row_key r)) (\<lambda>key. Inr (Some key)))"

fun decoded :: "codec \<Rightarrow> oplog_row list \<Rightarrow> signed_op list" where
  "decoded pc [] = []"
| "decoded pc (r # rows) = (case from_bytes pc (or_envelope r) of Inr sop \<Rightarrow> sop # decoded pc rows | Inl _ \<Rightarrow> decoded pc rows)"

definition sq_since :: "codec \<Rightarrow> oplog_db \<Rightarrow> order_key \<Rightarrow> nat \<Rightarrow> signed_op list" where
  "sq_since pc db cursor limit =
     decoded pc (sql_limit (as_i64 limit) (sort_key row_key (filter (\<lambda>r. row_key r > cursor_key cursor) (sq_oplog db))))"

definition since_in_store :: "codec \<Rightarrow> oplog_db \<Rightarrow> string \<Rightarrow> order_key \<Rightarrow> nat \<Rightarrow> signed_op list" where
  "since_in_store pc db store cursor limit =
     decoded pc (sql_limit (as_i64 limit)
       (sort_key row_key (filter (\<lambda>r. or_store r = store \<and> row_key r > cursor_key cursor) (sq_oplog db))))"

definition load_cursor :: "device_id \<Rightarrow> oplog_db \<Rightarrow> order_key" where
  "load_cursor peer db =
     (case sq_cursors db (as_bytes peer) of
        Some bs \<Rightarrow> if length bs = 72 then from_wire bs else MIN_KEY
      | None \<Rightarrow> MIN_KEY)"

definition save_cursor :: "device_id \<Rightarrow> order_key \<Rightarrow> oplog_db \<Rightarrow> oplog_db" where
  "save_cursor peer cursor db =
     (case sq_cursors db (as_bytes peer) of
        Some held \<Rightarrow> if held < to_wire cursor then db\<lparr>sq_cursors := (sq_cursors db)(as_bytes peer \<mapsto> to_wire cursor)\<rparr> else db
      | None \<Rightarrow> db\<lparr>sq_cursors := (sq_cursors db)(as_bytes peer \<mapsto> to_wire cursor)\<rparr>)"

end
