(* ===== verification/SqliteHeads.thy ===== *)
theory SqliteHeads
  imports SqliteLog
begin

text \<open>
  What the materialized heads of the SQLite op-log promise: the head of a row is the newest applied operation of
  that row, whatever the order of the appends, demotions and partition moves. Two updates the maintenance of the
  heads runs after are the caller's: marking an operation unapplied, and an alias merge that rewrites \<open>row_pk\<close>.
\<close>

section \<open>The newest row\<close>

lemma sorted_last_max: "sorted (map f xs) \<Longrightarrow> a \<in> set xs \<Longrightarrow> f a \<le> f (last xs)"
  by (induction xs) auto

lemma sort_key_Nil [simp]: "sort_key f xs = [] \<longleftrightarrow> xs = []"
  by (metis length_0_conv length_sort)

lemma newest_row_None [simp]: "newest_row rows = None \<longleftrightarrow> rows = []"
  by (simp add: newest_row_def)

lemma newest_row_Nil [simp]: "newest_row [] = None"
  by simp

lemma newest_row_Some:
  assumes "newest_row rows = Some w"
  shows "w \<in> set rows" "r \<in> set rows \<Longrightarrow> row_key r \<le> row_key w"
proof -
  have "rows \<noteq> []" and w: "w = last (sort_key row_key rows)"
    using assms by (auto simp: newest_row_def split: if_splits)
  then have ne: "sort_key row_key rows \<noteq> []" by simp
  show "w \<in> set rows" using last_in_set [OF ne] w by simp
  show "r \<in> set rows \<Longrightarrow> row_key r \<le> row_key w"
    unfolding w by (rule sorted_last_max [OF sorted_sort_key]) simp
qed

lemma oldest_row_None [simp]: "oldest_row rows = None \<longleftrightarrow> rows = []"
  by (simp add: oldest_row_def)

definition keyed_apart :: "oplog_row list \<Rightarrow> bool" where
  "keyed_apart rows \<longleftrightarrow> distinct (map or_op_id rows)"

lemma keyed_apart_inj: "keyed_apart rows \<Longrightarrow> r \<in> set rows \<Longrightarrow> s \<in> set rows \<Longrightarrow> or_op_id r = or_op_id s \<Longrightarrow> r = s"
  by (auto simp: keyed_apart_def distinct_map dest: inj_onD)

lemma keyed_apart_filter: "keyed_apart rows \<Longrightarrow> keyed_apart (filter P rows)"
  by (simp add: keyed_apart_def distinct_map_filter)

lemma newest_row_eq:
  assumes "keyed_apart rows" "w \<in> set rows" "\<And>r. r \<in> set rows \<Longrightarrow> row_key r \<le> row_key w"
  shows "newest_row rows = Some w"
proof -
  obtain v where v: "newest_row rows = Some v" using assms(2) by (cases "newest_row rows") auto
  have "row_key v = row_key w"
    using newest_row_Some [OF v] assms(2,3) by (simp add: order.antisym)
  then have "or_op_id v = or_op_id w" by (simp add: row_key_def)
  then show ?thesis using keyed_apart_inj [OF assms(1)] newest_row_Some(1) [OF v] assms(2) v by blast
qed

section \<open>Head invariant\<close>

abbreviation rows_at :: "string \<times> string \<times> string \<Rightarrow> oplog_db \<Rightarrow> oplog_row list" where
  "rows_at k db \<equiv> applied_rows (fst k) (fst (snd k)) (snd (snd k)) db"

definition head_of :: "codec \<Rightarrow> oplog_row \<Rightarrow> head_row \<Rightarrow> bool" where
  "head_of pc w h \<longleftrightarrow> head_key h = row_key w \<and> hr_payload h = resolved_payload pc (or_payload w) (or_envelope w)"

definition head_ok :: "codec \<Rightarrow> string \<times> string \<times> string \<Rightarrow> oplog_db \<Rightarrow> bool" where
  "head_ok pc k db \<longleftrightarrow>
     (case sq_heads db k of
        None \<Rightarrow> rows_at k db = []
      | Some h \<Rightarrow> (case newest_row (rows_at k db) of None \<Rightarrow> False | Some w \<Rightarrow> head_of pc w h))"

text \<open>Ids are distinct, and devices and ids have the length of their array types.\<close>

definition rows_ok :: "oplog_db \<Rightarrow> bool" where
  "rows_ok db \<longleftrightarrow> keyed_apart (sq_oplog db) \<and>
     (\<forall>r \<in> set (sq_oplog db). length (or_op_id r) = 32 \<and> length (or_device r) = 32)"

lemma rows_ok_at: "rows_ok db \<Longrightarrow> keyed_apart (applied_rows s t p db)"
  by (simp add: rows_ok_def applied_rows_def keyed_apart_filter)

lemma head_ok_None: "sq_heads db k = None \<Longrightarrow> head_ok pc k db \<longleftrightarrow> rows_at k db = []"
  by (simp add: head_ok_def)

lemma head_ok_Some:
  "sq_heads db k = Some h \<Longrightarrow> head_ok pc k db \<longleftrightarrow> (\<exists>w. newest_row (rows_at k db) = Some w \<and> head_of pc w h)"
  by (simp add: head_ok_def split: option.splits)

lemma head_ok_cong: "sq_heads db' k = sq_heads db k \<Longrightarrow> rows_at k db' = rows_at k db \<Longrightarrow> head_ok pc k db' = head_ok pc k db"
  unfolding head_ok_def by (cases "sq_heads db k") simp_all

subsection \<open>Rebuilding and demoting\<close>

lemma rebuild_head_oplog [simp]: "sq_oplog (rebuild_head pc s t p db) = sq_oplog db"
  by (simp add: rebuild_head_def Let_def split: option.splits)

lemma demote_head_oplog [simp]: "sq_oplog (demote_head pc i db) = sq_oplog db"
  by (simp add: demote_head_def Let_def split: option.splits)

lemma applied_rows_cong: "sq_oplog db' = sq_oplog db \<Longrightarrow> applied_rows s t p db' = applied_rows s t p db"
  by (simp add: applied_rows_def)

lemma rebuild_head_other: "k \<noteq> (s, t, p) \<Longrightarrow> head_ok pc k (rebuild_head pc s t p db) = head_ok pc k db"
  by (rule head_ok_cong) (auto simp: rebuild_head_def Let_def applied_rows_def split: option.splits)

lemma rebuild_head_ok: "head_ok pc (s, t, p) (rebuild_head pc s t p db)"
proof (cases "newest_row (applied_rows s t p db)")
  case None
  then have "sq_heads (rebuild_head pc s t p db) (s, t, p) = None" by (simp add: rebuild_head_def Let_def)
  then show ?thesis using None by (simp add: head_ok_None applied_rows_cong [of "rebuild_head pc s t p db" db])
next
  case (Some w)
  then obtain h where h: "sq_heads (rebuild_head pc s t p db) (s, t, p) = Some h" "head_of pc w h"
    by (auto simp: rebuild_head_def Let_def head_of_def head_key_def row_key_def)
  then show ?thesis using Some by (simp add: head_ok_Some applied_rows_cong [of "rebuild_head pc s t p db" db])
qed

definition mark_unapplied :: "op_id \<Rightarrow> oplog_db \<Rightarrow> oplog_db" where
  "mark_unapplied i db =
     db\<lparr>sq_oplog := map (\<lambda>r. if or_op_id r = op_id_bytes i then r\<lparr>or_applied := False\<rparr> else r) (sq_oplog db)\<rparr>"

definition move_rows :: "string \<Rightarrow> string \<Rightarrow> string \<Rightarrow> string \<Rightarrow> oplog_db \<Rightarrow> oplog_db" where
  "move_rows s t p q db =
     db\<lparr>sq_oplog := map (\<lambda>r. if or_store r = s \<and> or_table r = t \<and> or_row_pk r = p then r\<lparr>or_row_pk := q\<rparr> else r) (sq_oplog db)\<rparr>"

lemma rows_ok_map:
  assumes "\<And>r. or_op_id (f r) = or_op_id r" "\<And>r. or_device (f r) = or_device r"
  shows "rows_ok (db\<lparr>sq_oplog := map f (sq_oplog db)\<rparr>) = rows_ok db"
  by (simp add: rows_ok_def keyed_apart_def assms comp_def)

lemma mark_unapplied_ok: "rows_ok (mark_unapplied i db) = rows_ok db"
  unfolding mark_unapplied_def by (rule rows_ok_map) simp_all

lemma move_rows_ok: "rows_ok (move_rows s t p q db) = rows_ok db"
  unfolding move_rows_def by (rule rows_ok_map) simp_all

lemma rows_at_unapplied: "applied_rows s t p (mark_unapplied i db) = filter (\<lambda>r. or_op_id r \<noteq> op_id_bytes i) (applied_rows s t p db)"
proof -
  have "filter (\<lambda>r. or_store r = s \<and> or_table r = t \<and> or_row_pk r = p \<and> or_applied r)
      (map (\<lambda>r. if or_op_id r = op_id_bytes i then r\<lparr>or_applied := False\<rparr> else r) rows) =
    filter (\<lambda>r. or_op_id r \<noteq> op_id_bytes i) (filter (\<lambda>r. or_store r = s \<and> or_table r = t \<and> or_row_pk r = p \<and> or_applied r) rows)" for rows
    by (induction rows) auto
  then show ?thesis by (simp add: applied_rows_def mark_unapplied_def)
qed

lemma newest_row_without:
  assumes "keyed_apart rows" "newest_row rows = Some w" "P w"
  shows "newest_row (filter P rows) = Some w"
  using assms newest_row_Some [OF assms(2)] by (intro newest_row_eq keyed_apart_filter) auto

lemma demote_head_heads:
  "sq_heads (demote_head pc i db) k =
     (case List.find (\<lambda>r. or_op_id r = op_id_bytes i) (sq_oplog db) of
        None \<Rightarrow> sq_heads db k
      | Some r \<Rightarrow>
          if k \<noteq> (or_store r, or_table r, or_row_pk r) then sq_heads db k
          else case sq_heads db k of
            None \<Rightarrow> None
          | Some h \<Rightarrow>
              if hr_op_id h \<noteq> op_id_bytes i then Some h
              else map_option (\<lambda>w. h\<lparr>hr_hlc := or_hlc w, hr_device := or_device w, hr_op_id := or_op_id w,
                     hr_payload := resolved_payload pc (or_payload w) (or_envelope w)\<rparr>) (newest_row (rows_at k db)))"
  by (auto simp: demote_head_def Let_def split: option.splits)

lemma rows_at_demote [simp]: "applied_rows s t p (demote_head pc i db) = applied_rows s t p db"
  by (simp add: applied_rows_def)

lemma mark_unapplied_heads [simp]: "sq_heads (mark_unapplied i db) = sq_heads db"
  by (simp add: mark_unapplied_def)

lemma demoted_elsewhere:
  assumes "rows_ok db" "head_ok pc k db"
    and "\<And>r. r \<in> set (rows_at k db) \<Longrightarrow> or_op_id r \<noteq> op_id_bytes i"
    and "sq_heads (demote_head pc i (mark_unapplied i db)) k = sq_heads db k"
  shows "head_ok pc k (demote_head pc i (mark_unapplied i db))"
proof -
  have "rows_at k (mark_unapplied i db) = rows_at k db"
    unfolding rows_at_unapplied using assms(3) by (simp add: filter_id_conv)
  then show ?thesis using assms(2) head_ok_cong [OF assms(4)] by simp
qed

lemma found_unapplied:
  assumes "rows_ok db" "List.find (\<lambda>r. or_op_id r = op_id_bytes i) (sq_oplog (mark_unapplied i db)) = Some r"
    "x \<in> set (rows_at k db)" "or_op_id x = op_id_bytes i"
  shows "k = (or_store r, or_table r, or_row_pk r)"
proof -
  from assms(2) have "r \<in> set (sq_oplog (mark_unapplied i db))" "or_op_id r = op_id_bytes i"
    by (auto simp: find_Some_iff)
  then obtain y where y: "y \<in> set (sq_oplog db)" "r = y\<lparr>or_applied := False\<rparr>" "or_op_id y = op_id_bytes i"
    by (auto simp: mark_unapplied_def split: if_splits)
  have "x \<in> set (sq_oplog db)" "k = (or_store x, or_table x, or_row_pk x)" using assms(3) by (auto simp: applied_rows_def)
  moreover have "x = y" using keyed_apart_inj [of "sq_oplog db" x y] assms(1,4) y(1,3) calculation(1) by (simp add: rows_ok_def)
  ultimately show ?thesis using y(2) by simp
qed

lemma demoted_here:
  assumes "rows_ok db" "head_ok pc k db"
    and found: "List.find (\<lambda>r. or_op_id r = op_id_bytes i) (sq_oplog (mark_unapplied i db)) = Some r"
    and True: "k = (or_store r, or_table r, or_row_pk r)"
  shows "head_ok pc k (demote_head pc i (mark_unapplied i db))"
proof -
  let ?db = "mark_unapplied i db"
  note hd = demote_head_heads [of pc i ?db k, unfolded found option.case]
  show ?thesis
  proof (cases "sq_heads db k")
    case None
    then have "rows_at k db = []" using assms(2) by (simp add: head_ok_None)
    then show ?thesis using hd None True by (simp add: head_ok_None rows_at_unapplied)
  next
    case (Some h)
    then obtain w where w: "newest_row (rows_at k db) = Some w" "head_of pc w h" using assms(2) by (auto simp: head_ok_Some)
    show ?thesis
    proof (cases "hr_op_id h = op_id_bytes i")
      case False
      then have "or_op_id w \<noteq> op_id_bytes i" using w(2) by (simp add: head_of_def head_key_def row_key_def)
      then have "newest_row (rows_at k ?db) = Some w"
        unfolding rows_at_unapplied by (rule newest_row_without [OF rows_ok_at [OF assms(1)] w(1)])
      then show ?thesis using hd True False Some w(2) by (simp add: head_ok_Some)
    next
      case demoted: True
      show ?thesis
      proof (cases "newest_row (rows_at k ?db)")
        case None
        then show ?thesis using hd True Some demoted by (simp add: head_ok_None)
      next
        case (Some v)
        then show ?thesis using hd True \<open>sq_heads db k = Some h\<close> demoted
          by (simp add: head_ok_Some head_of_def head_key_def row_key_def)
      qed
    qed
  qed
qed

lemma demote_head_ok:
  assumes "rows_ok db" "head_ok pc k db"
  shows "head_ok pc k (demote_head pc i (mark_unapplied i db))"
proof -
  let ?db = "mark_unapplied i db"
  show ?thesis
  proof (cases "List.find (\<lambda>r. or_op_id r = op_id_bytes i) (sq_oplog ?db)")
    case None
    have "or_op_id r \<noteq> op_id_bytes i" if "r \<in> set (rows_at k db)" for r
    proof
      assume "or_op_id r = op_id_bytes i"
      moreover have "r \<in> set (sq_oplog db)" using that by (simp add: applied_rows_def)
      ultimately have "r\<lparr>or_applied := False\<rparr> \<in> set (sq_oplog ?db)" by (force simp: mark_unapplied_def)
      then show False using None \<open>or_op_id r = op_id_bytes i\<close> by (auto simp: find_None_iff)
    qed
    then show ?thesis using None by (intro demoted_elsewhere assms) (auto simp: demote_head_heads)
  next
    case (Some r)
    show ?thesis
    proof (cases "k = (or_store r, or_table r, or_row_pk r)")
      case False
      then have "or_op_id x \<noteq> op_id_bytes i" if "x \<in> set (rows_at k db)" for x
        using found_unapplied [OF assms(1) Some that] by blast
      then show ?thesis using Some False by (intro demoted_elsewhere assms) (auto simp: demote_head_heads)
    next
      case True
      then show ?thesis using demoted_here [OF assms Some] by simp
    qed
  qed
qed

subsection \<open>Appending\<close>

lemma newest_row_snoc:
  assumes "keyed_apart (rs @ [r])"
  shows "newest_row (rs @ [r]) = Some (case newest_row rs of None \<Rightarrow> r | Some w \<Rightarrow> if row_key w < row_key r then r else w)"
proof (cases "newest_row rs")
  case None
  then show ?thesis using newest_row_eq [OF assms, of r] by simp
next
  case (Some w)
  show ?thesis
  proof (cases "row_key w < row_key r")
    case True
    have "row_key x \<le> row_key r" if "x \<in> set (rs @ [r])" for x
      using that newest_row_Some(2) [OF Some, of x] True by auto
    then show ?thesis using newest_row_eq [OF assms, of r] Some True by simp
  next
    case False
    have "row_key x \<le> row_key w" if "x \<in> set (rs @ [r])" for x
      using that newest_row_Some(2) [OF Some, of x] False by auto
    then show ?thesis using newest_row_eq [OF assms, of w] Some False newest_row_Some(1) [OF Some] by simp
  qed
qed

text \<open>The row \<open>append\<close> inserts.\<close>

definition appended_row :: "bytes \<Rightarrow> signed_op \<Rightarrow> string \<Rightarrow> string \<Rightarrow> int \<Rightarrow> oplog_row" where
  "appended_row envelope sop table row_pk origin =
     \<lparr>or_op_id = op_id_bytes (op_id sop), or_hlc = hlc_as_i64 (body_hlc (op_body sop)),
      or_device = as_bytes (body_device (op_body sop)), or_store = body_store (op_body sop),
      or_payload = [], or_envelope = envelope, or_table = table, or_row_pk = row_pk, or_origin = origin, or_applied = True\<rparr>"

lemma row_key_appended [simp]: "row_key (appended_row envelope sop table row_pk origin) = op_key sop"
  by (simp add: row_key_def appended_row_def op_key_def)

lemma upsert_head_simps [simp]:
  "sq_oplog (upsert_head sop t p db) = sq_oplog db" "sq_arrivals (upsert_head sop t p db) = sq_arrivals db"
  by (simp_all add: upsert_head_def Let_def)

lemma note_own_op_simps [simp]:
  "sq_oplog (note_own_op sop db) = sq_oplog db" "sq_arrivals (note_own_op sop db) = sq_arrivals db"
  "sq_heads (note_own_op sop db) = sq_heads db"
  by (simp_all add: note_own_op_def sq_advance_local_coverage_def split: option.splits)

lemma sq_append_cases:
  assumes "codec_laws pc" "op_wf sop"
  obtains (known) "sq_append pc sq now sop t p origin db = (db, Inr False)" "sq_contains (op_id sop) db"
  | (fresh) envelope db' where "sq_append pc sq now sop t p origin db = (db', Inr True)" "\<not> sq_contains (op_id sop) db"
      "to_bytes pc sop = Inr envelope" "from_bytes pc envelope = Inr sop"
      "sq_oplog db' = sq_oplog db @ [appended_row envelope sop t p origin]"
      "sq_arrivals db' = sq_arrivals db @ [\<lparr>ar_seq = sq, ar_op_id = op_id_bytes (op_id sop), ar_arrived_at = now\<rparr>]"
      "sq_heads db' = sq_heads (upsert_head sop t p (db\<lparr>sq_oplog := sq_oplog db @ [appended_row envelope sop t p origin]\<rparr>))"
proof -
  obtain envelope where e: "to_bytes pc sop = Inr envelope" "from_bytes pc envelope = Inr sop"
    using from_to_bytes assms by blast
  show thesis
  proof (cases "sq_contains (op_id sop) db")
    case True
    then show thesis using known e by (simp add: sq_append_def sq_contains_def)
  next
    case False
    then show thesis using e
      by (intro fresh [OF _ False e]) (auto simp: sq_append_def sq_contains_def Let_def appended_row_def upsert_head_def applied_rows_def intro!: prod_eqI)
  qed
qed

lemma sq_append_rows_ok:
  assumes "codec_laws pc" "op_wf sop" "rows_ok db"
  shows "rows_ok (fst (sq_append pc sq now sop t p origin db))"
  using assms(1,2)
proof (cases rule: sq_append_cases [where sq = sq and now = now and t = t and p = p and origin = origin and db = db])
  case known
  then show ?thesis using assms(3) by simp
next
  case (fresh envelope db')
  then show ?thesis using assms(2,3)
    by (auto simp: rows_ok_def keyed_apart_def sq_contains_def list_ex_iff appended_row_def op_wf_def device_wf_def)
qed

lemma head_key_origin [simp]: "head_key (h\<lparr>hr_origin_device := d\<rparr>) = head_key h"
  by (simp add: head_key_def)

lemma head_key_of_op [simp]:
  "head_key \<lparr>hr_hlc = hlc_as_i64 (body_hlc (op_body sop)), hr_device = as_bytes (body_device (op_body sop)),
     hr_op_id = op_id_bytes (op_id sop), hr_payload = b, hr_origin_device = d\<rparr> = op_key sop"
  by (simp add: head_key_def op_key_def)

lemma upsert_head_at:
  "\<exists>h. sq_heads (upsert_head sop t p db) (body_store (op_body sop), t, p) = Some h \<and>
     (head_key h, hr_payload h) = (case sq_heads db (body_store (op_body sop), t, p) of
       None \<Rightarrow> (op_key sop, body_payload (op_body sop))
     | Some g \<Rightarrow> if head_key g < op_key sop then (op_key sop, body_payload (op_body sop)) else (head_key g, hr_payload g))"
  by (cases "sq_heads db (body_store (op_body sop), t, p)") (simp_all add: upsert_head_def Let_def)

lemma upsert_head_ok:
  assumes "rows_ok db" "head_ok pc (body_store (op_body sop), t, p) db"
    and new: "keyed_apart (applied_rows (body_store (op_body sop)) t p db @ [appended_row envelope sop t p origin])"
    and e: "from_bytes pc envelope = Inr sop"
  defines "db' \<equiv> db\<lparr>sq_oplog := sq_oplog db @ [appended_row envelope sop t p origin]\<rparr>"
  shows "head_ok pc (body_store (op_body sop), t, p) (upsert_head sop t p db')"
proof -
  let ?r = "appended_row envelope sop t p origin" and ?k = "(body_store (op_body sop), t, p)"
  have rows: "rows_at ?k (upsert_head sop t p db') = rows_at ?k db @ [?r]"
    by (simp add: db'_def applied_rows_def appended_row_def)
  have paid: "resolved_payload pc (or_payload ?r) (or_envelope ?r) = body_payload (op_body sop)"
    using e by (simp add: resolved_payload_def appended_row_def)
  obtain h where h: "sq_heads (upsert_head sop t p db') ?k = Some h"
    and key: "(head_key h, hr_payload h) = (case sq_heads db ?k of
       None \<Rightarrow> (op_key sop, body_payload (op_body sop))
     | Some g \<Rightarrow> if head_key g < op_key sop then (op_key sop, body_payload (op_body sop)) else (head_key g, hr_payload g))"
    using upsert_head_at [of sop t p db'] by (auto simp: db'_def)
  show ?thesis
  proof (cases "sq_heads db ?k")
    case None
    then have none: "newest_row (rows_at ?k db) = None" using assms(2) by (simp add: head_ok_None)
    have "newest_row (rows_at ?k db @ [?r]) = Some ?r"
      using newest_row_snoc [OF new] none by simp
    then show ?thesis using h key rows paid None by (simp add: head_ok_Some head_of_def)
  next
    case (Some g)
    then obtain w where w: "newest_row (rows_at ?k db) = Some w" "head_of pc w g" using assms(2) by (auto simp: head_ok_Some)
    then have "newest_row (rows_at ?k db @ [?r]) = Some (if head_key g < op_key sop then ?r else w)"
      using newest_row_snoc [OF new] by (simp add: head_of_def)
    then show ?thesis using h key rows paid Some w(2) by (simp add: head_ok_Some head_of_def split: if_splits)
  qed
qed

lemma sq_append_head_ok:
  assumes "codec_laws pc" "op_wf sop" "rows_ok db" "head_ok pc k db"
  shows "head_ok pc k (fst (sq_append pc sq now sop t p origin db))"
  using assms(1,2)
proof (cases rule: sq_append_cases [where sq = sq and now = now and t = t and p = p and origin = origin and db = db])
  case known
  then show ?thesis using assms(4) by simp
next
  case (fresh envelope db')
  let ?r = "appended_row envelope sop t p origin" and ?db = "db\<lparr>sq_oplog := sq_oplog db @ [appended_row envelope sop t p origin]\<rparr>"
  have same: "head_ok pc k db' = head_ok pc k (upsert_head sop t p ?db)"
    using fresh(5,7) by (intro head_ok_cong applied_rows_cong) simp_all
  show ?thesis
  proof (cases "k = (body_store (op_body sop), t, p)")
    case True
    have "rows_ok (fst (sq_append pc sq now sop t p origin db))" by (rule sq_append_rows_ok [OF assms(1-3)])
    then have "rows_ok db'" using fresh(1) by simp
    then have "keyed_apart (applied_rows (body_store (op_body sop)) t p db @ [?r])"
      using rows_ok_at [of db' "body_store (op_body sop)" t p] by (simp add: fresh(5) applied_rows_def appended_row_def)
    then show ?thesis using upsert_head_ok [OF assms(3), of pc sop t p envelope origin] assms(4) fresh(1,4) same True by simp
  next
    case False
    then have "head_ok pc k (upsert_head sop t p ?db) = head_ok pc k db"
      by (intro head_ok_cong) (auto simp: upsert_head_def Let_def applied_rows_def appended_row_def)
    then show ?thesis using same fresh(1) assms(4) by simp
  qed
qed

subsection \<open>Reading through the head\<close>

definition key_of_row :: "oplog_row \<Rightarrow> order_key" where
  "key_of_row r = OrderKey (word_of_int (or_hlc r)) (DeviceId (or_device r)) (OpId (or_op_id r))"

lemma order_key_from_row_ok:
  "rows_ok db \<Longrightarrow> r \<in> set (sq_oplog db) \<Longrightarrow> order_key_from_row (row_key r) = Inr (key_of_row r)"
  by (simp add: order_key_from_row_def row_key_def rows_ok_def key_of_row_def)

lemma newest_in_oplog: "newest_row (filter P (applied_rows s t p db)) = Some w \<Longrightarrow> w \<in> set (sq_oplog db)"
  using newest_row_Some(1) [of "filter P (applied_rows s t p db)" w] by (simp add: applied_rows_def)

text \<open>Excluding an operation that is not the head cannot change the winner, so reading the head first is exact.\<close>

lemma newest_op_exact:
  assumes "rows_ok db" "head_ok pc (s, t, p) db"
  shows "newest_op_in_store pc s t p x db =
    Inr (map_option (\<lambda>w. (key_of_row w, resolved_payload pc (or_payload w) (or_envelope w)))
      (newest_row (filter (\<lambda>r. or_op_id r \<noteq> op_id_bytes x) (applied_rows s t p db))))"
proof -
  let ?f = "filter (\<lambda>r. or_op_id r \<noteq> op_id_bytes x) (applied_rows s t p db)"
  have scan: "(case newest_row ?f of None \<Rightarrow> Inr None
      | Some r \<Rightarrow> and_then (order_key_from_row (row_key r)) (\<lambda>key. Inr (Some (key, resolved_payload pc (or_payload r) (or_envelope r))))) =
    (Inr (map_option (\<lambda>w. (key_of_row w, resolved_payload pc (or_payload w) (or_envelope w))) (newest_row ?f)) :: sqlite_error + _)"
    using order_key_from_row_ok [OF assms(1)] newest_in_oplog by (auto split: option.splits)
  show ?thesis
  proof (cases "sq_heads db (s, t, p)")
    case None
    then show ?thesis by (simp add: newest_op_in_store_def scan)
  next
    case (Some h)
    then obtain w where w: "newest_row (applied_rows s t p db) = Some w" "head_of pc w h" using assms(2) by (auto simp: head_ok_Some)
    have "w \<in> set (sq_oplog db)" using newest_row_Some(1) [OF w(1)] by (simp add: applied_rows_def)
    then have key: "order_key_from_row (head_key h) = Inr (key_of_row w)"
      using order_key_from_row_ok [OF assms(1)] w(2) by (simp add: head_of_def)
    show ?thesis
    proof (cases "key_op_id (key_of_row w) = x")
      case True
      then show ?thesis using Some key scan by (simp add: newest_op_in_store_def)
    next
      case False
      then have "or_op_id w \<noteq> op_id_bytes x" by (auto simp: key_of_row_def)
      then have "newest_row ?f = Some w" by (rule newest_row_without [OF rows_ok_at [OF assms(1)] w(1)])
      then show ?thesis using Some key False w(2) by (simp add: newest_op_in_store_def head_of_def)
    qed
  qed
qed

lemma and_then_assoc: "and_then (and_then r f) g = and_then r (\<lambda>a. and_then (f a) g)"
  by (cases r) simp_all

lemma newest_applied_of_op:
  "newest_applied_in_store s t p x db = and_then (newest_op_in_store pc s t p x db) (\<lambda>found. Inr (map_option fst found))"
proof (cases "sq_heads db (s, t, p)")
  case None
  then show ?thesis
    by (cases "newest_row (filter (\<lambda>r. or_op_id r \<noteq> op_id_bytes x) (applied_rows s t p db))")
      (simp_all add: newest_applied_in_store_def newest_op_in_store_def and_then_assoc)
next
  case (Some h)
  then show ?thesis
    by (cases "newest_row (filter (\<lambda>r. or_op_id r \<noteq> op_id_bytes x) (applied_rows s t p db))"; cases "order_key_from_row (head_key h)")
      (simp_all add: newest_applied_in_store_def newest_op_in_store_def and_then_assoc)
qed

section \<open>The order of the stored keys\<close>

lemma hlc_back [simp]: "word_of_int (hlc_as_i64 h) = h"
  by (simp add: hlc_as_i64_def)

lemma hlc_as_i64_low: "uint h < 2 ^ 63 \<Longrightarrow> hlc_as_i64 h = uint h"
proof -
  assume "uint h < 2 ^ 63"
  moreover have "- (2 ^ 63) \<le> uint h" by (rule order_trans [OF _ uint_ge_0]) simp
  ultimately have "signed_take_bit 63 (uint h) = uint h" unfolding signed_take_bit_int_eq_self_iff by (rule conjI [rotated])
  then show ?thesis unfolding hlc_as_i64_def sint_uint by simp
qed

lemma hlc_as_i64_high: "2 ^ 63 \<le> uint h \<Longrightarrow> hlc_as_i64 h < 0"
proof -
  assume h: "2 ^ 63 \<le> uint h"
  have "uint h < 2 * 2 ^ 63" using uint_lt2p [of h] by simp
  then have "(uint h - 2 ^ 63) div 2 ^ 63 = 0" using h by (intro div_pos_pos_trivial) (simp_all only: diff_ge_0_iff_ge diff_less_eq mult_2)
  then have "uint h div 2 ^ 63 = 1" using div_pos_geq [OF _ h] by simp
  then have "bit (uint h) 63" unfolding bit_iff_odd by simp
  then show ?thesis unfolding hlc_as_i64_def sint_uint by simp
qed

definition clock_fits :: "signed_op \<Rightarrow> bool" where
  "clock_fits sop \<longleftrightarrow> uint (body_hlc (op_body sop)) < 2 ^ 63"

lemma op_key_fits: "clock_fits sop \<Longrightarrow> fst (op_key sop) = uint (body_hlc (op_body sop))"
  by (simp add: op_key_def clock_fits_def hlc_as_i64_low)

lemma op_key_less:
  assumes "clock_fits a" "clock_fits b"
  shows "op_key a < op_key b \<longleftrightarrow> order_key a < order_key b"
proof -
  have "op_key a < op_key b \<longleftrightarrow> fst (op_key a) < fst (op_key b) \<or> fst (op_key a) = fst (op_key b) \<and> snd (op_key a) < snd (op_key b)"
    by (cases "op_key a"; cases "op_key b") auto
  also have "\<dots> \<longleftrightarrow> order_key a < order_key b"
    unfolding op_key_fits [OF assms(1)] op_key_fits [OF assms(2)]
    by (auto simp: op_key_def order_key_def less_order_key_def word_less_def less_device_id_def less_op_id_def
        less_prod_def le_less intro: device_id.expand word_uint_eqI)
  finally show ?thesis .
qed

lemma key_of_appended [simp]: "key_of_row (appended_row envelope sop t p origin) = order_key sop"
  by (simp add: key_of_row_def appended_row_def order_key_def)

section \<open>Appending in any order\<close>

text \<open>An append with the values the database and the caller supply: sequence number, time, operation, origin.\<close>

type_synonym sq_arrival = "int \<times> int \<times> signed_op \<times> int"

definition arrived_op :: "sq_arrival \<Rightarrow> signed_op" where
  "arrived_op a = fst (snd (snd a))"

fun sq_append_all :: "codec \<Rightarrow> (signed_op \<Rightarrow> string \<times> string) \<Rightarrow> sq_arrival list \<Rightarrow> oplog_db \<Rightarrow> oplog_db" where
  "sq_append_all pc proj [] db = db"
| "sq_append_all pc proj ((sq, now, sop, origin) # rest) db =
     sq_append_all pc proj rest (fst (sq_append pc sq now sop (fst (proj sop)) (snd (proj sop)) origin db))"

definition row_of :: "codec \<Rightarrow> (signed_op \<Rightarrow> string \<times> string) \<Rightarrow> signed_op \<Rightarrow> oplog_row \<Rightarrow> bool" where
  "row_of pc proj sop r \<longleftrightarrow>
     (\<exists>e i. r = appended_row e sop (fst (proj sop)) (snd (proj sop)) i \<and> to_bytes pc sop = Inr e \<and> from_bytes pc e = Inr sop)"

definition log_holds :: "codec \<Rightarrow> (signed_op \<Rightarrow> string \<times> string) \<Rightarrow> signed_op set \<Rightarrow> oplog_db \<Rightarrow> bool" where
  "log_holds pc proj sops db \<longleftrightarrow>
     rows_ok db \<and> (\<forall>k. head_ok pc k db) \<and>
     (\<forall>r \<in> set (sq_oplog db). \<exists>sop \<in> sops. row_of pc proj sop r) \<and>
     (\<forall>sop \<in> sops. sq_contains (op_id sop) db)"

lemma log_holds_empty: "sq_oplog db = [] \<Longrightarrow> sq_heads db = (\<lambda>_. None) \<Longrightarrow> log_holds pc proj {} db"
  by (simp add: log_holds_def rows_ok_def keyed_apart_def head_ok_def applied_rows_def)

lemma log_holds_append:
  assumes "codec_laws pc" "op_wf sop" "log_holds pc proj sops db"
  shows "log_holds pc proj (insert sop sops) (fst (sq_append pc sq now sop (fst (proj sop)) (snd (proj sop)) i db))" (is "log_holds _ _ _ ?db")
proof -
  have "rows_ok ?db" "head_ok pc k ?db" for k
    using assms(3) unfolding log_holds_def by (blast intro: sq_append_rows_ok [OF assms(1,2)] sq_append_head_ok [OF assms(1,2)])+
  moreover have "(\<forall>r \<in> set (sq_oplog ?db). \<exists>sop \<in> insert sop sops. row_of pc proj sop r) \<and> (\<forall>sop \<in> insert sop sops. sq_contains (op_id sop) ?db)"
    using assms(1,2)
  proof (cases rule: sq_append_cases [where sq = sq and now = now and t = "fst (proj sop)" and p = "snd (proj sop)" and origin = i and db = db])
    case known
    then show ?thesis using assms(3) by (auto simp: log_holds_def)
  next
    case (fresh envelope db')
    then show ?thesis using assms(3)
      by (auto simp: log_holds_def sq_contains_def row_of_def) (auto simp: appended_row_def)
  qed
  ultimately show ?thesis by (simp add: log_holds_def)
qed

lemma log_holds_append_all:
  assumes "codec_laws pc" "list_all (\<lambda>a. op_wf (arrived_op a)) as" "log_holds pc proj sops db"
  shows "log_holds pc proj (sops \<union> arrived_op ` set as) (sq_append_all pc proj as db)"
  using assms(2,3)
proof (induction as arbitrary: sops db)
  case (Cons a as)
  obtain sq now sop i where a: "a = (sq, now, sop, i)" by (metis prod_cases4)
  have "log_holds pc proj (insert sop sops) (fst (sq_append pc sq now sop (fst (proj sop)) (snd (proj sop)) i db))"
    using Cons.prems by (intro log_holds_append assms(1)) (simp_all add: a arrived_op_def)
  from Cons.IH [OF _ this] Cons.prems(1) show ?case by (simp add: a arrived_op_def)
qed simp

definition lww_winner :: "signed_op list \<Rightarrow> (order_key \<times> bytes) option" where
  "lww_winner sops =
     (if sops = [] then None else let w = last (sort_key order_key sops) in Some (order_key w, body_payload (op_body w)))"

lemma lww_winner_max:
  assumes "w \<in> set sops" "\<And>x. x \<in> set sops \<Longrightarrow> order_key x \<le> order_key w" "inj_on op_id (set sops)"
  shows "lww_winner sops = Some (order_key w, body_payload (op_body w))"
proof -
  have ne: "sort_key order_key sops \<noteq> []" using assms(1) by auto
  define l where "l = last (sort_key order_key sops)"
  have l: "l \<in> set sops" using last_in_set [OF ne] by (simp add: l_def)
  have "order_key w \<le> order_key l" unfolding l_def using assms(1) by (intro sorted_last_max [OF sorted_sort_key]) simp
  then have "order_key l = order_key w" using assms(2) [OF l] by simp
  then have "op_id l = op_id w" by (simp add: order_key_def)
  then have "l = w" using assms(1,3) l by (auto dest: inj_onD)
  then show ?thesis using assms(1) by (auto simp: lww_winner_def l_def Let_def)
qed

lemma row_of_fields:
  assumes "row_of pc proj sop r"
  shows "or_store r = body_store (op_body sop)" "or_table r = fst (proj sop)" "or_row_pk r = snd (proj sop)" "or_applied r"
    "or_op_id r = op_id_bytes (op_id sop)" "row_key r = op_key sop" "key_of_row r = order_key sop"
    "resolved_payload pc (or_payload r) (or_envelope r) = body_payload (op_body sop)"
  using assms by (auto simp: row_of_def resolved_payload_def) (auto simp: appended_row_def)

lemma log_holds_row:
  assumes "log_holds pc proj sops db" "inj_on op_id sops" "sop \<in> sops"
  obtains r where "r \<in> set (sq_oplog db)" "row_of pc proj sop r"
proof -
  obtain r where r: "r \<in> set (sq_oplog db)" "or_op_id r = op_id_bytes (op_id sop)"
    using assms(1,3) by (auto simp: log_holds_def sq_contains_def list_ex_iff)
  then obtain x where x: "x \<in> sops" "row_of pc proj x r" using assms(1) by (auto simp: log_holds_def)
  then have "op_id x = op_id sop" using r(2) row_of_fields(5) [OF x(2)] by (simp add: op_id.expand)
  then have "x = sop" using assms(2,3) x(1) by (auto dest: inj_onD)
  then show thesis using that r(1) x(2) by blast
qed

definition row_ops :: "(signed_op \<Rightarrow> string \<times> string) \<Rightarrow> string \<Rightarrow> string \<Rightarrow> string \<Rightarrow> op_id \<Rightarrow> signed_op list \<Rightarrow> signed_op list" where
  "row_ops proj s t p x sops = filter (\<lambda>sop. body_store (op_body sop) = s \<and> proj sop = (t, p) \<and> op_id sop \<noteq> x) sops"

lemma newest_op_winner:
  assumes holds: "log_holds pc proj (set sops) db" and inj: "inj_on op_id (set sops)" and fits: "list_all clock_fits sops"
  shows "newest_op_in_store pc s t p x db = Inr (lww_winner (row_ops proj s t p x sops))"
proof -
  let ?f = "filter (\<lambda>r. or_op_id r \<noteq> op_id_bytes x) (applied_rows s t p db)" and ?ops = "row_ops proj s t p x sops"
  have covered: "\<exists>r \<in> set ?f. row_of pc proj sop r" if "sop \<in> set ?ops" for sop
  proof -
    from that have sop: "sop \<in> set sops" "body_store (op_body sop) = s" "proj sop = (t, p)" "op_id sop \<noteq> x" by (auto simp: row_ops_def)
    obtain r where r: "r \<in> set (sq_oplog db)" "row_of pc proj sop r" using log_holds_row [OF holds inj sop(1)] .
    then have "r \<in> set ?f" using sop row_of_fields [OF r(2)] by (auto simp: applied_rows_def op_id.expand)
    then show ?thesis using r(2) by blast
  qed
  have from_op: "\<exists>sop \<in> set ?ops. row_of pc proj sop r" if "r \<in> set ?f" for r
  proof -
    from that obtain sop where sop: "sop \<in> set sops" "row_of pc proj sop r" using holds by (auto simp: log_holds_def applied_rows_def)
    then have "sop \<in> set ?ops" using that row_of_fields [OF sop(2)] by (auto simp: applied_rows_def row_ops_def prod_eq_iff)
    then show ?thesis using sop(2) by blast
  qed
  have fits': "clock_fits sop" if "sop \<in> set ?ops" for sop using that fits by (auto simp: row_ops_def list_all_iff)
  have exact: "newest_op_in_store pc s t p x db = Inr (map_option (\<lambda>w. (key_of_row w, resolved_payload pc (or_payload w) (or_envelope w))) (newest_row ?f))"
    using holds by (intro newest_op_exact) (auto simp: log_holds_def)
  show ?thesis
  proof (cases "newest_row ?f")
    case None
    then have "set ?ops = {}" using covered by fastforce
    then show ?thesis using exact None by (simp add: lww_winner_def)
  next
    case (Some r)
    obtain w where w: "w \<in> set ?ops" "row_of pc proj w r" using from_op [OF newest_row_Some(1) [OF Some]] by blast
    have "order_key y \<le> order_key w" if y: "y \<in> set ?ops" for y
    proof -
      obtain q where q: "q \<in> set ?f" "row_of pc proj y q" using covered [OF y] by blast
      have "op_key y \<le> op_key w" using newest_row_Some(2) [OF Some q(1)] row_of_fields(6) [OF q(2)] row_of_fields(6) [OF w(2)] by simp
      then show ?thesis using op_key_less [OF fits' [OF w(1)] fits' [OF y]] by (simp add: not_less [symmetric])
    qed
    moreover have "inj_on op_id (set ?ops)" using inj by (auto simp: row_ops_def inj_on_def)
    ultimately have "lww_winner ?ops = Some (order_key w, body_payload (op_body w))" using w(1) by (intro lww_winner_max)
    then show ?thesis using exact Some row_of_fields(7,8) [OF w(2)] by simp
  qed
qed

end
