(* ===== verification/SqliteCoverage.thy ===== *)
theory SqliteCoverage
  imports SqliteHeads
begin

text \<open>
  Coverage, acknowledgments, the device tables and the pull socket of the SQLite backend
  (\<open>src/sqlite/coverage.rs\<close>, \<open>device_book.rs\<close>, \<open>pull_socket.rs\<close>). The rows of a \<open>SELECT DISTINCT\<close> or a \<open>UNION\<close> come
  in the order of their first occurrence.
\<close>

section \<open>Claims\<close>

definition sq_covers :: "coverage_vector \<Rightarrow> order_key \<Rightarrow> bool" where
  "sq_covers claims key = (case map_of claims (key_device key) of Some claim \<Rightarrow> key \<le> claim | None \<Rightarrow> False)"

definition COVERAGE_PRIMED_KEY :: string where "COVERAGE_PRIMED_KEY = ''mesh.origin_coverage_primed''"

definition origin_index_exists :: "oplog_db \<Rightarrow> bool" where
  "origin_index_exists db \<longleftrightarrow> ORIGIN_INDEX_NAME \<in> sq_indexes db"

definition is_primed :: "oplog_db \<Rightarrow> bool" where
  "is_primed db = (if sq_config db COVERAGE_PRIMED_KEY \<noteq> Some ''1'' then False else origin_index_exists db)"

fun coverage_rows :: "(bytes \<times> bytes) list \<Rightarrow> coverage_vector \<Rightarrow> coverage_vector" where
  "coverage_rows [] vector = vector"
| "coverage_rows ((origin, wire) # rows) vector =
     (if length origin = 32 \<and> length wire = 72
      then coverage_rows rows (bt_insert (DeviceId origin) (from_wire wire) vector)
      else coverage_rows rows vector)"

definition sq_local_coverage :: "oplog_db \<Rightarrow> coverage_vector" where
  "sq_local_coverage db = coverage_rows (sq_coverage db) []"

section \<open>Priming\<close>

definition ensure_origin_index :: "oplog_db \<Rightarrow> oplog_db \<times> bool" where
  "ensure_origin_index db =
     (if \<not> origin_index_exists db then (db\<lparr>sq_indexes := insert ORIGIN_INDEX_NAME (sq_indexes db)\<rparr>, True) else (db, False))"

definition list_distinct_origins :: "oplog_db \<Rightarrow> device_id list" where
  "list_distinct_origins db = map DeviceId (filter (\<lambda>d. length d = 32) (remdups (map or_device (sq_oplog db))))"

definition origin_max :: "oplog_db \<Rightarrow> device_id \<Rightarrow> sqlite_error + order_key option" where
  "origin_max db origin =
     (if \<not> origin_index_exists db then Inl (SqlOther ''coverage origin max'')
      else case newest_row (filter (\<lambda>r. or_device r = as_bytes origin) (sq_oplog db)) of
        None \<Rightarrow> Inr None
      | Some r \<Rightarrow> and_then (order_key_from_row (row_key r)) (\<lambda>key. Inr (Some key)))"

fun prime_origins_chunk_in_txn :: "device_id list \<Rightarrow> nat \<Rightarrow> oplog_db \<Rightarrow> oplog_db \<times> (sqlite_error + nat)" where
  "prime_origins_chunk_in_txn [] primed db = (db, Inr primed)"
| "prime_origins_chunk_in_txn (origin # chunk) primed db =
     (case origin_max db origin of
        Inl e \<Rightarrow> (db, Inl e)
      | Inr None \<Rightarrow> prime_origins_chunk_in_txn chunk primed db
      | Inr (Some key) \<Rightarrow> prime_origins_chunk_in_txn chunk (primed + 1) (sq_advance_local_coverage origin key db))"

definition mark_coverage_primed :: "oplog_db \<Rightarrow> oplog_db" where
  "mark_coverage_primed db = db\<lparr>sq_config := (sq_config db)(COVERAGE_PRIMED_KEY \<mapsto> ''1'')\<rparr>"

section \<open>Peer acknowledgments\<close>

definition current_stream_epoch :: "oplog_db \<Rightarrow> sqlite_error + bytes" where
  "current_stream_epoch db =
     (if length (sq_stream_epoch db) = 32 then Inr (sq_stream_epoch db) else Inl (SqlOther ''relay stream epoch is not 32 bytes''))"

definition sq_record_peer_ack :: "oplog_db \<Rightarrow> device_id \<Rightarrow> bytes \<Rightarrow> nat \<Rightarrow> oplog_db \<times> (sqlite_error + unit)" where
  "sq_record_peer_ack db peer epoch sq =
     (case current_stream_epoch db of
        Inl e \<Rightarrow> (db, Inl e)
      | Inr current \<Rightarrow>
          if current \<noteq> epoch then (db, Inr ())
          else case i64_try_from ''peer ack exceeds SQLite range'' sq of
            Inl e \<Rightarrow> (db, Inl e)
          | Inr sq \<Rightarrow>
              let acked = (case sq_acks db (as_bytes peer) of
                             Some (e, held) \<Rightarrow> if e = epoch then max held sq else sq
                           | None \<Rightarrow> sq) in
              (db\<lparr>sq_acks := (sq_acks db)(as_bytes peer \<mapsto> (epoch, acked))\<rparr>, Inr ()))"

text \<open>Strings compare by their code points.\<close>

definition sql_text :: "string \<Rightarrow> nat list" where
  "sql_text s = map of_char s"

definition dormant :: "string option \<Rightarrow> string \<Rightarrow> bool" where
  "dormant dormant_before last_seen_at =
     (case dormant_before of Some cutoff \<Rightarrow> sql_text last_seen_at < sql_text cutoff | None \<Rightarrow> False)"

definition U64_MAX :: nat where "U64_MAX = 2 ^ 64 - 1"

fun min_ack_loop :: "oplog_db \<Rightarrow> bytes \<Rightarrow> string option \<Rightarrow> (string \<times> string) list \<Rightarrow> nat \<Rightarrow> nat option" where
  "min_ack_loop db epoch dormant_before [] floor = (if floor = U64_MAX then None else Some floor)"
| "min_ack_loop db epoch dormant_before ((peer, last_seen_at) # rest) floor =
     (case from_hex peer of
        Inl _ \<Rightarrow> Some 0
      | Inr peer \<Rightarrow>
          (case Option.bind (sq_acks db (as_bytes peer)) (\<lambda>(e, acked). if e = epoch then Some acked else None) of
             None \<Rightarrow>
               if dormant dormant_before last_seen_at then min_ack_loop db epoch dormant_before rest floor else Some 0
           | Some acked \<Rightarrow>
               if dormant dormant_before last_seen_at then min_ack_loop db epoch dormant_before rest floor
               else
                 let floor = min floor (nat (max acked 0)) in
                 if floor = 0 then Some 0 else min_ack_loop db epoch dormant_before rest floor))"

definition trusted_peers :: "device_id \<Rightarrow> oplog_db \<Rightarrow> device_row list" where
  "trusted_peers local_device db = filter (\<lambda>d. dv_trusted d \<and> dv_device_id d \<noteq> to_hex local_device) (sq_devices db)"

definition min_peer_ack :: "oplog_db \<Rightarrow> device_id \<Rightarrow> bytes \<Rightarrow> string option \<Rightarrow> nat option" where
  "min_peer_ack db local_device current_epoch dormant_before =
     (let peers = map (\<lambda>d. (dv_device_id d, dv_last_seen_at d)) (trusted_peers local_device db) in
      if peers = [] then None else min_ack_loop db current_epoch dormant_before peers U64_MAX)"

section \<open>Origins\<close>

definition sql_min :: "bytes list \<Rightarrow> bytes option" where
  "sql_min ds = (case ds of [] \<Rightarrow> None | d # rest \<Rightarrow> Some (foldl min d rest))"

lemma foldl_min_in: "foldl min d rest \<in> set (d # rest)" for d :: "'a::linorder"
proof (induction rest arbitrary: d)
  case (Cons x rest)
  from Cons.IH [of "min d x"] show ?case by (auto simp: min_def split: if_splits)
qed simp

lemma foldl_min_le: "x \<in> set (d # rest) \<Longrightarrow> foldl min d rest \<le> x" for d :: "'a::linorder"
proof (induction rest arbitrary: d x)
  case (Cons y rest)
  have "foldl min (min d y) rest \<le> min d y" using Cons.IH [of "min d y" "min d y"] by simp
  then show ?case using Cons.IH [of x "min d y"] Cons.prems by auto
qed simp

lemma sql_min_in: "sql_min ds = Some m \<Longrightarrow> m \<in> set ds \<and> (\<forall>d \<in> set ds. m \<le> d)"
  using foldl_min_in foldl_min_le by (cases ds) (auto simp: sql_min_def simp del: set_simps)

text \<open>The recursive query: the least device, then the least above it, until there is none.\<close>

function skip_scan :: "bytes list \<Rightarrow> bytes list" where
  "skip_scan ds = (case sql_min ds of None \<Rightarrow> [] | Some d \<Rightarrow> d # skip_scan (filter (\<lambda>x. d < x) ds))"
  by pat_completeness auto
termination
  by (relation "measure length") (auto dest!: sql_min_in intro: length_filter_less)

declare skip_scan.simps [simp del]

definition sq_origins :: "oplog_db \<Rightarrow> device_id list" where
  "sq_origins db = map DeviceId (filter (\<lambda>d. length d = 32) (skip_scan (map or_device (sq_oplog db))))"

section \<open>Devices\<close>

definition newest_vouch :: "vouch_row list \<Rightarrow> vouch_row option" where
  "newest_vouch vs =
     (if vs = [] then None
      else let t = foldl max [] (map (\<lambda>v. sql_text (vo_updated_at v)) vs) in
        Some (hd (sort_key (\<lambda>v. sql_text (vo_voucher v)) (filter (\<lambda>v. sql_text (vo_updated_at v) = t) vs))))"

definition lookup_peer_sec1 :: "oplog_db \<Rightarrow> device_id \<Rightarrow> bytes option" where
  "lookup_peer_sec1 db peer =
     (let key = (case List.find (\<lambda>d. dv_device_id d = to_hex peer \<and> dv_public_key d \<noteq> None) (sq_devices db) of
            Some d \<Rightarrow> dv_public_key d
          | None \<Rightarrow> map_option vo_public_key (newest_vouch (filter (\<lambda>v. vo_device_id v = to_hex peer) (sq_vouches db)))) in
      Option.bind key (\<lambda>bs. if length bs = 33 then Some bs else None))"

definition retired :: "string \<Rightarrow> oplog_db \<Rightarrow> bool" where
  "retired device_hex db \<longleftrightarrow> device_hex \<in> set (sq_retirements db)"

definition is_peer_trusted :: "oplog_db \<Rightarrow> device_id \<Rightarrow> bool" where
  "is_peer_trusted db peer =
     (let hex = to_hex peer in
      if retired hex db then False
      else if list_ex (\<lambda>d. dv_device_id d = hex \<and> dv_trusted d \<and> dv_public_key d \<noteq> None) (sq_devices db) then True
      else list_ex (\<lambda>vouch. vo_device_id vouch = hex \<and>
        list_ex (\<lambda>voucher. dv_device_id voucher = vo_voucher vouch \<and> dv_trusted voucher \<and> dv_public_key voucher \<noteq> None \<and>
          \<not> retired (dv_device_id voucher) db) (sq_devices db)) (sq_vouches db))"

definition trusted_keys :: "oplog_db \<Rightarrow> (string \<times> bytes) list" where
  "trusted_keys db =
     concat (map (\<lambda>d. case dv_public_key d of Some key \<Rightarrow> if dv_trusted d then [(dv_device_id d, key)] else [] | None \<Rightarrow> [])
       (sq_devices db))"

fun keyed_rows :: "('sk, 'vk, 'sg) crypto \<Rightarrow> (string \<times> bytes) list \<Rightarrow> (device_id \<times> bytes) list" where
  "keyed_rows c [] = []"
| "keyed_rows c ((id_hex, key) # rows) =
     (case from_hex id_hex of
        Inr d \<Rightarrow> if length key = 33 \<and> device_id_from_sec1 c key = Inr d then (d, key) # keyed_rows c rows else keyed_rows c rows
      | Inl _ \<Rightarrow> keyed_rows c rows)"

definition relayable_keyed_devices :: "('sk, 'vk, 'sg) crypto \<Rightarrow> oplog_db \<Rightarrow> (device_id \<times> bytes) list" where
  "relayable_keyed_devices c db =
     keyed_rows c (remdups (trusted_keys db @ map (\<lambda>v. (vo_vouched v, vo_public_key v)) (sq_vouches db)))"

definition registry_keyed_devices :: "('sk, 'vk, 'sg) crypto \<Rightarrow> oplog_db \<Rightarrow> string option \<Rightarrow> (device_id \<times> bytes) list" where
  "registry_keyed_devices c db voucher =
     keyed_rows c (case voucher of
       Some voucher \<Rightarrow> remdups (trusted_keys db @
         map (\<lambda>v. (vo_vouched v, vo_public_key v)) (filter (\<lambda>v. vo_voucher v = voucher) (sq_vouches db)))
     | None \<Rightarrow> trusted_keys db)"

definition load_registry_conn :: "('sk, 'vk, 'sg) crypto \<Rightarrow> oplog_db \<Rightarrow> string option \<Rightarrow> 'vk registry" where
  "load_registry_conn c db voucher =
     foldl (\<lambda>registry (_, sec1). fst (insert_sec1 c registry sec1)) reg_new (registry_keyed_devices c db voucher)"

fun verified_device_entries :: "('sk, 'vk, 'sg) crypto \<Rightarrow> device_entry list \<Rightarrow> (string \<times> bytes) list" where
  "verified_device_entries c [] = []"
| "verified_device_entries c (entry # entries) =
     (let advertised = DeviceId (de_device_id entry); sec1 = de_public_key entry in
      if length sec1 \<noteq> 33 then verified_device_entries c entries
      else case device_id_from_sec1 c sec1 of
        Inl _ \<Rightarrow> verified_device_entries c entries
      | Inr derived \<Rightarrow>
          if derived = advertised then (to_hex advertised, sec1) # verified_device_entries c entries
          else verified_device_entries c entries)"

section \<open>The socket\<close>

text \<open>\<open>unix\<close> is the system clock in milliseconds; methods the implementation leaves out have the trait's defaults.\<close>

definition sqlite_socket ::
  "codec \<Rightarrow> ('sk, 'vk) device_identity \<Rightarrow> nat \<Rightarrow> (oplog_db, 'sk, 'vk, sqlite_error) pull_socket" where
  "sqlite_socket pc identity unix =
     \<lparr>ps_protocol_error = OtherPull, ps_invalid_argument = InvalidArgumentPull,
      ps_own_device_id = (\<lambda>db. device_id identity),
      ps_local_identity = (\<lambda>db. identity),
      ps_now_ms = (\<lambda>db. (db, as_i64 unix)),
      ps_next_hlc = (\<lambda>db. (db, default_next_hlc (as_i64 unix))),
      ps_lookup_peer_sec1 = (\<lambda>db peer. Inr (lookup_peer_sec1 db peer)),
      ps_is_peer_trusted = (\<lambda>db peer. Inr (is_peer_trusted db peer)),
      ps_is_coverage_primed = (\<lambda>db. Inr (is_primed db)),
      ps_relay_stream_state = sq_relay_stream_state,
      ps_origins = (\<lambda>db. Inr (sq_origins db)),
      ps_origin_since = sq_origin_since,
      ps_relay_since = sq_relay_since_with_envelopes pc,
      ps_record_peer_ack = sq_record_peer_ack,
      ps_local_coverage = (\<lambda>db. Inr coverage_new),
      ps_known_origins = (\<lambda>db. Inr (sq_origins db)),
      ps_advance_local_coverage = (\<lambda>db origin key. (db, Inr ())),
      ps_save_relay_cursor = (\<lambda>db peer cursor. (db, Inr ())),
      ps_commit_relay_cursor = (\<lambda>db peer cursor. (db, Inr ())),
      ps_commit_pull_reset = (\<lambda>db peer cursor. (db, Inr ())),
      ps_on_page_applied = (\<lambda>db peer page pages total. db),
      ps_admit_ops = (\<lambda>w peer sops skip vouch cb. (w, Inl (OtherPull (MethodMissing ''admit_ops''))))\<rparr>"

end
