(* ===== verification/SqliteRefine.thy ===== *)
theory SqliteRefine
  imports SqliteCoverage PullServer
begin

text \<open>
  The SQLite op-log refines the in-memory one: a relation \<open>mirrors\<close> between an \<open>op_log\<close> and the tables that every
  append keeps and under which the reads of the pull server return the same rows, as long as clock values and
  sequence numbers stay below \<open>2 ^ 63\<close>. Page building only depends on those reads, so the two backends serve the
  same pages.
\<close>

section \<open>The relation\<close>

definition decoded_row :: "codec \<Rightarrow> oplog_row \<Rightarrow> signed_op" where
  "decoded_row pc r = (case from_bytes pc (or_envelope r) of Inr sop \<Rightarrow> sop | Inl _ \<Rightarrow> undefined)"

definition mirrors :: "codec \<Rightarrow> (signed_op \<Rightarrow> string \<times> string) \<Rightarrow> op_log \<Rightarrow> oplog_db \<Rightarrow> bool" where
  "mirrors pc proj log db \<longleftrightarrow>
     log_ok log \<and> list_all op_wf (arrivals log) \<and> list_all clock_fits (arrivals log) \<and>
     list_all2 (row_of pc proj) (arrivals log) (sq_oplog db) \<and>
     map ar_op_id (sq_arrivals db) = map or_op_id (sq_oplog db) \<and>
     map ar_seq (sq_arrivals db) = map int [1..<Suc (length (arrivals log))] \<and>
     sq_stream_epoch db = relay_epoch log \<and> length (relay_epoch log) = 32 \<and> sq_compacted_through db = 0 \<and>
     origin_index_exists db \<and> length (arrivals log) < 2 ^ 63"

lemma decoded_row_of: "row_of pc proj sop r \<Longrightarrow> decoded_row pc r = sop"
  by (auto simp: row_of_def decoded_row_def) (simp add: appended_row_def)

lemma row_of_envelope: "row_of pc proj sop r \<Longrightarrow> or_envelope r = env_bytes pc sop \<and> from_bytes pc (or_envelope r) = Inr sop"
  by (auto simp: row_of_def env_bytes_def) (simp_all add: appended_row_def)

lemma row_of_device: "row_of pc proj sop r \<Longrightarrow> or_device r = as_bytes (body_device (op_body sop)) \<and> or_hlc r = hlc_as_i64 (body_hlc (op_body sop))"
  by (auto simp: row_of_def appended_row_def)

lemma mirrors_rows:
  assumes "mirrors pc proj log db"
  shows "map (decoded_row pc) (sq_oplog db) = arrivals log" "r \<in> set (sq_oplog db) \<Longrightarrow> row_of pc proj (decoded_row pc r) r"
    "r \<in> set (sq_oplog db) \<Longrightarrow> decoded_row pc r \<in> set (log_iter log)" "distinct (map or_op_id (sq_oplog db))"
proof -
  have l2: "list_all2 (row_of pc proj) (arrivals log) (sq_oplog db)" and ok: "log_ok log" using assms by (simp_all add: mirrors_def)
  have "list_all2 (\<lambda>sop r. sop = decoded_row pc r) (arrivals log) (sq_oplog db)"
    using l2 by (rule list_all2_mono) (simp add: decoded_row_of)
  then show m: "map (decoded_row pc) (sq_oplog db) = arrivals log"
    by (simp add: list_all2_conv_all_nth list_eq_iff_nth_eq)
  show row: "row_of pc proj (decoded_row pc r) r" if r: "r \<in> set (sq_oplog db)" for r
  proof -
    obtain i where i: "i < length (sq_oplog db)" "r = sq_oplog db ! i" using r by (metis in_set_conv_nth)
    then have "row_of pc proj (arrivals log ! i) r" using list_all2_nthD2 [OF l2, of i] by simp
    then show ?thesis using decoded_row_of by fastforce
  qed
  show "r \<in> set (sq_oplog db) \<Longrightarrow> decoded_row pc r \<in> set (log_iter log)"
    unfolding set_arrivals [OF ok, symmetric] m [symmetric] by simp
  have "map or_op_id (sq_oplog db) = map (op_id_bytes \<circ> op_id) (map (decoded_row pc) (sq_oplog db))"
    using row_of_fields(5) [OF row] by (simp add: o_def)
  also have "distinct \<dots>"
    unfolding m using distinct_arrivals [OF ok] ok set_arrivals [OF ok]
    by (auto simp: distinct_map log_ok_def inj_on_def op_id.expand)
  finally show "distinct (map or_op_id (sq_oplog db))" .
qed

lemma mirrors_fits: "mirrors pc proj log db \<Longrightarrow> sop \<in> set (log_iter log) \<Longrightarrow> clock_fits sop \<and> op_wf sop"
  using set_arrivals [of log] by (auto simp: mirrors_def list_all_iff)

section \<open>Key order\<close>

lemma strict_keys_unique:
  assumes "sorted_wrt (\<lambda>x y. order_key x < order_key y) xs" "sorted_wrt (\<lambda>x y. order_key x < order_key y) ys"
    and "set xs = set ys" "inj_on op_id (set ys)"
  shows "xs = ys"
proof -
  have "sorted_wrt (<) (map order_key xs)" "sorted_wrt (<) (map order_key ys)" using assms(1,2) by (simp_all add: sorted_wrt_map)
  then have "map order_key xs = map order_key ys" by (intro strict_sorted_equal) (simp_all add: assms(3))
  moreover have "inj_on order_key (set xs \<union> set ys)" using assms(3,4) by (auto simp: inj_on_def order_key_def)
  ultimately show ?thesis by (rule inj_on_map_eq_map [THEN iffD1, rotated])
qed

text \<open>A query in key order returns the rows of the operations the in-memory log holds, in the log's order.\<close>

lemma sorted_rows:
  assumes m: "mirrors pc proj log db" and P: "\<And>r. r \<in> set (sq_oplog db) \<Longrightarrow> P r = Q (decoded_row pc r)"
  shows "map (decoded_row pc) (sort_key row_key (filter P (sq_oplog db))) = filter Q (log_iter log)"
proof (rule strict_keys_unique)
  let ?R = "sort_key row_key (filter P (sq_oplog db))"
  have ok: "log_ok log" using m by (simp add: mirrors_def)
  have row: "row_of pc proj (decoded_row pc r) r" "clock_fits (decoded_row pc r)" if "r \<in> set ?R" for r
    using that mirrors_rows(2,3) [OF m, of r] mirrors_fits [OF m] by auto
  have "distinct (map row_key (filter P (sq_oplog db)))"
    using mirrors_rows(4) [OF m] by (auto simp: distinct_map row_key_def inj_on_def)
  then have "distinct (map row_key ?R)" by (simp add: distinct_map)
  then have "sorted_wrt (<) (map row_key ?R)" by (simp add: strict_sorted_iff)
  then have "sorted_wrt (\<lambda>x y. row_key x < row_key y) ?R" by (simp add: sorted_wrt_map)
  then have "sorted_wrt (\<lambda>x y. order_key (decoded_row pc x) < order_key (decoded_row pc y)) ?R"
  proof (rule sorted_wrt_mono_rel [rotated])
    fix x y assume "x \<in> set ?R" "y \<in> set ?R" "row_key x < row_key y"
    then show "order_key (decoded_row pc x) < order_key (decoded_row pc y)"
      using op_key_less [OF row(2) row(2), of x y] row_of_fields(6) [OF row(1), of x] row_of_fields(6) [OF row(1), of y] by simp
  qed
  then show "sorted_wrt (\<lambda>x y. order_key x < order_key y) (map (decoded_row pc) ?R)" by (simp add: sorted_wrt_map)
  show "sorted_wrt (\<lambda>x y. order_key x < order_key y) (filter Q (log_iter log))"
    by (rule sorted_wrt_filter [OF log_ok_sorted [OF ok]])
  have "set (log_iter log) = decoded_row pc ` set (sq_oplog db)"
    unfolding set_arrivals [OF ok, symmetric] mirrors_rows(1) [OF m, symmetric] by simp
  then show "set (map (decoded_row pc) ?R) = set (filter Q (log_iter log))" using P by auto
  show "inj_on op_id (set (filter Q (log_iter log)))" using ok by (auto simp: log_ok_def inj_on_def)
qed

text \<open>A lower bound of one origin: a key of that origin whose clock fits.\<close>

definition bound_ok :: "device_id \<Rightarrow> order_key option \<Rightarrow> bool" where
  "bound_ok d after = (case after of None \<Rightarrow> True | Some k \<Rightarrow> key_device k = d \<and> uint (key_hlc k) < 2 ^ 63)"

lemma sql_limit_take: "0 < n \<Longrightarrow> n < 2 ^ 63 \<Longrightarrow> sql_limit (as_i64 n) xs = take (max 1 n) xs"
proof -
  assume n: "0 < n" "n < 2 ^ 63"
  then have "int n < 2 ^ 63" by (metis of_nat_less_iff of_nat_numeral of_nat_power)
  then have "as_i64 n = int n" by (simp add: as_i64_def Let_def)
  then show ?thesis using n(1) by (simp add: sql_limit_def max_def)
qed

lemma bound_less:
  assumes "bound_ok origin after" "clock_fits sop" "body_device (op_body sop) = origin"
  shows "(case after of Some key \<Rightarrow> (hlc_as_i64 (key_hlc key), op_id_bytes (key_op_id key)) | None \<Rightarrow> (- 1, []))
      < (hlc_as_i64 (body_hlc (op_body sop)), op_id_bytes (op_id sop)) \<longleftrightarrow> after_key after sop"
proof (cases after)
  case None
  have "- 1 < uint (body_hlc (op_body sop))" using uint_ge_0 [of "body_hlc (op_body sop)"] by linarith
  then show ?thesis using None assms(2) by (simp add: clock_fits_def hlc_as_i64_low)
next
  case (Some k)
  then have k: "key_device k = origin" "hlc_as_i64 (key_hlc k) = uint (key_hlc k)" using assms(1) by (simp_all add: bound_ok_def hlc_as_i64_low)
  have s: "hlc_as_i64 (body_hlc (op_body sop)) = uint (body_hlc (op_body sop))" using assms(2) by (simp add: clock_fits_def hlc_as_i64_low)
  show ?thesis unfolding Some option.case k(2) s
    using k(1) assms(3) by (auto simp: order_key_def less_order_key_def word_less_def less_op_id_def le_less intro: word_uint_eqI)
qed

section \<open>Reads\<close>

lemma filter_unique_id: "distinct (map f xs) \<Longrightarrow> i < length xs \<Longrightarrow> filter (\<lambda>x. f x = f (xs ! i)) xs = [xs ! i]"
proof (induction xs arbitrary: i)
  case (Cons x xs)
  show ?case
  proof (cases i)
    case 0
    then show ?thesis using Cons.prems(1) by (force simp: filter_empty_conv image_iff)
  next
    case (Suc j)
    then have "f x \<noteq> f (xs ! j)" using Cons.prems by auto
    then show ?thesis using Suc Cons by simp
  qed
qed simp

lemma filter_le_upt: "filter (\<lambda>i. a \<le> i) [0..<n] = [a..<n]" for a n :: nat
  by (induction n) auto

lemma sq_origin_since_refines:
  assumes m: "mirrors pc proj log db" and b: "bound_ok origin after" and n: "0 < n" "n < 2 ^ 63"
  shows "sq_origin_since db origin after store n = Inr (origin_page pc (log_iter log) origin after store n)"
proof -
  define lo where "lo = (case after of Some key \<Rightarrow> (hlc_as_i64 (key_hlc key), op_id_bytes (key_op_id key)) | None \<Rightarrow> (- 1, []))"
  define P where "P r \<longleftrightarrow> or_device r = as_bytes origin \<and> lo < (or_hlc r, or_op_id r) \<and> (case store of Some st \<Rightarrow> or_store r = st | None \<Rightarrow> True)" for r :: oplog_row
  let ?Q = "\<lambda>sop. after_key after sop \<and> of_origin origin store sop" and ?R = "sort_key row_key (filter P (sq_oplog db))"
  have idx: "ORIGIN_INDEX_NAME \<in> sq_indexes db" using m by (simp add: mirrors_def origin_index_exists_def)
  have "P r = ?Q (decoded_row pc r)" if r: "r \<in> set (sq_oplog db)" for r
  proof -
    note row = mirrors_rows(2) [OF m r]
    have fits: "clock_fits (decoded_row pc r)" using mirrors_fits [OF m mirrors_rows(3) [OF m r]] by simp
    show ?thesis
    proof (cases "body_device (op_body (decoded_row pc r)) = origin")
      case True
      then show ?thesis
        using bound_less [OF b fits True] row_of_fields(1,5) [OF row] row_of_device [OF row]
        by (simp add: P_def lo_def of_origin_def store_matches_def split: option.splits)
    next
      case False
      then show ?thesis using row_of_device [OF row] by (auto simp: P_def of_origin_def intro: device_id.expand)
    qed
  qed
  then have R: "map (decoded_row pc) ?R = filter ?Q (log_iter log)" by (rule sorted_rows [OF m, of P ?Q])
  have row: "row_of pc proj (decoded_row pc r) r" "length (or_op_id r) = 32" "or_device r = as_bytes origin" if r: "r \<in> set ?R" for r
  proof -
    from r have r': "r \<in> set (sq_oplog db)" "P r" by simp_all
    show rr: "row_of pc proj (decoded_row pc r) r" by (rule mirrors_rows(2) [OF m r'(1)])
    show "length (or_op_id r) = 32"
      using mirrors_fits [OF m mirrors_rows(3) [OF m r'(1)]] row_of_fields(5) [OF rr] by (simp add: op_wf_def)
    show "or_device r = as_bytes origin" using r'(2) by (simp add: P_def)
  qed
  have "sq_origin_since db origin after store n =
      Inr (map (\<lambda>r. (OrderKey (word_of_int (or_hlc r)) origin (OpId (or_op_id r)), or_envelope r))
        (filter (\<lambda>r. length (or_op_id r) = 32) (take (max 1 n) ?R)))"
  proof (cases store)
    case None
    then have "P = (\<lambda>r. or_device r = as_bytes origin \<and> lo < (or_hlc r, or_op_id r))" by (simp add: P_def fun_eq_iff)
    then show ?thesis using None idx sql_limit_take [OF n, of ?R]
      by (cases lo) (simp add: sq_origin_since_def lo_def [symmetric] Let_def)
  next
    case (Some st)
    then have "P = (\<lambda>r. or_store r = st \<and> or_device r = as_bytes origin \<and> (fst lo, as_bytes origin, snd lo) < row_key r)"
      by (cases lo) (auto simp: P_def fun_eq_iff row_key_def)
    then show ?thesis using Some idx sql_limit_take [OF n, of ?R]
      by (cases lo) (simp add: sq_origin_since_def lo_def [symmetric] Let_def)
  qed
  also have "filter (\<lambda>r. length (or_op_id r) = 32) (take (max 1 n) ?R) = take (max 1 n) ?R"
    using row(2) by (auto simp: filter_id_conv dest: in_set_takeD)
  also have "map (\<lambda>r. (OrderKey (word_of_int (or_hlc r)) origin (OpId (or_op_id r)), or_envelope r)) (take (max 1 n) ?R) =
      map ((\<lambda>sop. (order_key sop, env_bytes pc sop)) \<circ> decoded_row pc) (take (max 1 n) ?R)"
  proof (rule map_cong [OF refl])
    fix r assume "r \<in> set (take (max 1 n) ?R)"
    then have r: "r \<in> set ?R" by (rule in_set_takeD)
    have "OrderKey (word_of_int (or_hlc r)) origin (OpId (or_op_id r)) = key_of_row r"
      using row(3) [OF r] by (simp add: key_of_row_def)
    then show "(OrderKey (word_of_int (or_hlc r)) origin (OpId (or_op_id r)), or_envelope r) =
        ((\<lambda>sop. (order_key sop, env_bytes pc sop)) \<circ> decoded_row pc) r"
      using row_of_fields(7) [OF row(1) [OF r]] row_of_envelope [OF row(1) [OF r]] by simp
  qed
  also have "\<dots> = origin_page pc (log_iter log) origin after store n"
    unfolding map_map [symmetric] take_map [symmetric] R by (simp add: origin_page_def take_map)
  finally show ?thesis .
qed

lemma skip_scan_spec: "sorted_wrt (<) (skip_scan ds) \<and> set (skip_scan ds) = set ds"
proof (induction ds rule: skip_scan.induct)
  case (1 ds)
  show ?case
  proof (cases "sql_min ds")
    case None
    then have "ds = []" by (cases ds) (simp_all add: sql_min_def)
    then show ?thesis by (simp add: skip_scan.simps sql_min_def)
  next
    case (Some d)
    have "set ds = insert d (set (filter (\<lambda>x. d < x) ds))" using sql_min_in [OF Some] by fastforce
    then show ?thesis using 1 [OF Some] Some by (subst (1 2) skip_scan.simps) auto
  qed
qed

lemma sq_origins_refines:
  assumes m: "mirrors pc proj log db"
  shows "sq_origins db = origins_of (log_iter log)"
proof -
  have dev: "or_device r = as_bytes (body_device (op_body (decoded_row pc r)))" "length (or_device r) = 32" if r: "r \<in> set (sq_oplog db)" for r
    using row_of_device [OF mirrors_rows(2) [OF m r]] mirrors_fits [OF m mirrors_rows(3) [OF m r]]
    by (simp_all add: op_wf_def device_wf_def)
  have ok: "log_ok log" using m by (simp add: mirrors_def)
  let ?ds = "skip_scan (map or_device (sq_oplog db))"
  have s: "sorted_wrt (<) ?ds" "set ?ds = or_device ` set (sq_oplog db)" using skip_scan_spec [of "map or_device (sq_oplog db)"] by simp_all
  have "filter (\<lambda>d. length d = 32) ?ds = ?ds" using dev(2) by (auto simp: filter_id_conv s(2))
  then have o: "sq_origins db = map DeviceId ?ds" by (simp add: sq_origins_def)
  have "sorted_wrt (<) (map DeviceId ?ds)" using s(1) by (simp add: sorted_wrt_map less_device_id_def)
  moreover have "set (map DeviceId ?ds) = (\<lambda>r. body_device (op_body (decoded_row pc r))) ` set (sq_oplog db)"
    using dev(1) by (auto simp: s(2) image_iff)
  moreover have "\<dots> = set (origins_of (log_iter log))"
    unfolding origins_of_set set_arrivals [OF ok, symmetric] mirrors_rows(1) [OF m, symmetric] by (simp add: image_image)
  ultimately show ?thesis unfolding o by (intro strict_sorted_equal origins_of_sorted) simp_all
qed

lemma coalesce_max_snoc: "xs \<noteq> [] \<Longrightarrow> coalesce_max (xs @ [x]) = max (coalesce_max xs) x"
  by (cases xs) simp_all

lemma coalesce_max_upto: "coalesce_max (map int [1..<Suc n]) = int n"
proof (induction n)
  case (Suc n)
  have "map int [1..<Suc (Suc n)] = map int [1..<Suc n] @ [int n + 1]" by simp
  then show ?case using Suc coalesce_max_snoc [of "map int [1..<Suc n]" "int n + 1"] by (cases "n = 0") (simp_all del: upt_Suc)
qed simp

lemma sq_stream_refines:
  assumes "mirrors pc proj log db"
  shows "sq_relay_stream_state db = Inr (relay_state log)" "last_arrival db = int (length (arrivals log))"
proof -
  show l: "last_arrival db = int (length (arrivals log))"
    using assms coalesce_max_upto [of "length (arrivals log)"] by (simp only: last_arrival_def mirrors_def)
  show "sq_relay_stream_state db = Inr (relay_state log)"
    using assms l by (simp add: sq_relay_stream_state_def mirrors_def u64_try_from_def relay_state_def)
qed

lemma arrivals_after_mirrors:
  assumes m: "mirrors pc proj log db"
  shows "arrivals_after (int a) db = map (\<lambda>i. (int i + 1, env_bytes pc (arrivals log ! i))) [a..<length (arrivals log)]"
proof -
  define xs where "xs = arrivals log"
  let ?n = "length xs" and ?A = "sq_arrivals db" and ?O = "sq_oplog db"
  have ids: "map ar_op_id ?A = map or_op_id ?O" and seqs: "map ar_seq ?A = map int [1..<Suc ?n]"
    and l2: "list_all2 (row_of pc proj) xs ?O" using m by (simp_all add: mirrors_def xs_def)
  have len: "length ?A = ?n" "length ?O = ?n" using map_eq_imp_length_eq [OF ids] list_all2_lengthD [OF l2] by simp_all
  have sq: "ar_seq (?A ! i) = int i + 1" if "i < ?n" for i
    using arg_cong [OF seqs, of "\<lambda>xs. xs ! i"] that len by (simp del: upt_Suc)
  have one: "filter (\<lambda>r. or_op_id r = ar_op_id (?A ! i)) ?O = [?O ! i]" if i: "i < ?n" for i
  proof -
    have "ar_op_id (?A ! i) = or_op_id (?O ! i)" using arg_cong [OF ids, of "\<lambda>xs. xs ! i"] i len by simp
    moreover have "distinct (map or_op_id ?O)" by (rule mirrors_rows(4) [OF m])
    ultimately show ?thesis using filter_unique_id [of or_op_id ?O i] i len(2) by simp
  qed
  have env: "or_envelope (?O ! i) = env_bytes pc (xs ! i)" if "i < ?n" for i
    using row_of_envelope list_all2_nthD [OF l2] that by blast
  have "sorted (map ar_seq ?A)" unfolding seqs sorted_map of_nat_le_iff by (rule sorted_upt)
  then have "sort_key ar_seq (filter (\<lambda>a'. int a < ar_seq a') ?A) = filter (\<lambda>a'. int a < ar_seq a') ?A"
    by (intro sort_key_id_if_sorted sorted_filter)
  also have "\<dots> = map (\<lambda>i. ?A ! i) (filter (\<lambda>i. int a < ar_seq (?A ! i)) [0..<?n])"
    by (subst map_nth [of ?A, symmetric], simp only: filter_map len o_def)
  also have "filter (\<lambda>i. int a < ar_seq (?A ! i)) [0..<?n] = filter (\<lambda>i. a \<le> i) [0..<?n]"
    using sq by (intro filter_cong) auto
  also have "\<dots> = [a..<?n]" by (rule filter_le_upt)
  finally have sel: "sort_key ar_seq (filter (\<lambda>a'. int a < ar_seq a') ?A) = map (\<lambda>i. ?A ! i) [a..<?n]" .
  have "arrivals_after (int a) db = concat (map (\<lambda>i. [(int i + 1, env_bytes pc (xs ! i))]) [a..<?n])"
    unfolding arrivals_after_def sel map_map
    by (intro arg_cong [of _ _ concat] map_cong) (auto simp: one sq env)
  then show ?thesis by (simp add: concat_map_singleton xs_def)
qed

lemma sq_relay_since_refines:
  assumes m: "mirrors pc proj log db" and a: "a < 2 ^ 63" and n: "n < 2 ^ 63"
  shows "sq_relay_since_with_envelopes pc db a n =
    Inr (map (\<lambda>e. (entry_seq e, entry_op e, env_bytes pc (entry_op e))) (stream_entries (arrivals log) a n))"
proof -
  define xs where "xs = arrivals log"
  let ?is = "[a..<min (a + n) (length xs)]"
  let ?f = "\<lambda>(sq, envelope).
         and_then (u64_try_from ''relay sequence is negative'' sq) (\<lambda>sq.
         and_then (map_err (\<lambda>_. SqlOther ''relay envelope decode'') (from_bytes pc envelope)) (\<lambda>sop.
           Inr (sq, sop, envelope)))"
  have l2: "list_all2 (row_of pc proj) xs (sq_oplog db)" using m by (simp add: mirrors_def xs_def)
  have dec: "from_bytes pc (env_bytes pc (xs ! i)) = Inr (xs ! i)" if "i < length xs" for i
    using row_of_envelope [OF list_all2_nthD [OF l2 that]] by metis
  have "sql_limit (int n) (arrivals_after (int a) db) = map (\<lambda>i. (int i + 1, env_bytes pc (xs ! i))) ?is"
    unfolding arrivals_after_mirrors [OF m] xs_def [symmetric]
    by (simp add: sql_limit_def take_map take_upt min_def add.commute)
  moreover have "try_map ?f (map (\<lambda>i. (int i + 1, env_bytes pc (xs ! i))) ?is) =
      Inr (map (\<lambda>(sq, envelope). (nat sq, (case from_bytes pc envelope of Inr sop \<Rightarrow> sop | Inl _ \<Rightarrow> undefined), envelope))
        (map (\<lambda>i. (int i + 1, env_bytes pc (xs ! i))) ?is))"
    by (rule try_map_total) (auto simp: dec u64_try_from_def)
  moreover have "map (\<lambda>(sq, envelope). (nat sq, (case from_bytes pc envelope of Inr sop \<Rightarrow> sop | Inl _ \<Rightarrow> undefined), envelope))
        (map (\<lambda>i. (int i + 1, env_bytes pc (xs ! i))) ?is) =
      map (\<lambda>e. (entry_seq e, entry_op e, env_bytes pc (entry_op e))) (stream_entries xs a n)"
    by (auto simp: stream_entries_def dec)
  ultimately show ?thesis
    using a n by (simp add: sq_relay_since_with_envelopes_def i64_try_from_def xs_def)
qed

section \<open>Appending\<close>

lemma sq_append_frame:
  "sq_stream_epoch (fst (sq_append pc sq now sop t p i db)) = sq_stream_epoch db"
  "sq_compacted_through (fst (sq_append pc sq now sop t p i db)) = sq_compacted_through db"
  "sq_indexes (fst (sq_append pc sq now sop t p i db)) = sq_indexes db"
  by (simp_all add: sq_append_def Let_def upsert_head_def note_own_op_def sq_advance_local_coverage_def split: sum.split option.split)

lemma mirrors_contains:
  assumes "mirrors pc proj log db"
  shows "sq_contains i db \<longleftrightarrow> contains log i"
proof -
  have ok: "log_ok log" using assms by (simp add: mirrors_def)
  have "sq_contains i db \<longleftrightarrow> (\<exists>r \<in> set (sq_oplog db). op_id (decoded_row pc r) = i)"
    using row_of_fields(5) [OF mirrors_rows(2) [OF assms]] by (auto simp: sq_contains_def list_ex_iff intro: op_id.expand)
  also have "\<dots> \<longleftrightarrow> i \<in> op_id ` set (arrivals log)" unfolding mirrors_rows(1) [OF assms, symmetric] by auto
  finally show ?thesis using ok by (simp add: contains_def set_arrivals log_ok_def)
qed

lemma sq_append_mirrors:
  assumes pc: "codec_laws pc" and m: "mirrors pc proj log db" and w: "op_wf sop" "clock_fits sop"
    and room: "length (arrivals log) + 1 < 2 ^ 63"
    and step: "step = sq_append pc (last_arrival db + 1) now sop (fst (proj sop)) (snd (proj sop)) i db"
  shows "mirrors pc proj (fst (log_append log sop)) (fst step) \<and> snd step = Inr (snd (log_append log sop))"
proof -
  let ?log = "fst (log_append log sop)"
  have ok: "log_ok log" using m by (simp add: mirrors_def)
  show ?thesis
    using pc w(1)
  proof (cases rule: sq_append_cases [where sq = "last_arrival db + 1" and now = now and t = "fst (proj sop)" and p = "snd (proj sop)" and origin = i and db = db])
    case known
    then have "contains log (op_id sop)" using mirrors_contains [OF m] by simp
    then have "log_append log sop = (log, False)" by (simp add: log_append_def contains_def)
    then show ?thesis using known m step by simp
  next
    case (fresh envelope db')
    then have new: "\<not> contains log (op_id sop)" using mirrors_contains [OF m] by simp
    have "row_of pc proj sop (appended_row envelope sop (fst (proj sop)) (snd (proj sop)) i)" using fresh(3,4) by (auto simp: row_of_def)
    moreover have "sq_stream_epoch db' = sq_stream_epoch db \<and> sq_compacted_through db' = sq_compacted_through db \<and> sq_indexes db' = sq_indexes db"
      using sq_append_frame [of pc "last_arrival db + 1" now sop "fst (proj sop)" "snd (proj sop)" i db] fresh(1) by simp
    moreover have "relay_epoch ?log = relay_epoch log" "snd (log_append log sop)" using new by (simp_all add: log_append_def contains_def)
    ultimately have "mirrors pc proj ?log db'"
      using m w room sq_stream_refines(2) [OF m] log_append_ok [OF ok] arrivals_append [OF ok new]
      unfolding mirrors_def
      by (simp only: fresh(5,6)) (simp add: appended_row_def origin_index_exists_def list_all2_appendI del: length_arrivals)
    then show ?thesis using fresh(1) \<open>snd (log_append log sop)\<close> step by simp
  qed
qed

text \<open>Numbering by the largest sequence number in the table, as SQLite assigns an integer primary key.\<close>

fun sq_ingest :: "codec \<Rightarrow> (signed_op \<Rightarrow> string \<times> string) \<Rightarrow> int \<Rightarrow> int \<Rightarrow> signed_op list \<Rightarrow> oplog_db \<Rightarrow> oplog_db" where
  "sq_ingest pc proj now i [] db = db"
| "sq_ingest pc proj now i (sop # sops) db =
     sq_ingest pc proj now i sops (fst (sq_append pc (last_arrival db + 1) now sop (fst (proj sop)) (snd (proj sop)) i db))"

definition append_each :: "signed_op list \<Rightarrow> op_log \<Rightarrow> op_log" where
  "append_each sops log = foldl (\<lambda>log sop. fst (log_append log sop)) log sops"

definition empty_tables :: "bytes \<Rightarrow> oplog_db \<Rightarrow> bool" where
  "empty_tables epoch db \<longleftrightarrow>
     sq_oplog db = [] \<and> sq_arrivals db = [] \<and> sq_heads db = (\<lambda>_. None) \<and> sq_stream_epoch db = epoch \<and>
     sq_compacted_through db = 0 \<and> origin_index_exists db"

lemma length_arrivals_append: "log_ok log \<Longrightarrow> length (arrivals (fst (log_append log sop))) \<le> length (arrivals log) + 1"
  using arrivals_append [of log sop] by (cases "contains log (op_id sop)") (simp_all add: log_append_def contains_def)

lemma sq_ingest_mirrors:
  assumes "codec_laws pc" "mirrors pc proj log db" "list_all (\<lambda>sop. op_wf sop \<and> clock_fits sop) sops"
    and "length (arrivals log) + length sops < 2 ^ 63"
  shows "mirrors pc proj (append_each sops log) (sq_ingest pc proj now i sops db)"
  using assms(2-)
proof (induction sops arbitrary: log db)
  case (Cons sop sops)
  let ?log = "fst (log_append log sop)"
  have "length (arrivals log) + 1 < 2 ^ 63" using Cons.prems(3) by (simp del: length_arrivals)
  then have "mirrors pc proj ?log (fst (sq_append pc (last_arrival db + 1) now sop (fst (proj sop)) (snd (proj sop)) i db))"
    using sq_append_mirrors [OF assms(1) Cons.prems(1) _ _ _ refl, of sop now i] Cons.prems(2) by simp
  moreover have "length (arrivals ?log) + length sops < 2 ^ 63"
    using length_arrivals_append [of log sop] Cons.prems(1,3) by (simp add: mirrors_def del: length_arrivals)
  ultimately show ?case using Cons.IH [of ?log] Cons.prems(2) by (simp add: append_each_def)
qed (simp add: append_each_def)

lemma empty_mirrors: "empty_tables (relay_epoch (log_new random)) db \<Longrightarrow> length random = 32 \<Longrightarrow> mirrors pc proj (log_new random) db"
  using log_new_ok [of random] by (simp add: mirrors_def empty_tables_def arrivals_def log_new_def)

section \<open>Pages\<close>

definition claims_fit :: "coverage_vector \<Rightarrow> bool" where
  "claims_fit claims = list_all (\<lambda>(d, k). key_device k = d \<and> uint (key_hlc k) < 2 ^ 63) claims"

definition resume_fits :: "resume \<Rightarrow> bool" where
  "resume_fits r \<longleftrightarrow> rsm_after_seq r < 2 ^ 63 \<and>
     (case decode_order_key (rsm_after_key r) of None \<Rightarrow> True
      | Some k \<Rightarrow> from_hex (rsm_origin r) = Inr (key_device k) \<and> uint (key_hlc k) < 2 ^ 63)"

text \<open>Requests whose claims and resume token are keys of the origin they name, with clocks and positions in range.\<close>

definition request_fits :: "pull_request \<Rightarrow> bool" where
  "request_fits request \<longleftrightarrow>
     claims_fit (decode_coverage request) \<and> pq_relay_after request < 2 ^ 63 \<and>
     (case pq_resume request of None \<Rightarrow> True | Some r \<Rightarrow> resume_fits r)"

lemma claims_fit_bound: "claims_fit claims \<Longrightarrow> bound_ok d (map_of claims d)"
  by (auto simp: claims_fit_def bound_ok_def list_all_iff split: option.splits dest!: map_of_SomeD)

lemma keyed_after_bound:
  assumes "claims_fit claims" "\<And>r. resume = Some r \<Longrightarrow> resume_fits r"
  shows "bound_ok d (keyed_after claims audit resume d)"
proof -
  let ?claim = "if audit then None else map_of claims d"
  let ?key = "if Option.bind resume (\<lambda>r. ok (from_hex (rsm_origin r))) = Some d then Option.bind resume (\<lambda>r. decode_order_key (rsm_after_key r)) else None"
  have c: "bound_ok d ?claim" using claims_fit_bound [OF assms(1), of d] by (simp add: bound_ok_def)
  have k: "bound_ok d ?key"
  proof (cases resume)
    case (Some r)
    then show ?thesis using assms(2) [OF Some] by (auto simp: bound_ok_def resume_fits_def split: option.splits)
  qed (simp add: bound_ok_def)
  show ?thesis
    using c k unfolding keyed_after_def Let_def by (cases ?claim; cases ?key) (auto simp: bound_ok_def max_def)
qed

text \<open>Two sockets whose reads return the same rows for every bound and limit the page builder uses.\<close>

definition reads_as ::
  "('s, 'sk, 'vk, 'e) pull_socket \<Rightarrow> 's \<Rightarrow> device_id \<Rightarrow> relay_stream_state \<Rightarrow> device_id list \<Rightarrow>
   (device_id \<Rightarrow> order_key option \<Rightarrow> string option \<Rightarrow> nat \<Rightarrow> (order_key \<times> bytes) list) \<Rightarrow>
   (nat \<Rightarrow> nat \<Rightarrow> (nat \<times> signed_op \<times> bytes) list) \<Rightarrow> bool" where
  "reads_as sk s own stream os f g \<longleftrightarrow>
     ps_own_device_id sk s = own \<and> ps_relay_stream_state sk s = Inr stream \<and> ps_origins sk s = Inr os \<and>
     (\<forall>d after w n. bound_ok d after \<longrightarrow> 0 < n \<longrightarrow> n \<le> PULL_PAGE_LIMIT_MAX \<longrightarrow> ps_origin_since sk s d after w n = Inr (f d after w n)) \<and>
     (\<forall>a n. a < 2 ^ 63 \<longrightarrow> n \<le> PULL_PAGE_LIMIT_MAX \<longrightarrow> ps_relay_since sk s a n = Inr (g a n))"

lemma keyed_loop_same:
  assumes "\<And>d n. 0 < n \<Longrightarrow> n \<le> limit \<Longrightarrow> r d n = Inr (f d n) \<and> q d n = Inr (f d n) \<and> length (f d n) \<le> n"
    and "0 < remaining" "remaining \<le> limit" "used < byte_budget"
  shows "\<exists>x. keyed_loop j r byte_budget skip os keyed used remaining = Inr x \<and> keyed_loop j q byte_budget skip os keyed used remaining = Inr x
    \<and> length (fst x) \<le> length keyed + remaining"
  using assms(2-)
proof (induction os arbitrary: keyed used remaining)
  case (Cons d os)
  show ?case
  proof (cases "skip d")
    case False
    obtain keyed' used' served last_key where e: "encode_origin_rows j (f d remaining) keyed used byte_budget = (keyed', used', served, last_key)"
      by (metis prod_cases4)
    note fd = assms(1) [OF Cons.prems(1,2), of d] and spec = encode_origin_rows_spec(1,2) [OF e Cons.prems(3)]
    show ?thesis
    proof (cases "length (f d remaining) = remaining \<or> served < length (f d remaining) \<or> used' \<ge> byte_budget")
      case True
      then show ?thesis using False fd e spec by simp
    next
      case go: False
      then have left: "0 < remaining - served" "remaining - served \<le> limit" "used' < byte_budget" "served \<le> remaining"
        using fd spec(1) Cons.prems(2) by auto
      from Cons.IH [OF left(1-3), of keyed'] obtain x where
        "keyed_loop j r byte_budget skip os keyed' used' (remaining - served) = Inr x"
        "keyed_loop j q byte_budget skip os keyed' used' (remaining - served) = Inr x"
        "length (fst x) \<le> length keyed' + (remaining - served)" by blast
      then show ?thesis using False fd e go spec left(4) by simp
    qed
  qed (use Cons in simp)
qed simp

lemma keyed_channel_same:
  assumes A: "reads_as sk s own stream os f g" and B: "reads_as sk' s' own stream os f g"
    and f: "\<And>d after w n. 0 < n \<Longrightarrow> length (f d after w n) \<le> n"
    and c: "claims_fit claims" "\<And>r. resume = Some r \<Longrightarrow> resume_fits r"
    and n: "0 < limit" "limit \<le> PULL_PAGE_LIMIT_MAX" "0 < budget"
  shows "\<exists>x. build_keyed_channel j sk s claims resume audit limit budget store own = Inr x \<and>
    build_keyed_channel j sk' s' claims resume audit limit budget store own = Inr x \<and> length (fst x) \<le> limit"
proof -
  let ?r = "\<lambda>d n. ps_origin_since sk s d (keyed_after claims audit resume d) store n"
  let ?q = "\<lambda>d n. ps_origin_since sk' s' d (keyed_after claims audit resume d) store n"
  let ?f = "\<lambda>d n. f d (keyed_after claims audit resume d) store n"
  have same: "?r d n = Inr (?f d n) \<and> ?q d n = Inr (?f d n) \<and> length (?f d n) \<le> n" if "0 < n" "n \<le> limit" for d n
    using A B f that n(2) keyed_after_bound [OF c] by (simp add: reads_as_def)
  have reads: "ps_origins sk s = Inr os" "ps_origins sk' s' = Inr os" using A B by (simp_all add: reads_as_def)
  show ?thesis
  proof (cases "resume = None \<and> own \<in> set os")
    case True
    let ?c = "if audit then None else map_of claims own"
    have "bound_ok own ?c" using claims_fit_bound [OF c(1), of own] by (simp add: bound_ok_def)
    then have row: "ps_origin_since sk s own ?c store limit = Inr (f own ?c store limit)"
        "ps_origin_since sk' s' own ?c store limit = Inr (f own ?c store limit)"
      using A B n by (simp_all add: reads_as_def)
    obtain keyed used served last_key where e: "encode_origin_rows j (f own ?c store limit) [] 0 budget = (keyed, used, served, last_key)"
      by (metis prod_cases4)
    note spec = encode_origin_rows_spec(1,2) [OF e n(3)]
    have fl: "length (f own ?c store limit) \<le> limit" by (rule f [OF n(1)])
    show ?thesis
    proof (cases "limit - served = 0 \<or> served < length (f own ?c store limit) \<or> used \<ge> budget")
      case stop: True
      then show ?thesis using True n(1) reads row e spec fl by (simp add: build_keyed_channel_def Let_def)
    next
      case False
      then have "0 < limit - served" "limit - served \<le> limit" "used < budget" by auto
      from keyed_loop_same [of limit ?r ?f ?q, OF same this] obtain x where
        "keyed_loop j ?r budget (\<lambda>d. d = own) os keyed used (limit - served) = Inr x"
        "keyed_loop j ?q budget (\<lambda>d. d = own) os keyed used (limit - served) = Inr x"
        "length (fst x) \<le> length keyed + (limit - served)" by blast
      then show ?thesis using True False n(1) reads row e spec fl by (simp add: build_keyed_channel_def Let_def)
    qed
  next
    case False
    let ?start = "case Option.bind resume (\<lambda>r. ok (from_hex (rsm_origin r))) of
                    Some origin \<Rightarrow> length (takeWhile (\<lambda>candidate. candidate < origin) os) | None \<Rightarrow> 0"
    from keyed_loop_same [of limit ?r ?f ?q, OF same n(1) order_refl n(3)] obtain x where
      "keyed_loop j ?r budget (\<lambda>_. False) (drop ?start os) [] 0 limit = Inr x"
      "keyed_loop j ?q budget (\<lambda>_. False) (drop ?start os) [] 0 limit = Inr x" "length (fst x) \<le> limit" by fastforce
    then show ?thesis using False n(1) reads by (intro exI [of _ x]) (auto simp: build_keyed_channel_def Let_def)
  qed
qed

lemma backfill_page_same:
  assumes A: "reads_as sk s own stream os f g" and B: "reads_as sk' s' own stream os f g"
    and "start < 2 ^ 63" "budget \<le> PULL_PAGE_LIMIT_MAX"
  shows "\<exists>page. backfill_page j sk s st claims keyed start budget = Inr page \<and> backfill_page j sk' s' st claims keyed start budget = Inr page"
proof -
  obtain nx bf cut where "backfill_loop j claims (g start budget) start [] (sum_list (map length keyed)) False = (nx, bf, cut)"
    by (metis prod_cases3)
  then show ?thesis using assms by (simp add: backfill_page_def reads_as_def)
qed

lemma build_pull_page_same:
  assumes A: "reads_as sk s own stream os f g" and B: "reads_as sk' s' own stream os f g"
    and f: "\<And>d after w n. 0 < n \<Longrightarrow> length (f d after w n) \<le> n"
    and rq: "request_fits request" "decode_epoch (pq_relay_epoch request) = Some e"
  shows "\<exists>page. build_pull_page j sk s peer request = Inr page \<and> build_pull_page j sk' s' peer request = Inr page"
proof -
  have reads: "ps_relay_stream_state sk s = Inr stream" "ps_relay_stream_state sk' s' = Inr stream"
      "ps_own_device_id sk s = own" "ps_own_device_id sk' s' = own" using A B by (simp_all add: reads_as_def)
  have limit: "0 < clamp_limit request" "clamp_limit request \<le> PULL_PAGE_LIMIT_MAX" "0 < PULL_PAGE_BYTE_BUDGET"
    by (simp_all add: clamp_limit_def PULL_PAGE_LIMIT_MAX_def PAGE_LIMIT_MAX_def PULL_PAGE_BYTE_BUDGET_def)
  have fits: "claims_fit (decode_coverage request)" "resume_in ph request = Some r \<Longrightarrow> resume_fits r" for ph r
    using rq(1) by (auto simp: request_fits_def resume_in_def split: option.splits if_splits)
  show ?thesis
  proof (cases "pq_store request = None \<and> pull_needs_reset e (pq_relay_after request) stream")
    case True
    then show ?thesis using reads rq(2) by (simp add: build_pull_page_def)
  next
    case go: False
    let ?channel = "\<lambda>ch x. ch (decode_coverage request) (resume_in Keyed request) (pq_audit request) (clamp_limit request)
      PULL_PAGE_BYTE_BUDGET (pq_store request) own = Inr x"
    have "\<exists>x. ?channel (build_keyed_channel j sk s) x \<and> ?channel (build_keyed_channel j sk' s') x \<and> length (fst x) \<le> clamp_limit request"
      by (rule keyed_channel_same [OF A B _ fits(1) _ limit]) (auto intro: f fits(2))
    then obtain keyed resume where ch: "?channel (build_keyed_channel j sk s) (keyed, resume)" "?channel (build_keyed_channel j sk' s') (keyed, resume)"
      by auto
    show ?thesis
    proof (cases "pq_store request")
      case (Some store)
      then show ?thesis using reads rq(2) ch by (simp add: build_pull_page_def Let_def)
    next
      case None
      show ?thesis
      proof (cases "resume_in Backfill request")
        case (Some r)
        then have "rsm_after_seq r < 2 ^ 63" using fits(2) [OF Some] by (simp add: resume_fits_def)
        from backfill_page_same [OF A B this limit(2)] show ?thesis
          using reads rq(2) None Some go by (simp add: build_pull_page_def Let_def)
      next
        case fresh: None
        have "pq_relay_after request < 2 ^ 63" using rq(1) by (simp add: request_fits_def)
        moreover have "clamp_limit request - length keyed \<le> PULL_PAGE_LIMIT_MAX" using limit(2) by simp
        ultimately show ?thesis
          using backfill_page_same [OF A B, of "pq_relay_after request" "clamp_limit request - length keyed" j stream "decode_coverage request" keyed]
            reads rq(2) None fresh go ch by (simp add: build_pull_page_def Let_def)
      qed
    qed
  qed
qed

lemma page_limit_small: "n \<le> PULL_PAGE_LIMIT_MAX \<Longrightarrow> n < 2 ^ 63"
  by (simp add: PULL_PAGE_LIMIT_MAX_def PAGE_LIMIT_MAX_def)

lemma sqlite_reads_as:
  assumes "mirrors pc proj log db"
  shows "reads_as (sqlite_socket pc identity unix) db (device_id identity) (relay_state log) (origins_of (log_iter log))
    (origin_page pc (log_iter log))
    (\<lambda>a n. map (\<lambda>e. (entry_seq e, entry_op e, env_bytes pc (entry_op e))) (stream_entries (arrivals log) a n))"
  unfolding reads_as_def sqlite_socket_def pull_socket.simps sq_origins_refines [OF assms] sq_stream_refines(1) [OF assms]
  by (intro conjI allI impI refl) (auto intro!: sq_origin_since_refines [OF assms] sq_relay_since_refines [OF assms] page_limit_small simp only:)

lemma memory_reads_as:
  assumes "codec_laws pc" "log_ok (pn_log node)"
  shows "reads_as (oplog_socket c pc ck impl identity) node (device_id identity) (relay_state (pn_log node)) (origins_of (log_iter (pn_log node)))
    (origin_page pc (log_iter (pn_log node)))
    (\<lambda>a n. map (\<lambda>e. (entry_seq e, entry_op e, env_bytes pc (entry_op e))) (stream_entries (arrivals (pn_log node)) a n))"
  using node.sk_origin_since [of pc node] node.sk_origins [of pc node] node.sk_relay_since [of pc node] assms
  by (simp add: reads_as_def) (simp add: oplog_socket_def)

end
