(* ===== verification/SqliteRetention.thy ===== *)
theory SqliteRetention
  imports SqliteCoverage
begin

text \<open>
  Retention and compaction of the SQLite op-log (\<open>src/sqlite/retention.rs\<close>): the horizon and acknowledgment floors,
  the candidate scan and the chunk delete. The clock is an argument: \<open>now_secs\<close>, its horizon rendered as text, and
  \<open>late k\<close>, whether the \<open>k\<close>-th reading is past the deadline. \<open>is_upsert\<close> tells whether a payload decodes to an
  upsert of \<open>row_op.rs\<close>.
\<close>

section \<open>Watermarks\<close>

definition HLC_SECONDS_SHIFT :: nat where "HLC_SECONDS_SHIFT = 32"

definition DEFAULT_RETENTION_HORIZON :: nat where "DEFAULT_RETENTION_HORIZON = 30 * 24 * 60 * 60"

definition horizon_watermark :: "hlc \<Rightarrow> nat \<Rightarrow> order_key" where
  "horizon_watermark now horizon =
     (let now_secs = unat (drop_bit HLC_SECONDS_SHIFT now); floor_secs = now_secs - horizon in
      OrderKey (push_bit HLC_SECONDS_SHIFT (word_of_nat floor_secs)) (DeviceId (replicate 32 0)) (OpId (replicate 32 0)))"

definition compaction_watermark :: "order_key option \<Rightarrow> hlc \<Rightarrow> nat \<Rightarrow> order_key option" where
  "compaction_watermark snapshot_watermark now horizon =
     (case snapshot_watermark of None \<Rightarrow> None | Some snap \<Rightarrow> Some (min snap (horizon_watermark now horizon)))"

definition rows_with_ops_below :: "string \<Rightarrow> order_key \<Rightarrow> oplog_db \<Rightarrow> (string \<times> string) list" where
  "rows_with_ops_below store c db =
     remdups (map (\<lambda>r. (or_table r, or_row_pk r)) (filter (\<lambda>r. or_store r = store \<and> row_key r < cursor_key c) (sq_oplog db)))"

definition delete_row_below ::
  "string \<Rightarrow> string \<Rightarrow> string \<Rightarrow> order_key \<Rightarrow> op_id option \<Rightarrow> oplog_db \<Rightarrow> oplog_db \<times> nat" where
  "delete_row_below store table row_pk c keep db =
     (let gone = (\<lambda>r. or_store r = store \<and> or_table r = table \<and> or_row_pk r = row_pk \<and> row_key r < cursor_key c \<and>
            (case keep of Some anchor \<Rightarrow> or_op_id r \<noteq> op_id_bytes anchor | None \<Rightarrow> True)) in
      (db\<lparr>sq_oplog := filter (\<lambda>r. \<not> gone r) (sq_oplog db)\<rparr>, length (filter gone (sq_oplog db))))"

section \<open>Floors\<close>

definition current_relay_floor :: "oplog_db \<Rightarrow> nat" where
  "current_relay_floor db = nat (sq_compacted_through db mod 2 ^ 64)"

definition by_seq :: "oplog_db \<Rightarrow> arrival_row list" where
  "by_seq db = sort_key ar_seq (sq_arrivals db)"

text \<open>The last arrival at or below a position.\<close>

definition probe_arrival :: "arrival_row list \<Rightarrow> int \<Rightarrow> arrival_row option" where
  "probe_arrival as mid = (let below = filter (\<lambda>a. ar_seq a \<le> mid) as in if below = [] then None else Some (last below))"

lemma probe_arrival_Some: "probe_arrival as mid = Some a \<Longrightarrow> a \<in> set as \<and> ar_seq a \<le> mid"
  using last_in_set [of "filter (\<lambda>a. ar_seq a \<le> mid) as"] by (auto simp: probe_arrival_def Let_def split: if_splits)

function horizon_search :: "arrival_row list \<Rightarrow> int \<Rightarrow> int \<Rightarrow> int \<Rightarrow> int \<Rightarrow> int" where
  "horizon_search as cutoff lo hi best =
     (if lo \<le> hi then
        let mid = lo + (hi - lo) div 2 in
        case probe_arrival as mid of
          None \<Rightarrow> horizon_search as cutoff (mid + 1) hi best
        | Some a \<Rightarrow>
            if ar_arrived_at a \<le> cutoff then horizon_search as cutoff (mid + 1) hi (max best (ar_seq a))
            else horizon_search as cutoff lo (ar_seq a - 1) best
      else best)"
  by pat_completeness auto
termination
  by (relation "measure (\<lambda>(as, cutoff, lo, hi, best). nat (hi - lo + 1))") (auto dest!: probe_arrival_Some)

declare horizon_search.simps [simp del]

definition horizon_relay_floor :: "oplog_db \<Rightarrow> int \<Rightarrow> int" where
  "horizon_relay_floor db cutoff =
     (case by_seq db of
        [] \<Rightarrow> 0
      | oldest # rest \<Rightarrow>
          if ar_arrived_at oldest > cutoff then 0
          else let newest = last (oldest # rest) in
            if ar_arrived_at newest \<le> cutoff then ar_seq newest
            else horizon_search (oldest # rest) cutoff (ar_seq oldest) (ar_seq newest) (ar_seq oldest))"

record compaction_bounds =
  cb_peers :: int
  cb_horizon_floor :: int
  cb_ack_floor :: int
  cb_safe_floor :: int
  cb_scan_resumed_after :: int
  cb_scanned :: nat
  cb_candidates :: nat
  cb_scan_cursor :: int

definition bounds_of :: "int \<Rightarrow> int \<Rightarrow> int \<Rightarrow> int \<Rightarrow> compaction_bounds" where
  "bounds_of peers horizon_floor ack_floor safe_floor =
     \<lparr>cb_peers = peers, cb_horizon_floor = horizon_floor, cb_ack_floor = ack_floor, cb_safe_floor = safe_floor,
      cb_scan_resumed_after = 0, cb_scanned = 0, cb_candidates = 0, cb_scan_cursor = 0\<rparr>"

definition safe_relay_floor :: "oplog_db \<Rightarrow> device_id \<Rightarrow> int \<Rightarrow> string \<Rightarrow> nat \<Rightarrow> sqlite_error + compaction_bounds" where
  "safe_relay_floor db local_device now_secs dormant_before horizon =
     (let peers = int (length (trusted_peers local_device db));
          cutoff = now_secs - as_i64 horizon;
          horizon_floor = horizon_relay_floor db cutoff in
      if peers = 0 then
        Inr (bounds_of peers horizon_floor 0 horizon_floor)
      else and_then (current_stream_epoch db) (\<lambda>epoch.
        let ack = (case min_peer_ack db local_device epoch (Some dormant_before) of Some ack \<Rightarrow> ack | None \<Rightarrow> 0);
            ack_floor = (if ack < 2 ^ 63 then int ack else 2 ^ 63 - 1) in
        Inr (bounds_of peers horizon_floor ack_floor (max horizon_floor ack_floor))))"

section \<open>Pins\<close>

definition is_self_draining_bulk_table :: "string \<Rightarrow> string \<Rightarrow> bool" where
  "is_self_draining_bulk_table store table \<longleftrightarrow>
     store = ''proxydb'' \<and>
     table \<in> {''items'', ''sequences'', ''widget_files'', ''party_files'', ''conversations'', ''conversation_participants'',
               ''conversation_jobs'', ''message_attachments''}"

definition SELF_DRAINING_HEAD_TRIM_TABLES :: "string list" where
  "SELF_DRAINING_HEAD_TRIM_TABLES =
     [''items'', ''sequences'', ''widget_files'', ''conversations'', ''conversation_participants'', ''conversation_jobs'',
      ''message_attachments'']"

definition pinned :: "bytes \<Rightarrow> oplog_db \<Rightarrow> bool" where
  "pinned i db \<longleftrightarrow>
     i \<in> set (sq_pending_edges db) \<or> (i, False) \<in> set (sq_callback_fires db) \<or> i \<in> set (sq_projection_queue db) \<or>
     list_ex (\<lambda>(j, state). j = i \<and> state \<noteq> ''failed'') (sq_replay_queue db)"

definition is_head :: "oplog_row \<Rightarrow> oplog_db \<Rightarrow> bool" where
  "is_head r db = (case sq_heads db (or_store r, or_table r, or_row_pk r) of Some h \<Rightarrow> hr_op_id h = or_op_id r | None \<Rightarrow> False)"

section \<open>Candidates\<close>

record compaction_policy =
  cp_keep_per_row :: nat
  cp_max_deletes :: nat

definition default_policy :: compaction_policy where
  "default_policy = \<lparr>cp_keep_per_row = 3, cp_max_deletes = 500000\<rparr>"

datatype compaction_probe_index = Applied | LegacyLww

definition detect_index :: "oplog_db \<Rightarrow> compaction_probe_index" where
  "detect_index db = (if ''idx_oplog_applied'' \<in> sq_indexes db then Applied else LegacyLww)"

text \<open>\<open>LIMIT 1 OFFSET keep - 1\<close> finds a row when at least \<open>keep\<close> are newer.\<close>

definition shadowed :: "compaction_policy \<Rightarrow> oplog_db \<Rightarrow> oplog_row \<Rightarrow> bool" where
  "shadowed policy db r \<longleftrightarrow>
     cp_keep_per_row policy = 0 \<or>
     cp_keep_per_row policy \<le> length (filter (\<lambda>x. row_key x > row_key r) (applied_rows (or_store r) (or_table r) (or_row_pk r) db))"

definition has_older :: "oplog_db \<Rightarrow> oplog_row \<Rightarrow> bool" where
  "has_older db r = list_ex (\<lambda>x. row_key x < row_key r) (applied_rows (or_store r) (or_table r) (or_row_pk r) db)"

record scan_state =
  ss_candidates :: "(op_id \<times> int) list"
  ss_scanned :: nat
  ss_after :: int
  ss_reads :: nat

definition scan_page :: "oplog_db \<Rightarrow> int \<Rightarrow> int \<Rightarrow> int \<Rightarrow> (int \<times> oplog_row) list" where
  "scan_page db after safe_floor head =
     take 2048 (concat (map (\<lambda>a. map (Pair (ar_seq a)) (filter (\<lambda>r. or_op_id r = ar_op_id a \<and> or_applied r) (sq_oplog db)))
       (sort_key ar_seq (filter (\<lambda>a. ar_seq a > after \<and> ar_seq a \<le> safe_floor \<and> ar_seq a < head) (sq_arrivals db)))))"

text \<open>One row of the scan: the state, and whether the scan stops there.\<close>

definition scan_row :: "compaction_policy \<Rightarrow> oplog_db \<Rightarrow> (nat \<Rightarrow> bool) \<Rightarrow> int \<Rightarrow> oplog_row \<Rightarrow> scan_state \<Rightarrow> scan_state \<times> bool" where
  "scan_row policy db late sq r st =
     (let st = st\<lparr>ss_after := sq, ss_scanned := ss_scanned st + 1\<rparr>;
          past = late (ss_reads st);
          st = st\<lparr>ss_reads := ss_reads st + 1\<rparr>;
          bulk_drain = is_self_draining_bulk_table (or_store r) (or_table r) in
      if past then (st, True)
      else if \<not> bulk_drain \<and> \<not> shadowed policy db r then (st, False)
      else if \<not> bulk_drain \<and> \<not> has_older db r then (st, False)
      else
        let past = late (ss_reads st);
            st = st\<lparr>ss_reads := ss_reads st + 1\<rparr> in
        if past then (st, True)
        else if pinned (or_op_id r) db \<or> \<not> bulk_drain \<and> is_head r db then (st, False)
        else if length (or_op_id r) \<noteq> 32 then (st, False)
        else
          let st = st\<lparr>ss_candidates := ss_candidates st @ [(OpId (or_op_id r), sq)]\<rparr> in
          (st, length (ss_candidates st) \<ge> cp_max_deletes policy))"

fun scan_rows :: "compaction_policy \<Rightarrow> oplog_db \<Rightarrow> (nat \<Rightarrow> bool) \<Rightarrow> (int \<times> oplog_row) list \<Rightarrow> scan_state \<Rightarrow> scan_state \<times> bool" where
  "scan_rows policy db late [] st = (st, False)"
| "scan_rows policy db late ((sq, r) # rest) st =
     (case scan_row policy db late sq r st of
        (st, True) \<Rightarrow> (st, True)
      | (st, False) \<Rightarrow> scan_rows policy db late rest st)"

lemma scan_row_after [simp]: "ss_after (fst (scan_row policy db late sq r st)) = sq"
  by (simp add: scan_row_def Let_def)

lemma scan_rows_after: "rows \<noteq> [] \<Longrightarrow> ss_after (fst (scan_rows policy db late rows st)) \<in> fst ` set rows"
proof (induction rows arbitrary: st)
  case (Cons row rows)
  obtain sq r where row: "row = (sq, r)" by fastforce
  obtain st' stop where st': "scan_row policy db late sq r st = (st', stop)" by fastforce
  then have "ss_after st' = sq" using scan_row_after [of policy db late sq r st] by simp
  then show ?case using Cons.IH [of st'] st' by (cases stop; cases "rows = []") (auto simp: row)
qed simp

lemma scan_page_in:
  "(sq, r) \<in> set (scan_page db after safe_floor head) \<Longrightarrow>
     r \<in> set (sq_oplog db) \<and> or_applied r \<and> after < sq \<and> sq \<le> safe_floor \<and> sq < head \<and>
     (\<exists>a \<in> set (sq_arrivals db). ar_seq a = sq \<and> ar_op_id a = or_op_id r)"
  unfolding scan_page_def by (drule in_set_takeD) auto

lemma scan_decreases:
  assumes "scan_page db after safe_floor head \<noteq> []" "scan_rows policy db late (scan_page db after safe_floor head) st = (st', stop)"
  shows "length (filter (\<lambda>a. ss_after st' < ar_seq a) (sq_arrivals db)) < length (filter (\<lambda>a. after < ar_seq a) (sq_arrivals db))"
proof -
  have "ss_after st' \<in> fst ` set (scan_page db after safe_floor head)" using scan_rows_after [OF assms(1), of policy db late st] assms(2) by simp
  then obtain r where "(ss_after st', r) \<in> set (scan_page db after safe_floor head)" by auto
  then obtain a where a: "a \<in> set (sq_arrivals db)" "ar_seq a = ss_after st'" "after < ss_after st'" using scan_page_in by blast
  then have "length (filter (\<lambda>a. ss_after st' < ar_seq a) (filter (\<lambda>a. after < ar_seq a) (sq_arrivals db)))
      < length (filter (\<lambda>a. after < ar_seq a) (sq_arrivals db))"
    by (intro length_filter_less [of a]) auto
  moreover have "filter (\<lambda>a. ss_after st' < ar_seq a) (filter (\<lambda>a. after < ar_seq a) (sq_arrivals db)) =
      filter (\<lambda>a. ss_after st' < ar_seq a) (sq_arrivals db)" using a(3) by (auto intro: filter_cong)
  ultimately show ?thesis by simp
qed

function scan_loop ::
  "compaction_policy \<Rightarrow> oplog_db \<Rightarrow> (nat \<Rightarrow> bool) \<Rightarrow> int \<Rightarrow> int \<Rightarrow> nat \<Rightarrow> scan_state \<Rightarrow> scan_state \<times> bool" where
  "scan_loop policy db late safe_floor head scan_cap st =
     (if length (ss_candidates st) < cp_max_deletes policy \<and> ss_scanned st < scan_cap \<and> \<not> late (ss_reads st) then
        let st = st\<lparr>ss_reads := ss_reads st + 1\<rparr>;
            page = scan_page db (ss_after st) safe_floor head in
        if page = [] then (st, True)
        else case scan_rows policy db late page st of
          (st, True) \<Rightarrow> (st, False)
        | (st, False) \<Rightarrow> scan_loop policy db late safe_floor head scan_cap st
      else (st, False))"
  by pat_completeness auto
termination
  by (relation "measure (\<lambda>(policy, db, late, safe_floor, head, scan_cap, st). length (filter (\<lambda>a. ss_after st < ar_seq a) (sq_arrivals db)))")
    (simp, drule sym, simp add: scan_decreases)

declare scan_loop.simps [simp del]

record compaction_scan =
  cs_candidates :: "(op_id \<times> int) list"
  cs_next_cursor :: int
  cs_scanned :: nat

definition scan_cap_for :: "compaction_policy \<Rightarrow> compaction_probe_index \<Rightarrow> nat" where
  "scan_cap_for policy probe_index =
     (let scan_cap = max (min (cp_max_deletes policy * 4) (2 ^ 64 - 1)) 2048 in
      if probe_index = LegacyLww then min scan_cap 16384 else scan_cap)"

definition compaction_candidates ::
  "oplog_db \<Rightarrow> compaction_policy \<Rightarrow> int \<Rightarrow> (nat \<Rightarrow> bool) \<Rightarrow> int \<Rightarrow> compaction_probe_index \<Rightarrow> compaction_scan" where
  "compaction_candidates db policy safe_floor late resume_after probe_index =
     (case scan_loop policy db late safe_floor (last_arrival db) (scan_cap_for policy probe_index)
         \<lparr>ss_candidates = [], ss_scanned = 0, ss_after = max resume_after 0, ss_reads = 0\<rparr> of
        (st, exhausted) \<Rightarrow>
          \<lparr>cs_candidates = ss_candidates st, cs_next_cursor = (if exhausted then 0 else ss_after st), cs_scanned = ss_scanned st\<rparr>)"

section \<open>Deleting a chunk\<close>

definition head_pinned :: "oplog_row \<Rightarrow> oplog_db \<Rightarrow> bool" where
  "head_pinned r db \<longleftrightarrow> \<not> is_self_draining_bulk_table (or_store r) (or_table r) \<and> is_head r db"

definition deletable :: "bytes list \<Rightarrow> oplog_db \<Rightarrow> oplog_row \<Rightarrow> bool" where
  "deletable ids db r \<longleftrightarrow> or_op_id r \<in> set ids \<and> \<not> pinned (or_op_id r) db \<and> \<not> head_pinned r db"

definition arrival_deletable :: "bytes list \<Rightarrow> oplog_db \<Rightarrow> arrival_row \<Rightarrow> bool" where
  "arrival_deletable ids db a \<longleftrightarrow> ar_op_id a \<in> set ids \<and> \<not> pinned (ar_op_id a) db \<and>
     \<not> list_ex (\<lambda>r. or_op_id r = ar_op_id a \<and> head_pinned r db) (sq_oplog db)"

definition trim_upsert_head_payloads :: "(bytes \<Rightarrow> bool) \<Rightarrow> bytes list \<Rightarrow> oplog_db \<Rightarrow> oplog_db" where
  "trim_upsert_head_payloads is_upsert ids db =
     db\<lparr>sq_heads := (\<lambda>(s, t, p).
       case sq_heads db (s, t, p) of
         None \<Rightarrow> None
       | Some h \<Rightarrow>
           if list_ex (\<lambda>r. or_op_id r \<in> set ids \<and> (or_store r, or_table r, or_row_pk r) = (s, t, p) \<and> hr_op_id h = or_op_id r)
                (sq_oplog db) \<and>
              s = ''proxydb'' \<and> hr_payload h \<noteq> [] \<and> t \<in> set SELF_DRAINING_HEAD_TRIM_TABLES \<and> is_upsert (hr_payload h)
           then Some (h\<lparr>hr_payload := []\<rparr>) else Some h)\<rparr>"

definition delete_ops_chunk :: "(bytes \<Rightarrow> bool) \<Rightarrow> (op_id \<times> int) list \<Rightarrow> oplog_db \<Rightarrow> oplog_db \<times> nat \<times> nat" where
  "delete_ops_chunk is_upsert chunk db =
     (let ids = map (\<lambda>(i, _). op_id_bytes i) chunk;
          joined = concat (map (\<lambda>r. map (Pair r) (filter (\<lambda>a. ar_op_id a = or_op_id r) (sq_arrivals db)))
                     (filter (deletable ids db) (sq_oplog db)));
          reclaimed = sum_list (map (\<lambda>(r, _). length (or_envelope r) + length (or_payload r)) joined);
          floor = coalesce_max (map (\<lambda>(_, a). ar_seq a) joined);
          db = trim_upsert_head_payloads is_upsert ids db;
          db = db\<lparr>sq_arrivals := filter (\<lambda>a. \<not> arrival_deletable ids db a) (sq_arrivals db)\<rparr>;
          deleted = length (filter (deletable ids db) (sq_oplog db));
          db = db\<lparr>sq_oplog := filter (\<lambda>r. \<not> deletable ids db r) (sq_oplog db)\<rparr>;
          db = db\<lparr>sq_verified_ops := filter (\<lambda>i. \<not> (i \<in> set ids \<and> i \<notin> or_op_id ` set (sq_oplog db))) (sq_verified_ops db)\<rparr>;
          db = (if deleted > 0 then db\<lparr>sq_compacted_through := max (sq_compacted_through db) floor\<rparr> else db) in
      (db, deleted, reclaimed))"

end
