(* ===== verification/SqliteCompact.thy ===== *)
theory SqliteCompact
  imports SqliteRetention
begin

text \<open>
  What compaction keeps. The horizon floor is the sequence number of an arrival at or before the cutoff, and the
  largest such where arrival times follow the sequence. A deleted chunk leaves the head of every row outside the
  self-draining tables its winner, raises the floor over every sequence number it removes, and every candidate of
  the scan is superseded, below the safe floor and unpinned.
\<close>

section \<open>The horizon floor\<close>

lemma probe_arrival_last:
  assumes "sorted (map ar_seq as)" "a \<in> set as" "ar_seq a \<le> mid"
  shows "\<exists>b. probe_arrival as mid = Some b \<and> ar_seq a \<le> ar_seq b"
proof -
  let ?b = "filter (\<lambda>a. ar_seq a \<le> mid) as"
  have a: "a \<in> set ?b" using assms(2,3) by simp
  then have ne: "?b \<noteq> []" by (metis length_greater_0_conv length_pos_if_in_set)
  have "ar_seq a \<le> ar_seq (last ?b)" by (rule sorted_last_max [OF sorted_filter [OF assms(1)] a])
  then show ?thesis using ne by (simp add: probe_arrival_def Let_def)
qed

definition old_arrival :: "arrival_row list \<Rightarrow> int \<Rightarrow> int \<Rightarrow> bool" where
  "old_arrival as cutoff sq = list_ex (\<lambda>a. ar_seq a = sq \<and> ar_arrived_at a \<le> cutoff) as"

lemma horizon_search_old: "old_arrival as cutoff best \<Longrightarrow> old_arrival as cutoff (horizon_search as cutoff lo hi best)"
proof (induction as cutoff lo hi best rule: horizon_search.induct)
  case (1 as cutoff lo hi best)
  let ?mid = "lo + (hi - lo) div 2"
  show ?case
  proof (cases "lo \<le> hi")
    case True
    show ?thesis
    proof (cases "probe_arrival as ?mid")
      case None
      then show ?thesis using 1(1) [OF True refl None 1(4)] True by (subst horizon_search.simps) simp
    next
      case (Some a)
      show ?thesis
      proof (cases "ar_arrived_at a \<le> cutoff")
        case old: True
        then have "old_arrival as cutoff (ar_seq a)" using probe_arrival_Some [OF Some] by (auto simp: old_arrival_def list_ex_iff)
        then have "old_arrival as cutoff (max best (ar_seq a))" using 1(4) by (simp add: max_def)
        from 1(2) [OF True refl Some old this] show ?thesis using True Some old by (subst horizon_search.simps) simp
      next
        case False
        from 1(3) [OF True refl Some False 1(4)] show ?thesis using True Some False by (subst horizon_search.simps) simp
      qed
    qed
  next
    case False
    then show ?thesis using 1(4) by (subst horizon_search.simps) simp
  qed
qed

text \<open>Arrival times follow the sequence numbers.\<close>

definition times_follow :: "arrival_row list \<Rightarrow> bool" where
  "times_follow as = (\<forall>a \<in> set as. \<forall>b \<in> set as. ar_seq a \<le> ar_seq b \<longrightarrow> ar_arrived_at a \<le> ar_arrived_at b)"

lemma horizon_search_covers:
  assumes "sorted (map ar_seq as)" "times_follow as" "a \<in> set as" "ar_arrived_at a \<le> cutoff"
  shows "ar_seq a < lo \<longrightarrow> ar_seq a \<le> best \<Longrightarrow> ar_seq a \<le> hi \<Longrightarrow> ar_seq a \<le> horizon_search as cutoff lo hi best"
  using assms
proof (induction as cutoff lo hi best rule: horizon_search.induct)
  case (1 as cutoff lo hi best)
  let ?mid = "lo + (hi - lo) div 2"
  note as = 1(6-9)
  show ?case
  proof (cases "lo \<le> hi")
    case True
    show ?thesis
    proof (cases "probe_arrival as ?mid")
      case None
      have "\<not> ar_seq a \<le> ?mid" using probe_arrival_last [OF as(1,3), of ?mid] None by auto
      then show ?thesis using 1(1) [OF True refl None _ 1(5) as] True None by (subst horizon_search.simps) simp
    next
      case (Some b)
      note b = probe_arrival_Some [OF Some]
      show ?thesis
      proof (cases "ar_arrived_at b \<le> cutoff")
        case old: True
        have "ar_seq a < ?mid + 1 \<longrightarrow> ar_seq a \<le> max best (ar_seq b)"
          using probe_arrival_last [OF as(1,3), of ?mid] Some by auto
        from 1(2) [OF True refl Some old this 1(5) as] show ?thesis using True Some old by (subst horizon_search.simps) simp
      next
        case False
        have "\<not> ar_seq b \<le> ar_seq a" using False as(2-4) b by (force simp: times_follow_def)
        then have "ar_seq a \<le> ar_seq b - 1" by simp
        from 1(3) [OF True refl Some False 1(4) this as] show ?thesis using True Some False by (subst horizon_search.simps) simp
      qed
    qed
  next
    case False
    then have "ar_seq a \<le> best" using 1(4,5) by simp
    then show ?thesis using False by (subst horizon_search.simps) simp
  qed
qed

lemma horizon_relay_floor_old:
  "horizon_relay_floor db cutoff = 0 \<or> old_arrival (sq_arrivals db) cutoff (horizon_relay_floor db cutoff)"
proof (cases "by_seq db")
  case (Cons a as)
  have s: "set (a # as) = set (sq_arrivals db)" using Cons unfolding by_seq_def by (metis set_sort)
  then have same: "old_arrival (sq_arrivals db) = old_arrival (a # as)" by (simp add: old_arrival_def list_ex_iff fun_eq_iff flip: s)
  have "old_arrival (a # as) cutoff (ar_seq (last (a # as)))" if "ar_arrived_at (last (a # as)) \<le> cutoff"
    using that last_in_set [of "a # as"] by (auto simp: old_arrival_def list_ex_iff simp del: last.simps set_simps)
  moreover have "old_arrival (a # as) cutoff (ar_seq a)" if "ar_arrived_at a \<le> cutoff" using that by (simp add: old_arrival_def)
  ultimately show ?thesis
    unfolding same horizon_relay_floor_def Cons list.case Let_def using horizon_search_old by (auto simp del: last.simps)
qed (simp add: horizon_relay_floor_def)

lemma horizon_relay_floor_covers:
  assumes "times_follow (sq_arrivals db)" "a \<in> set (sq_arrivals db)" "ar_arrived_at a \<le> cutoff"
  shows "ar_seq a \<le> horizon_relay_floor db cutoff"
proof -
  have sorted: "sorted (map ar_seq (by_seq db))" and set: "set (by_seq db) = set (sq_arrivals db)" by (simp_all add: by_seq_def)
  obtain b bs where bs: "by_seq db = b # bs" using assms(2) set by (cases "by_seq db") auto
  let ?l = "last (b # bs)"
  have a: "a \<in> set (b # bs)" using assms(2) set bs by simp
  have first: "ar_seq b \<le> ar_seq a" using sorted a bs by auto
  have l: "ar_seq a \<le> ar_seq ?l" using sorted a unfolding bs by (rule sorted_last_max)
  have follow: "times_follow (b # bs)" using assms(1) set bs by (simp add: times_follow_def del: set_simps)
  have "ar_arrived_at b \<le> cutoff" using follow first a assms(3) by (force simp: times_follow_def)
  moreover have "ar_seq a \<le> horizon_search (b # bs) cutoff (ar_seq b) (ar_seq ?l) (ar_seq b)"
    using sorted bs follow a assms(3) first l by (intro horizon_search_covers) auto
  ultimately show ?thesis using l bs by (simp add: horizon_relay_floor_def Let_def del: last.simps)
qed

section \<open>Deleting a chunk\<close>

lemma trim_views [simp]:
  "sq_oplog (trim_upsert_head_payloads u ids db) = sq_oplog db" "sq_arrivals (trim_upsert_head_payloads u ids db) = sq_arrivals db"
  "sq_compacted_through (trim_upsert_head_payloads u ids db) = sq_compacted_through db"
  by (simp_all add: trim_upsert_head_payloads_def)

lemma trim_is_head [simp]: "is_head r (trim_upsert_head_payloads u ids db) = is_head r db"
  by (simp add: is_head_def trim_upsert_head_payloads_def split: option.splits)

lemma trim_pinned [simp]: "pinned i (trim_upsert_head_payloads u ids db) = pinned i db"
  by (simp add: pinned_def trim_upsert_head_payloads_def)

lemma trim_elsewhere:
  assumes "\<not> is_self_draining_bulk_table s t"
  shows "sq_heads (trim_upsert_head_payloads u ids db) (s, t, p) = sq_heads db (s, t, p)"
proof -
  have "\<not> (s = ''proxydb'' \<and> t \<in> set SELF_DRAINING_HEAD_TRIM_TABLES)"
    using assms by (auto simp: is_self_draining_bulk_table_def SELF_DRAINING_HEAD_TRIM_TABLES_def)
  then show ?thesis by (auto simp: trim_upsert_head_payloads_def split: option.splits)
qed

definition chunk_ids :: "(op_id \<times> int) list \<Rightarrow> bytes list" where
  "chunk_ids chunk = map (\<lambda>(i, _). op_id_bytes i) chunk"

definition chunk_join :: "bytes list \<Rightarrow> oplog_db \<Rightarrow> (oplog_row \<times> arrival_row) list" where
  "chunk_join ids db = concat (map (\<lambda>r. map (Pair r) (filter (\<lambda>a. ar_op_id a = or_op_id r) (sq_arrivals db)))
                     (filter (deletable ids db) (sq_oplog db)))"

lemma delete_ops_chunk_views:
  assumes "delete_ops_chunk u chunk db = (db', deleted, reclaimed)"
  shows "sq_oplog db' = filter (\<lambda>r. \<not> deletable (chunk_ids chunk) db r) (sq_oplog db)"
    "sq_arrivals db' = filter (\<lambda>a. \<not> arrival_deletable (chunk_ids chunk) db a) (sq_arrivals db)"
    "sq_heads db' = sq_heads (trim_upsert_head_payloads u (chunk_ids chunk) db)"
    "deleted = length (filter (deletable (chunk_ids chunk) db) (sq_oplog db))"
    "sq_compacted_through db' = (if deleted > 0 then max (sq_compacted_through db) (coalesce_max (map (\<lambda>(_, a). ar_seq a) (chunk_join (chunk_ids chunk) db)))
       else sq_compacted_through db)"
proof -
  let ?ids = "chunk_ids chunk" and ?t = "trim_upsert_head_payloads u (chunk_ids chunk) db"
  have hp: "head_pinned r ?t = head_pinned r db" for r by (simp add: head_pinned_def)
  then have d: "deletable ?ids ?t = deletable ?ids db" by (simp add: fun_eq_iff deletable_def)
  have ad: "arrival_deletable ?ids ?t = arrival_deletable ?ids db" by (simp add: fun_eq_iff arrival_deletable_def hp)
  have d2: "deletable ?ids (?t\<lparr>sq_arrivals := xs\<rparr>) = deletable ?ids db" for xs
    unfolding d [symmetric] by (simp add: fun_eq_iff deletable_def head_pinned_def is_head_def pinned_def)
  show "sq_oplog db' = filter (\<lambda>r. \<not> deletable ?ids db r) (sq_oplog db)"
    "sq_arrivals db' = filter (\<lambda>a. \<not> arrival_deletable ?ids db a) (sq_arrivals db)"
    "sq_heads db' = sq_heads ?t" "deleted = length (filter (deletable ?ids db) (sq_oplog db))"
    "sq_compacted_through db' = (if deleted > 0 then max (sq_compacted_through db) (coalesce_max (map (\<lambda>(_, a). ar_seq a) (chunk_join ?ids db)))
       else sq_compacted_through db)"
    using assms unfolding delete_ops_chunk_def Let_def chunk_ids_def [symmetric] chunk_join_def [symmetric] ad d2
    by (auto split: if_splits)
qed

lemma chunk_rows_ok: "delete_ops_chunk u chunk db = (db', d, n) \<Longrightarrow> rows_ok db \<Longrightarrow> rows_ok db'"
  by (auto simp: rows_ok_def delete_ops_chunk_views(1) keyed_apart_filter)

lemma rows_at_chunk:
  "delete_ops_chunk u chunk db = (db', d, n) \<Longrightarrow>
     applied_rows s t p db' = filter (\<lambda>r. \<not> deletable (chunk_ids chunk) db r) (applied_rows s t p db)"
  by (simp add: applied_rows_def delete_ops_chunk_views(1) conj_commute)

lemma chunk_head_ok:
  assumes step: "delete_ops_chunk u chunk db = (db', d, n)" and "rows_ok db" "head_ok pc (s, t, p) db"
    and keep: "\<not> is_self_draining_bulk_table s t"
  shows "head_ok pc (s, t, p) db'"
proof -
  have h: "sq_heads db' (s, t, p) = sq_heads db (s, t, p)"
    by (simp add: delete_ops_chunk_views(3) [OF step] trim_elsewhere [OF keep])
  show ?thesis
  proof (cases "sq_heads db (s, t, p)")
    case None
    then show ?thesis using assms(3) h by (simp add: head_ok_None rows_at_chunk [OF step])
  next
    case (Some hd)
    then obtain w where w: "newest_row (applied_rows s t p db) = Some w" "head_of pc w hd" using assms(3) by (auto simp: head_ok_Some)
    then have "hr_op_id hd = or_op_id w" by (simp add: head_of_def head_key_def row_key_def)
    moreover have "or_store w = s" "or_table w = t" "or_row_pk w = p" using newest_row_Some(1) [OF w(1)] by (simp_all add: applied_rows_def)
    ultimately have "\<not> deletable (chunk_ids chunk) db w" using keep Some by (simp add: deletable_def head_pinned_def is_head_def)
    then have "newest_row (applied_rows s t p db') = Some w"
      unfolding rows_at_chunk [OF step] by (rule newest_row_without [OF rows_ok_at [OF assms(2)] w(1)])
    then show ?thesis using Some h w(2) by (simp add: head_ok_Some)
  qed
qed

lemma foldl_max_ge: "x \<in> set (y # ys) \<Longrightarrow> x \<le> foldl max y ys" for y :: int
proof (induction ys arbitrary: x y)
  case (Cons z ys)
  have "max y z \<le> foldl max (max y z) ys" using Cons.IH [of "max y z" "max y z"] by simp
  then show ?case using Cons.IH [of x "max y z"] Cons.prems by auto
qed simp

lemma coalesce_max_ge: "x \<in> set xs \<Longrightarrow> x \<le> coalesce_max xs"
  using foldl_max_ge [of x "hd xs" "tl xs"] by (cases xs) simp_all

lemma deleted_below_floor:
  assumes step: "delete_ops_chunk u chunk db = (db', d, n)"
    and "r \<in> set (sq_oplog db)" "deletable (chunk_ids chunk) db r" "a \<in> set (sq_arrivals db)" "ar_op_id a = or_op_id r"
  shows "ar_seq a \<le> sq_compacted_through db'"
proof -
  have "(r, a) \<in> set (chunk_join (chunk_ids chunk) db)" using assms(2-) by (auto simp: chunk_join_def)
  then have "ar_seq a \<le> coalesce_max (map (\<lambda>(_, a). ar_seq a) (chunk_join (chunk_ids chunk) db))"
    by (intro coalesce_max_ge) force
  moreover have "d > 0"
    unfolding delete_ops_chunk_views(4) [OF step] using assms(2,3) by (auto simp: filter_empty_conv)
  ultimately show ?thesis unfolding delete_ops_chunk_views(5) [OF step] by simp
qed

text \<open>Every arrival has its operation in the log.\<close>

definition arrivals_logged :: "oplog_db \<Rightarrow> bool" where
  "arrivals_logged db = list_all (\<lambda>a. sq_contains (OpId (ar_op_id a)) db) (sq_arrivals db)"

lemma chunk_stream_above_floor:
  assumes step: "delete_ops_chunk u chunk db = (db', d, n)" and "arrivals_logged db"
    and floor: "sq_compacted_through db' \<le> after"
  shows "arrivals_after after db' = arrivals_after after db"
proof -
  let ?ids = "chunk_ids chunk"
  have kept: "\<not> deletable ?ids db r" if "a \<in> set (sq_arrivals db)" "after < ar_seq a" "r \<in> set (sq_oplog db)" "or_op_id r = ar_op_id a" for a r
    using deleted_below_floor [OF step that(3) _ that(1)] that(2,4) floor by force
  have "\<not> arrival_deletable ?ids db a" if a: "a \<in> set (sq_arrivals db)" "after < ar_seq a" for a
  proof -
    obtain r where r: "r \<in> set (sq_oplog db)" "or_op_id r = ar_op_id a"
      using assms(2) a(1) by (auto simp: arrivals_logged_def list_all_iff sq_contains_def list_ex_iff)
    from kept [OF a r] show ?thesis using r by (auto simp: deletable_def arrival_deletable_def list_ex_iff)
  qed
  then have sel: "filter (\<lambda>a. after < ar_seq a) (sq_arrivals db') = filter (\<lambda>a. after < ar_seq a) (sq_arrivals db)"
    unfolding delete_ops_chunk_views(2) [OF step] by (auto intro!: filter_cong)
  have rows: "filter (\<lambda>r. or_op_id r = ar_op_id a) (sq_oplog db') = filter (\<lambda>r. or_op_id r = ar_op_id a) (sq_oplog db)"
    if "a \<in> set (sort_key ar_seq (filter (\<lambda>a. after < ar_seq a) (sq_arrivals db)))" for a
    unfolding delete_ops_chunk_views(1) [OF step] using kept [of a] that by (auto intro!: filter_cong)
  show ?thesis unfolding arrivals_after_def sel using rows by (intro arg_cong [of _ _ concat] map_cong) auto
qed

section \<open>Candidates\<close>

definition superseded :: "compaction_policy \<Rightarrow> oplog_db \<Rightarrow> oplog_row \<Rightarrow> bool" where
  "superseded policy db r \<longleftrightarrow>
     is_self_draining_bulk_table (or_store r) (or_table r) \<or> shadowed policy db r \<and> has_older db r \<and> \<not> is_head r db"

definition candidate_ok :: "compaction_policy \<Rightarrow> oplog_db \<Rightarrow> int \<Rightarrow> op_id \<times> int \<Rightarrow> bool" where
  "candidate_ok policy db safe_floor = (\<lambda>(i, sq).
     sq \<le> safe_floor \<and> sq < last_arrival db \<and> \<not> pinned (op_id_bytes i) db \<and>
     list_ex (\<lambda>r. or_op_id r = op_id_bytes i \<and> or_applied r \<and> superseded policy db r) (sq_oplog db) \<and>
     list_ex (\<lambda>a. ar_seq a = sq \<and> ar_op_id a = op_id_bytes i) (sq_arrivals db))"

lemma scan_row_candidates:
  assumes "list_all (candidate_ok policy db safe_floor) (ss_candidates st)"
    and "r \<in> set (sq_oplog db)" "or_applied r" "sq \<le> safe_floor" "sq < last_arrival db"
    and "\<exists>a \<in> set (sq_arrivals db). ar_seq a = sq \<and> ar_op_id a = or_op_id r"
  shows "list_all (candidate_ok policy db safe_floor) (ss_candidates (fst (scan_row policy db late sq r st)))"
proof -
  have "candidate_ok policy db safe_floor (OpId (or_op_id r), sq)" if "superseded policy db r" "\<not> pinned (or_op_id r) db"
    using that assms(2-) by (auto simp: candidate_ok_def list_ex_iff)
  then show ?thesis using assms(1) unfolding superseded_def by (simp add: scan_row_def Let_def)
qed

lemma scan_rows_candidates:
  assumes "list_all (candidate_ok policy db safe_floor) (ss_candidates st)"
    and "\<And>sq r. (sq, r) \<in> set rows \<Longrightarrow> r \<in> set (sq_oplog db) \<and> or_applied r \<and> sq \<le> safe_floor \<and> sq < last_arrival db \<and>
      (\<exists>a \<in> set (sq_arrivals db). ar_seq a = sq \<and> ar_op_id a = or_op_id r)"
  shows "list_all (candidate_ok policy db safe_floor) (ss_candidates (fst (scan_rows policy db late rows st)))"
  using assms
proof (induction rows arbitrary: st)
  case (Cons row rows)
  obtain sq r where row: "row = (sq, r)" by fastforce
  obtain st' stop where st': "scan_row policy db late sq r st = (st', stop)" by fastforce
  have "list_all (candidate_ok policy db safe_floor) (ss_candidates st')"
    using scan_row_candidates [OF Cons.prems(1), of r sq late] Cons.prems(2) [of sq r] st' by (simp add: row)
  then show ?case using Cons.IH [of st'] Cons.prems(2) st' by (cases stop) (auto simp: row)
qed simp

lemma scan_loop_candidates:
  "list_all (candidate_ok policy db safe_floor) (ss_candidates st) \<Longrightarrow>
     list_all (candidate_ok policy db safe_floor) (ss_candidates (fst (scan_loop policy db late safe_floor (last_arrival db) scan_cap st)))"
proof (induction policy db late safe_floor "last_arrival db" scan_cap st rule: scan_loop.induct)
  case (1 policy db late safe_floor scan_cap st)
  let ?st = "st\<lparr>ss_reads := ss_reads st + 1\<rparr>" and ?page = "scan_page db (ss_after st) safe_floor (last_arrival db)"
  obtain st' stop where st': "scan_rows policy db late ?page ?st = (st', stop)" by fastforce
  have ok: "list_all (candidate_ok policy db safe_floor) (ss_candidates st')"
    using scan_rows_candidates [of policy db safe_floor ?st ?page late] 1(2) st' scan_page_in [of _ _ db "ss_after st" safe_floor "last_arrival db"] by simp
  show ?case
  proof (cases "length (ss_candidates st) < cp_max_deletes policy \<and> ss_scanned st < scan_cap \<and> \<not> late (ss_reads st) \<and> ?page \<noteq> [] \<and> \<not> stop")
    case True
    then show ?thesis using 1(1) ok st' by (subst scan_loop.simps) (simp add: Let_def, blast)
  next
    case False
    then show ?thesis using 1(2) ok st' by (subst scan_loop.simps) (auto simp: Let_def split: bool.splits)
  qed
qed

end
