(* ===== verification/SqliteProps.thy ===== *)
theory SqliteProps
  imports SqliteRefine SqliteCompact PullPeer
begin

text \<open>
  The properties of the SQLite backend: last-writer-wins reads that converge and stay exact under demotion, partition
  moves and compaction, pages equal to those of the in-memory log, compaction that hides nothing above its floor,
  and the year in which the signed clock column wraps.
\<close>

section \<open>Histories of the tables\<close>

inductive sq_reach :: "codec \<Rightarrow> (bytes \<Rightarrow> bool) \<Rightarrow> oplog_db \<Rightarrow> bool" for pc u where
  start: "sq_oplog db = [] \<Longrightarrow> sq_heads db = (\<lambda>_. None) \<Longrightarrow> sq_reach pc u db"
| appended: "sq_reach pc u db \<Longrightarrow> op_wf sop \<Longrightarrow> sq_reach pc u (fst (sq_append pc sq now sop t p i db))"
| demoted: "sq_reach pc u db \<Longrightarrow> sq_reach pc u (demote_head pc i (mark_unapplied i db))"
| moved: "sq_reach pc u db \<Longrightarrow> sq_reach pc u (rebuild_head pc s t q (rebuild_head pc s t p (move_rows s t p q db)))"
| compacted: "sq_reach pc u db \<Longrightarrow> sq_reach pc u (fst (delete_ops_chunk u chunk db))"

lemma rows_at_moved:
  assumes "k \<noteq> (s, t, p)" "k \<noteq> (s, t, q)"
  shows "rows_at k (move_rows s t p q db) = rows_at k db"
proof -
  have "filter (\<lambda>r. or_store r = fst k \<and> or_table r = fst (snd k) \<and> or_row_pk r = snd (snd k) \<and> or_applied r)
      (map (\<lambda>r. if or_store r = s \<and> or_table r = t \<and> or_row_pk r = p then r\<lparr>or_row_pk := q\<rparr> else r) rows) =
    filter (\<lambda>r. or_store r = fst k \<and> or_table r = fst (snd k) \<and> or_row_pk r = snd (snd k) \<and> or_applied r) rows" for rows
    using assms by (induction rows) (auto simp: prod_eq_iff)
  then show ?thesis by (simp add: applied_rows_def move_rows_def)
qed

lemma move_head_ok:
  assumes "head_ok pc k db"
  shows "head_ok pc k (rebuild_head pc s t q (rebuild_head pc s t p (move_rows s t p q db)))"
proof (cases "k = (s, t, q)")
  case True
  then show ?thesis by (simp add: rebuild_head_ok)
next
  case q: False
  show ?thesis
  proof (cases "k = (s, t, p)")
    case True
    then show ?thesis using q by (simp add: rebuild_head_other rebuild_head_ok)
  next
    case False
    then have "head_ok pc k (move_rows s t p q db) = head_ok pc k db"
      by (intro head_ok_cong rows_at_moved q) (simp_all add: move_rows_def)
    then show ?thesis using assms q False by (simp add: rebuild_head_other)
  qed
qed

lemma sq_reach_ok:
  assumes "sq_reach pc u db" "codec_laws pc" "\<not> is_self_draining_bulk_table s t"
  shows "rows_ok db \<and> head_ok pc (s, t, p) db"
  using assms(1)
proof (induction rule: sq_reach.induct)
  case (start db)
  then show ?case by (simp add: rows_ok_def keyed_apart_def head_ok_def applied_rows_def)
next
  case (appended db sop sq now t' p' i)
  then show ?case using sq_append_rows_ok sq_append_head_ok assms(2) by blast
next
  case (demoted db i)
  moreover have "rows_ok (demote_head pc i (mark_unapplied i db))" using demoted(2) mark_unapplied_ok [of i db] by (simp add: rows_ok_def)
  ultimately show ?case using demote_head_ok by blast
next
  case (moved db s' t' q p')
  then have "rows_ok (rebuild_head pc s' t' q (rebuild_head pc s' t' p' (move_rows s' t' p' q db)))"
    using move_rows_ok [of s' t' p' q db] by (simp add: rows_ok_def)
  then show ?case using moved move_head_ok by blast
next
  case (compacted db chunk)
  obtain db' d n where step: "delete_ops_chunk u chunk db = (db', d, n)" by (metis prod_cases3)
  show ?case using chunk_rows_ok [OF step] chunk_head_ok [OF step _ _ assms(3)] compacted by (simp add: step)
qed

section \<open>Last writer wins\<close>

text \<open>
  C10: Two SQLite op-logs that start empty and receive the same operations, in any order, any number of times and with
  any sequence numbers, answer \<open>newest_op_in_store\<close> alike: with the key and payload of the operation on that row
  with the greatest order key, the excluded one left out. Clock values are below \<open>2 ^ 63\<close>.
\<close>

theorem sqlite_lww_converges:
  assumes "codec_laws pc" "list_all (\<lambda>a. op_wf (arrived_op a) \<and> clock_fits (arrived_op a)) as"
    and "list_all (\<lambda>a. op_wf (arrived_op a)) bs" "arrived_op ` set as = arrived_op ` set bs" "inj_on op_id (arrived_op ` set as)"
    and "sq_oplog db = []" "sq_heads db = (\<lambda>_. None)" "sq_oplog db' = []" "sq_heads db' = (\<lambda>_. None)"
  shows "newest_op_in_store pc s t p x (sq_append_all pc proj as db) = Inr (lww_winner (row_ops proj s t p x (map arrived_op as))) \<and>
    newest_op_in_store pc s t p x (sq_append_all pc proj bs db') = newest_op_in_store pc s t p x (sq_append_all pc proj as db)"
proof -
  let ?ops = "map arrived_op as"
  have set: "set ?ops = arrived_op ` set as" "set ?ops = arrived_op ` set bs" using assms(4) by simp_all
  have "log_holds pc proj ({} \<union> arrived_op ` set as) (sq_append_all pc proj as db)"
    using assms(2) by (intro log_holds_append_all assms(1) log_holds_empty assms(6,7)) (auto simp: list_all_iff)
  moreover have "log_holds pc proj ({} \<union> arrived_op ` set bs) (sq_append_all pc proj bs db')"
    by (intro log_holds_append_all assms(1,3) log_holds_empty assms(8,9))
  moreover have "list_all clock_fits ?ops" using assms(2) by (auto simp: list_all_iff)
  ultimately show ?thesis
    using newest_op_winner [of pc proj ?ops _ s t p x] assms(4,5) by (simp add: set)
qed


section \<open>The same pages\<close>

text \<open>
  C11: A SQLite log and an in-memory log that took in the same operations serve the same pull page for every request
  whose claims, resume token and positions are in the range of a signed column, and both do answer.
\<close>

theorem sqlite_serves_same_page:
  assumes "codec_laws pc" "list_all (\<lambda>sop. op_wf sop \<and> clock_fits sop) sops" "length sops < 2 ^ 63"
    and "empty_tables (relay_epoch (log_new random)) db" "length random = 32"
    and "pn_log node = log_of random sops" "request_fits request" "decode_epoch (pq_relay_epoch request) = Some e"
  shows "\<exists>page. build_pull_page j (sqlite_socket pc identity unix) (sq_ingest pc proj now i sops db) peer request = Inr page \<and>
    build_pull_page j (oplog_socket c pc ck impl identity) node peer request = Inr page"
proof -
  have "mirrors pc proj (append_each sops (log_new random)) (sq_ingest pc proj now i sops db)"
    using assms(3) by (intro sq_ingest_mirrors assms(1,2) empty_mirrors assms(4,5)) (simp add: arrivals_def log_new_def)
  then have m: "mirrors pc proj (pn_log node) (sq_ingest pc proj now i sops db)" using assms(6) by (simp add: append_each_def log_of_def)
  then have "log_ok (pn_log node)" by (simp add: mirrors_def)
  then show ?thesis
    by (intro build_pull_page_same [OF sqlite_reads_as [OF m] memory_reads_as [OF assms(1)] _ assms(7,8)]) (auto simp: origin_page_def)
qed

section \<open>Compaction\<close>

text \<open>
  C21: Deleting a chunk hides nothing above the floor it leaves: from any position at or above the new
  \<open>compacted_through_seq\<close>, the relay stream reads the same entries, or fails the same way, as before the delete.
\<close>

theorem compaction_hides_nothing_above_floor:
  assumes "arrivals_logged db" "delete_ops_chunk u chunk db = (db', deleted, reclaimed)" "sq_compacted_through db' \<le> int after"
  shows "sq_relay_since_with_envelopes pc db' after limit = sq_relay_since_with_envelopes pc db after limit"
  using chunk_stream_above_floor [OF assms(2,1,3)] by (simp add: sq_relay_since_with_envelopes_def i64_try_from_def)

text \<open>
  C31: The binary search for the horizon floor ends and returns 0 or the sequence number of an arrival at or before the
  cutoff; where arrival times follow the sequence, no arrival at or before the cutoff lies above it.
\<close>

theorem horizon_floor_exact:
  "(horizon_relay_floor db cutoff = 0 \<or> old_arrival (sq_arrivals db) cutoff (horizon_relay_floor db cutoff)) \<and>
   (times_follow (sq_arrivals db) \<longrightarrow> (\<forall>a \<in> set (sq_arrivals db). ar_arrived_at a \<le> cutoff \<longrightarrow> ar_seq a \<le> horizon_relay_floor db cutoff))"
  using horizon_relay_floor_old horizon_relay_floor_covers by blast


section \<open>The signed clock column\<close>

lemma high_clock:
  assumes "\<not> clock_fits b" "body_hlc (op_body b) \<noteq> - 1"
  shows "hlc_as_i64 (body_hlc (op_body b)) < - 1"
proof -
  have "hlc_as_i64 (body_hlc (op_body b)) < 0" using assms(1) by (intro hlc_as_i64_high) (simp add: clock_fits_def)
  moreover have "hlc_as_i64 (body_hlc (op_body b)) \<noteq> - 1"
  proof
    assume "hlc_as_i64 (body_hlc (op_body b)) = - 1"
    then have "word_of_int (hlc_as_i64 (body_hlc (op_body b))) = (- 1 :: hlc)" by simp
    then show False using assms(2) by simp
  qed
  ultimately show ?thesis by linarith
qed

lemma wrapped_key_less: "clock_fits a \<Longrightarrow> \<not> clock_fits b \<Longrightarrow> op_key b < op_key a \<and> order_key a < order_key b"
proof -
  assume a: "clock_fits a" and b: "\<not> clock_fits b"
  have "hlc_as_i64 (body_hlc (op_body b)) < 0" using b by (intro hlc_as_i64_high) (simp add: clock_fits_def)
  moreover have "0 \<le> fst (op_key a)" by (simp add: op_key_fits [OF a])
  ultimately have "fst (op_key b) < fst (op_key a)" by (simp add: op_key_def)
  then have "op_key b < op_key a" by (cases "op_key a"; cases "op_key b") simp
  moreover have "uint (body_hlc (op_body a)) < uint (body_hlc (op_body b))" using a b by (simp add: clock_fits_def)
  ultimately show ?thesis by (simp add: order_key_def less_order_key_def word_less_def)
qed

lemma origin_since_start:
  assumes "ORIGIN_INDEX_NAME \<in> sq_indexes db"
  shows "\<exists>rows. sq_origin_since db d None None n = Inr rows \<and>
    (\<forall>k \<in> fst ` set rows. \<exists>r \<in> set (sq_oplog db). (- 1, []) < (or_hlc r, or_op_id r) \<and> OpId (or_op_id r) = key_op_id k)"
proof -
  let ?R = "sort_key row_key (filter (\<lambda>r. or_device r = as_bytes d \<and> (- 1, []) < (or_hlc r, or_op_id r)) (sq_oplog db))"
  have "set (filter P (sql_limit m ?R)) \<subseteq> set ?R" for P m by (auto simp: sql_limit_def dest: in_set_takeD split: if_splits)
  then have "\<exists>r \<in> set (sq_oplog db). (- 1, []) < (or_hlc r, or_op_id r) \<and> OpId (or_op_id r) = key_op_id k"
    if "k \<in> fst ` set (map (\<lambda>r. (OrderKey (word_of_int (or_hlc r)) d (OpId (or_op_id r)), or_envelope r)) (filter P (sql_limit m ?R)))" for k P m
    using that by fastforce
  then show ?thesis using assms unfolding sq_origin_since_def by (simp only: Let_def option.case prod.case simp_thms if_False not_not sum.inject ex_simps) blast
qed

lemma ingest_two_holds:
  assumes "codec_laws pc" "op_wf a" "op_wf b" "empty_tables e db"
  shows "log_holds pc proj {a, b} (sq_ingest pc proj now i [a, b] db)"
proof -
  have "log_holds pc proj {} db" using assms(4) by (intro log_holds_empty) (simp_all add: empty_tables_def)
  from log_holds_append [OF assms(1,3) log_holds_append [OF assms(1,2) this]] show ?thesis by (simp add: insert_commute)
qed

text \<open>
  C32: An HLC reading keeps its seconds in the upper 32 bits, so from 2038 on it is at least \<open>2 ^ 63\<close> and the signed
  column holds a negative number. An operation \<open>b\<close> with such a reading is newer than \<open>a\<close> by order key, yet the
  head of their row stays at \<open>a\<close>, and a pull of the device of \<open>b\<close> from the beginning does not return \<open>b\<close>.
\<close>

theorem sqlite_clock_wraps:
  assumes "codec_laws pc" "op_wf a" "op_wf b" "clock_fits a" "\<not> clock_fits b" "body_hlc (op_body b) \<noteq> - 1"
    and "body_store (op_body a) = s" "op_id a \<noteq> op_id b" "op_id a \<noteq> x" "empty_tables e db"
    and db2: "db2 = sq_ingest pc (\<lambda>_. (t, p)) now i [a, b] db"
  shows "order_key a < order_key b \<and> newest_op_in_store pc s t p x db2 = Inr (Some (order_key a, body_payload (op_body a))) \<and>
    (\<exists>rows. sq_origin_since db2 (body_device (op_body b)) None None n = Inr rows \<and> order_key b \<notin> fst ` set rows)"
proof -
  let ?proj = "\<lambda>_ :: signed_op. (t, p)"
  have holds: "log_holds pc ?proj {a, b} db2" unfolding db2 by (rule ingest_two_holds [OF assms(1,2,3,10)])
  have inj: "inj_on op_id {a, b}" using assms(8) by auto
  have keys: "op_key b < op_key a" "order_key a < order_key b" using wrapped_key_less [OF assms(4,5)] by simp_all
  have ok: "rows_ok db2" "head_ok pc (s, t, p) db2" using holds by (simp_all add: log_holds_def)
  have row: "row_of pc ?proj a r \<or> row_of pc ?proj b r" if "r \<in> set (sq_oplog db2)" for r using holds that by (auto simp: log_holds_def)
  obtain ra where ra: "ra \<in> set (sq_oplog db2)" "row_of pc ?proj a ra" using log_holds_row [OF holds inj, of a] by blast
  let ?f = "filter (\<lambda>r. or_op_id r \<noteq> op_id_bytes x) (applied_rows s t p db2)"
  have "newest_row ?f = Some ra"
  proof (rule newest_row_eq [OF keyed_apart_filter [OF rows_ok_at [OF ok(1)]]])
    show "ra \<in> set ?f" using ra row_of_fields [OF ra(2)] assms(7,9) by (auto simp: applied_rows_def intro: op_id.expand)
    show "row_key r \<le> row_key ra" if "r \<in> set ?f" for r
      using row [of r] that row_of_fields(6) [of pc ?proj _ r] row_of_fields(6) [OF ra(2)] keys(1) by (auto simp: applied_rows_def)
  qed
  then have newest: "newest_op_in_store pc s t p x db2 = Inr (Some (order_key a, body_payload (op_body a)))"
    using newest_op_exact [OF ok] row_of_fields(7,8) [OF ra(2)] by simp
  have idx: "ORIGIN_INDEX_NAME \<in> sq_indexes db2"
    using assms(10) by (simp add: db2 sq_append_frame empty_tables_def origin_index_exists_def)
  from origin_since_start [OF idx, of "body_device (op_body b)" n] obtain rows where
    rows: "sq_origin_since db2 (body_device (op_body b)) None None n = Inr rows"
      "\<forall>k \<in> fst ` set rows. \<exists>r \<in> set (sq_oplog db2). (- 1, []) < (or_hlc r, or_op_id r) \<and> OpId (or_op_id r) = key_op_id k"
    by (elim exE conjE)
  have "order_key b \<notin> fst ` set rows"
  proof
    assume "order_key b \<in> fst ` set rows"
    from bspec [OF rows(2) this] obtain r where
      r: "r \<in> set (sq_oplog db2)" "(- 1, []) < (or_hlc r, or_op_id r)" "OpId (or_op_id r) = op_id b" by (auto simp: order_key_def)
    have "\<not> row_of pc ?proj a r"
    proof
      assume "row_of pc ?proj a r"
      from row_of_fields(5) [OF this] show False using r(3) assms(8) by simp
    qed
    then have "row_of pc ?proj b r" using row [OF r(1)] by blast
    from row_of_device [OF this] have "or_hlc r < - 1" using high_clock [OF assms(5,6)] by simp
    then show False using r(2) by simp
  qed
  with rows(1) have "\<exists>rows. sq_origin_since db2 (body_device (op_body b)) None None n = Inr rows \<and> order_key b \<notin> fst ` set rows" by blast
  then show ?thesis using keys(2) newest by blast
qed

section \<open>Examples\<close>

definition demo_tables :: oplog_db where
  "demo_tables =
     \<lparr>sq_oplog = [], sq_arrivals = [], sq_heads = (\<lambda>_. None), sq_stream_epoch = replicate 32 1, sq_compacted_through = 0,
      sq_relay_cursors = (\<lambda>_. None), sq_cursors = (\<lambda>_. None), sq_coverage = [], sq_acks = (\<lambda>_. None), sq_config = (\<lambda>_. None),
      sq_indexes = {ORIGIN_INDEX_NAME}, sq_devices = [], sq_vouches = [], sq_retirements = [], sq_pending_edges = [],
      sq_callback_fires = [], sq_projection_queue = [], sq_replay_queue = [], sq_verified_ops = []\<rparr>"

definition demo_sq_op :: "hlc \<Rightarrow> byte \<Rightarrow> signed_op" where
  "demo_sq_op h n = plain_op h (replicate 32 1) (replicate 32 n) ''kv'' [n]"

lemma demo_sq_wf: "op_wf (demo_sq_op h n)"
  by (simp add: demo_sq_op_def plain_op_def op_wf_def ENVELOPE_VERSION_def device_wf_def StoreId_new_def is_ascii_def MAX_STORE_ID_LEN_def)

lemma demo_sq_fields:
  "op_id (demo_sq_op h n) = OpId (replicate 32 n)" "body_hlc (op_body (demo_sq_op h n)) = h"
  "body_store (op_body (demo_sq_op h n)) = ''kv''" "body_payload (op_body (demo_sq_op h n)) = [n]"
  "body_device (op_body (demo_sq_op h n)) = DeviceId (replicate 32 1)"
  by (simp_all add: demo_sq_op_def plain_op_def)

lemma demo_sq_clock: "clock_fits (demo_sq_op 5 n)" "clock_fits (demo_sq_op 6 n)" "\<not> clock_fits (demo_sq_op (2 ^ 63) n)"
  by (simp_all add: clock_fits_def demo_sq_fields)

lemma demo_tables_empty: "empty_tables (relay_epoch (log_new (replicate 32 1))) demo_tables"
  by (simp add: empty_tables_def demo_tables_def origin_index_exists_def log_new_def)

theorem sqlite_lww_converges_witness:
  "let a = demo_sq_op 5 2; b = demo_sq_op 6 3; proj = (\<lambda>_. (''t'', ''r''));
       db = sq_append_all demo_codec proj [(1, 0, a, 1), (2, 0, b, 0)] demo_tables;
       db' = sq_append_all demo_codec proj [(1, 0, b, 0), (2, 0, a, 0), (3, 0, b, 0)] demo_tables in
   newest_op_in_store demo_codec ''kv'' ''t'' ''r'' (OpId []) db = Inr (Some (order_key b, [3])) \<and>
   newest_op_in_store demo_codec ''kv'' ''t'' ''r'' (OpId []) db' = Inr (Some (order_key b, [3]))"
proof -
  let ?a = "demo_sq_op 5 2" and ?b = "demo_sq_op 6 3" and ?proj = "\<lambda>_ :: signed_op. (''t'', ''r'')"
  have ids: "op_id ?a \<noteq> op_id ?b" by (simp add: demo_sq_fields)
  then have ops: "row_ops ?proj ''kv'' ''t'' ''r'' (OpId []) [?a, ?b] = [?a, ?b]" by (simp add: row_ops_def demo_sq_fields)
  have "order_key ?a < order_key ?b" by (simp add: order_key_def demo_sq_fields less_order_key_def)
  then have "lww_winner [?a, ?b] = Some (order_key ?b, body_payload (op_body ?b))" using ids by (intro lww_winner_max) auto
  then have win: "lww_winner (row_ops ?proj ''kv'' ''t'' ''r'' (OpId []) [?a, ?b]) = Some (order_key ?b, [3])"
    by (simp add: ops demo_sq_fields)
  have "newest_op_in_store demo_codec ''kv'' ''t'' ''r'' (OpId []) (sq_append_all demo_codec ?proj [(1, 0, ?a, 1), (2, 0, ?b, 0)] demo_tables) =
        Inr (lww_winner (row_ops ?proj ''kv'' ''t'' ''r'' (OpId []) (map arrived_op [(1, 0, ?a, 1), (2, 0, ?b, 0)]))) \<and>
      newest_op_in_store demo_codec ''kv'' ''t'' ''r'' (OpId []) (sq_append_all demo_codec ?proj [(1, 0, ?b, 0), (2, 0, ?a, 0), (3, 0, ?b, 0)] demo_tables) =
        newest_op_in_store demo_codec ''kv'' ''t'' ''r'' (OpId []) (sq_append_all demo_codec ?proj [(1, 0, ?a, 1), (2, 0, ?b, 0)] demo_tables)"
    using ids by (intro sqlite_lww_converges demo_codec_laws) (auto simp: arrived_op_def demo_sq_wf demo_sq_clock demo_tables_def)
  then show ?thesis using win by (simp add: Let_def arrived_op_def)
qed


theorem sqlite_clock_wraps_witness:
  "let a = demo_sq_op 5 2; b = demo_sq_op (2 ^ 63) 3; db = sq_ingest demo_codec (\<lambda>_. (''t'', ''r'')) 0 1 [a, b] demo_tables in
   order_key a < order_key b \<and> newest_op_in_store demo_codec ''kv'' ''t'' ''r'' (OpId []) db = Inr (Some (order_key a, [2])) \<and>
   (\<exists>rows. sq_origin_since db (DeviceId (replicate 32 1)) None None 10 = Inr rows \<and> order_key b \<notin> fst ` set rows)"
  using sqlite_clock_wraps [of demo_codec "demo_sq_op 5 2" "demo_sq_op (2 ^ 63) 3" "''kv''" "OpId []" _ demo_tables _ "''t''" "''r''" 0 1 10,
      OF demo_codec_laws demo_sq_wf demo_sq_wf demo_sq_clock(1,3) _ demo_sq_fields(3) _ _ demo_tables_empty refl]
  by (simp add: demo_sq_fields Let_def)

theorem sqlite_serves_same_page_witness:
  "\<exists>page. build_pull_page demo_pull_codec (sqlite_socket demo_codec (from_signing demo_crypto 5) 1000)
       (sq_ingest demo_codec (\<lambda>_. (''t'', ''r'')) 0 1 [demo_sq_op 5 2, demo_sq_op 6 3] demo_tables) (DeviceId []) demo_request = Inr page \<and>
     build_pull_page demo_pull_codec (oplog_socket demo_crypto demo_codec demo_clock (kv_impl demo_kv_codec) (from_signing demo_crypto 5))
       (demo_pull_node\<lparr>pn_log := log_of (replicate 32 1) [demo_sq_op 5 2, demo_sq_op 6 3]\<rparr>) (DeviceId []) demo_request = Inr page"
proof (rule sqlite_serves_same_page [OF demo_codec_laws _ _ demo_tables_empty])
  show "request_fits demo_request"
    by (simp add: request_fits_def claims_fit_def demo_request_def decode_coverage_def from_wire_map_def bt_collect_def List.map_filter_def)
  show "decode_epoch (pq_relay_epoch demo_request) = Some zero_epoch"
    by (simp add: demo_request_def decode_epoch_def zero_epoch_def)
qed (simp_all add: demo_sq_wf demo_sq_clock)

definition demo_full_tables :: oplog_db where
  "demo_full_tables = demo_tables\<lparr>
     sq_oplog := [appended_row [] (demo_sq_op 5 2) ''t'' ''r'' 0, appended_row [] (demo_sq_op 6 3) ''t'' ''r'' 0],
     sq_arrivals := [\<lparr>ar_seq = 1, ar_op_id = replicate 32 2, ar_arrived_at = 10\<rparr>, \<lparr>ar_seq = 2, ar_op_id = replicate 32 3, ar_arrived_at = 20\<rparr>]\<rparr>"

theorem compaction_hides_nothing_above_floor_witness:
  "case delete_ops_chunk (\<lambda>_. False) [(OpId (replicate 32 2), 1)] demo_full_tables of (db', deleted, _) \<Rightarrow>
     deleted = 1 \<and> sq_compacted_through db' = 1 \<and>
     sq_relay_since_with_envelopes demo_codec db' 1 10 = sq_relay_since_with_envelopes demo_codec demo_full_tables 1 10"
proof -
  obtain db' deleted reclaimed where step: "delete_ops_chunk (\<lambda>_. False) [(OpId (replicate 32 2), 1)] demo_full_tables = (db', deleted, reclaimed)"
    by (metis prod_cases3)
  note v = delete_ops_chunk_views(4,5) [OF step]
  have d: "filter (deletable (chunk_ids [(OpId (replicate 32 2), 1)]) demo_full_tables) (sq_oplog demo_full_tables) =
      [appended_row [] (demo_sq_op 5 2) ''t'' ''r'' 0]"
    by (simp add: demo_full_tables_def demo_tables_def deletable_def chunk_ids_def pinned_def head_pinned_def is_head_def appended_row_def demo_sq_fields)
  have "deleted = 1" using v(1) d by simp
  moreover have "sq_compacted_through db' = 1"
    unfolding v(2) chunk_join_def d calculation
    by (simp add: demo_full_tables_def demo_tables_def appended_row_def demo_sq_fields)
  moreover have "arrivals_logged demo_full_tables"
    by (simp add: arrivals_logged_def demo_full_tables_def demo_tables_def sq_contains_def appended_row_def demo_sq_fields)
  ultimately show ?thesis
    using compaction_hides_nothing_above_floor [OF _ step, of 1 demo_codec 10] by (simp add: step)
qed

theorem horizon_floor_exact_witness:
  "times_follow (sq_arrivals demo_full_tables) \<and> horizon_relay_floor demo_full_tables 15 = 1"
proof -
  have f: "times_follow (sq_arrivals demo_full_tables)" by (simp add: times_follow_def demo_full_tables_def)
  have "old_arrival (sq_arrivals demo_full_tables) 15 sq \<longleftrightarrow> sq = 1" for sq
    by (auto simp: old_arrival_def demo_full_tables_def)
  moreover have "\<lparr>ar_seq = 1, ar_op_id = replicate 32 2, ar_arrived_at = 10\<rparr> \<in> set (sq_arrivals demo_full_tables)"
    by (simp add: demo_full_tables_def)
  ultimately show ?thesis using horizon_floor_exact [of demo_full_tables 15] f by fastforce
qed

end
