(* ===== verification/Spec2Isabelle.thy ===== *)
theory Spec2Isabelle
  imports PullAudit OAuthProps SqliteProps
begin

text \<open>
  Verification of proxy-node-server, the mesh and sync layer of the Proxy network.

  \<^bold>\<open>The program.\<close> Devices sign operations with P-256 keys, order them by a hybrid logical clock, append them to
  an op-log and replay the log into stores. Nodes exchange ops over HTTP: a v1 feed in key order, a relay
  stream with signed pages (v2), and pull v3, whose pages have a channel keyed by origin and a positional
  backfill channel. An authorization server lets clients in at the address of a person.

  \<^bold>\<open>Theories and sources.\<close> Paths are below \<open>src/src\<close>.
  \<^item> \<open>Prelude\<close>: bytes, Rust's \<open>Result\<close> as a sum with the error on the left, a \<open>BTreeMap\<close> as a strictly sorted
    association list. \<open>RustStr\<close>: the string methods in use, on ASCII strings.
  \<^item> \<open>Identity\<close> (\<open>identity.rs\<close>): device ids, hex, signing identities. p256 and sha2 are the parameter
    \<open>crypto\<close> with \<open>sha_laws\<close>, \<open>sec1_laws\<close> and \<open>ecdsa_laws\<close>.
  \<^item> \<open>Envelope\<close> (\<open>op.rs\<close>): order keys, sealing, verifying and the byte form of an op; postcard is the parameter
    \<open>codec\<close> with \<open>codec_laws\<close>.
  \<^item> \<open>Stores\<close> (\<open>store.rs\<close>, \<open>kv.rs\<close>): the trait \<open>Store\<close> as a record of methods with the locale \<open>store_contract\<close>,
    and the key/value store that meets it.
  \<^item> \<open>OpLog\<close> (\<open>log.rs\<close>): the log, replay and range replay, and the trait \<open>LogSource\<close> with its default methods; the
    locale \<open>log_reader\<close> is what a reader of a log relies on.
  \<^item> \<open>Registry\<close> (\<open>registry.rs\<close>): the key registry and the trait \<open>DeviceBook\<close> with the locale \<open>book_contract\<close>.
  \<^item> \<open>Durable\<close> (\<open>durable.rs\<close>): the durability file, its writer with rollback and poisoning, and recovery. The
    outcome of each file operation is a parameter of the step.
  \<^item> \<open>RelayWire\<close>, \<open>RelayServer\<close> (\<open>net/mod.rs\<close>, \<open>net/relay.rs\<close>, \<open>net/server.rs\<close>, \<open>net/client.rs\<close>): relay requests and
    their replay cache, signed pages, the routes and the client that checks the answers.
  \<^item> \<open>Sync\<close> (\<open>net/sync.rs\<close>, \<open>hlc.rs\<close>): key gossip and the sync rounds of a node.
  \<^item> \<open>PullWire\<close>, \<open>PullSocket\<close>, \<open>PullServer\<close> (\<open>pull.rs\<close>, \<open>net/socket.rs\<close>, \<open>net/pull_server.rs\<close>): the envelopes of pull v3,
    the trait \<open>MeshPullSocket\<close> as a record of methods with the locale \<open>pull_source\<close>, and the page builder.
  \<^item> \<open>PullClient\<close>, \<open>PullDrain\<close>, \<open>PullPeer\<close>, \<open>PullSweep\<close>, \<open>PullAudit\<close> (\<open>net/pull_client.rs\<close>): applying pages, the drain,
    previews and store sweeps over any socket that keeps the locale \<open>pull_sink\<close>, and the drain against a server
    of the model.
  \<^item> \<open>OAuth\<close>, \<open>OAuthStore\<close>, \<open>OAuthServer\<close> (\<open>oauth/mod.rs\<close>, \<open>oauth/store.rs\<close>, \<open>oauth/server.rs\<close>): scopes, redirect
    URIs, PKCE, the rate limiter; the store with the locale \<open>oauth_store_contract\<close>; the server. \<open>OAuthEffects\<close>,
    \<open>OAuthTrace\<close> and \<open>OAuthProps\<close> hold its effects on the store, its histories and their guarantees. Digest,
    encodings and random bytes are the parameter \<open>oauth_lib\<close>, without laws.
  \<^item> \<open>SqliteLog\<close> (\<open>sqlite/oplog.rs\<close>, \<open>oplog_heads.rs\<close>, \<open>oplog_queries.rs\<close>, \<open>log_source.rs\<close>): the tables of the SQLite
    op-log as one record, and what each function's statements do to them. \<open>SqliteHeads\<close>: the materialized heads as the
    newest applied row. \<open>SqliteCoverage\<close> (\<open>coverage.rs\<close>, \<open>device_book.rs\<close>, \<open>pull_socket.rs\<close>): claims, acknowledgments,
    devices, and the pull socket over the tables. \<open>SqliteRefine\<close>: the relation \<open>mirrors\<close> between the tables and the
    in-memory log. \<open>SqliteRetention\<close> (\<open>retention.rs\<close>) and \<open>SqliteCompact\<close>: floors, candidates, chunk deletes and what
    they keep. \<open>SqliteProps\<close>: the guarantees. Table columns are those the statements name; the schema is the
    host's, so sequence numbers, times and random bytes are arguments.

  \<^bold>\<open>What is shown.\<close>
  \<^item> Replication: logs with the same ops replay to the same store state whatever the order of arrival; a sync
    cursor never passes an op that is not held; relay rounds and pull drains end with every op of the server held;
    a page leaves no gap below a claim; both channels together are complete.
  \<^item> Authenticity: relay requests, pull requests and pages are accepted only with a signature of the key that
    derives the device id, over exactly the fields asked for, within their time window, and no nonce twice.
  \<^item> Durability: after a crash at any byte the recovered log holds the acknowledged prefix; a failed rollback
    poisons the writer for good.
  \<^item> Authorization: a granted token goes back to a registered client, an ask, an approval in time and the PKCE
    verifier; codes are good once; a bearer is admitted only while its token is granted, unexpired and unrevoked;
    browsers are sent only to registered URIs.
  \<^item> SQLite: the head of a row is its newest applied operation under appends, demotions, alias merges and
    compaction; the tables serve the pages the in-memory log serves; compaction hides nothing above its floor.
    Convergence and equal pages are stated for clock values below \<open>2 ^ 63\<close>.
  \<^item> Divergences: six behaviours that differ from the documentation or the intent are proved as they are.

  \<^bold>\<open>Bounds and loops.\<close> Loops over data are recursive functions with termination proofs, the compaction scan and the horizon search among them. The drain and the sweep of
  the pull client are \<open>partial_function\<close>s whose \<open>None\<close> is a run that does not end; that they do end is proved
  where it holds. HLC values are 64-bit words; lengths, sequence numbers and seconds are natural numbers, with
  \<open>saturating_sub\<close> as subtraction. The limits of the code (8192 entries in a page, 4096 nonces and limiter windows,
  retry limits) are its own constants.

  \<^bold>\<open>Not modelled.\<close> The SQLite queues of edges and callbacks, quarantine and row writes, which serve tables of the
  host application; failing statements and locks of the database; process management, discovery,
  HTTP plumbing and page rendering, which are input and output; the JSON wire types of the tool protocol, which
  carry data of other programs; benchmarks, examples and tests. Locks are taken as uncontended and never
  poisoned, and each operation runs to its end before the next.
\<close>

end
